(* ===== verification/Prelude.thy ===== *)
theory Prelude
  imports Main "HOL-Library.Word"
begin

text \<open>
  Shared vocabulary of the development: the types the components use for the C++ data
  (strings and buffers as lists of \<^typ>\<open>char\<close>, fixed-width integers as \<^typ>\<open>int\<close> or
  \<^typ>\<open>nat\<close> with the wrap-around written out), the pieces of the C and C++ standard
  library the sources call (\<open>std::string\<close> searches and \<open>substr\<close>, \<open>boost::split\<close>,
  decimal and hexadecimal printing, \<open>atol\<close>, \<open>c_str\<close>), and the generic lemmas about
  them.
\<close>

named_theorems bundle_simps \<open>rewrite rules that carry the component proofs\<close>

section \<open>Types\<close>

type_synonym bytes = string
  \<comment> \<open>a \<open>char\<close> buffer or the contents of a file\<close>

abbreviation NUL :: char where
  "NUL \<equiv> CHR 0x00"

section \<open>Fixed-width integers\<close>

text \<open>
  \<open>int\<close> and \<open>int64_t\<close> values are kept as \<^typ>\<open>int\<close>, \<open>size_t\<close> values as \<^typ>\<open>nat\<close>.
  Conversions between widths, and every arithmetic step that can leave the range, go
  through one of these functions. Signed overflow is read as two's complement
  wrap-around, which is what the generated code does.
\<close>

definition wrap32 :: "int \<Rightarrow> int" where
  "wrap32 x = signed_take_bit 31 x"

definition wrap64 :: "int \<Rightarrow> int" where
  "wrap64 x = signed_take_bit 63 x"

definition to_size :: "int \<Rightarrow> nat" where
  "to_size x = nat (x mod 2 ^ 64)"

definition to_u32 :: "int \<Rightarrow> nat" where
  "to_u32 x = nat (x mod 2 ^ 32)"

lemma wrap32_id [bundle_simps]: "- (2 ^ 31) \<le> x \<Longrightarrow> x < 2 ^ 31 \<Longrightarrow> wrap32 x = x"
  unfolding wrap32_def by (rule signed_take_bit_int_eq_self) auto

lemma wrap64_id [bundle_simps]: "- (2 ^ 63) \<le> x \<Longrightarrow> x < 2 ^ 63 \<Longrightarrow> wrap64 x = x"
  unfolding wrap64_def by (rule signed_take_bit_int_eq_self) auto

lemma wrap64_bounds: "- (2 ^ 63) \<le> wrap64 x" "wrap64 x < 2 ^ 63"
  unfolding wrap64_def
  using signed_take_bit_int_greater_eq_minus_exp [of 63 x] signed_take_bit_int_less_exp [of 63 x]
  by simp_all

lemma wrap32_bounds: "- (2 ^ 31) \<le> wrap32 x" "wrap32 x < 2 ^ 31"
  unfolding wrap32_def
  using signed_take_bit_int_greater_eq_minus_exp [of 31 x] signed_take_bit_int_less_exp [of 31 x]
  by simp_all

lemma to_size_id [bundle_simps]: "0 \<le> x \<Longrightarrow> x < 2 ^ 64 \<Longrightarrow> to_size x = nat x"
  by (simp add: to_size_def)

lemma to_size_bound: "to_size x < 2 ^ 64"
  by (simp add: to_size_def nat_less_iff)

lemma to_u32_id [bundle_simps]: "0 \<le> x \<Longrightarrow> x < 2 ^ 32 \<Longrightarrow> to_u32 x = nat x"
  by (simp add: to_u32_def)

lemma to_u32_bound: "to_u32 x < 2 ^ 32"
  by (simp add: to_u32_def nat_less_iff)

section \<open>Debug checks\<close>

text \<open>
  The checks \<open>DCHECK\<close> of \<open>base3/logging.h\<close> are fatal unless \<open>NDEBUG\<close> is defined, which no build file of the
  repository does: a failed check is the result \<open>None\<close>, so is \<open>NOTREACHED\<close>. Checks of pointers to local variables,
  which no caller of the model can break, are left out. (\<open>ASSERT\<close> of \<open>base3\<close> is another macro; on Linux it only logs.)
\<close>

definition DCHECK :: "bool \<Rightarrow> unit option" where
  "DCHECK x = (if x then Some () else None)"

lemma DCHECK_bind [simp]: "Option.bind (DCHECK x) f = (if x then f () else None)"
  by (simp add: DCHECK_def)

section \<open>Positional number systems\<close>

text \<open>
  \<open>digits_rev b n\<close> are the digits of \<open>n\<close> in base \<open>b\<close>, least significant first: what a
  \<open>do \<dots> while (n /= b)\<close> loop produces. \<open>digits_val\<close> reads a most-significant-first
  list back.
\<close>

fun digits_rev :: "nat \<Rightarrow> nat \<Rightarrow> nat list" where
  "digits_rev b n = (if b < 2 \<or> n < b then [n] else n mod b # digits_rev b (n div b))"

declare digits_rev.simps [simp del]

definition digits_val :: "nat \<Rightarrow> nat list \<Rightarrow> nat" where
  "digits_val b ds = foldl (\<lambda>a d. a * b + d) 0 ds"

lemma digits_val_snoc [simp]: "digits_val b (ds @ [d]) = digits_val b ds * b + d"
  by (simp add: digits_val_def)

lemma digits_val_Nil [simp]: "digits_val b [] = 0"
  by (simp add: digits_val_def)

lemma digits_val_digits_rev [simp]: "digits_val b (rev (digits_rev b n)) = n"
proof (induction b n rule: digits_rev.induct)
  case (1 b n)
  show ?case
  proof (cases "b < 2 \<or> n < b")
    case True
    then show ?thesis
      using digits_val_snoc [of b "[]" n] by (simp add: digits_rev.simps [of b n])
  next
    case False
    with 1 show ?thesis by (simp add: digits_rev.simps [of b n] mult.commute)
  qed
qed

lemma digits_rev_bound: "2 \<le> b \<Longrightarrow> d \<in> set (digits_rev b n) \<Longrightarrow> d < b"
proof (induction b n rule: digits_rev.induct)
  case (1 b n)
  then show ?case by (cases "n < b") (auto simp: digits_rev.simps [of b n])
qed

lemma digits_rev_not_Nil [simp]: "digits_rev b n \<noteq> []"
  by (simp add: digits_rev.simps [of b n])

lemma length_digits_rev: "2 \<le> b \<Longrightarrow> n < b ^ Suc k \<Longrightarrow> length (digits_rev b n) \<le> Suc k"
proof (induction k arbitrary: n)
  case 0
  then show ?case by (simp add: digits_rev.simps [of b n])
next
  case (Suc k)
  show ?case
  proof (cases "n < b")
    case True
    then show ?thesis by (simp add: digits_rev.simps [of b n])
  next
    case False
    have "n div b < b ^ Suc k"
      using Suc.prems by (simp add: less_mult_imp_div_less mult.commute)
    then have "length (digits_rev b (n div b)) \<le> Suc k"
      using Suc by simp
    with False Suc.prems show ?thesis by (simp add: digits_rev.simps [of b n])
  qed
qed

lemma digits_val_less: "2 \<le> b \<Longrightarrow> (\<And>d. d \<in> set ds \<Longrightarrow> d < b) \<Longrightarrow> digits_val b ds < b ^ length ds"
proof (induction ds rule: rev_induct)
  case Nil
  then show ?case by simp
next
  case (snoc d ds)
  then have "digits_val b ds + 1 \<le> b ^ length ds" and "d < b" by auto
  then have "(digits_val b ds + 1) * b \<le> b ^ length ds * b"
    by (meson mult_le_mono1)
  with \<open>d < b\<close> show ?case by (simp add: mult.commute algebra_simps)
qed

lemma concat_singletons [simp]: "concat (map (\<lambda>c. [c]) s) = s"
  by (induction s) auto

end
