(* ===== verification/Sixty.thy ===== *)
theory Sixty
  imports Prelude
begin

text \<open>
  \<open>src/src/bundle/sixty.h\<close>: the base-60 numbers in bundle URLs. \<open>ToSixty\<close> prints a
  non-negative \<open>int64_t\<close>, \<open>FromSixty\<close> reads it back with 64-bit arithmetic and returns
  \<open>-1\<close> on error.
\<close>

section \<open>Definitions\<close>

definition SixtyChar :: string where
  "SixtyChar = ''ABCDEFGHJKLMNOPQRSTUVWXYZabcdefghjklmnopqrstuvwxyz0123456789''"

text \<open>The \<open>do \<dots> while (number)\<close> loop: digits are appended least significant first.\<close>

fun sixty_loop :: "nat \<Rightarrow> string \<Rightarrow> string" where
  "sixty_loop number result_str =
     (let result_str' = result_str @ [SixtyChar ! (number mod 60)];
          number' = number div 60
      in if number' \<noteq> 0 then sixty_loop number' result_str' else result_str')"

declare sixty_loop.simps [simp del]

definition ToSixty :: "int \<Rightarrow> string" where
  "ToSixty number = (if number < 0 then [] else rev (sixty_loop (nat number) []))"

definition CharTable :: "int list" where
  "CharTable =
    [50, 51, 52, 53, 54, 55, 56, 57, 58, 59, -1, -1, -1, -1, -1, -1, -1, 0, 1, 2,
     3, 4, 5, 6, 7, -1, 8, 9, 10, 11, 12, 13, 14, 15, 16, 17, 18, 19, 20, 21,
     22, 23, 24, -1, -1, -1, -1, -1, -1, 25, 26, 27, 28, 29, 30, 31, 32, -1,
     33, 34, 35, 36, 37, 38, 39, 40, 41, 42, 43, 44, 45, 46, 47, 48, 49]"

definition PowTable :: "int list" where
  "PowTable =
    [1, 60, 3600, 216000, 12960000, 777600000, 46656000000, 2799360000000,
     167961600000000, 10077696000000000, 604661760000000000]"

text \<open>
  The loop over \<open>num_sixty[j]\<close>; the remaining characters are the argument, so
  \<open>size - j - 1\<close> is the length of the rest. The character test is the one of the
  source, including the gaps of the table that it lets through.
\<close>

fun from_sixty_loop :: "string \<Rightarrow> int \<Rightarrow> int" where
  "from_sixty_loop [] ten = ten"
| "from_sixty_loop (c # cs) ten =
     (if (of_char c :: nat) < 48 \<or> 122 < (of_char c :: nat) then -1
      else
        let index = CharTable ! (of_char c - 48);
            ten' = wrap64 (ten + wrap64 (index * PowTable ! length cs))
        in if ten' < 0 then -1 else from_sixty_loop cs ten')"

definition FromSixty :: "string \<Rightarrow> int" where
  "FromSixty num_sixty =
     (if 11 < length num_sixty \<or> length num_sixty = 0 then -1
      else from_sixty_loop num_sixty 0)"

section \<open>Printing\<close>

definition sixty_of :: "nat list \<Rightarrow> string" where
  "sixty_of ds = map (\<lambda>d. SixtyChar ! d) ds"

lemma sixty_loop_digits: "sixty_loop n acc = acc @ sixty_of (digits_rev 60 n)"
proof (induction n acc rule: sixty_loop.induct)
  case (1 n acc)
  show ?case
  proof (cases "n < 60")
    case True
    then show ?thesis
      by (simp add: sixty_loop.simps [of n acc] digits_rev.simps [of 60 n] sixty_of_def)
  next
    case False
    with 1 show ?thesis
      by (simp add: sixty_loop.simps [of n acc] digits_rev.simps [of 60 n] sixty_of_def Let_def
          div_eq_0_iff)
  qed
qed

lemma ToSixty_digits: "0 \<le> n \<Longrightarrow> ToSixty n = sixty_of (rev (digits_rev 60 (nat n)))"
  by (simp add: ToSixty_def sixty_loop_digits sixty_of_def rev_map)

section \<open>The two tables agree\<close>

lemma PowTable_nth: "i < 11 \<Longrightarrow> PowTable ! i = 60 ^ i"
proof -
  assume "i < 11"
  moreover have "list_all (\<lambda>i. PowTable ! i = 60 ^ i) [0..<11]"
    by (simp add: upt_rec PowTable_def)
  ultimately show ?thesis by (simp add: list_all_iff)
qed

lemma sixty_table:
  "list_all (\<lambda>d. 48 \<le> (of_char (SixtyChar ! d) :: nat) \<and> (of_char (SixtyChar ! d) :: nat) \<le> 122
     \<and> CharTable ! (of_char (SixtyChar ! d) - 48) = int d) [0..<60]"
  by (simp add: upt_rec SixtyChar_def CharTable_def)

lemma sixty_char:
  assumes "d < 60"
  shows "\<not> (of_char (SixtyChar ! d) :: nat) < 48" "\<not> 122 < (of_char (SixtyChar ! d) :: nat)"
    "CharTable ! (of_char (SixtyChar ! d) - 48) = int d"
proof -
  have "48 \<le> (of_char (SixtyChar ! d) :: nat) \<and> (of_char (SixtyChar ! d) :: nat) \<le> 122
     \<and> CharTable ! (of_char (SixtyChar ! d) - 48) = int d"
    using sixty_table assms unfolding list_all_iff by simp
  then show "\<not> (of_char (SixtyChar ! d) :: nat) < 48" "\<not> 122 < (of_char (SixtyChar ! d) :: nat)"
    "CharTable ! (of_char (SixtyChar ! d) - 48) = int d"
    by (simp_all only: not_less)
qed

section \<open>Reading back what was printed\<close>

lemma digits_val_Cons: "digits_val b (d # ds) = d * b ^ length ds + digits_val b ds"
proof (induction ds rule: rev_induct)
  case Nil
  show ?case by (simp add: digits_val_def)
next
  case (snoc x ds)
  then show ?case
    using digits_val_snoc [of b "d # ds" x] by (simp add: algebra_simps)
qed

text \<open>As long as the value stays below \<open>2 ^ 63\<close> no step of the loop overflows.\<close>

lemma from_sixty_loop_digits:
  assumes "\<And>d. d \<in> set ds \<Longrightarrow> d < 60" "length ds \<le> 11" "0 \<le> ten"
    and "ten + int (digits_val 60 ds) < 2 ^ 63"
  shows "from_sixty_loop (sixty_of ds) ten = ten + int (digits_val 60 ds)"
  using assms
proof (induction ds arbitrary: ten)
  case Nil
  then show ?case by (simp add: sixty_of_def)
next
  case (Cons d ds)
  have val: "int (digits_val 60 (d # ds)) = int d * 60 ^ length ds + int (digits_val 60 ds)"
    by (simp add: digits_val_Cons)
  have d: "d < 60" using Cons.prems by simp
  have pow: "PowTable ! length ds = 60 ^ length ds"
    using Cons.prems by (simp add: PowTable_nth)
  have lt: "ten + int d * 60 ^ length ds + int (digits_val 60 ds) < 2 ^ 63"
    using Cons.prems(4) val by simp
  have nonneg: "0 \<le> int d * 60 ^ length ds" by simp
  have "wrap64 (int d * 60 ^ length ds) = int d * 60 ^ length ds"
    using lt nonneg Cons.prems(3) by (intro wrap64_id) linarith+
  moreover have "wrap64 (ten + int d * 60 ^ length ds) = ten + int d * 60 ^ length ds"
    using lt nonneg Cons.prems(3) by (intro wrap64_id) linarith+
  moreover have "from_sixty_loop (sixty_of ds) (ten + int d * 60 ^ length ds)
      = ten + int d * 60 ^ length ds + int (digits_val 60 ds)"
    using Cons.prems lt nonneg by (intro Cons.IH) auto
  moreover have "\<not> ten + int d * 60 ^ length ds < 0"
    using nonneg Cons.prems(3) by linarith
  ultimately show ?case
    using sixty_char [OF d] pow val by (simp add: sixty_of_def Let_def)
qed

lemma length_ToSixty:
  assumes "0 \<le> n" "n < 2 ^ 63"
  shows "0 < length (ToSixty n) \<and> length (ToSixty n) \<le> 11"
proof -
  have "length (digits_rev 60 (nat n)) \<le> Suc 10"
    using assms by (intro length_digits_rev) (auto simp: nat_less_iff)
  then show ?thesis using assms by (simp add: ToSixty_digits sixty_of_def)
qed

lemma from_sixty_loop_range: "0 \<le> ten \<Longrightarrow> ten < 2 ^ 63 \<Longrightarrow>
  -1 \<le> from_sixty_loop s ten \<and> from_sixty_loop s ten < 2 ^ 63"
proof (induction s ten rule: from_sixty_loop.induct)
  case (2 c cs ten)
  then show ?case using wrap64_bounds(2) by (simp add: Let_def)
qed simp

lemma FromSixty_range: "-1 \<le> FromSixty s \<and> FromSixty s < 2 ^ 63"
  using from_sixty_loop_range [of 0 s] by (simp add: FromSixty_def)

text \<open>No character of a printed number is one of the URL separators or a NUL.\<close>

lemma SixtyChar_alnum:
  "list_all (\<lambda>c. c \<notin> set '',/._'' \<and> c \<noteq> NUL) SixtyChar"
  unfolding SixtyChar_def by code_simp

lemma ToSixty_chars: "c \<in> set (ToSixty n) \<Longrightarrow> c \<in> set SixtyChar"
proof -
  assume c: "c \<in> set (ToSixty n)"
  then have n: "0 \<le> n" by (auto simp: ToSixty_def split: if_splits)
  with c obtain d where d: "d \<in> set (digits_rev 60 (nat n))" "c = SixtyChar ! d"
    by (auto simp: ToSixty_digits sixty_of_def)
  then have "d < 60" by (auto dest: digits_rev_bound [rotated])
  moreover have "length SixtyChar = 60" by (simp add: SixtyChar_def)
  ultimately show ?thesis using d by simp
qed

lemma ToSixty_no_separator: "c \<in> set (ToSixty n) \<Longrightarrow> c \<notin> set '',/._'' \<and> c \<noteq> NUL"
  using ToSixty_chars [of c n] SixtyChar_alnum unfolding list_all_iff by blast

lemma FromSixty_ToSixty:
  assumes "0 \<le> n" "n < 2 ^ 63"
  shows "FromSixty (ToSixty n) = n"
proof -
  have "from_sixty_loop (sixty_of (rev (digits_rev 60 (nat n)))) 0 = 0 + int (nat n)"
    using length_ToSixty [OF assms] assms
    by (subst from_sixty_loop_digits)
      (auto simp: ToSixty_digits sixty_of_def dest: digits_rev_bound [rotated])
  then show ?thesis
    using length_ToSixty [OF assms] assms by (simp add: FromSixty_def ToSixty_digits)
qed

section \<open>Properties\<close>

text \<open>
  Every non-negative \<open>int64_t\<close> survives printing in base 60 and reading back.
\<close>

theorem sixty_round_trip:
  assumes "0 \<le> n" "n < 2 ^ 63"
  shows "FromSixty (ToSixty n) = n"
  using assms by (rule FromSixty_ToSixty)

theorem sixty_round_trip_witness: "FromSixty (ToSixty 61) = 61 \<and> ToSixty 61 = ''BB''"
  using sixty_round_trip [of 61]
  by (simp add: ToSixty_def sixty_loop.simps [of 61] sixty_loop.simps [of "Suc 0"] SixtyChar_def Let_def)

text \<open>
  Whatever string it is given, \<open>FromSixty\<close> returns \<open>-1\<close> or a non-negative \<open>int64_t\<close>,
  and it refuses the empty string, strings of more than eleven characters and strings with a
  character outside \<open>'0'..'z'\<close> before any overflow has happened.
\<close>

theorem FromSixty_total:
  "-1 \<le> FromSixty s \<and> FromSixty s < 2 ^ 63
   \<and> (length s = 0 \<or> 11 < length s \<longrightarrow> FromSixty s = -1)
   \<and> (s \<noteq> [] \<and> ((of_char (hd s) :: nat) < 48 \<or> 122 < (of_char (hd s) :: nat)) \<longrightarrow> FromSixty s = -1)"
  using FromSixty_range [of s] by (cases s) (auto simp: FromSixty_def)

theorem FromSixty_total_witness: "FromSixty ''!A'' = -1"
  using FromSixty_total [of "''!A''"] by simp

text \<open>
  The alphabet check of \<open>FromSixty\<close> lets the gaps of \<open>CharTable\<close> through: a string that
  \<open>ToSixty\<close> never prints is read as a number instead of giving the documented \<open>-1\<close>, so reading
  is not injective on what it accepts.
\<close>

theorem FromSixty_accepts_gaps:
  "FromSixty ''B:'' = 59 \<and> FromSixty ''9'' = 59 \<and> ToSixty 59 = ''9'' \<and> CHR '':'' \<notin> set SixtyChar"
  by (simp add: FromSixty_def CharTable_def PowTable_def wrap64_def signed_take_bit_eq_if_positive ToSixty_def
      sixty_loop.simps [of 59] SixtyChar_def Let_def)

end
