(* ===== verification/Murmur.thy ===== *)
theory Murmur
  imports Prelude
begin

text \<open>
  \<open>src/src/bundle/murmurhash2.cc\<close>: the hash that protects encoded URLs, its 64-bit
  relatives, the endian-neutral and alignment-safe variants and the incremental class
  \<open>CMurmurHash2A\<close>. A key is the list of its bytes, and its length is the \<open>len\<close>
  argument (which fits an \<open>int\<close>); a 4-byte load is little-endian, as on the x86 the
  code is built for.
\<close>

unbundle bit_operations_syntax

section \<open>Definitions\<close>

type_synonym u32 = "32 word"
type_synonym u64 = "64 word"

definition byte_word :: "char \<Rightarrow> 'a::len word" where
  "byte_word c = of_char c"

text \<open>The little-endian value of a run of bytes; a load is the value of 4 or 8 of them.\<close>

fun le_word :: "bytes \<Rightarrow> 'a::len word" where
  "le_word [] = 0"
| "le_word (b # bs) = byte_word b OR push_bit 8 (le_word bs)"

abbreviation m32 :: u32 where
  "m32 \<equiv> 0x5bd1e995"

abbreviation m64 :: u64 where
  "m64 \<equiv> 0xc6a4a7935bd1e995"

text \<open>The \<open>mmix\<close> and \<open>MIX\<close> macros (their constants are the same).\<close>

definition mmix :: "u32 \<Rightarrow> u32 \<Rightarrow> u32" where
  "mmix h k =
     (let k1 = k * m32; k2 = k1 XOR drop_bit 24 k1; k3 = k2 * m32
      in (h * m32) XOR k3)"

definition finish :: "u32 \<Rightarrow> u32" where
  "finish h =
     (let h1 = h XOR drop_bit 13 h; h2 = h1 * m32 in h2 XOR drop_bit 15 h2)"

text \<open>The \<open>switch (len)\<close> over the last few bytes, with its fall-through.\<close>

fun tail_mix :: "u32 \<Rightarrow> bytes \<Rightarrow> u32" where
  "tail_mix h [a, b, c] =
     (((h XOR push_bit 16 (byte_word c)) XOR push_bit 8 (byte_word b)) XOR byte_word a) * m32"
| "tail_mix h [a, b] = ((h XOR push_bit 8 (byte_word b)) XOR byte_word a) * m32"
| "tail_mix h [a] = (h XOR byte_word a) * m32"
| "tail_mix h bs = h"

fun murmur2_loop :: "u32 \<Rightarrow> bytes \<Rightarrow> u32 \<times> bytes" where
  "murmur2_loop h (a # b # c # d # data) = murmur2_loop (mmix h (le_word [a, b, c, d])) data"
| "murmur2_loop h data = (h, data)"

definition MurmurHash2 :: "bytes \<Rightarrow> u32 \<Rightarrow> u32" where
  "MurmurHash2 key seed =
     (let (h, data) = murmur2_loop (seed XOR of_nat (length key)) key
      in finish (tail_mix h data))"

fun murmur64a_loop :: "u64 \<Rightarrow> bytes \<Rightarrow> u64 \<times> bytes" where
  "murmur64a_loop h (a # b # c # d # e # f # g # i # data) =
     (let k = le_word [a, b, c, d, e, f, g, i];
          k1 = k * m64; k2 = k1 XOR drop_bit 47 k1; k3 = k2 * m64
      in murmur64a_loop ((h XOR k3) * m64) data)"
| "murmur64a_loop h data = (h, data)"

text \<open>The fall-through \<open>switch (len & 7)\<close> xors the remaining bytes at their places.\<close>

definition murmur64a_tail :: "u64 \<Rightarrow> bytes \<Rightarrow> u64" where
  "murmur64a_tail h bs =
     (if bs = [] then h
      else fold (\<lambda>i h. h XOR push_bit (8 * i) (byte_word (bs ! i))) (rev [0..<length bs]) h * m64)"

definition MurmurHash64A :: "bytes \<Rightarrow> u64 \<Rightarrow> u64" where
  "MurmurHash64A key seed =
     (let (h, data) = murmur64a_loop (seed XOR (of_nat (length key) * m64)) key;
          h1 = murmur64a_tail h data;
          h2 = h1 XOR drop_bit 47 h1; h3 = h2 * m64
      in h3 XOR drop_bit 47 h3)"

fun murmur64b_loop :: "u32 \<Rightarrow> u32 \<Rightarrow> bytes \<Rightarrow> u32 \<times> u32 \<times> bytes" where
  "murmur64b_loop h1 h2 (a # b # c # d # e # f # g # i # data) =
     murmur64b_loop (mmix h1 (le_word [a, b, c, d])) (mmix h2 (le_word [e, f, g, i])) data"
| "murmur64b_loop h1 h2 (a # b # c # d # data) = (mmix h1 (le_word [a, b, c, d]), h2, data)"
| "murmur64b_loop h1 h2 data = (h1, h2, data)"

definition MurmurHash64B :: "bytes \<Rightarrow> u64 \<Rightarrow> u64" where
  "MurmurHash64B key seed =
     (let (h1, h2, data) = murmur64b_loop (ucast seed XOR of_nat (length key))
                              (ucast (drop_bit 32 seed)) key;
          h2 = tail_mix h2 data;
          h1 = (h1 XOR drop_bit 18 h2) * m32;
          h2 = (h2 XOR drop_bit 22 h1) * m32;
          h1 = (h1 XOR drop_bit 17 h2) * m32;
          h2 = (h2 XOR drop_bit 19 h1) * m32
      in push_bit 32 (ucast h1) OR ucast h2)"

fun tail_word :: "bytes \<Rightarrow> u32" where
  "tail_word [a, b, c] =
     ((0 XOR push_bit 16 (byte_word c)) XOR push_bit 8 (byte_word b)) XOR byte_word a"
| "tail_word [a, b] = (0 XOR push_bit 8 (byte_word b)) XOR byte_word a"
| "tail_word [a] = 0 XOR byte_word a"
| "tail_word bs = 0"

definition MurmurHash2A :: "bytes \<Rightarrow> u32 \<Rightarrow> u32" where
  "MurmurHash2A key seed =
     (let (h, data) = murmur2_loop seed key;
          h1 = mmix h (tail_word data);
          h2 = mmix h1 (of_nat (length key))
      in finish h2)"

subsection \<open>CMurmurHash2A\<close>

record CMurmurHash2A =
  m_hash :: u32
  m_tail :: u32
  m_count :: nat
  m_size :: u32

definition Begin :: "u32 \<Rightarrow> CMurmurHash2A" where
  "Begin seed = \<lparr>m_hash = seed, m_tail = 0, m_count = 0, m_size = 0\<rparr>"

fun MixTail :: "CMurmurHash2A \<Rightarrow> bytes \<Rightarrow> CMurmurHash2A \<times> bytes" where
  "MixTail s [] = (s, [])"
| "MixTail s (b # data) =
     (if length (b # data) < 4 \<or> m_count s \<noteq> 0 then
        let tail = m_tail s OR push_bit (m_count s * 8) (byte_word b);
            s1 = s\<lparr>m_tail := tail, m_count := Suc (m_count s)\<rparr>;
            s2 = (if m_count s1 = 4
                  then s1\<lparr>m_hash := mmix (m_hash s1) (m_tail s1), m_tail := 0, m_count := 0\<rparr>
                  else s1)
        in MixTail s2 data
      else (s, b # data))"

definition Add :: "CMurmurHash2A \<Rightarrow> bytes \<Rightarrow> CMurmurHash2A" where
  "Add s data =
     (let s1 = s\<lparr>m_size := m_size s + of_nat (length data)\<rparr>;
          (s2, data2) = MixTail s1 data;
          (h, data3) = murmur2_loop (m_hash s2) data2
      in fst (MixTail (s2\<lparr>m_hash := h\<rparr>) data3))"

definition End :: "CMurmurHash2A \<Rightarrow> u32" where
  "End s = finish (mmix (mmix (m_hash s) (m_tail s)) (m_size s))"

subsection \<open>Neutral and aligned variants\<close>

fun neutral2_loop :: "u32 \<Rightarrow> bytes \<Rightarrow> u32 \<times> bytes" where
  "neutral2_loop h (a # b # c # d # data) =
     (let k = ((byte_word a OR push_bit 8 (byte_word b)) OR push_bit 16 (byte_word c))
                OR push_bit 24 (byte_word d)
      in neutral2_loop (mmix h k) data)"
| "neutral2_loop h data = (h, data)"

definition MurmurHashNeutral2 :: "bytes \<Rightarrow> u32 \<Rightarrow> u32" where
  "MurmurHashNeutral2 key seed =
     (let (h, data) = neutral2_loop (seed XOR of_nat (length key)) key
      in finish (tail_mix h data))"

text \<open>
  The aligned variant: \<open>align\<close> is the address modulo 4. \<open>preload\<close> is the first
  \<open>switch (align)\<close> (it reads \<open>4 - align\<close> bytes), \<open>load_tail n\<close> the later ones (they
  read \<open>n\<close> bytes), \<open>aligned_loop\<close> the shifting loop with the carry register \<open>t\<close>.
\<close>

fun load_tail :: "bytes \<Rightarrow> u32" where
  "load_tail [a, b, c] =
     ((0 OR push_bit 16 (byte_word c)) OR push_bit 8 (byte_word b)) OR byte_word a"
| "load_tail [a, b] = (0 OR push_bit 8 (byte_word b)) OR byte_word a"
| "load_tail [a] = 0 OR byte_word a"
| "load_tail bs = 0"

fun aligned_loop :: "nat \<Rightarrow> nat \<Rightarrow> u32 \<Rightarrow> u32 \<Rightarrow> bytes \<Rightarrow> u32 \<times> u32 \<times> bytes" where
  "aligned_loop sl sr h t (a # b # c # e # data) =
     (let d = le_word [a, b, c, e];
          t' = drop_bit sr t OR push_bit sl d
      in aligned_loop sl sr (mmix h t') d data)"
| "aligned_loop sl sr h t data = (h, t, data)"

definition MurmurHashAligned2 :: "nat \<Rightarrow> bytes \<Rightarrow> u32 \<Rightarrow> u32" where
  "MurmurHashAligned2 align key seed =
     (let h = seed XOR of_nat (length key) in
      if align \<noteq> 0 \<and> 4 \<le> length key then
        let t = push_bit (8 * align) (load_tail (take (4 - align) key));
            sl = 8 * (4 - align); sr = 8 * align;
            (h, t, data) = aligned_loop sl sr h t (drop (4 - align) key)
        in if align \<le> length data then
             let d = load_tail (take align data);
                 h = mmix h (drop_bit sr t OR push_bit sl d)
             in finish (tail_mix h (drop align data))
           else
             let d = load_tail data
             in finish ((h XOR (drop_bit sr t OR push_bit sl d)) * m32)
      else
        let (h, data) = murmur2_loop h key in finish (tail_mix h data))"

section \<open>Little-endian values\<close>

lemma bit_byte_word: "bit (byte_word c :: 'a::len word) i
   \<longleftrightarrow> i < LENGTH('a) \<and> i < 8 \<and> bit (of_char c :: nat) i"
proof -
  have "(of_char c :: nat) < 2 ^ 8" by simp
  then have "take_bit 8 (of_char c :: nat) = of_char c"
    by (rule take_bit_nat_eq_self)
  then have "bit (of_char c :: nat) i \<longleftrightarrow> i < 8 \<and> bit (of_char c :: nat) i"
    by (metis bit_take_bit_iff)
  moreover have "(byte_word c :: 'a word) = of_nat (of_char c)"
    by (simp add: byte_word_def of_nat_of_char)
  ultimately show ?thesis by (simp add: bit_simps)
qed

lemma le_word_append:
  "(le_word (xs @ ys) :: 'a::len word) = le_word xs OR push_bit (8 * length xs) (le_word ys)"
  by (induction xs) (simp_all add: push_bit_or or.assoc add.commute)

lemma bit_le_word: "bit (le_word bs :: 'a::len word) i
   \<Longrightarrow> i < LENGTH('a) \<and> i < 8 * length bs"
proof (induction bs arbitrary: i)
  case (Cons b bs)
  then show ?case by (fastforce simp: bit_simps bit_byte_word)
qed simp

lemma drop_bit_le_word_append:
  assumes "8 * length (xs @ ys) \<le> LENGTH('a)"
  shows "drop_bit (8 * length xs) (le_word (xs @ ys)) = (le_word ys :: 'a::len word)"
  using assms
  by (intro bit_word_eqI) (auto simp: le_word_append bit_simps dest: bit_le_word)

lemma drop_push_le_word:
  assumes "8 * (n + length bs) \<le> LENGTH('a)"
  shows "drop_bit (8 * n) (push_bit (8 * n) (le_word bs)) = (le_word bs :: 'a::len word)"
  using assms by (intro bit_word_eqI) (auto simp: bit_simps dest: bit_le_word)

lemma short_list_cases:
  assumes "length bs < 4"
  obtains "bs = []" | a where "bs = [a]" | a b where "bs = [a, b]" | a b c where "bs = [a, b, c]"
proof (cases bs)
  case (Cons a t)
  note outer = Cons
  show ?thesis
  proof (cases t)
    case (Cons b u)
    then show ?thesis
      using assms outer that by (cases u) auto
  qed (use outer that in auto)
qed (use that in auto)

text \<open>The fall-through switches all compute the little-endian value of the bytes.\<close>

lemma load_tail_le_word: "length bs < 4 \<Longrightarrow> load_tail bs = le_word bs"
  by (erule short_list_cases) (auto simp: push_bit_or or.commute or.left_commute or.assoc)

lemma xor_or_disjoint: "x AND y = 0 \<Longrightarrow> x XOR y = x OR (y :: 'a::len word)"
  by (metis disjunctive_xor_eq_or)

lemma byte_disjoint:
  "byte_word a AND push_bit 8 (w :: u32) = 0"
  by (rule bit_word_eqI) (auto simp: bit_simps bit_byte_word)

lemma xor_le_word:
  "byte_word a XOR push_bit 8 (le_word bs) = (le_word (a # bs) :: u32)"
  by (simp add: xor_or_disjoint byte_disjoint)

lemma tail_word_le_word: "length bs < 4 \<Longrightarrow> tail_word bs = le_word bs"
proof (erule short_list_cases)
  fix a b c assume "bs = [a, b, c]"
  moreover have "push_bit 8 (byte_word b) XOR push_bit 16 (byte_word c) = push_bit 8 (le_word [b, c] :: u32)"
    using arg_cong [OF xor_le_word [of b "[c]"], of "push_bit 8"] by (simp add: push_bit_xor)
  ultimately show ?thesis
    using xor_le_word [of a "[b, c]"] by (simp add: xor.commute)
next
  fix a b assume "bs = [a, b]"
  then show ?thesis
    using xor_le_word [of a "[b]"] xor_le_word [of b "[]"]
    by (simp add: push_bit_xor xor.commute)
next
  fix a assume "bs = [a]"
  then show ?thesis by simp
qed simp

lemma tail_mix_tail_word:
  "length bs < 4 \<Longrightarrow> tail_mix h bs = (if bs = [] then h else (h XOR tail_word bs) * m32)"
  by (erule short_list_cases) (auto simp: xor.assoc)

lemma tail_mix_le_word:
  "length bs < 4 \<Longrightarrow> tail_mix h bs = (if bs = [] then h else (h XOR le_word bs) * m32)"
  by (simp add: tail_mix_tail_word tail_word_le_word)

section \<open>The word loop\<close>

lemma murmur2_loop_rest: "length (snd (murmur2_loop h data)) < 4"
  by (induction h data rule: murmur2_loop.induct) auto

lemma murmur2_loop_short: "length data < 4 \<Longrightarrow> murmur2_loop h data = (h, data)"
  by (erule short_list_cases) auto

lemma murmur2_loop_word:
  "length xs = 4 \<Longrightarrow> murmur2_loop h (xs @ ys) = murmur2_loop (mmix h (le_word xs)) ys"
  by (auto simp: length_Suc_conv numeral_eq_Suc)

lemma neutral2_loop_eq: "neutral2_loop h data = murmur2_loop h data"
  by (induction h data rule: murmur2_loop.induct)
    (auto simp: Let_def push_bit_or or.assoc)

lemma MurmurHashNeutral2_eq: "MurmurHashNeutral2 key seed = MurmurHash2 key seed"
  by (simp add: MurmurHashNeutral2_def MurmurHash2_def neutral2_loop_eq)

lemma murmur2_loop_append:
  "murmur2_loop h (xs @ ys) = (let (h', r) = murmur2_loop h xs in murmur2_loop h' (r @ ys))"
  by (induction h xs rule: murmur2_loop.induct) auto

lemma murmur2_loop_split:
  "murmur2_loop h data = (h', r) \<Longrightarrow> \<exists>c. data = c @ r \<and> murmur2_loop h c = (h', [])"
proof (induction h data rule: murmur2_loop.induct)
  case (1 h a b c d data)
  then obtain e where "data = e @ r" "murmur2_loop (mmix h (le_word [a, b, c, d])) e = (h', [])"
    by auto
  then show ?case by (intro exI [of _ "a # b # c # d # e"]) simp
qed auto

section \<open>The aligned variant computes the same hash\<close>

lemma le_word_overflow: "LENGTH('a) \<le> 8 * length xs \<Longrightarrow>
  (le_word (xs @ ys) :: 'a::len word) = le_word xs"
  by (rule bit_word_eqI) (auto simp: le_word_append bit_simps)

lemma carry_word:
  assumes "length p + n = 4" "length w = 4" "drop_bit sr t = (le_word p :: u32)"
  shows "drop_bit sr t OR push_bit (8 * length p) (le_word w) = le_word (p @ take n w)"
proof -
  have "le_word (p @ take n w) = (le_word ((p @ take n w) @ drop n w) :: u32)"
    using assms by (subst le_word_overflow) simp_all
  then show ?thesis using assms by (simp add: le_word_append)
qed

lemma aligned_loop_eq:
  assumes "length p = 4 - align" "0 < align" "align < 4" "drop_bit (8 * align) t = le_word p"
    and "aligned_loop (8 * (4 - align)) (8 * align) h t data = (h', t', rest)"
  shows "\<exists>p'. length p' = 4 - align \<and> drop_bit (8 * align) t' = le_word p' \<and> length rest < 4
     \<and> murmur2_loop h (p @ data) = murmur2_loop h' (p' @ rest)"
  using assms
proof (induction "8 * (4 - align)" "8 * align" h t data arbitrary: p rule: aligned_loop.induct)
  case (1 h t a b c e data)
  let ?w = "[a, b, c, e]"
  let ?p = "drop align ?w"
  have word: "drop_bit (8 * align) t OR push_bit (8 * (4 - align)) (le_word ?w)
      = le_word (p @ take align ?w)"
    using carry_word [of p align ?w "8 * align" t] 1(2-5) by simp
  have len: "length ?p = 4 - align" "length (p @ take align ?w) = 4"
    using 1(2-5) by auto
  have "drop_bit (8 * length (take align ?w)) (le_word (take align ?w @ ?p)) = (le_word ?p :: u32)"
    by (rule drop_bit_le_word_append) simp
  then have carry: "drop_bit (8 * align) (le_word ?w) = (le_word ?p :: u32)"
    using 1(2-5) by simp
  have rest: "aligned_loop (8 * (4 - align)) (8 * align) (mmix h (le_word (p @ take align ?w)))
      (le_word ?w) data = (h', t', rest)"
    using 1(6) by (simp only: aligned_loop.simps Let_def word)
  have eq: "p @ (a # b # c # e # data) = (p @ take align ?w) @ ?p @ data"
    by (metis append.assoc append_Cons append_Nil append_take_drop_id)
  have "murmur2_loop h (p @ (a # b # c # e # data))
      = murmur2_loop (mmix h (le_word (p @ take align ?w))) (?p @ data)"
    unfolding eq by (rule murmur2_loop_word [OF len(2)])
  moreover note 1(1) [OF refl refl len(1) 1(3,4) carry]
  ultimately show ?case using rest word by simp
qed auto

lemma MurmurHashAligned2_eq:
  assumes "align < 4"
  shows "MurmurHashAligned2 align key seed = MurmurHash2 key seed"
proof (cases "align \<noteq> 0 \<and> 4 \<le> length key")
  case False
  then show ?thesis by (auto simp: MurmurHashAligned2_def MurmurHash2_def Let_def)
next
  case True
  let ?p = "take (4 - align) key" and ?data = "drop (4 - align) key"
  let ?h = "seed XOR of_nat (length key) :: u32"
  let ?t = "push_bit (8 * align) (load_tail ?p)"
  have "4 - align \<le> length key" using True by linarith
  then have len: "length ?p = 4 - align" by simp
  then have lt: "load_tail ?p = le_word ?p"
    using True assms by (intro load_tail_le_word) simp
  have carry: "drop_bit (8 * align) ?t = le_word ?p"
    unfolding lt using len assms by (intro drop_push_le_word) simp
  obtain h' t' rest where loop:
    "aligned_loop (8 * (4 - align)) (8 * align) ?h ?t ?data = (h', t', rest)"
    by (cases "aligned_loop (8 * (4 - align)) (8 * align) ?h ?t ?data") auto
  then obtain p' where p': "length p' = 4 - align" "drop_bit (8 * align) t' = le_word p'"
      "length rest < 4" "murmur2_loop ?h (?p @ ?data) = murmur2_loop h' (p' @ rest)"
    using aligned_loop_eq [OF len _ assms carry loop] True by auto
  show ?thesis
  proof (cases "align \<le> length rest")
    case le: True
    let ?x = "take align rest" and ?y = "drop align rest"
    have "load_tail ?x = le_word ?x" using assms p' by (intro load_tail_le_word) simp
    then have w: "drop_bit (8 * align) t' OR push_bit (8 * (4 - align)) (load_tail ?x) = le_word (p' @ ?x)"
      using p' by (simp add: le_word_append)
    have "murmur2_loop h' ((p' @ ?x) @ ?y) = murmur2_loop (mmix h' (le_word (p' @ ?x))) ?y"
      using p' le assms by (intro murmur2_loop_word) simp
    also have "\<dots> = (mmix h' (le_word (p' @ ?x)), ?y)"
      using p' by (intro murmur2_loop_short) simp
    finally have "murmur2_loop ?h key = (mmix h' (le_word (p' @ ?x)), ?y)"
      using p'(4) by simp
    with True le loop w show ?thesis
      by (simp add: MurmurHashAligned2_def MurmurHash2_def Let_def)
  next
    case gt: False
    have "load_tail rest = le_word rest" using p' by (intro load_tail_le_word)
    then have w: "drop_bit (8 * align) t' OR push_bit (8 * (4 - align)) (load_tail rest) = le_word (p' @ rest)"
      using p' by (simp add: le_word_append)
    have "length (p' @ rest) < 4" "p' @ rest \<noteq> []" using p' gt assms by auto
    then have "murmur2_loop ?h key = (h', p' @ rest)"
      and "tail_mix h' (p' @ rest) = (h' XOR le_word (p' @ rest)) * m32"
      using p'(4) murmur2_loop_short [of "p' @ rest"] tail_mix_le_word [of "p' @ rest"] by auto
    with True gt loop w show ?thesis
      by (simp add: MurmurHashAligned2_def MurmurHash2_def Let_def)
  qed
qed

section \<open>The incremental hash\<close>

text \<open>
  \<open>hashed seed bs s\<close>: the object \<open>s\<close> has absorbed exactly the bytes \<open>bs\<close>: the full words
  are mixed into \<open>m_hash\<close>, the remaining bytes wait in \<open>m_tail\<close>.
\<close>

definition absorbed :: "u32 \<Rightarrow> bytes \<Rightarrow> CMurmurHash2A \<Rightarrow> bool" where
  "absorbed seed bs s \<longleftrightarrow> (\<exists>r. murmur2_loop seed bs = (m_hash s, r)
     \<and> m_tail s = le_word r \<and> m_count s = length r)"

lemma absorbed_Nil: "absorbed seed [] (Begin seed)"
  by (simp add: absorbed_def Begin_def)

definition absorb_byte :: "CMurmurHash2A \<Rightarrow> char \<Rightarrow> CMurmurHash2A" where
  "absorb_byte s b =
     (let s1 = s\<lparr>m_tail := m_tail s OR push_bit (m_count s * 8) (byte_word b), m_count := Suc (m_count s)\<rparr>
      in if m_count s1 = 4
         then s1\<lparr>m_hash := mmix (m_hash s1) (m_tail s1), m_tail := 0, m_count := 0\<rparr> else s1)"

lemma MixTail_Cons:
  "MixTail s (b # data) =
     (if length (b # data) < 4 \<or> m_count s \<noteq> 0 then MixTail (absorb_byte s b) data else (s, b # data))"
  by (simp add: absorb_byte_def Let_def)

declare MixTail.simps(2) [simp del]

lemma absorb_byte_size [simp]: "m_size (absorb_byte s b) = m_size s"
  by (simp add: absorb_byte_def Let_def)

lemma absorbed_byte:
  assumes "absorbed seed bs s"
  shows "absorbed seed (bs @ [b]) (absorb_byte s b)"
proof -
  obtain r where r: "murmur2_loop seed bs = (m_hash s, r)" "m_tail s = le_word r" "m_count s = length r"
    using assms by (auto simp: absorbed_def)
  then have lt: "length r < 4" using murmur2_loop_rest [of seed bs] by simp
  have loop: "murmur2_loop seed (bs @ [b]) = murmur2_loop (m_hash s) (r @ [b])"
    by (subst murmur2_loop_append) (simp add: r)
  have tail: "m_tail s OR push_bit (m_count s * 8) (byte_word b) = le_word (r @ [b])"
    using r by (simp add: le_word_append mult.commute)
  show ?thesis
  proof (cases "Suc (length r) = 4")
    case True
    then have "murmur2_loop (m_hash s) (r @ [b]) = (mmix (m_hash s) (le_word (r @ [b])), [])"
      using murmur2_loop_word [of "r @ [b]" "m_hash s" "[]"] by simp
    with True loop tail r show ?thesis
      by (simp add: absorbed_def absorb_byte_def Let_def)
  next
    case False
    with lt have "murmur2_loop (m_hash s) (r @ [b]) = (m_hash s, r @ [b])"
      by (intro murmur2_loop_short) simp
    with False loop tail r show ?thesis
      by (simp add: absorbed_def absorb_byte_def Let_def)
  qed
qed

lemma MixTail_absorbs:
  assumes "absorbed seed bs s" "MixTail s data = (s', data')"
  shows "\<exists>c. data = c @ data' \<and> absorbed seed (bs @ c) s' \<and> m_size s' = m_size s
     \<and> (data' = [] \<or> m_count s' = 0 \<and> 4 \<le> length data')"
  using assms
proof (induction data arbitrary: s bs)
  case Nil
  then show ?case by simp
next
  case (Cons b data)
  show ?case
  proof (cases "length (b # data) < 4 \<or> m_count s \<noteq> 0")
    case True
    then have "MixTail (absorb_byte s b) data = (s', data')"
      using Cons.prems(2) by (simp add: MixTail_Cons)
    from Cons.IH [OF absorbed_byte [OF Cons.prems(1)] this] obtain c where
      "data = c @ data'" "absorbed seed (bs @ b # c) s'" "m_size s' = m_size s"
      "data' = [] \<or> m_count s' = 0 \<and> 4 \<le> length data'" by auto
    then show ?thesis by (intro exI [of _ "b # c"]) simp
  next
    case False
    then have "s' = s" "data' = b # data"
      using Cons.prems(2) by (auto simp: MixTail_Cons)
    then show ?thesis using Cons.prems(1) False by auto
  qed
qed

lemma absorbed_loop:
  assumes "absorbed seed bs s" "m_count s = 0" "murmur2_loop (m_hash s) data = (h, r)"
  shows "\<exists>c. data = c @ r \<and> absorbed seed (bs @ c) (s\<lparr>m_hash := h\<rparr>)"
proof -
  have s: "murmur2_loop seed bs = (m_hash s, [])" "m_tail s = 0"
    using assms(1,2) by (auto simp: absorbed_def)
  obtain c where c: "data = c @ r" "murmur2_loop (m_hash s) c = (h, [])"
    using murmur2_loop_split [OF assms(3)] by blast
  then have "murmur2_loop seed (bs @ c) = (h, [])"
    by (subst murmur2_loop_append) (simp add: s)
  with c s assms(2) show ?thesis by (auto simp: absorbed_def)
qed

lemma Add_absorbs:
  assumes "absorbed seed bs s"
  shows "absorbed seed (bs @ data) (Add s data)"
    and "m_size (Add s data) = m_size s + of_nat (length data)"
proof -
  let ?s1 = "s\<lparr>m_size := m_size s + of_nat (length data)\<rparr>"
  have s1: "absorbed seed bs ?s1" using assms by (simp add: absorbed_def)
  obtain s2 data2 where m: "MixTail ?s1 data = (s2, data2)" by fastforce
  obtain h data3 where l: "murmur2_loop (m_hash s2) data2 = (h, data3)" by fastforce
  obtain s4 data4 where m2: "MixTail (s2\<lparr>m_hash := h\<rparr>) data3 = (s4, data4)" by fastforce
  obtain c where c: "data = c @ data2" "absorbed seed (bs @ c) s2" "m_size s2 = m_size ?s1"
      "data2 = [] \<or> m_count s2 = 0 \<and> 4 \<le> length data2"
    using MixTail_absorbs [OF s1 m] by blast
  have "\<exists>e. data2 = e @ data3 \<and> absorbed seed ((bs @ c) @ e) (s2\<lparr>m_hash := h\<rparr>)"
  proof (cases "data2 = []")
    case True
    then have "h = m_hash s2" "data3 = []" using l by auto
    then show ?thesis using True c by simp
  next
    case False
    then show ?thesis using absorbed_loop [OF c(2) _ l] c(4) by auto
  qed
  then obtain e where e: "data2 = e @ data3" "absorbed seed ((bs @ c) @ e) (s2\<lparr>m_hash := h\<rparr>)"
    by blast
  have short: "length data3 < 4" using murmur2_loop_rest [of "m_hash s2" data2] l by simp
  obtain f where f: "data3 = f @ data4" "absorbed seed (((bs @ c) @ e) @ f) s4"
      "m_size s4 = m_size s2" "data4 = []"
    using MixTail_absorbs [OF e(2) m2] short by auto
  have "Add s data = s4"
    using m l m2 by (simp add: Add_def Let_def)
  then show "absorbed seed (bs @ data) (Add s data)"
      and "m_size (Add s data) = m_size s + of_nat (length data)"
    using c e f by simp_all
qed

lemma Add_chunks:
  assumes "absorbed seed bs s" "m_size s = of_nat (length bs)"
  shows "absorbed seed (bs @ concat chunks) (foldl Add s chunks)
     \<and> m_size (foldl Add s chunks) = of_nat (length (bs @ concat chunks))"
  using assms
proof (induction chunks arbitrary: bs s)
  case (Cons d chunks)
  from Cons.IH [OF Add_absorbs(1) [OF Cons.prems(1)]] Add_absorbs(2) [OF Cons.prems(1)]
  show ?case using Cons.prems(2) by simp
qed simp

lemma CMurmurHash2A_chunks:
  "End (foldl Add (Begin seed) chunks) = MurmurHash2A (concat chunks) seed"
proof -
  let ?s = "foldl Add (Begin seed) chunks"
  have "absorbed seed (concat chunks) ?s" and size: "m_size ?s = of_nat (length (concat chunks))"
    using Add_chunks [OF absorbed_Nil, of seed chunks] by (simp_all add: Begin_def)
  then obtain r where r: "murmur2_loop seed (concat chunks) = (m_hash ?s, r)" "m_tail ?s = le_word r"
    by (auto simp: absorbed_def)
  then have "tail_word r = m_tail ?s"
    using murmur2_loop_rest [of seed "concat chunks"] by (simp add: tail_word_le_word)
  then show ?thesis using r(1) size by (simp add: End_def MurmurHash2A_def Let_def)
qed

section \<open>Every mixing step is a bijection\<close>

lemma xorshift_inj:
  fixes x y :: "'a::len word"
  assumes "0 < r" "x XOR drop_bit r x = y XOR drop_bit r y"
  shows "x = y"
proof -
  let ?z = "x XOR y"
  have "?z = drop_bit r ?z"
  proof (rule bit_word_eqI)
    fix n assume "n < LENGTH('a)"
    have "bit (x XOR drop_bit r x) n = bit (y XOR drop_bit r y) n" using assms(2) by simp
    then show "bit ?z n \<longleftrightarrow> bit (drop_bit r ?z) n" by (auto simp: bit_simps)
  qed
  then have step: "bit ?z n \<longleftrightarrow> bit ?z (r + n)" for n by (metis bit_drop_bit_eq comp_apply)
  have "bit ?z n \<longleftrightarrow> bit ?z (k * r + n)" for n k
    by (induction k) (use step in \<open>auto simp: add.assoc\<close>)
  then have "\<not> bit ?z n" for n
  proof -
    have "LENGTH('a) \<le> LENGTH('a) * r + n" using assms(1) by (simp add: trans_le_add1)
    then have "\<not> bit ?z (LENGTH('a) * r + n)" by (metis bit_imp_le_length not_less)
    then show ?thesis using \<open>\<And>n k. bit ?z n \<longleftrightarrow> bit ?z (k * r + n)\<close> by blast
  qed
  then have "?z = 0" by (intro bit_word_eqI) simp
  then show ?thesis by (metis xor.right_neutral xor.assoc xor_self_eq xor.commute)
qed

lemma mult_m32_inj: "(x * m32 = y * m32) \<longleftrightarrow> x = (y :: u32)"
proof
  assume eq: "x * m32 = y * m32"
  have inv: "(m32 * 0xe59b19bd :: u32) = 1" by simp
  have "x * (m32 * 0xe59b19bd) = y * (m32 * 0xe59b19bd)"
    unfolding mult.assoc [symmetric] eq ..
  then show "x = y" unfolding inv by simp
qed simp

lemma mult_m64_inj: "(x * m64 = y * m64) \<longleftrightarrow> x = (y :: u64)"
proof
  assume eq: "x * m64 = y * m64"
  have inv: "(m64 * 0x5f7a0ea7e59b19bd :: u64) = 1" by simp
  have "x * (m64 * 0x5f7a0ea7e59b19bd) = y * (m64 * 0x5f7a0ea7e59b19bd)"
    unfolding mult.assoc [symmetric] eq ..
  then show "x = y" unfolding inv by simp
qed simp

lemma xor_left_inj: "(k XOR x = k XOR y) \<longleftrightarrow> x = (y :: 'a::len word)"
  by (metis xor.assoc xor.left_neutral xor_self_eq)

lemma xor_right_inj: "(x XOR k = y XOR k) \<longleftrightarrow> x = (y :: 'a::len word)"
  by (metis xor.commute xor_left_inj)

lemma mmix_inj: "(mmix h k = mmix h' k) \<longleftrightarrow> h = h'"
  by (simp only: mmix_def Let_def xor_right_inj mult_m32_inj)

lemma finish_inj: "(finish h = finish h') \<longleftrightarrow> h = h'"
proof
  assume "finish h = finish h'"
  then have "(h XOR drop_bit 13 h) * m32 = (h' XOR drop_bit 13 h') * m32"
    unfolding finish_def Let_def by (rule xorshift_inj [rotated]) simp
  then have "h XOR drop_bit 13 h = h' XOR drop_bit 13 h'"
    by (simp only: mult_m32_inj)
  then show "h = h'" by (rule xorshift_inj [rotated]) simp
qed simp

lemma tail_mix_inj: "(tail_mix h bs = tail_mix h' bs) \<longleftrightarrow> h = h'"
  by (induction h bs rule: tail_mix.induct)
    (simp_all only: tail_mix.simps mult_m32_inj xor_right_inj)

lemma murmur2_loop_inj: "(fst (murmur2_loop h data) = fst (murmur2_loop h' data)) \<longleftrightarrow> h = h'"
  by (induction h data arbitrary: h' rule: murmur2_loop.induct)
    (simp_all add: mmix_inj del: le_word.simps)

text \<open>The bytes the word loops leave over do not depend on the hash.\<close>

fun rest4 :: "bytes \<Rightarrow> bytes" where
  "rest4 (a # b # c # d # data) = rest4 data"
| "rest4 data = data"

fun rest8 :: "bytes \<Rightarrow> bytes" where
  "rest8 (a # b # c # d # e # f # g # i # data) = rest8 data"
| "rest8 data = data"

lemma murmur2_loop_rest4: "snd (murmur2_loop h data) = rest4 data"
  by (induction h data rule: murmur2_loop.induct) (simp_all del: le_word.simps)

lemma MurmurHash2_seed_inj: "(MurmurHash2 key seed = MurmurHash2 key seed') \<longleftrightarrow> seed = seed'"
  by (simp add: MurmurHash2_def case_prod_beta Let_def finish_inj tail_mix_inj
      murmur2_loop_rest4 murmur2_loop_inj xor_right_inj)

lemma murmur64a_loop_inj:
  "(fst (murmur64a_loop h data) = fst (murmur64a_loop h' data)) \<longleftrightarrow> h = h'"
  by (induction h data arbitrary: h' rule: murmur64a_loop.induct)
    (simp_all only: murmur64a_loop.simps Let_def mult_m64_inj xor_right_inj fst_conv)

lemma murmur64a_loop_rest8: "snd (murmur64a_loop h data) = rest8 data"
  by (induction h data rule: murmur64a_loop.induct) (simp_all add: Let_def del: le_word.simps)

lemma fold_xor_inj:
  "(fold (\<lambda>i h. h XOR f i) is h = fold (\<lambda>i h. h XOR f i) is h') \<longleftrightarrow> h = (h' :: 'a::len word)"
  by (induction "is" arbitrary: h h') (simp_all add: xor_right_inj)

lemma murmur64a_tail_inj: "(murmur64a_tail h bs = murmur64a_tail h' bs) \<longleftrightarrow> h = h'"
  by (simp add: murmur64a_tail_def mult_m64_inj fold_xor_inj)

lemma MurmurHash64A_seed_inj: "(MurmurHash64A key seed = MurmurHash64A key seed') \<longleftrightarrow> seed = seed'"
proof
  assume eq: "MurmurHash64A key seed = MurmurHash64A key seed'"
  let ?k = "of_nat (length key) * m64"
  let ?h = "\<lambda>s. murmur64a_tail (fst (murmur64a_loop (s XOR ?k) key)) (snd (murmur64a_loop (s XOR ?k) key))"
  have "(?h seed XOR drop_bit 47 (?h seed)) * m64 = (?h seed' XOR drop_bit 47 (?h seed')) * m64"
    using eq unfolding MurmurHash64A_def Let_def case_prod_beta
    by (rule xorshift_inj [rotated]) simp
  then have "?h seed XOR drop_bit 47 (?h seed) = ?h seed' XOR drop_bit 47 (?h seed')"
    by (simp only: mult_m64_inj)
  then have "?h seed = ?h seed'" by (rule xorshift_inj [rotated]) simp
  then show "seed = seed'"
    by (simp only: murmur64a_loop_rest8 murmur64a_tail_inj murmur64a_loop_inj xor_right_inj)
qed simp

section \<open>Properties\<close>

text \<open>
  C40: the variant for platforms without unaligned reads and the endian-neutral variant compute
  the same hash as \<open>MurmurHash2\<close>, whatever the alignment of the key.
\<close>

theorem murmur_variants_agree:
  assumes "align < 4"
  shows "MurmurHashAligned2 align key seed = MurmurHash2 key seed
    \<and> MurmurHashNeutral2 key seed = MurmurHash2 key seed"
  using MurmurHashAligned2_eq [OF assms] MurmurHashNeutral2_eq by simp

theorem murmur_variants_agree_witness:
  "MurmurHashAligned2 3 ''bundle/1_2_3_.jpg'' 7 = MurmurHash2 ''bundle/1_2_3_.jpg'' 7"
  using murmur_variants_agree [of 3 "''bundle/1_2_3_.jpg''" 7] by simp

text \<open>
  The incremental \<open>CMurmurHash2A\<close> gives the hash of the concatenation, however the data is
  cut into \<open>Add\<close> calls.
\<close>

theorem murmur_incremental: "End (foldl Add (Begin seed) chunks) = MurmurHash2A (concat chunks) seed"
  by (rule CMurmurHash2A_chunks)

text \<open>For a fixed key, different seeds give different hashes, in both widths.\<close>

theorem murmur_seed_injective:
  "(MurmurHash2 key s1 = MurmurHash2 key s2 \<longleftrightarrow> s1 = s2)
   \<and> (MurmurHash64A key t1 = MurmurHash64A key t2 \<longleftrightarrow> t1 = t2)"
  by (simp add: MurmurHash2_seed_inj MurmurHash64A_seed_inj)

end
