(* ===== verification/CString.thy ===== *)
theory CString
  imports Prelude
begin

text \<open>
  What the sources use of the C and C++ string library: \<open>std::string\<close> as a list of
  characters with \<open>find\<close>, \<open>rfind\<close>, \<open>find_first_of\<close> and \<open>substr\<close> over \<open>size_t\<close>
  positions, \<open>c_str\<close>, \<open>boost::split\<close> with \<open>is_any_of\<close>, \<open>boost::starts_with\<close>,
  number printing (\<open>operator<<\<close>, \<open>%08x\<close>) and \<open>atol\<close>.
\<close>

section \<open>Definitions\<close>

definition npos :: nat where
  "npos = 2 ^ 64 - 1"

definition szadd :: "nat \<Rightarrow> nat \<Rightarrow> nat" where
  "szadd a b = (a + b) mod 2 ^ 64"

definition szsub :: "nat \<Rightarrow> nat \<Rightarrow> nat" where
  "szsub a b = (a + (2 ^ 64 - b)) mod 2 ^ 64"

definition c_str :: "string \<Rightarrow> string" where
  "c_str s = takeWhile (\<lambda>c. c \<noteq> NUL) s"

definition rfind :: "string \<Rightarrow> char \<Rightarrow> nat" where
  "rfind s c = (if c \<in> set s then length s - 1 - length (takeWhile (\<lambda>x. x \<noteq> c) (rev s)) else npos)"

definition find_first_of :: "string \<Rightarrow> char \<Rightarrow> nat" where
  "find_first_of s c = (if c \<in> set s then length (takeWhile (\<lambda>x. x \<noteq> c) s) else npos)"

definition starts_with :: "string \<Rightarrow> string \<Rightarrow> bool" where
  "starts_with s p \<longleftrightarrow> take (length p) s = p"

fun find_at :: "string \<Rightarrow> string \<Rightarrow> nat \<Rightarrow> nat" where
  "find_at [] pat i = (if pat = [] then i else npos)"
| "find_at (c # cs) pat i = (if starts_with (c # cs) pat then i else find_at cs pat (Suc i))"

definition str_find :: "string \<Rightarrow> string \<Rightarrow> nat \<Rightarrow> nat" where
  "str_find s pat pos = (if length s < pos then npos else find_at (drop pos s) pat pos)"

definition substr :: "string \<Rightarrow> nat \<Rightarrow> nat \<Rightarrow> string" where
  "substr s pos n = take n (drop pos s)"

fun split_any :: "char set \<Rightarrow> string \<Rightarrow> string list" where
  "split_any seps [] = [[]]"
| "split_any seps (c # cs) =
     (if c \<in> seps then [] # split_any seps cs
      else case split_any seps cs of [] \<Rightarrow> [[c]] | t # ts \<Rightarrow> (c # t) # ts)"

definition tolower :: "char \<Rightarrow> char" where
  "tolower c = (if 65 \<le> (of_char c :: nat) \<and> (of_char c :: nat) \<le> 90 then char_of (of_char c + 32 :: nat) else c)"

definition toupper :: "char \<Rightarrow> char" where
  "toupper c = (if 97 \<le> (of_char c :: nat) \<and> (of_char c :: nat) \<le> 122 then char_of (of_char c - 32 :: nat) else c)"

definition schar :: "char \<Rightarrow> int" where
  "schar c = (let n = of_char c :: int in if n < 128 then n else n - 256)"

definition digit_char :: "nat \<Rightarrow> char" where
  "digit_char d = (if d < 10 then char_of (48 + d) else char_of (87 + d))"

definition show_nat :: "nat \<Rightarrow> string" where
  "show_nat n = map digit_char (rev (digits_rev 10 n))"

definition show_int :: "int \<Rightarrow> string" where
  "show_int i = (if i < 0 then CHR ''-'' # show_nat (nat (- i)) else show_nat (nat i))"

definition show_hex8 :: "nat \<Rightarrow> string" where
  "show_hex8 n =
     (let s = map digit_char (rev (digits_rev 16 n)) in replicate (8 - length s) (CHR ''0'') @ s)"

definition is_digit :: "char \<Rightarrow> bool" where
  "is_digit c \<longleftrightarrow> 48 \<le> (of_char c :: nat) \<and> (of_char c :: nat) \<le> 57"

definition is_space :: "char \<Rightarrow> bool" where
  "is_space c \<longleftrightarrow> (of_char c :: nat) = 32 \<or> (9 \<le> (of_char c :: nat) \<and> (of_char c :: nat) \<le> 13)"

definition digits_of :: "string \<Rightarrow> nat list" where
  "digits_of s = map (\<lambda>c. of_char c - 48) (takeWhile is_digit s)"

text \<open>\<open>atol\<close> is \<open>strtol\<close> in base 10: it skips white space, takes a sign and saturates.\<close>

definition atol :: "string \<Rightarrow> int" where
  "atol s =
     (case dropWhile is_space (c_str s) of
        [] \<Rightarrow> 0
      | c # cs \<Rightarrow>
          if c = CHR ''-'' then max (- (2 ^ 63)) (- int (digits_val 10 (digits_of cs)))
          else if c = CHR ''+'' then min (2 ^ 63 - 1) (int (digits_val 10 (digits_of cs)))
          else min (2 ^ 63 - 1) (int (digits_val 10 (digits_of (c # cs)))))"

section \<open>Searching\<close>

lemma szsub_le: "b \<le> a \<Longrightarrow> a < 2 ^ 64 \<Longrightarrow> szsub a b = a - b"
proof -
  assume "b \<le> a" "a < 2 ^ 64"
  then have eq: "a + (2 ^ 64 - b) = (a - b) + 2 ^ 64" and lt: "a - b < 2 ^ 64" by auto
  show ?thesis unfolding szsub_def eq using lt by (simp only: mod_add_self2 mod_less)
qed

lemma szadd_less [bundle_simps]: "a + b < 2 ^ 64 \<Longrightarrow> szadd a b = a + b"
  by (simp add: szadd_def)

lemma c_str_id [simp]: "NUL \<notin> set s \<Longrightarrow> c_str s = s"
  unfolding c_str_def by (induction s) auto

lemma c_str_no_NUL: "NUL \<notin> set (c_str s)"
  unfolding c_str_def by (auto dest: set_takeWhileD)

lemma takeWhile_until: "c \<notin> set xs \<Longrightarrow> takeWhile (\<lambda>x. x \<noteq> c) (xs @ c # ys) = xs"
  by (induction xs) auto

lemma rfind_append: "c \<notin> set t \<Longrightarrow> rfind (s @ c # t) c = length s"
proof -
  assume c: "c \<notin> set t"
  have "takeWhile (\<lambda>x. x \<noteq> c) (rev (s @ c # t)) = rev t"
    using takeWhile_until [of c "rev t" "rev s"] c by simp
  then show ?thesis by (simp add: rfind_def)
qed

lemma rfind_npos: "c \<notin> set s \<Longrightarrow> rfind s c = npos"
  by (simp add: rfind_def)

lemma find_first_of_append: "c \<notin> set s \<Longrightarrow> find_first_of (s @ c # t) c = length s"
  using takeWhile_until [of c s t] by (simp add: find_first_of_def)

lemma find_first_of_npos: "c \<notin> set s \<Longrightarrow> find_first_of s c = npos"
  by (simp add: find_first_of_def)

lemma starts_with_append [simp]: "starts_with (p @ s) p"
  by (simp add: starts_with_def)

lemma starts_with_iff: "starts_with s p \<longleftrightarrow> (\<exists>t. s = p @ t)"
  by (metis append_take_drop_id starts_with_append starts_with_def)

lemma substr_middle: "substr (a @ b @ c) (length a) (length b) = b"
  by (simp add: substr_def)

section \<open>Splitting\<close>

lemma split_any_not_Nil [simp]: "split_any seps s \<noteq> []"
  by (induction s) (auto split: list.splits)

lemma split_any_none: "set s \<inter> seps = {} \<Longrightarrow> split_any seps s = [s]"
  by (induction s) auto

lemma split_any_append:
  "set s \<inter> seps = {} \<Longrightarrow> c \<in> seps \<Longrightarrow> split_any seps (s @ c # t) = s # split_any seps t"
  by (induction s) auto

section \<open>Numbers\<close>

lemma of_char_digit_char [simp]: "d < 10 \<Longrightarrow> of_char (digit_char d) = (48 + d :: nat)"
  by (simp add: digit_char_def)

lemma of_char_hex_char: "d < 16 \<Longrightarrow>
  of_char (digit_char d) = (if d < 10 then 48 + d else 87 + d :: nat)"
  by (simp add: digit_char_def)

lemma is_digit_digit_char: "d < 10 \<Longrightarrow> is_digit (digit_char d)"
  by (simp add: is_digit_def)

lemma show_nat_digits: "c \<in> set (show_nat n) \<Longrightarrow> is_digit c"
  by (auto simp: show_nat_def intro: is_digit_digit_char dest: digits_rev_bound [rotated])

lemma show_nat_not_Nil [simp]: "show_nat n \<noteq> []"
  by (simp add: show_nat_def)

lemma is_digit_plain: "is_digit c \<Longrightarrow> c \<notin> set '',/._'' \<and> c \<noteq> NUL \<and> \<not> is_space c
   \<and> c \<noteq> CHR ''-'' \<and> c \<noteq> CHR ''+''"
  by (auto simp: is_digit_def is_space_def)

lemma show_nat_plain: "c \<in> set (show_nat n) \<Longrightarrow> c \<notin> set '',/._'' \<and> c \<noteq> NUL"
  using show_nat_digits is_digit_plain by blast

lemma digits_of_show_nat: "digits_of (show_nat n) = rev (digits_rev 10 n)"
proof -
  have "takeWhile is_digit (show_nat n) = show_nat n"
    by (simp add: takeWhile_eq_all_conv show_nat_digits)
  then have "digits_of (show_nat n) = map (\<lambda>c. of_char c - 48) (show_nat n)"
    by (simp only: digits_of_def)
  also have "\<dots> = map ((\<lambda>c. of_char c - 48) \<circ> digit_char) (rev (digits_rev 10 n))"
    by (simp add: show_nat_def)
  also have "\<dots> = map id (rev (digits_rev 10 n))"
    by (rule map_cong [OF refl]) (auto dest: digits_rev_bound [rotated])
  finally show ?thesis by simp
qed

lemma show_nat_inject: "show_nat m = show_nat n \<longleftrightarrow> m = n"
  by (metis digits_of_show_nat digits_val_digits_rev)

lemma atol_show_nat: "int n < 2 ^ 63 \<Longrightarrow> atol (show_nat n) = int n"
proof -
  assume n: "int n < 2 ^ 63"
  obtain c cs where s: "show_nat n = c # cs"
    by (cases "show_nat n") auto
  then have c: "is_digit c" using show_nat_digits [of c n] by simp
  have nul: "NUL \<notin> set (show_nat n)"
    using show_nat_plain by blast
  have "dropWhile is_space (c_str (show_nat n)) = c # cs"
    using nul s is_digit_plain [OF c] by simp
  moreover have "digits_val 10 (digits_of (c # cs)) = n"
    using digits_of_show_nat [of n] s by simp
  ultimately show ?thesis
    using is_digit_plain [OF c] n by (simp add: atol_def)
qed

lemma show_int_nonneg: "0 \<le> i \<Longrightarrow> show_int i = show_nat (nat i)"
  by (simp add: show_int_def)

subsection \<open>Fixed-width hexadecimal\<close>

definition hex_digits8 :: "nat \<Rightarrow> nat list" where
  "hex_digits8 n = replicate (8 - length (digits_rev 16 n)) 0 @ rev (digits_rev 16 n)"

lemma show_hex8_digits: "show_hex8 n = map digit_char (hex_digits8 n)"
proof -
  have "digit_char 0 = CHR ''0''" by code_simp
  then show ?thesis by (simp add: show_hex8_def hex_digits8_def Let_def)
qed

lemma digits_val_zeros: "digits_val b (replicate k 0 @ ds) = digits_val b ds"
proof (induction ds rule: rev_induct)
  case Nil
  then show ?case by (induction k) (simp_all add: replicate_append_same [symmetric])
next
  case (snoc d ds)
  then show ?case using digits_val_snoc [of b "replicate k 0 @ ds" d] by simp
qed

lemma hex_digits8_val: "digits_val 16 (hex_digits8 n) = n"
  by (simp add: hex_digits8_def digits_val_zeros)

lemma hex_digits8_bound: "d \<in> set (hex_digits8 n) \<Longrightarrow> d < 16"
  by (auto simp: hex_digits8_def dest: digits_rev_bound [rotated])

lemma digit_char_inject: "d < 16 \<Longrightarrow> e < 16 \<Longrightarrow> digit_char d = digit_char e \<longleftrightarrow> d = e"
proof
  assume d: "d < 16" and e: "e < 16" and eq: "digit_char d = digit_char e"
  have "(if d < 10 then 48 + d else 87 + d) = (if e < 10 then 48 + e else 87 + e)"
    using of_char_hex_char [OF d] of_char_hex_char [OF e] eq by metis
  then show "d = e" using d e by (simp split: if_splits)
qed simp

lemma show_hex8_inject: "show_hex8 m = show_hex8 n \<longleftrightarrow> m = n"
proof
  assume "show_hex8 m = show_hex8 n"
  moreover have "inj_on digit_char (set (hex_digits8 m) \<union> set (hex_digits8 n))"
    by (auto simp: inj_on_def digit_char_inject hex_digits8_bound)
  ultimately have "hex_digits8 m = hex_digits8 n"
    by (simp add: show_hex8_digits inj_on_map_eq_map)
  then show "m = n" by (metis hex_digits8_val)
qed simp

lemma length_show_hex8: "n < 2 ^ 32 \<Longrightarrow> length (show_hex8 n) = 8"
proof -
  assume "n < 2 ^ 32"
  then have "length (digits_rev 16 n) \<le> Suc 7"
    by (intro length_digits_rev) auto
  then show ?thesis by (simp add: show_hex8_digits hex_digits8_def)
qed

lemma show_hex8_chars: "c \<in> set (show_hex8 n) \<Longrightarrow> c \<noteq> CHR ''/'' \<and> c \<noteq> NUL \<and> c \<noteq> CHR ''.''"
proof -
  assume "c \<in> set (show_hex8 n)"
  then obtain d where d: "d < 16" "c = digit_char d"
    by (auto simp: show_hex8_digits dest: hex_digits8_bound)
  have "(of_char c :: nat) \<ge> 48"
    using of_char_hex_char [OF d(1)] d by (simp split: if_splits)
  then show ?thesis by auto
qed

section \<open>Occurrences\<close>

text \<open>\<open>occurs s pat j\<close>: the pattern stands at position \<open>j\<close>.\<close>

definition occurs :: "string \<Rightarrow> string \<Rightarrow> nat \<Rightarrow> bool" where
  "occurs s pat j \<longleftrightarrow> j + length pat \<le> length s \<and> take (length pat) (drop j s) = pat"

lemma length_le_of_take: "take (length p) xs = p \<Longrightarrow> length p \<le> length xs"
  by (metis length_take min.cobounded1)

lemma occurs_prefix: "occurs s (p @ q) j \<Longrightarrow> occurs s p j"
proof -
  assume o: "occurs s (p @ q) j"
  then have "take (length p) (take (length (p @ q)) (drop j s)) = take (length p) (p @ q)"
    unfolding occurs_def by simp
  then have "take (length p) (drop j s) = p" by (simp add: min_def split: if_splits)
  then show ?thesis using o by (simp add: occurs_def)
qed

lemma find_at_spec:
  "i + length s < npos \<Longrightarrow> find_at s pat i = r \<Longrightarrow>
     (r = npos \<and> (\<forall>j. \<not> occurs s pat j))
     \<or> (\<exists>d. r = i + d \<and> d \<le> length s \<and> occurs s pat d \<and> (\<forall>j<d. \<not> occurs s pat j))"
proof (induction s pat i rule: find_at.induct)
  case (1 pat i)
  then show ?case by (cases "pat = []") (auto simp: occurs_def)
next
  case (2 c cs pat i)
  have shift: "occurs (c # cs) pat (Suc j) \<longleftrightarrow> occurs cs pat j" for j by (simp add: occurs_def)
  show ?case
  proof (cases "starts_with (c # cs) pat")
    case True
    then have "occurs (c # cs) pat 0"
      using length_le_of_take [of pat "c # cs"] by (auto simp: occurs_def starts_with_def)
    then show ?thesis using True 2 by (intro disjI2 exI [of _ 0]) simp
  next
    case False
    then have no: "\<not> occurs (c # cs) pat 0" by (auto simp: occurs_def starts_with_def)
    have rec: "find_at cs pat (Suc i) = r" using 2 False by simp
    have "Suc i + length cs < npos" using 2 by simp
    from "2.IH" [OF False this rec] show ?thesis
    proof (elim disjE exE conjE)
      assume "r = npos" "\<forall>j. \<not> occurs cs pat j"
      then have "\<not> occurs (c # cs) pat j" for j using no shift by (cases j) auto
      then show ?thesis using \<open>r = npos\<close> by blast
    next
      fix d
      assume d: "r = Suc i + d" "d \<le> length cs" "occurs cs pat d" "\<forall>j<d. \<not> occurs cs pat j"
      then have "\<forall>j<Suc d. \<not> occurs (c # cs) pat j" using no shift by (auto simp: less_Suc_eq_0_disj)
      then show ?thesis using d shift by (intro disjI2 exI [of _ "Suc d"]) simp
    qed
  qed
qed

lemma occurs_drop: "pos \<le> length s \<Longrightarrow> occurs (drop pos s) pat d \<longleftrightarrow> occurs s pat (pos + d)"
  by (auto simp: occurs_def add.commute)

lemma str_find_cases:
  assumes "length s < npos"
  obtains (none) "str_find s pat pos = npos" "\<And>j. pos \<le> j \<Longrightarrow> \<not> occurs s pat j"
    | (found) "pos \<le> str_find s pat pos" "occurs s pat (str_find s pat pos)"
        "\<And>j. pos \<le> j \<Longrightarrow> j < str_find s pat pos \<Longrightarrow> \<not> occurs s pat j"
proof (cases "length s < pos")
  case True
  then show ?thesis using none by (simp add: str_find_def occurs_def)
next
  case False
  then have pos: "pos \<le> length s" by simp
  have "pos + length (drop pos s) < npos" using assms pos by simp
  from find_at_spec [OF this refl, of pat] show ?thesis
  proof (elim disjE exE conjE)
    assume n: "find_at (drop pos s) pat pos = npos" "\<forall>j. \<not> occurs (drop pos s) pat j"
    have "\<not> occurs s pat j" if "pos \<le> j" for j using n(2) occurs_drop [OF pos, of pat "j - pos"] that by simp
    then show ?thesis using none n(1) False by (simp add: str_find_def)
  next
    fix d
    assume d: "find_at (drop pos s) pat pos = pos + d" "occurs (drop pos s) pat d" "\<forall>j<d. \<not> occurs (drop pos s) pat j"
    then have f: "str_find s pat pos = pos + d" using False by (simp add: str_find_def)
    have "\<not> occurs s pat j" if "pos \<le> j" "j < pos + d" for j
      using d(3) occurs_drop [OF pos, of pat "j - pos"] that by simp
    then show ?thesis using found d(2) occurs_drop [OF pos, of pat d] f by simp
  qed
qed

lemma occurs_bound: "occurs s pat j \<Longrightarrow> j + length pat \<le> length s"
  by (simp add: occurs_def)

lemma occurs_nth: "occurs s pat j \<Longrightarrow> i < length pat \<Longrightarrow> s ! (j + i) = pat ! i"
  unfolding occurs_def by (metis add_leD1 le_trans nth_drop nth_take)

lemma str_find_le:
  "length s < npos \<Longrightarrow> occurs s pat j \<Longrightarrow> pos \<le> j \<Longrightarrow> pos \<le> str_find s pat pos \<and> str_find s pat pos \<le> j
     \<and> occurs s pat (str_find s pat pos)"
  by (rule str_find_cases [of s pat pos]) (auto intro: leI)

lemma str_find_found:
  "length s < npos \<Longrightarrow> str_find s pat pos \<noteq> npos \<Longrightarrow> pos \<le> str_find s pat pos \<and> occurs s pat (str_find s pat pos)"
  by (rule str_find_cases [of s pat pos]) auto

end
