(* ===== verification/PathOps.thy ===== *)
theory PathOps
  imports CString
begin

text \<open>
  \<open>src/src/base3/pathops.cc\<close> (the POSIX branch): joining and splitting path names, and
  the reading of a path name as a list of components that the file-system model uses.
\<close>

section \<open>Definitions\<close>

definition IsPathSep :: "char \<Rightarrow> bool" where
  "IsPathSep c \<longleftrightarrow> c = CHR ''/''"

definition IsAbspath :: "string \<Rightarrow> bool" where
  "IsAbspath path \<longleftrightarrow> path \<noteq> [] \<and> IsPathSep (path ! 0)"

definition IsDirectory :: "string \<Rightarrow> bool" where
  "IsDirectory path \<longleftrightarrow> path \<noteq> [] \<and> IsPathSep (path ! (length path - 1))"

definition PathJoin :: "string \<Rightarrow> string \<Rightarrow> string" where
  "PathJoin a b =
     (if b = [] then a
      else if a = [] then b
      else if IsAbspath b then b
      else if IsDirectory a then a @ b
      else a @ CHR ''/'' # b)"

definition NormalizeDirectory :: "string \<Rightarrow> string" where
  "NormalizeDirectory dir =
     (if dir = [] then dir
      else if \<not> IsPathSep (dir ! (length dir - 1)) then dir @ ''/'' else dir)"

text \<open>The loops run a pointer backwards from the last character; \<open>p\<close> counts what is left.\<close>

fun basename_loop :: "string \<Rightarrow> nat \<Rightarrow> string" where
  "basename_loop path 0 = path"
| "basename_loop path (Suc p) =
     (if IsPathSep (path ! p) then drop (Suc p) path else basename_loop path p)"

definition Basename :: "string \<Rightarrow> string" where
  "Basename path = basename_loop path (length path)"

fun dirname_loop :: "string \<Rightarrow> nat \<Rightarrow> string" where
  "dirname_loop path 0 = []"
| "dirname_loop path (Suc p) =
     (if IsPathSep (path ! p) then take p path else dirname_loop path p)"

definition Dirname :: "string \<Rightarrow> string" where
  "Dirname path = dirname_loop path (length path)"

section \<open>Splitting at the last separator\<close>

lemma split_loops_append:
  assumes "CHR ''/'' \<notin> set b" "p \<le> length b"
  shows "basename_loop (a @ CHR ''/'' # b) (Suc (length a) + p) = b
     \<and> dirname_loop (a @ CHR ''/'' # b) (Suc (length a) + p) = a"
  using assms(2)
proof (induction p)
  case 0
  show ?case by (simp add: IsPathSep_def)
next
  case (Suc p)
  then have "b ! p \<in> set b" by simp
  with assms(1) have "b ! p \<noteq> CHR ''/''" by metis
  then show ?case using Suc by (simp add: IsPathSep_def nth_append)
qed

lemma Basename_append: "CHR ''/'' \<notin> set b \<Longrightarrow> Basename (a @ CHR ''/'' # b) = b"
  using split_loops_append [of b "length b" a] by (simp add: Basename_def)

lemma Dirname_append: "CHR ''/'' \<notin> set b \<Longrightarrow> Dirname (a @ CHR ''/'' # b) = a"
  using split_loops_append [of b "length b" a] by (simp add: Dirname_def)

lemma no_sep_loops:
  assumes "CHR ''/'' \<notin> set path" "p \<le> length path"
  shows "basename_loop path p = path \<and> dirname_loop path p = []"
  using assms(2)
proof (induction p)
  case (Suc p)
  then have "path ! p \<in> set path" by simp
  with assms(1) have "path ! p \<noteq> CHR ''/''" by metis
  then show ?case using Suc by (simp add: IsPathSep_def)
qed simp

lemma Basename_plain: "CHR ''/'' \<notin> set path \<Longrightarrow> Basename path = path"
  by (simp add: Basename_def no_sep_loops)

lemma Dirname_plain: "CHR ''/'' \<notin> set path \<Longrightarrow> Dirname path = []"
  by (simp add: Dirname_def no_sep_loops)

lemma Dirname_Basename:
  "path = (if CHR ''/'' \<in> set path then Dirname path @ CHR ''/'' # Basename path else Basename path)
     \<and> CHR ''/'' \<notin> set (Basename path)"
proof (cases "CHR ''/'' \<in> set path")
  case True
  then obtain a b where "path = a @ CHR ''/'' # b" "CHR ''/'' \<notin> set b"
    by (meson split_list_last)
  then show ?thesis by (simp add: Dirname_append Basename_append)
next
  case False
  then show ?thesis by (simp add: Basename_plain)
qed

section \<open>Path names as component lists\<close>

text \<open>
  The kernel reads a path name as a starting directory (the root or the working
  directory) and a list of components; empty components and \<open>.\<close> are skipped. Symbolic
  links and \<open>..\<close> are outside the model.
\<close>

type_synonym path = "bool \<times> string list"

definition components :: "string \<Rightarrow> string list" where
  "components p = filter (\<lambda>c. c \<noteq> [] \<and> c \<noteq> ''.'') (split_any {CHR ''/''} p)"

definition resolve :: "string \<Rightarrow> path" where
  "resolve p = (IsAbspath p, components p)"

lemma split_any_append_sep:
  "c \<in> seps \<Longrightarrow> split_any seps (s @ c # t) = split_any seps s @ split_any seps t"
proof (induction s)
  case (Cons a s)
  then show ?case
    by (cases "split_any seps s") (auto simp: split_any_not_Nil)
qed simp

lemma components_Nil [simp]: "components [] = []"
  by (simp add: components_def)

lemma components_append: "components (a @ CHR ''/'' # b) = components a @ components b"
  by (simp add: components_def split_any_append_sep)

lemma components_slash: "components (a @ ''/'') = components a"
  using components_append [of a "[]"] by (simp add: components_def)

lemma components_plain:
  "CHR ''/'' \<notin> set p \<Longrightarrow> p \<noteq> [] \<Longrightarrow> p \<noteq> ''.'' \<Longrightarrow> components p = [p]"
  by (simp add: components_def split_any_none)

lemma IsDirectory_snoc: "IsDirectory a \<Longrightarrow> \<exists>a'. a = a' @ ''/''"
  by (cases a rule: rev_cases) (auto simp: IsDirectory_def IsPathSep_def)

lemma components_PathJoin:
  assumes "\<not> IsAbspath b"
  shows "components (PathJoin a b) = components a @ components b"
proof (cases "a = [] \<or> b = []")
  case True
  then show ?thesis by (auto simp: PathJoin_def)
next
  case False
  show ?thesis
  proof (cases "IsDirectory a")
    case True
    then obtain a' where "a = a' @ ''/''" using IsDirectory_snoc by blast
    then show ?thesis
      using False assms True components_append [of a' b] components_slash [of a']
      by (simp add: PathJoin_def)
  next
    case notdir: False
    then show ?thesis using False assms by (simp add: PathJoin_def components_append)
  qed
qed

lemma IsAbspath_append: "a \<noteq> [] \<Longrightarrow> IsAbspath (a @ b) = IsAbspath a"
  by (cases a) (auto simp: IsAbspath_def)

lemma resolve_PathJoin:
  assumes "\<not> IsAbspath b"
  shows "resolve (PathJoin a b) = (IsAbspath a, components a @ components b)"
proof -
  have "IsAbspath (PathJoin a b) = IsAbspath a"
    using assms by (auto simp: PathJoin_def IsAbspath_append) (simp add: IsAbspath_def)
  then show ?thesis by (simp add: resolve_def components_PathJoin assms)
qed

section \<open>Properties\<close>

text \<open>
  \<open>Dirname\<close> and \<open>Basename\<close> cut a path at its last separator: put together again they are
  the path, and the base name has no separator.
\<close>

theorem dirname_basename_split:
  "path = (if CHR ''/'' \<in> set path then Dirname path @ CHR ''/'' # Basename path else Basename path)
     \<and> CHR ''/'' \<notin> set (Basename path)"
  by (rule Dirname_Basename)

text \<open>
  A joined path names what the second path names from the directory the first one names,
  whether or not the first ends in a separator.
\<close>

theorem path_join_resolves:
  assumes "\<not> IsAbspath b"
  shows "resolve (PathJoin a b) = (IsAbspath a, components a @ components b)"
  using assms by (rule resolve_PathJoin)

theorem path_join_resolves_witness:
  "resolve (PathJoin ''/mnt/mfs/'' ''p/20120512'') = (True, [''mnt'', ''mfs'', ''p'', ''20120512''])"
proof -
  have "\<not> IsAbspath ''p/20120512''" by code_simp
  then have "resolve (PathJoin ''/mnt/mfs/'' ''p/20120512'')
      = (IsAbspath ''/mnt/mfs/'', components ''/mnt/mfs/'' @ components ''p/20120512'')"
    by (rule path_join_resolves)
  also have "\<dots> = (True, [''mnt'', ''mfs'', ''p'', ''20120512''])" by code_simp
  finally show ?thesis .
qed

end
