(* ===== verification/BundleUrl.thy ===== *)
theory BundleUrl
  imports Sixty Murmur PathOps
begin

text \<open>
  The URL part of \<open>src/src/bundle/bundle.h\<close> and \<open>bundle.cc\<close>: \<open>Info\<close>, the two URL
  schemes (\<open>ExtractSimple\<close>/\<open>BuildSimple\<close> and \<open>ExtractWithEncode\<close>/\<open>BuildWithEncode\<close>),
  \<open>Setting\<close>, the rounding functions and \<open>Bid2Filename\<close>. An extractor that gets an
  \<open>Info *\<close> is a function from the old to the new \<open>Info\<close>, with the returned \<open>bool\<close>
  beside it.
\<close>

section \<open>Definitions\<close>

record Info =
  info_id :: int
  info_name :: string
  info_offset :: nat
  info_size :: nat
  info_datetime :: string
  info_prefix :: string
  info_postfix :: string

definition Info0 :: Info where
  "Info0 = \<lparr>info_id = -1, info_name = [], info_offset = 0, info_size = 0, info_datetime = [], info_prefix = [], info_postfix = []\<rparr>"

type_synonym ExtractUrl = "string \<Rightarrow> Info \<Rightarrow> bool \<times> Info"
type_synonym BuildUrl = "Info \<Rightarrow> string"

definition url_seps :: "char set" where
  "url_seps = set '',/._''"

definition ExtractSimple :: ExtractUrl where
  "ExtractSimple url info =
     (let u = c_str url;
          dot = rfind u (CHR ''.'');
          last_slash = rfind u (CHR ''/'')
      in if npos = dot \<or> npos = dot then (False, info)
         else
           let info = info\<lparr>info_prefix := substr u 0 last_slash\<rparr>;
               part_three = substr u (szadd last_slash 1) (szsub (szsub dot last_slash) 1);
               vs = split_any url_seps part_three
           in if length vs < 3 then (False, info)
              else (True, info\<lparr>info_id := wrap32 (atol (vs ! 0)),
                               info_offset := to_size (atol (vs ! 1)),
                               info_size := to_size (atol (vs ! 2)),
                               info_postfix := drop dot u\<rparr>))"

definition BuildSimple :: BuildUrl where
  "BuildSimple info =
     (if info_prefix info \<noteq> [] then info_prefix info @ ''/'' else [])
     @ (if info_id info \<noteq> -1 then show_int (info_id info) else info_name info)
     @ '','' @ show_nat (info_offset info) @ '','' @ show_nat (info_size info)
     @ (if info_postfix info \<noteq> [] then info_postfix info else [])"

text \<open>The string both sides hash (both print the same fields in the same way).\<close>

definition hash_text :: "string \<Rightarrow> int \<Rightarrow> nat \<Rightarrow> nat \<Rightarrow> string \<Rightarrow> string" where
  "hash_text pre i off sz post =
     pre @ ''/'' @ show_int i @ ''_'' @ show_nat off @ ''_'' @ show_nat sz @ ''_'' @ post"

definition ExtractWithEncode :: ExtractUrl where
  "ExtractWithEncode url info =
     (let u = c_str url;
          dot = rfind u (CHR ''.'');
          last_slash = rfind u (CHR ''/'')
      in if npos = dot \<or> npos = dot then (False, info)
         else
           let coded_part = substr u (szadd last_slash 1) (szsub (szsub dot last_slash) 1);
               vs = split_any url_seps coded_part
           in if length vs \<noteq> 4 then (False, info)
              else
                let hash = to_u32 (FromSixty (vs ! 3)) in
                if hash = to_u32 (-1) then (False, info)
                else
                  let pre = substr u 0 last_slash;
                      post = drop dot u;
                      i = wrap32 (FromSixty (vs ! 0));
                      off = to_size (FromSixty (vs ! 1));
                      sz = to_size (FromSixty (vs ! 2));
                      this_hash = MurmurHash2 (hash_text pre i off sz post) 0
                  in if unat this_hash \<noteq> hash then (False, info)
                     else (True, info\<lparr>info_id := i, info_offset := off, info_size := sz,
                                      info_prefix := pre, info_postfix := post\<rparr>))"

definition BuildWithEncode :: BuildUrl where
  "BuildWithEncode info =
     (let hash = MurmurHash2 (hash_text (info_prefix info) (info_id info) (info_offset info) (info_size info)
                                (info_postfix info)) 0
      in info_prefix info @ ''/'' @ ToSixty (info_id info) @ ''_''
         @ ToSixty (wrap64 (int (info_offset info))) @ ''_''
         @ ToSixty (wrap64 (int (info_size info))) @ ''_''
         @ ToSixty (uint hash) @ info_postfix info)"

record Setting =
  max_bundle_size :: nat
  bundle_count_per_day :: int
  file_count_level_1 :: nat
  file_count_level_2 :: nat
  url_extract :: ExtractUrl
  url_build :: BuildUrl

definition kFileHeaderSize :: nat where "kFileHeaderSize = 512"
definition kUrlSize :: nat where "kUrlSize = 256"
definition kUserDataSize :: nat where "kUserDataSize = kFileHeaderSize - kUrlSize - 4 * 4"
definition kBundleHeaderSize :: nat where "kBundleHeaderSize = 1024"
definition kBundleCountPerDay :: int where "kBundleCountPerDay = 50 * 400"
definition kMaxBundleSize :: nat where "kMaxBundleSize = 2 * 1024 * 1024 * 1024"

lemmas bundle_consts = kFileHeaderSize_def kUrlSize_def kUserDataSize_def kBundleHeaderSize_def
  kBundleCountPerDay_def kMaxBundleSize_def

definition g_default_setting :: Setting where
  "g_default_setting =
     \<lparr>max_bundle_size = kMaxBundleSize, bundle_count_per_day = kBundleCountPerDay,
      file_count_level_1 = 50, file_count_level_2 = 400,
      url_extract = ExtractWithEncode, url_build = BuildWithEncode\<rparr>"

text \<open>\<open>SetSetting\<close> overwrites the global; the model passes the global as an argument.\<close>

definition SetSetting :: "Setting \<Rightarrow> Setting \<Rightarrow> Setting" where
  "SetSetting g setting = setting"

definition Align1K :: "nat \<Rightarrow> nat" where
  "Align1K v = (let a = v mod 1024 in if a \<noteq> 0 then szsub (szadd v 1024) a else v)"

definition Align4K :: "nat \<Rightarrow> nat" where
  "Align4K v = (let a = v mod 4096 in if a \<noteq> 0 then szsub (szadd v 4096) a else v)"

text \<open>\<open>char sz[18]\<close> holds 17 characters; \<open>snprintf\<close> would cut anything longer.\<close>

definition Bid2Filename :: "Setting \<Rightarrow> int \<Rightarrow> string" where
  "Bid2Filename g bid =
     take 17 (show_hex8 (to_u32 bid div file_count_level_1 g) @ ''/''
              @ show_hex8 (to_u32 bid mod file_count_level_2 g))"

section \<open>Rounding\<close>

text \<open>Away from the top of the \<open>size_t\<close> range \<open>Align1K\<close> rounds up to a multiple of 1024.\<close>

lemma round_up:
  assumes "v = q * 1024 + r" "0 < r" "r < (1024::nat)"
  shows "(v + 1023) div 1024 * 1024 = v + 1024 - r"
proof -
  have "(v + 1023) div 1024 = Suc q" using assms by (intro div_nat_eqI) auto
  then show ?thesis using assms by simp
qed

lemma Align1K_eq:
  assumes v: "v + 1024 < 2 ^ 64"
  shows "Align1K v = (v + 1023) div 1024 * 1024"
proof (cases "v mod 1024 = 0")
  case True
  then obtain k where "v = k * 1024" by (metis mod_0_imp_dvd dvd_def mult.commute)
  then show ?thesis by (simp add: Align1K_def)
next
  case False
  have "v mod 1024 \<le> v + 1024" by (meson mod_less_eq_dividend trans_le_add1)
  then have "szsub (szadd v 1024) (v mod 1024) = v + 1024 - v mod 1024"
    unfolding szadd_less [OF v] using v by (rule szsub_le)
  moreover have "(v + 1023) div 1024 * 1024 = v + 1024 - v mod 1024"
    using False by (intro round_up [of _ "v div 1024"]) simp_all
  ultimately show ?thesis using False by (simp add: Align1K_def Let_def)
qed

lemma Align1K_props:
  assumes "v + 1024 < 2 ^ 64"
  shows "v \<le> Align1K v" "Align1K v < v + 1024" "1024 dvd Align1K v"
  unfolding Align1K_eq [OF assms] by simp_all

section \<open>Bundle file names\<close>

definition levels_ok :: "Setting \<Rightarrow> bool" where
  "levels_ok g \<longleftrightarrow> 0 < file_count_level_1 g \<and> file_count_level_1 g \<le> file_count_level_2 g
     \<and> file_count_level_2 g \<le> 2 ^ 32"

lemma levels_ok_default: "levels_ok g_default_setting"
  by (simp add: levels_ok_def g_default_setting_def)

lemma Bid2Filename_parts:
  assumes "levels_ok g"
  shows "Bid2Filename g bid = show_hex8 (to_u32 bid div file_count_level_1 g) @ ''/''
     @ show_hex8 (to_u32 bid mod file_count_level_2 g)"
    and "length (show_hex8 (to_u32 bid div file_count_level_1 g)) = 8"
    and "length (show_hex8 (to_u32 bid mod file_count_level_2 g)) = 8"
proof -
  have "to_u32 bid div file_count_level_1 g < 2 ^ 32"
    by (rule le_less_trans [OF div_le_dividend to_u32_bound])
  then show 1: "length (show_hex8 (to_u32 bid div file_count_level_1 g)) = 8"
    by (rule length_show_hex8)
  have "to_u32 bid mod file_count_level_2 g < 2 ^ 32"
    using assms by (intro less_le_trans [OF mod_less_divisor]) (auto simp: levels_ok_def)
  then show 2: "length (show_hex8 (to_u32 bid mod file_count_level_2 g)) = 8"
    by (rule length_show_hex8)
  show "Bid2Filename g bid = show_hex8 (to_u32 bid div file_count_level_1 g) @ ''/''
     @ show_hex8 (to_u32 bid mod file_count_level_2 g)"
    using 1 2 by (simp add: Bid2Filename_def)
qed

lemma div_mod_inject:
  assumes "0 < (l::nat)" "l \<le> n" "a div l = b div l" "a mod n = b mod n"
  shows "a = b"
proof (rule ccontr)
  note eqs = assms(1,3) div_mult_mod_eq [of a l] div_mult_mod_eq [of b l]
    mod_less_divisor [OF assms(1), of a] mod_less_divisor [OF assms(1), of b]
  have close1: "a < b + l" using eqs by (metis add.commute add_less_le_mono le_add1 le_add2 less_le_trans nat_add_left_cancel_less)
  have close2: "b < a + l" using eqs by (metis add.commute add_less_le_mono le_add1 le_add2 less_le_trans nat_add_left_cancel_less)
  assume "a \<noteq> b"
  then consider "a < b" | "b < a" by linarith
  then show False
  proof cases
    case 1
    then have "n dvd b - a" using assms(4) by (metis less_imp_le mod_eq_dvd_iff_nat)
    then have "n \<le> b - a" using 1 by (simp add: dvd_imp_le)
    then show False using close1 close2 assms(2) by linarith
  next
    case 2
    then have "n dvd a - b" using assms(4) by (metis less_imp_le mod_eq_dvd_iff_nat)
    then have "n \<le> a - b" using 2 by (simp add: dvd_imp_le)
    then show False using close1 close2 assms(2) by linarith
  qed
qed

lemma Bid2Filename_inject:
  assumes "levels_ok g" "0 \<le> a" "a < 2 ^ 32" "0 \<le> b" "b < 2 ^ 32"
  shows "Bid2Filename g a = Bid2Filename g b \<longleftrightarrow> a = b"
proof
  assume eq: "Bid2Filename g a = Bid2Filename g b"
  have "to_u32 a div file_count_level_1 g = to_u32 b div file_count_level_1 g"
    "to_u32 a mod file_count_level_2 g = to_u32 b mod file_count_level_2 g"
    using eq Bid2Filename_parts [OF assms(1), of a] Bid2Filename_parts [OF assms(1), of b]
    by (simp_all add: show_hex8_inject)
  then have "to_u32 a = to_u32 b"
    using assms(1) div_mod_inject [of "file_count_level_1 g" "file_count_level_2 g" "to_u32 a" "to_u32 b"]
    unfolding levels_ok_def by blast
  then have "nat a = nat b" using assms(2-) by (simp only: to_u32_id)
  then show "a = b" using assms(2,4) by (simp only: eq_nat_nat_iff)
qed simp

lemma hex_component: "components (show_hex8 n) = [show_hex8 n]"
proof (rule components_plain)
  show "CHR ''/'' \<notin> set (show_hex8 n)" using show_hex8_chars by blast
  show "show_hex8 n \<noteq> []" by (simp add: show_hex8_digits hex_digits8_def)
  show "show_hex8 n \<noteq> ''.''" using show_hex8_chars [of "CHR ''.''" n] by auto
qed

lemma components_Bid2Filename:
  assumes "levels_ok g"
  shows "components (Bid2Filename g bid) =
    [show_hex8 (to_u32 bid div file_count_level_1 g), show_hex8 (to_u32 bid mod file_count_level_2 g)]"
proof -
  have "Bid2Filename g bid = show_hex8 (to_u32 bid div file_count_level_1 g) @ CHR ''/''
      # show_hex8 (to_u32 bid mod file_count_level_2 g)"
    using Bid2Filename_parts(1) [OF assms] by simp
  then show ?thesis by (simp add: components_append hex_component)
qed

lemma Bid2Filename_relative: "levels_ok g \<Longrightarrow> \<not> IsAbspath (Bid2Filename g bid)"
proof -
  assume "levels_ok g"
  note parts = Bid2Filename_parts [OF this, of bid]
  obtain c cs where c: "show_hex8 (to_u32 bid div file_count_level_1 g) = c # cs"
    using parts(2) by (cases "show_hex8 (to_u32 bid div file_count_level_1 g)") auto
  then have "c \<noteq> CHR ''/''" using show_hex8_chars [of c "to_u32 bid div file_count_level_1 g"] by auto
  then show ?thesis using parts(1) c by (simp add: IsAbspath_def IsPathSep_def)
qed

section \<open>The URL schemes round-trip\<close>

text \<open>
  What a stored \<open>Info\<close> looks like: a bundle id and sizes in range, a prefix and a postfix
  that a C string can carry, and a postfix that is a file extension.
\<close>

definition address_ok :: "Info \<Rightarrow> bool" where
  "address_ok info \<longleftrightarrow>
     0 \<le> info_id info \<and> info_id info < 2 ^ 31
     \<and> info_offset info < 2 ^ 63 \<and> info_size info < 2 ^ 63
     \<and> NUL \<notin> set (info_prefix info) \<and> info_prefix info \<noteq> []
     \<and> length (info_prefix info) < 2 ^ 32
     \<and> (\<exists>ext. info_postfix info = CHR ''.'' # ext \<and> set ext \<inter> {NUL, CHR ''.'', CHR ''/''} = {})"

definition copy_address :: "Info \<Rightarrow> Info \<Rightarrow> Info" where
  "copy_address info i0 =
     i0\<lparr>info_id := info_id info, info_offset := info_offset info, info_size := info_size info,
        info_prefix := info_prefix info, info_postfix := info_postfix info\<rparr>"

text \<open>
  Both extractors cut \<open>prefix/coded.ext\<close> at its last slash and its last dot, whatever the
  coded part is.
\<close>

lemma url_cut:
  assumes pre: "length pre < 2 ^ 32"
    and coded: "set coded \<inter> {CHR ''/'', CHR ''.''} = {}" "length coded < 2 ^ 32"
    and ext: "set ext \<inter> {CHR ''.'', CHR ''/''} = {}"
    and u: "u = pre @ ''/'' @ coded @ CHR ''.'' # ext"
  shows "rfind u (CHR ''/'') = length pre"
    and "rfind u (CHR ''.'') = length pre + 1 + length coded"
    and "substr u (szadd (length pre) 1) (szsub (szsub (length pre + 1 + length coded) (length pre)) 1) = coded"
    and "substr u 0 (length pre) = pre"
    and "drop (length pre + 1 + length coded) u = CHR ''.'' # ext"
    and "length pre + 1 + length coded \<noteq> npos"
proof -
  have "u = pre @ CHR ''/'' # (coded @ CHR ''.'' # ext)" using u by simp
  then show "rfind u (CHR ''/'') = length pre"
    using coded ext rfind_append [of "CHR ''/''" "coded @ CHR ''.'' # ext" pre] by auto
  have "u = (pre @ ''/'' @ coded) @ CHR ''.'' # ext" using u by simp
  then show "rfind u (CHR ''.'') = length pre + 1 + length coded"
    using ext rfind_append [of "CHR ''.''" ext "pre @ ''/'' @ coded"] by auto
  have bound: "length pre + 1 + length coded < 2 ^ 64" using pre coded by simp
  have 1: "szadd (length pre) 1 = length pre + 1" using bound by (intro szadd_less) simp
  have 2: "szsub (length pre + 1 + length coded) (length pre) = 1 + length coded"
    using bound by (subst szsub_le) auto
  have 3: "szsub (1 + length coded) 1 = length coded" using bound by (subst szsub_le) auto
  show "substr u (szadd (length pre) 1) (szsub (szsub (length pre + 1 + length coded) (length pre)) 1) = coded"
    unfolding 1 2 3 by (simp add: u substr_def)
  show "substr u 0 (length pre) = pre" "drop (length pre + 1 + length coded) u = CHR ''.'' # ext"
    by (simp_all add: u substr_def)
  show "length pre + 1 + length coded \<noteq> npos" using pre coded by (simp add: npos_def)
qed

lemma length_show_nat: "n < 2 ^ 64 \<Longrightarrow> length (show_nat n) \<le> 20"
proof -
  assume "n < 2 ^ 64"
  then have "length (digits_rev 10 n) \<le> Suc 19" by (intro length_digits_rev) auto
  then show ?thesis by (simp add: show_nat_def)
qed

lemma ExtractSimple_BuildSimple:
  assumes "address_ok info"
  shows "ExtractSimple (BuildSimple info) i0 = (True, copy_address info i0)"
proof -
  obtain ext where ext: "info_postfix info = CHR ''.'' # ext" "set ext \<inter> {NUL, CHR ''.'', CHR ''/''} = {}"
    using assms by (auto simp: address_ok_def)
  let ?a = "show_nat (nat (info_id info))" and ?b = "show_nat (info_offset info)"
    and ?c = "show_nat (info_size info)"
  let ?coded = "?a @ '','' @ ?b @ '','' @ ?c"
  let ?pre = "info_prefix info"
  have u: "BuildSimple info = ?pre @ ''/'' @ ?coded @ CHR ''.'' # ext"
    using assms ext by (auto simp: BuildSimple_def address_ok_def show_int_nonneg)
  have plain: "set ?a \<inter> url_seps = {}" "set ?b \<inter> url_seps = {}" "set ?c \<inter> url_seps = {}"
    "NUL \<notin> set ?a \<union> set ?b \<union> set ?c"
    using show_nat_plain unfolding url_seps_def by blast+
  have nul: "NUL \<notin> set (BuildSimple info)"
    using assms ext plain unfolding u by (auto simp: address_ok_def)
  have c1: "set ?coded \<inter> {CHR ''/'', CHR ''.''} = {}" using plain by (auto simp: url_seps_def)
  have c2: "length ?coded < 2 ^ 32"
    using length_show_nat [of "nat (info_id info)"] length_show_nat [of "info_offset info"]
      length_show_nat [of "info_size info"] assms by (auto simp: address_ok_def nat_less_iff)
  have c3: "length ?pre < 2 ^ 32" "set ext \<inter> {CHR ''.'', CHR ''/''} = {}"
    using assms ext by (auto simp: address_ok_def)
  note cut = url_cut [OF c3(1) c1 c2 c3(2) u]
  have vs: "split_any url_seps ?coded = [?a, ?b, ?c]"
    using plain split_any_append [of ?a url_seps "CHR '',''"] split_any_append [of ?b url_seps "CHR '',''"]
    by (simp add: split_any_none url_seps_def)
  have nums: "wrap32 (atol ?a) = info_id info" "to_size (atol ?b) = info_offset info"
      "to_size (atol ?c) = info_size info"
    using assms by (auto simp: address_ok_def atol_show_nat wrap32_id to_size_id)
  show ?thesis
    unfolding ExtractSimple_def copy_address_def
    using cut vs nums nul ext by (simp add: Let_def)
qed

definition url_hash :: "Info \<Rightarrow> u32" where
  "url_hash info = MurmurHash2 (hash_text (info_prefix info) (info_id info) (info_offset info)
     (info_size info) (info_postfix info)) 0"

lemma ToSixty_plain: "set (ToSixty n) \<inter> url_seps = {}" "NUL \<notin> set (ToSixty n)"
  using ToSixty_no_separator unfolding url_seps_def by blast+

text \<open>The four coded fields of \<open>BuildWithEncode\<close> are what \<open>boost::split\<close> returns.\<close>

lemma encoded_fields:
  "split_any url_seps (ToSixty a @ ''_'' @ ToSixty b @ ''_'' @ ToSixty c @ ''_'' @ ToSixty d)
     = [ToSixty a, ToSixty b, ToSixty c, ToSixty d]"
proof -
  have sep: "CHR ''_'' \<in> url_seps" by (simp add: url_seps_def)
  show ?thesis
    using split_any_append [OF ToSixty_plain(1) sep] ToSixty_plain(1)
    by (simp add: split_any_none)
qed

lemma to_u32_uint: "to_u32 (uint (w :: u32)) = unat w"
proof -
  have "to_u32 (uint w) = nat (uint w)" using uint_lt2p [of w] by (intro to_u32_id) simp_all
  then show ?thesis by (simp only: unat_eq_nat_uint)
qed

text \<open>The split of an encoded URL, for any address and any hash.\<close>

lemma BuildWithEncode_split:
  assumes "address_ok info"
  shows "ExtractWithEncode (BuildWithEncode info) i0 =
     (if unat (url_hash info) = to_u32 (-1) then (False, i0) else (True, copy_address info i0))"
proof -
  obtain ext where ext: "info_postfix info = CHR ''.'' # ext" "set ext \<inter> {NUL, CHR ''.'', CHR ''/''} = {}"
    using assms by (auto simp: address_ok_def)
  let ?a = "ToSixty (info_id info)" and ?b = "ToSixty (wrap64 (int (info_offset info)))"
    and ?c = "ToSixty (wrap64 (int (info_size info)))" and ?d = "ToSixty (uint (url_hash info))"
  let ?coded = "?a @ ''_'' @ ?b @ ''_'' @ ?c @ ''_'' @ ?d"
  let ?pre = "info_prefix info"
  have ok: "0 \<le> info_id info" "info_id info < 2 ^ 31" "int (info_offset info) < 2 ^ 63"
      "int (info_size info) < 2 ^ 63" "NUL \<notin> set ?pre"
    using assms by (auto simp: address_ok_def)
  have w: "wrap64 (int (info_offset info)) = int (info_offset info)"
      "wrap64 (int (info_size info)) = int (info_size info)"
    using ok by (auto intro: wrap64_id)
  have h: "0 \<le> uint (url_hash info)" "uint (url_hash info) < 2 ^ 63"
    using uint_lt2p [of "url_hash info"] by simp_all
  have u: "BuildWithEncode info = ?pre @ ''/'' @ ?coded @ CHR ''.'' # ext"
    using ext(1) by (simp add: BuildWithEncode_def url_hash_def Let_def)
  have nul: "NUL \<notin> set (BuildWithEncode info)"
    using ok ext ToSixty_plain(2) unfolding u by auto
  have c1: "set ?coded \<inter> {CHR ''/'', CHR ''.''} = {}"
    using ToSixty_plain(1) by (auto simp: url_seps_def)
  have c2: "length ?coded < 2 ^ 32"
    using length_ToSixty [of "info_id info"] length_ToSixty [of "int (info_offset info)"]
      length_ToSixty [of "int (info_size info)"] length_ToSixty [OF h] ok w by simp
  have c3: "length ?pre < 2 ^ 32" "set ext \<inter> {CHR ''.'', CHR ''/''} = {}"
    using assms ext by (auto simp: address_ok_def)
  note cut = url_cut [OF c3(1) c1 c2 c3(2) u]
  have nums: "wrap32 (FromSixty ?a) = info_id info" "to_size (FromSixty ?b) = info_offset info"
      "to_size (FromSixty ?c) = info_size info" "to_u32 (FromSixty ?d) = unat (url_hash info)"
    using ok h by (simp_all add: w FromSixty_ToSixty wrap32_id to_size_id to_u32_uint)
  have hash: "MurmurHash2 (hash_text ?pre (info_id info) (info_offset info) (info_size info) (CHR ''.'' # ext)) 0
      = url_hash info"
    using ext(1) by (simp add: url_hash_def)
  note vs = encoded_fields [of "info_id info" "wrap64 (int (info_offset info))"
      "wrap64 (int (info_size info))" "uint (url_hash info)"]
  show ?thesis
    unfolding ExtractWithEncode_def copy_address_def Let_def c_str_id [OF nul] cut vs
    using nums ext(1) hash cut(6) by simp
qed

definition encode_ok :: "Info \<Rightarrow> bool" where
  "encode_ok info \<longleftrightarrow> address_ok info \<and> unat (url_hash info) \<noteq> to_u32 (-1)"

section \<open>The interface the bundle store relies on\<close>

text \<open>
  \<open>Reader\<close> and \<open>Writer\<close> take the URL scheme as a pair of function pointers. What they rely
  on is that a built URL can be taken apart again.
\<close>

locale url_scheme =
  fixes bld :: BuildUrl and ext :: ExtractUrl and ok :: "Info \<Rightarrow> bool"
  assumes extract_build: "ok info \<Longrightarrow> ext (bld info) i0 = (True, copy_address info i0)"
    and build_nonempty: "ok info \<Longrightarrow> bld info \<noteq> []"
begin

lemma build_inject:
  assumes "ok a" "ok b" "bld a = bld b"
  shows "copy_address a i0 = copy_address b i0"
  using extract_build [OF assms(1), of i0] extract_build [OF assms(2), of i0] assms(3) by simp

lemma address_recovered:
  assumes "ok info"
  shows "info_id (snd (ext (bld info) i0)) = info_id info"
    and "info_offset (snd (ext (bld info) i0)) = info_offset info"
    and "info_size (snd (ext (bld info) i0)) = info_size info"
    and "info_prefix (snd (ext (bld info) i0)) = info_prefix info"
  using extract_build [OF assms, of i0] by (simp_all add: copy_address_def)

end

interpretation simple_url: url_scheme BuildSimple ExtractSimple address_ok
proof
  fix info i0
  show "address_ok info \<Longrightarrow> ExtractSimple (BuildSimple info) i0 = (True, copy_address info i0)"
    by (rule ExtractSimple_BuildSimple)
  show "address_ok info \<Longrightarrow> BuildSimple info \<noteq> []"
    by (auto simp: BuildSimple_def address_ok_def)
qed

interpretation encoded_url: url_scheme BuildWithEncode ExtractWithEncode encode_ok
proof
  fix info i0
  show "encode_ok info \<Longrightarrow> ExtractWithEncode (BuildWithEncode info) i0 = (True, copy_address info i0)"
    by (simp add: encode_ok_def BuildWithEncode_split)
  show "encode_ok info \<Longrightarrow> BuildWithEncode info \<noteq> []"
    by (auto simp: BuildWithEncode_def Let_def)
qed

section \<open>Properties\<close>

definition sample_info :: Info where
  "sample_info = Info0\<lparr>info_id := 7, info_offset := 1024, info_size := 5, info_prefix := ''p'', info_postfix := ''.jpg''\<rparr>"

lemma sample_address_ok: "address_ok sample_info"
  by (auto simp: address_ok_def sample_info_def Info0_def)

lemma digit_chars:
  "digit_char 0 = CHR ''0''" "digit_char (Suc 0) = CHR ''1''" "digit_char 1 = CHR ''1''"
  "digit_char 2 = CHR ''2''" "digit_char 3 = CHR ''3''" "digit_char 4 = CHR ''4''" "digit_char 5 = CHR ''5''"
  "digit_char 6 = CHR ''6''" "digit_char 7 = CHR ''7''" "digit_char 8 = CHR ''8''" "digit_char 9 = CHR ''9''"
  by (simp_all add: digit_char_def char_of_def bit_numeral_rec bit_0)

lemmas print_eval = show_nat_def show_int_def digits_rev.simps digit_chars

lemmas hash_eval = MurmurHash2_def le_word.simps byte_word_def mmix_def finish_def hash_text_def print_eval Let_def

lemma sample_hash: "unat (url_hash sample_info) = 3389526755"
  by (simp add: url_hash_def sample_info_def Info0_def hash_eval)

text \<open>
  C11: the encoded URL scheme, which is the default: \<open>ExtractWithEncode\<close> accepts what
  \<open>BuildWithEncode\<close> built and recovers the id, the offset, the size, the prefix and the postfix,
  for every address of a stored file whose hash is not the value reserved for errors.
\<close>

theorem encoded_url_round_trip:
  assumes "encode_ok info"
  shows "ExtractWithEncode (BuildWithEncode info) i0 = (True, copy_address info i0)"
  using assms by (rule encoded_url.extract_build)

theorem encoded_url_round_trip_witness:
  "ExtractWithEncode (BuildWithEncode sample_info) Info0 = (True, sample_info)"
proof -
  have "encode_ok sample_info"
    using sample_address_ok sample_hash by (simp add: encode_ok_def to_u32_def)
  then have "ExtractWithEncode (BuildWithEncode sample_info) Info0 = (True, copy_address sample_info Info0)"
    by (rule encoded_url_round_trip)
  then show ?thesis by (simp add: copy_address_def sample_info_def)
qed

definition unlucky_info :: Info where
  "unlucky_info = Info0\<lparr>info_id := 0, info_offset := 74752, info_size := 1, info_prefix := ''CksC'',
     info_postfix := ''.jpg''\<rparr>"

text \<open>
  A URL whose hash happens to be \<open>0xffffffff\<close> is refused by the extractor although the
  builder hands it out: the hash is compared with the error value of \<open>FromSixty\<close> after it was
  cut to 32 bits.
\<close>

theorem encoded_url_unreadable:
  "address_ok unlucky_info \<and> ExtractWithEncode (BuildWithEncode unlucky_info) i0 = (False, i0)"
proof -
  have ok: "address_ok unlucky_info" by (auto simp: address_ok_def unlucky_info_def Info0_def)
  moreover have "unat (url_hash unlucky_info) = to_u32 (-1)"
    by (simp add: url_hash_def unlucky_info_def Info0_def hash_eval to_u32_def)
  ultimately show ?thesis by (simp add: BuildWithEncode_split)
qed

text \<open>
  Integrity: when \<open>ExtractWithEncode\<close> accepts a URL, the last coded field is the hash of the
  address it returns, so an address that was changed without its hash is refused unless the
  hashes collide; and \<open>info\<close> is untouched when it refuses.
\<close>

theorem encoded_url_integrity:
  "(case ExtractWithEncode u i0 of
      (True, i) \<Rightarrow> \<exists>coded. length (split_any url_seps coded) = 4
         \<and> to_u32 (FromSixty (split_any url_seps coded ! 3)) = unat (url_hash i)
         \<and> info_id i = wrap32 (FromSixty (split_any url_seps coded ! 0))
         \<and> info_offset i = to_size (FromSixty (split_any url_seps coded ! 1))
         \<and> info_size i = to_size (FromSixty (split_any url_seps coded ! 2))
    | (False, i) \<Rightarrow> i = i0)"
  unfolding ExtractWithEncode_def Let_def url_hash_def by auto

text \<open>The readable URL scheme round-trips for every address of a stored file.\<close>

theorem simple_url_round_trip:
  assumes "address_ok info"
  shows "ExtractSimple (BuildSimple info) i0 = (True, copy_address info i0)"
  using assms by (rule simple_url.extract_build)

theorem simple_url_round_trip_witness:
  "BuildSimple sample_info = ''p/7,1024,5.jpg''
   \<and> ExtractSimple (BuildSimple sample_info) Info0 = (True, copy_address sample_info Info0)"
  using simple_url_round_trip [OF sample_address_ok, of Info0]
  by (simp add: BuildSimple_def sample_info_def Info0_def print_eval)

text \<open>
  With an empty prefix \<open>BuildSimple\<close> prints no slash and \<open>ExtractSimple\<close>, which tests the
  position of the dot twice and that of the slash never, takes the whole URL for the prefix.
\<close>

theorem simple_url_without_prefix:
  "BuildSimple (sample_info\<lparr>info_prefix := []\<rparr>) = ''7,1024,5.jpg''
   \<and> fst (ExtractSimple ''7,1024,5.jpg'' Info0)
   \<and> info_prefix (snd (ExtractSimple ''7,1024,5.jpg'' Info0)) = ''7,1024,5.jpg''"
proof -
  have "rfind ''7,1024,5.jpg'' (CHR ''/'') = npos" "rfind ''7,1024,5.jpg'' (CHR ''.'') = 8"
    by (simp_all add: rfind_def)
  then show ?thesis
    by (simp add: BuildSimple_def sample_info_def Info0_def print_eval
        ExtractSimple_def Let_def npos_def substr_def szadd_def szsub_def url_seps_def c_str_def)
qed

text \<open>
  Different bundle ids have different files when the level sizes are as in the default
  setting (the first level not larger than the second).
\<close>

theorem bundle_names_injective:
  assumes "levels_ok g" "0 \<le> a" "a < 2 ^ 32" "0 \<le> b" "b < 2 ^ 32"
  shows "Bid2Filename g a = Bid2Filename g b \<longleftrightarrow> a = b"
  using assms by (rule Bid2Filename_inject)

theorem bundle_names_injective_witness:
  "Bid2Filename g_default_setting 20000 \<noteq> Bid2Filename g_default_setting 400"
  using bundle_names_injective [OF levels_ok_default, of 20000 400] by simp

text \<open>\<open>Align1K\<close> gives the least multiple of 1024 that is not smaller, below the overflow.\<close>

theorem align_rounds_up:
  assumes "v + 1024 < 2 ^ 64"
  shows "v \<le> Align1K v \<and> 1024 dvd Align1K v \<and> (\<forall>w. v \<le> w \<and> 1024 dvd w \<longrightarrow> Align1K v \<le> w)"
proof (intro conjI allI impI)
  note p = Align1K_props [OF assms]
  show "v \<le> Align1K v" "1024 dvd Align1K v" using p by simp_all
  fix w assume w: "v \<le> w \<and> 1024 dvd w"
  show "Align1K v \<le> w"
  proof (rule ccontr)
    assume "\<not> Align1K v \<le> w"
    moreover have "1024 dvd Align1K v - w" using p(3) w by (simp add: dvd_diff_nat)
    ultimately show False using p(2) w nat_dvd_not_less [of "Align1K v - w" 1024] by linarith
  qed
qed

theorem align_rounds_up_witness: "Align1K 1025 = 2048"
  using align_rounds_up [of 1025] by (simp add: Align1K_def szadd_def szsub_def)

end
