(* ===== verification/OS.thy ===== *)
theory OS
  imports PathOps
begin

text \<open>
  The operating-system services the bundle library calls, as far as it calls them: a file
  system of plain files and directories, \<open>errno\<close>, and the system calls \<open>open\<close>,
  \<open>unlink\<close>, \<open>mkdir\<close>, \<open>access\<close>, \<open>lstat\<close>, \<open>lseek\<close>, \<open>write\<close> and \<open>fread\<close>. A call
  may be refused for a reason outside the model (permissions, a broken device): \<open>faults\<close>
  says which calls fail on which path and with which error number, and \<open>room\<close> bounds
  what a device still takes, so that a short write is possible. A call that succeeds
  leaves \<open>errno\<close> alone.
\<close>

section \<open>State\<close>

datatype syscall = SOpen | SUnlink | SMkdir | SAccess | SStat | SWrite | SRead

record os =
  files :: "path \<Rightarrow> bytes option"
  dirs :: "path \<Rightarrow> bool"
  errno :: int
  faults :: "syscall \<Rightarrow> path \<Rightarrow> int option"
  room :: "path \<Rightarrow> nat option"
  dir_size :: nat
  heap :: "nat \<Rightarrow> char"
    \<comment> \<open>what freshly allocated memory happens to hold\<close>

definition ENOENT :: int where "ENOENT = 2"
definition EIO :: int where "EIO = 5"
definition EEXIST :: int where "EEXIST = 17"
definition ENOTDIR :: int where "ENOTDIR = 20"
definition EISDIR :: int where "EISDIR = 21"
definition EINVAL :: int where "EINVAL = 22"

lemmas errno_defs = ENOENT_def EIO_def EEXIST_def ENOTDIR_def EISDIR_def EINVAL_def

definition is_dir :: "os \<Rightarrow> path \<Rightarrow> bool" where
  "is_dir s p \<longleftrightarrow> snd p = [] \<or> dirs s p"

definition is_file :: "os \<Rightarrow> path \<Rightarrow> bool" where
  "is_file s p \<longleftrightarrow> files s p \<noteq> None"

definition parent :: "path \<Rightarrow> path" where
  "parent p = (fst p, butlast (snd p))"

definition set_errno :: "int \<Rightarrow> os \<Rightarrow> os" where
  "set_errno e s = s\<lparr>errno := e\<rparr>"

definition put_file :: "path \<Rightarrow> bytes \<Rightarrow> os \<Rightarrow> os" where
  "put_file p c s = s\<lparr>files := (files s)(p := Some c)\<rparr>"

definition del_file :: "path \<Rightarrow> os \<Rightarrow> os" where
  "del_file p s = s\<lparr>files := (files s)(p := None)\<rparr>"

definition put_dir :: "path \<Rightarrow> os \<Rightarrow> os" where
  "put_dir p s = s\<lparr>dirs := (dirs s)(p := True)\<rparr>"

text \<open>The error for a name that is not there: a plain file on the way to it is \<open>ENOTDIR\<close>.\<close>

definition missing_parent :: "path \<Rightarrow> os \<Rightarrow> int" where
  "missing_parent p s = (if \<exists>k \<in> {0<..<length (snd p)}. is_file s (fst p, take k (snd p)) then ENOTDIR else ENOENT)"

section \<open>System calls\<close>

text \<open>\<open>open (name, O_RDWR)\<close>: the descriptor is the path, \<open>None\<close> is \<open>-1\<close>.\<close>

definition os_open :: "string \<Rightarrow> os \<Rightarrow> path option \<times> os" where
  "os_open name s =
     (let p = resolve name in
      case faults s SOpen p of
        Some e \<Rightarrow> (None, set_errno e s)
      | None \<Rightarrow>
          if name = [] then (None, set_errno ENOENT s)
          else if is_dir s p then (None, set_errno EISDIR s)
          else if is_file s p then (Some p, s)
          else (None, set_errno (missing_parent p s) s))"

text \<open>\<open>open (name, O_RDWR | O_EXCL | O_CREAT)\<close>\<close>

definition os_open_excl :: "string \<Rightarrow> os \<Rightarrow> path option \<times> os" where
  "os_open_excl name s =
     (let p = resolve name in
      case faults s SOpen p of
        Some e \<Rightarrow> (None, set_errno e s)
      | None \<Rightarrow>
          if name = [] then (None, set_errno ENOENT s)
          else if is_dir s p \<or> is_file s p then (None, set_errno EEXIST s)
          else if \<not> is_dir s (parent p) then (None, set_errno (missing_parent p s) s)
          else (Some p, put_file p [] s))"

text \<open>\<open>open (name, O_RDWR | O_CREAT | O_TRUNC)\<close>\<close>

definition os_open_trunc :: "string \<Rightarrow> os \<Rightarrow> path option \<times> os" where
  "os_open_trunc name s =
     (let p = resolve name in
      case faults s SOpen p of
        Some e \<Rightarrow> (None, set_errno e s)
      | None \<Rightarrow>
          if name = [] then (None, set_errno ENOENT s)
          else if is_dir s p then (None, set_errno EISDIR s)
          else if \<not> is_dir s (parent p) then (None, set_errno (missing_parent p s) s)
          else (Some p, put_file p [] s))"

definition os_unlink :: "string \<Rightarrow> os \<Rightarrow> int \<times> os" where
  "os_unlink name s =
     (let p = resolve name in
      case faults s SUnlink p of
        Some e \<Rightarrow> (-1, set_errno e s)
      | None \<Rightarrow>
          if name = [] then (-1, set_errno ENOENT s)
          else if is_dir s p then (-1, set_errno EISDIR s)
          else if is_file s p then (0, del_file p s)
          else (-1, set_errno (missing_parent p s) s))"

definition os_mkdir :: "string \<Rightarrow> os \<Rightarrow> int \<times> os" where
  "os_mkdir name s =
     (let p = resolve name in
      case faults s SMkdir p of
        Some e \<Rightarrow> (-1, set_errno e s)
      | None \<Rightarrow>
          if name = [] then (-1, set_errno ENOENT s)
          else if is_dir s p \<or> is_file s p then (-1, set_errno EEXIST s)
          else if \<not> is_dir s (parent p) then (-1, set_errno (missing_parent p s) s)
          else (0, put_dir p s))"

text \<open>\<open>access (name, F_OK)\<close>\<close>

definition os_access :: "string \<Rightarrow> os \<Rightarrow> int \<times> os" where
  "os_access name s =
     (let p = resolve name in
      case faults s SAccess p of
        Some e \<Rightarrow> (-1, set_errno e s)
      | None \<Rightarrow>
          if name = [] then (-1, set_errno ENOENT s)
          else if is_dir s p \<or> is_file s p then (0, s)
          else (-1, set_errno (missing_parent p s) s))"

text \<open>\<open>lstat\<close>: the result is \<open>st_size\<close>, \<open>None\<close> for the return value \<open>-1\<close>.\<close>

definition os_lstat :: "string \<Rightarrow> os \<Rightarrow> nat option \<times> os" where
  "os_lstat name s =
     (let p = resolve name in
      case faults s SStat p of
        Some e \<Rightarrow> (None, set_errno e s)
      | None \<Rightarrow>
          if name = [] then (None, set_errno ENOENT s)
          else if is_dir s p then (Some (dir_size s), s)
          else case files s p of
                 Some c \<Rightarrow> (Some (length c), s)
               | None \<Rightarrow> (None, set_errno (missing_parent p s) s))"

text \<open>Writing at a position: a gap before it reads as zeros.\<close>

definition overlay :: "bytes \<Rightarrow> nat \<Rightarrow> bytes \<Rightarrow> bytes" where
  "overlay c off b =
     take off c @ replicate (off - length c) NUL @ b @ drop (off + length b) c"

definition os_write :: "path \<Rightarrow> nat \<Rightarrow> bytes \<Rightarrow> os \<Rightarrow> int \<times> os" where
  "os_write p off b s =
     (case faults s SWrite p of
        Some e \<Rightarrow> (-1, set_errno e s)
      | None \<Rightarrow>
          let n = (case room s p of None \<Rightarrow> length b | Some r \<Rightarrow> min r (length b)) in
          (int n, put_file p (overlay (case files s p of Some c \<Rightarrow> c | None \<Rightarrow> []) off (take n b)) s))"

text \<open>\<open>fread\<close> at a position: the bytes that are there, fewer at the end of the file.\<close>

definition os_read :: "path \<Rightarrow> nat \<Rightarrow> nat \<Rightarrow> os \<Rightarrow> bytes \<times> os" where
  "os_read p off n s =
     (case faults s SRead p of
        Some e \<Rightarrow> ([], set_errno e s)
      | None \<Rightarrow> (take n (drop off (case files s p of Some c \<Rightarrow> c | None \<Rightarrow> [])), s))"

section \<open>Well-formed file systems\<close>

definition fs_wf :: "os \<Rightarrow> bool" where
  "fs_wf s \<longleftrightarrow> (\<forall>p. is_file s p \<longrightarrow> \<not> is_dir s p \<and> is_dir s (parent p))
     \<and> (\<forall>p. is_dir s p \<longrightarrow> is_dir s (parent p))"

lemmas os_defs = is_dir_def is_file_def set_errno_def put_file_def del_file_def put_dir_def

lemma os_simps [simp]:
  "files (set_errno e s) = files s" "dirs (set_errno e s) = dirs s"
  "faults (set_errno e s) = faults s" "room (set_errno e s) = room s"
  "errno (set_errno e s) = e" "dir_size (set_errno e s) = dir_size s" "heap (set_errno e s) = heap s"
  "dirs (put_file p c s) = dirs s" "faults (put_file p c s) = faults s"
  "room (put_file p c s) = room s" "errno (put_file p c s) = errno s"
  "heap (put_file p c s) = heap s" "dir_size (put_file p c s) = dir_size s"
  "files (put_file p c s) = (files s)(p := Some c)"
  "dirs (del_file p s) = dirs s" "faults (del_file p s) = faults s"
  "room (del_file p s) = room s" "errno (del_file p s) = errno s"
  "heap (del_file p s) = heap s" "dir_size (del_file p s) = dir_size s"
  "files (del_file p s) = (files s)(p := None)"
  "files (put_dir p s) = files s" "faults (put_dir p s) = faults s"
  "room (put_dir p s) = room s" "errno (put_dir p s) = errno s"
  "heap (put_dir p s) = heap s" "dir_size (put_dir p s) = dir_size s"
  "dirs (put_dir p s) = (dirs s)(p := True)"
  by (simp_all add: os_defs)

lemma is_dir_simps [simp]:
  "is_dir (set_errno e s) = is_dir s" "is_dir (put_file p c s) = is_dir s"
  "is_dir (del_file p s) = is_dir s"
  "is_dir (put_dir p s) q \<longleftrightarrow> q = p \<or> is_dir s q"
  by (auto simp: is_dir_def fun_eq_iff)

lemma is_file_simps [simp]:
  "is_file (set_errno e s) = is_file s" "is_file (put_dir p s) = is_file s"
  "is_file (put_file p c s) q \<longleftrightarrow> q = p \<or> is_file s q"
  "is_file (del_file p s) q \<longleftrightarrow> q \<noteq> p \<and> is_file s q"
  by (auto simp: is_file_def fun_eq_iff)

lemma fs_wf_errno [simp]: "fs_wf (set_errno e s) = fs_wf s"
  by (simp add: fs_wf_def)

lemma fs_wf_put_file:
  "fs_wf s \<Longrightarrow> is_file s p \<or> \<not> is_dir s p \<and> is_dir s (parent p) \<Longrightarrow> fs_wf (put_file p c s)"
  by (auto simp: fs_wf_def)

lemma fs_wf_del_file: "fs_wf s \<Longrightarrow> fs_wf (del_file p s)"
  by (auto simp: fs_wf_def)

lemma fs_wf_put_dir: "fs_wf s \<Longrightarrow> \<not> is_file s p \<Longrightarrow> is_dir s (parent p) \<Longrightarrow> fs_wf (put_dir p s)"
  by (auto simp: fs_wf_def)

text \<open>Every call keeps the file system well-formed.\<close>

lemma os_open_same:
  assumes "os_open name s = (r, s')"
  shows "files s' = files s" "dirs s' = dirs s" "faults s' = faults s" "room s' = room s" "heap s' = heap s"
  using assms by (auto simp: os_open_def Let_def split: option.splits if_splits)

lemma os_open_Some:
  "os_open name s = (Some p, s') \<longleftrightarrow>
     p = resolve name \<and> s' = s \<and> faults s SOpen p = None \<and> name \<noteq> [] \<and> \<not> is_dir s p \<and> is_file s p"
  by (auto simp: os_open_def Let_def split: option.splits if_splits)

lemma os_open_excl_Some:
  "os_open_excl name s = (Some p, s') \<longleftrightarrow>
     p = resolve name \<and> s' = put_file p [] s \<and> faults s SOpen p = None \<and> name \<noteq> []
     \<and> \<not> is_dir s p \<and> \<not> is_file s p \<and> is_dir s (parent p)"
  by (auto simp: os_open_excl_def Let_def split: option.splits if_splits)

lemma os_open_excl_None:
  "os_open_excl name s = (None, s') \<Longrightarrow> \<exists>e. s' = set_errno e s"
  by (auto simp: os_open_excl_def Let_def split: option.splits if_splits)

lemma os_open_trunc_Some:
  "os_open_trunc name s = (Some p, s') \<longleftrightarrow>
     p = resolve name \<and> s' = put_file p [] s \<and> faults s SOpen p = None \<and> name \<noteq> []
     \<and> \<not> is_dir s p \<and> is_dir s (parent p)"
  by (auto simp: os_open_trunc_def Let_def split: option.splits if_splits)

lemma os_open_trunc_None:
  "os_open_trunc name s = (None, s') \<Longrightarrow> \<exists>e. s' = set_errno e s"
  by (auto simp: os_open_trunc_def Let_def split: option.splits if_splits)

lemma os_unlink_cases:
  assumes "os_unlink name s = (r, s')"
  obtains (gone) "r = 0" "s' = del_file (resolve name) s" "is_file s (resolve name)"
  | (failed) e where "r = -1" "s' = set_errno e s"
  using assms by (auto simp: os_unlink_def Let_def split: option.splits if_splits)

lemma os_mkdir_cases:
  assumes "os_mkdir name s = (r, s')"
  obtains (made) "r = 0" "s' = put_dir (resolve name) s" "\<not> is_dir s (resolve name)"
      "\<not> is_file s (resolve name)" "is_dir s (parent (resolve name))"
  | (failed) e where "r = -1" "s' = set_errno e s"
  using assms by (auto simp: os_mkdir_def Let_def split: option.splits if_splits)

lemma os_access_same: "os_access name s = (r, s') \<Longrightarrow> s' = s \<or> (\<exists>e. s' = set_errno e s)"
  by (auto simp: os_access_def Let_def split: option.splits if_splits)

lemma os_lstat_same: "os_lstat name s = (r, s') \<Longrightarrow> s' = s \<or> (\<exists>e. s' = set_errno e s)"
  by (auto simp: os_lstat_def Let_def split: option.splits if_splits)

lemma fs_wf_open_excl: "fs_wf s \<Longrightarrow> os_open_excl name s = (r, s') \<Longrightarrow> fs_wf s'"
  by (cases r) (auto simp: os_open_excl_Some dest!: os_open_excl_None intro: fs_wf_put_file)

lemma fs_wf_open_trunc: "fs_wf s \<Longrightarrow> os_open_trunc name s = (r, s') \<Longrightarrow> fs_wf s'"
  by (cases r) (auto simp: os_open_trunc_Some dest!: os_open_trunc_None intro: fs_wf_put_file)

lemma fs_wf_unlink: "fs_wf s \<Longrightarrow> os_unlink name s = (r, s') \<Longrightarrow> fs_wf s'"
  by (erule os_unlink_cases) (auto intro: fs_wf_del_file)

lemma fs_wf_mkdir: "fs_wf s \<Longrightarrow> os_mkdir name s = (r, s') \<Longrightarrow> fs_wf s'"
  by (erule os_mkdir_cases) (auto intro: fs_wf_put_dir)

lemma fs_wf_write: "fs_wf s \<Longrightarrow> is_file s p \<Longrightarrow> os_write p off b s = (r, s') \<Longrightarrow> fs_wf s'"
  by (auto simp: os_write_def Let_def intro: fs_wf_put_file split: option.splits)

section \<open>Overlays\<close>

lemma length_overlay [simp]: "length (overlay c off b) = max (length c) (off + length b)"
  by (auto simp: overlay_def)

lemma overlay_at: "take (length b) (drop off (overlay c off b)) = b"
  by (auto simp: overlay_def)

lemma overlay_before:
  "i + n \<le> off \<Longrightarrow> off \<le> length c \<Longrightarrow> take n (drop i (overlay c off b)) = take n (drop i c)"
  by (simp add: overlay_def drop_take min_absorb1)

lemma overlay_after:
  "off + length b \<le> i \<Longrightarrow> off \<le> length c \<Longrightarrow> drop i (overlay c off b) = drop i c"
  by (simp add: overlay_def add.commute)

lemma overlay_end: "overlay c (length c) b = c @ b"
  by (simp add: overlay_def)

lemma overlay_sub:
  assumes "i + n \<le> length b"
  shows "take n (drop (off + i) (overlay c off b)) = take n (drop i b)"
proof -
  have "drop (off + i) (overlay c off b) = drop i (drop off (overlay c off b))"
    by (simp add: add.commute)
  also have "\<dots> = drop i (b @ drop (off + length b) c)"
    by (auto simp: overlay_def)
  finally show ?thesis using assms by simp
qed

end
