(* ===== verification/Mkdirs.thy ===== *)
theory Mkdirs
  imports OS
begin

text \<open>
  \<open>src/src/base3/mkdirs.cc\<close> (the Linux version): create a directory and its parents,
  from the head of the path, going on where a part already exists.
\<close>

section \<open>Definitions\<close>

definition PATH_LENGTH_MAX :: nat where "PATH_LENGTH_MAX = 300"

lemma rest_shorter: "c \<in> set pa \<Longrightarrow> length (tl (dropWhile (\<lambda>x. x \<noteq> c) pa)) < length pa"
  by (induction pa) (auto simp: less_Suc_eq)

text \<open>
  The loop: \<open>pa\<close> points into the path buffer behind what has been appended to
  \<open>subpath\<close>; \<open>strchr\<close> finds the next separator.
\<close>

function mkdirs_loop :: "string \<Rightarrow> string \<Rightarrow> os \<Rightarrow> int \<times> os" where
  "mkdirs_loop subpath pa s =
     (if CHR ''/'' \<in> set pa then
        let subpath = subpath @ takeWhile (\<lambda>c. c \<noteq> CHR ''/'') pa;
            rest = tl (dropWhile (\<lambda>c. c \<noteq> CHR ''/'') pa);
            (retval, s) = os_mkdir subpath s
        in if retval \<noteq> 0 then
             if errno s = EEXIST then mkdirs_loop (subpath @ ''/'') rest s else (retval, s)
           else mkdirs_loop (subpath @ ''/'') rest s
      else
        let subpath = subpath @ pa;
            (retval, s) = os_mkdir subpath s
        in if retval \<noteq> 0 then if errno s = EEXIST then (0, s) else (retval, s)
           else (0, s))"
  by pat_completeness auto

termination
  by (relation "measure (\<lambda>(subpath, pa, s). length pa)") (auto simp: rest_shorter [simplified])

declare mkdirs_loop.simps [simp del]

definition mkdirs :: "string \<Rightarrow> os \<Rightarrow> int \<times> os" where
  "mkdirs pathname s =
     (let path = take (PATH_LENGTH_MAX - 1) pathname;
          path = (if path \<noteq> [] \<and> last path = CHR ''/'' then butlast path else path)
      in if path \<noteq> [] \<and> path ! 0 = CHR ''/'' then mkdirs_loop ''/'' (drop 1 path) s
         else if 2 \<le> length path \<and> path ! 0 = CHR ''.'' \<and> path ! 1 = CHR ''/''
         then mkdirs_loop ''./'' (drop 2 path) s
         else mkdirs_loop [] path s)"

section \<open>What any run does\<close>

text \<open>
  Whatever the outcome, \<open>mkdirs\<close> touches no file, removes no directory and keeps the file
  system well-formed.
\<close>

definition grew_dirs :: "os \<Rightarrow> os \<Rightarrow> bool" where
  "grew_dirs s s' \<longleftrightarrow> files s' = files s \<and> (\<forall>p. is_dir s p \<longrightarrow> is_dir s' p)
     \<and> faults s' = faults s \<and> room s' = room s \<and> heap s' = heap s \<and> (fs_wf s \<longrightarrow> fs_wf s')"

lemma grew_dirs_refl [simp]: "grew_dirs s s"
  by (simp add: grew_dirs_def)

lemma grew_dirs_trans: "grew_dirs s s' \<Longrightarrow> grew_dirs s' s'' \<Longrightarrow> grew_dirs s s''"
  by (simp add: grew_dirs_def)

lemma grew_dirs_mkdir: "os_mkdir name s = (r, s') \<Longrightarrow> grew_dirs s s'"
proof -
  assume m: "os_mkdir name s = (r, s')"
  then have "fs_wf s \<Longrightarrow> fs_wf s'" by (rule fs_wf_mkdir [rotated])
  with m show ?thesis by (elim os_mkdir_cases) (auto simp: grew_dirs_def)
qed

lemma mkdirs_loop_grew: "mkdirs_loop subpath pa s = (r, s') \<Longrightarrow> grew_dirs s s'"
proof (induction subpath pa s rule: mkdirs_loop.induct)
  case (1 subpath pa s)
  let ?sub = "subpath @ (if CHR ''/'' \<in> set pa then takeWhile (\<lambda>c. c \<noteq> CHR ''/'') pa else pa)"
  obtain r1 s1 where m: "os_mkdir ?sub s = (r1, s1)" by fastforce
  then have g: "grew_dirs s s1" by (rule grew_dirs_mkdir)
  show ?case
  proof (cases "CHR ''/'' \<in> set pa")
    case False
    then have "s' = s1"
      using "1.prems" m by (simp add: mkdirs_loop.simps [of subpath pa s] split: if_splits)
    then show ?thesis using g by simp
  next
    case True
    show ?thesis
    proof (cases "r1 \<noteq> 0 \<and> errno s1 \<noteq> EEXIST")
      case True
      then have "s' = s1"
        using "1.prems" m \<open>CHR ''/'' \<in> set pa\<close> by (simp add: mkdirs_loop.simps [of subpath pa s])
      then show ?thesis using g by simp
    next
      case False
      have "grew_dirs s1 s'"
        using "1.IH" [OF True refl refl] "1.prems" m True False
        by (cases "r1 = 0") (auto simp: mkdirs_loop.simps [of subpath pa s])
      then show ?thesis using g by (rule grew_dirs_trans [rotated])
    qed
  qed
qed

lemma mkdirs_grew: "mkdirs pathname s = (r, s') \<Longrightarrow> grew_dirs s s'"
  by (auto simp: mkdirs_def Let_def dest: mkdirs_loop_grew split: if_splits)

section \<open>When it succeeds\<close>

lemma mkdir_step:
  assumes "\<And>p. faults s SMkdir p = None" "name \<noteq> []" "\<not> is_file s (resolve name)"
    and "is_dir s (parent (resolve name)) \<or> is_dir s (resolve name)"
  shows "\<exists>r s1. os_mkdir name s = (r, s1) \<and> (r = 0 \<or> errno s1 = EEXIST) \<and> is_dir s1 (resolve name)"
  using assms by (auto simp: os_mkdir_def Let_def)

lemma components_dir_append:
  assumes "sub = [] \<or> (\<exists>t. sub = t @ ''/'')"
  shows "components (sub @ x) = components sub @ components x"
  using assms components_append components_slash by auto

lemma components_segment:
  "CHR ''/'' \<notin> set seg \<Longrightarrow> components seg = [] \<or> components seg = [seg]"
  by (simp add: components_def split_any_none)

lemma segment_dir:
  assumes nofault: "\<And>p. faults s SMkdir p = None"
    and sub: "sub = [] \<or> (\<exists>t. sub = t @ ''/'')" and seg: "CHR ''/'' \<notin> set seg" "sub @ seg \<noteq> []"
    and base: "is_dir s (IsAbspath (sub @ seg), components sub)"
    and free: "\<not> is_file s (IsAbspath (sub @ seg), components sub @ components seg)"
  shows "\<exists>r s1. os_mkdir (sub @ seg) s = (r, s1) \<and> (r = 0 \<or> errno s1 = EEXIST)
     \<and> is_dir s1 (IsAbspath (sub @ seg), components sub @ components seg)"
proof -
  have res: "resolve (sub @ seg) = (IsAbspath (sub @ seg), components sub @ components seg)"
    by (simp add: resolve_def components_dir_append [OF sub])
  have "is_dir s (parent (resolve (sub @ seg))) \<or> is_dir s (resolve (sub @ seg))"
    using components_segment [OF seg(1)] base by (auto simp: res parent_def)
  then show ?thesis
    using mkdir_step [of s "sub @ seg"] nofault seg(2) free by (simp add: res)
qed

lemma split_first:
  assumes "c \<in> set pa"
  shows "pa = takeWhile (\<lambda>x. x \<noteq> c) pa @ c # tl (dropWhile (\<lambda>x. x \<noteq> c) pa)"
    and "c \<notin> set (takeWhile (\<lambda>x. x \<noteq> c) pa)"
  using assms by (induction pa) auto

lemma mkdirs_loop_ok:
  assumes "\<And>p. faults s SMkdir p = None"
    and "sub = [] \<or> (\<exists>t. sub = t @ ''/'')" "sub = [] \<longrightarrow> pa \<noteq> [] \<and> pa ! 0 \<noteq> CHR ''/''"
    and "is_dir s (IsAbspath (sub @ pa), components sub)"
    and "\<And>k. \<not> is_file s (IsAbspath (sub @ pa), components sub @ take k (components pa))"
  shows "\<exists>s'. mkdirs_loop sub pa s = (0, s')
     \<and> is_dir s' (IsAbspath (sub @ pa), components sub @ components pa)"
  using assms
proof (induction sub pa s rule: mkdirs_loop.induct)
  case (1 sub pa s)
  let ?a = "IsAbspath (sub @ pa)"
  show ?case
  proof (cases "CHR ''/'' \<in> set pa")
    case False
    have "sub @ pa \<noteq> []" using "1.prems"(2,3) by auto
    then obtain r s1 where "os_mkdir (sub @ pa) s = (r, s1)" "r = 0 \<or> errno s1 = EEXIST"
        "is_dir s1 (?a, components sub @ components pa)"
      using segment_dir [OF "1.prems"(1,2) False _ "1.prems"(4)]
        "1.prems"(5) [of "length (components pa)"] by auto
    then show ?thesis using False by (auto simp: mkdirs_loop.simps [of sub pa s])
  next
    case True
    let ?seg = "takeWhile (\<lambda>c. c \<noteq> CHR ''/'') pa" and ?rest = "tl (dropWhile (\<lambda>c. c \<noteq> CHR ''/'') pa)"
    have pa: "pa = ?seg @ CHR ''/'' # ?rest" and seg: "CHR ''/'' \<notin> set ?seg"
      by (rule split_first [OF True])+
    have comps: "components pa = components ?seg @ components ?rest"
      using components_append [of ?seg ?rest] pa by simp
    have ne: "sub @ ?seg \<noteq> []"
      using "1.prems"(2,3) pa by (cases ?seg) (auto, metis nth_Cons_0)
    have abs: "IsAbspath (sub @ ?seg) = ?a" "IsAbspath (((sub @ ?seg) @ ''/'') @ ?rest) = ?a"
      using pa IsAbspath_append [OF ne] by (metis append.assoc append_Cons append_Nil)+
    have free: "\<not> is_file s (?a, components sub @ components ?seg)"
      using "1.prems"(5) [of "length (components ?seg)"] comps by simp
    obtain r s1 where m: "os_mkdir (sub @ ?seg) s = (r, s1)" "r = 0 \<or> errno s1 = EEXIST"
        "is_dir s1 (?a, components sub @ components ?seg)"
      using segment_dir [OF "1.prems"(1,2) seg ne] "1.prems"(4) free by (auto simp: abs)
    have g: "grew_dirs s s1" using m(1) by (rule grew_dirs_mkdir)
    have sub': "components ((sub @ ?seg) @ ''/'') = components sub @ components ?seg"
      by (simp add: components_slash components_dir_append [OF "1.prems"(2)] del: append_assoc)
    have nofault: "\<And>p. faults s1 SMkdir p = None" using g "1.prems"(1) by (simp add: grew_dirs_def)
    have free': "\<not> is_file s1 (?a, (components sub @ components ?seg) @ take k (components ?rest))" for k
      using "1.prems"(5) [of "length (components ?seg) + k"] g comps
      by (simp add: grew_dirs_def is_file_def)
    let ?P = "\<lambda>s'. is_dir s' (?a, (components sub @ components ?seg) @ components ?rest)"
    have "\<exists>s'. mkdirs_loop ((sub @ ?seg) @ ''/'') ?rest s1 = (0, s') \<and> ?P s'"
    proof (cases "r = 0")
      case False
      with m(2) show ?thesis
        using "1.IH"(1) [OF True refl refl m(1) [symmetric] refl False _ nofault] m(3) free'
        by (simp only: abs sub') auto
    next
      case r0: True
      then show ?thesis
        using "1.IH"(2) [OF True refl refl m(1) [symmetric] refl _ nofault] m(3) free'
        by (simp only: abs sub') auto
    qed
    moreover have "mkdirs_loop sub pa s = mkdirs_loop ((sub @ ?seg) @ ''/'') ?rest s1"
      using True m(1,2) by (auto simp: mkdirs_loop.simps [of sub pa s] Let_def)
    ultimately show ?thesis by (simp add: comps)
  qed
qed

text \<open>
  With no fault and no plain file in the way, a path that fits the buffer and has a
  component is created.
\<close>

lemma components_drop_slash:
  "components (if p \<noteq> [] \<and> last p = CHR ''/'' then butlast p else p) = components p"
proof (cases "p \<noteq> [] \<and> last p = CHR ''/''")
  case True
  then have "p = butlast p @ ''/''" by (metis append_butlast_last_id)
  then show ?thesis using components_slash [of "butlast p"] True by simp
qed auto

lemma mkdirs_creates:
  assumes nofault: "\<And>p. faults s SMkdir p = None"
    and len: "length pathname < PATH_LENGTH_MAX" and comps: "components pathname \<noteq> []"
    and free: "\<And>k. \<not> is_file s (IsAbspath pathname, take k (components pathname))"
  shows "\<exists>s'. mkdirs pathname s = (0, s') \<and> is_dir s' (resolve pathname) \<and> grew_dirs s s'"
proof -
  let ?p = "if pathname \<noteq> [] \<and> last pathname = CHR ''/'' then butlast pathname else pathname"
  have p: "take (PATH_LENGTH_MAX - 1) pathname = pathname" using len by simp
  have c: "components ?p = components pathname" by (rule components_drop_slash)
  then have ne: "?p \<noteq> []" using comps by auto
  have abs: "IsAbspath ?p = IsAbspath pathname"
    using ne by (cases pathname rule: rev_cases) (auto simp: IsAbspath_append)
  have root: "is_dir s (b, [])" for b by (simp add: is_dir_def)
  have "\<exists>s'. mkdirs pathname s = (0, s') \<and> is_dir s' (IsAbspath pathname, components pathname)"
  proof (cases "?p ! 0 = CHR ''/''")
    case True
    then obtain t where t: "?p = ''/'' @ t" using ne by (cases ?p) auto
    have ct: "components t = components pathname" "components ''/'' = []"
      using c components_append [of "[]" t] components_append [of "[]" "[]"] t by auto
    obtain s' where "mkdirs_loop ''/'' t s = (0, s')" "is_dir s' (IsAbspath (''/'' @ t), components pathname)"
      using mkdirs_loop_ok [OF nofault, of "''/''" t] root free abs t ct by auto
    then show ?thesis using abs t ne p by (auto simp: mkdirs_def Let_def)
  next
    case False
    show ?thesis
    proof (cases "2 \<le> length ?p \<and> ?p ! 0 = CHR ''.'' \<and> ?p ! 1 = CHR ''/''")
      case True
      then obtain t where t: "?p = ''./'' @ t"
        by (cases ?p) (auto simp: neq_Nil_conv Suc_le_length_iff numeral_2_eq_2)
      have ct: "components t = components pathname" "components ''./'' = []"
        using c components_append [of "''.''" t] components_append [of "''.''" "[]"] t
        by (auto simp: components_def)
      obtain s' where "mkdirs_loop ''./'' t s = (0, s')" "is_dir s' (IsAbspath (''./'' @ t), components pathname)"
        using mkdirs_loop_ok [OF nofault, of "''./''" t] root free abs t ct by auto
      then show ?thesis using abs t ne p by (auto simp: mkdirs_def Let_def)
    next
      case nodot: False
      obtain s' where "mkdirs_loop [] ?p s = (0, s')" "is_dir s' (IsAbspath ([] @ ?p), components pathname)"
        using mkdirs_loop_ok [OF nofault, of "[]" ?p] root free abs c ne False by auto
      moreover have "mkdirs pathname s = mkdirs_loop [] ?p s"
        using p False nodot ne unfolding mkdirs_def Let_def by (simp only: if_False simp_thms)
      ultimately show ?thesis using abs by simp
    qed
  qed
  then show ?thesis using mkdirs_grew by (auto simp: resolve_def)
qed

section \<open>Nothing but the path and its ancestors is created\<close>

definition cut_of :: "string \<Rightarrow> string \<Rightarrow> bool" where
  "cut_of q name \<longleftrightarrow> name = q \<or> (\<exists>b. name = q @ CHR ''/'' # b)"

lemma cut_of_resolve:
  assumes "cut_of q name"
  shows "snd (resolve q) = [] \<or> (\<exists>k. resolve q = (IsAbspath name, take k (components name)))"
proof (cases "q = []")
  case False
  have "components q = take (length (components q)) (components name)"
    using assms by (auto simp: cut_of_def components_append)
  moreover have "IsAbspath q = IsAbspath name"
    using assms False by (auto simp: cut_of_def IsAbspath_append)
  ultimately show ?thesis by (auto simp: resolve_def)
qed (simp add: resolve_def)

lemma mkdir_only: "os_mkdir q s = (r, s') \<Longrightarrow> is_dir s' p \<Longrightarrow> is_dir s p \<or> p = resolve q"
  by (erule os_mkdir_cases) auto

lemma mkdirs_loop_only:
  "mkdirs_loop sub pa s = (r, s') \<Longrightarrow> is_dir s' p \<Longrightarrow> is_dir s p \<or> (\<exists>q. p = resolve q \<and> cut_of q (sub @ pa))"
proof (induction sub pa s rule: mkdirs_loop.induct)
  case (1 sub pa s)
  let ?sub = "sub @ (if CHR ''/'' \<in> set pa then takeWhile (\<lambda>c. c \<noteq> CHR ''/'') pa else pa)"
  obtain r1 s1 where m: "os_mkdir ?sub s = (r1, s1)" by fastforce
  note only = mkdir_only [OF m, of p]
  have cut: "cut_of ?sub (sub @ pa)"
    using split_first(1) [of "CHR ''/''" pa] by (auto simp: cut_of_def)
  show ?case
  proof (cases "CHR ''/'' \<in> set pa \<and> (r1 = 0 \<or> errno s1 = EEXIST)")
    case False
    then have "s' = s1"
      using "1.prems"(1) m by (auto simp: mkdirs_loop.simps [of sub pa s] split: if_splits)
    then show ?thesis using "1.prems"(2) only cut by blast
  next
    case True
    then have eq: "sub @ pa = (?sub @ ''/'') @ tl (dropWhile (\<lambda>c. c \<noteq> CHR ''/'') pa)"
      using split_first(1) [of "CHR ''/''" pa] by simp
    have "is_dir s1 p \<or> (\<exists>q. p = resolve q \<and> cut_of q ((?sub @ ''/'') @ tl (dropWhile (\<lambda>c. c \<noteq> CHR ''/'') pa)))"
      using "1.IH" [OF _ refl refl] "1.prems" m True
      by (cases "r1 = 0") (auto simp: mkdirs_loop.simps [of sub pa s])
    then show ?thesis using only cut unfolding eq [symmetric] by blast
  qed
qed

lemma loop_start:
  "\<exists>sub pa. (if x \<noteq> [] \<and> x ! 0 = CHR ''/'' then mkdirs_loop ''/'' (drop 1 x) s
     else if 2 \<le> length x \<and> x ! 0 = CHR ''.'' \<and> x ! 1 = CHR ''/'' then mkdirs_loop ''./'' (drop 2 x) s
     else mkdirs_loop [] x s) = mkdirs_loop sub pa s \<and> sub @ pa = x"
proof (cases "x \<noteq> [] \<and> x ! 0 = CHR ''/''")
  case True
  then show ?thesis by (intro exI [of _ "''/''"] exI [of _ "drop 1 x"]) (cases x, auto)
next
  case False
  show ?thesis
  proof (cases "2 \<le> length x \<and> x ! 0 = CHR ''.'' \<and> x ! 1 = CHR ''/''")
    case True
    then have "''./'' @ drop 2 x = x" by (cases x; cases "tl x") auto
    then show ?thesis using True False by (intro exI [of _ "''./''"] exI [of _ "drop 2 x"]) auto
  next
    case nodot: False
    then show ?thesis using False by (intro exI [of _ "[]"] exI [of _ x]) (simp only: if_False simp_thms append_Nil)
  qed
qed

lemma mkdirs_only:
  assumes run: "mkdirs pathname s = (r, s')" and len: "length pathname < PATH_LENGTH_MAX" and new: "is_dir s' p"
  shows "is_dir s p \<or> (\<exists>k. p = (IsAbspath pathname, take k (components pathname)))"
proof -
  let ?p = "if pathname \<noteq> [] \<and> last pathname = CHR ''/'' then butlast pathname else pathname"
  have p: "take (PATH_LENGTH_MAX - 1) pathname = pathname" using len by simp
  have "\<exists>sub pa. mkdirs pathname s = mkdirs_loop sub pa s \<and> sub @ pa = ?p"
    unfolding mkdirs_def Let_def p by (rule loop_start)
  then obtain sub pa where l: "mkdirs_loop sub pa s = (r, s')" "sub @ pa = ?p" using run by auto
  from mkdirs_loop_only [OF l(1) new, unfolded l(2)]
  consider "is_dir s p" | q where "p = resolve q" "cut_of q ?p" by blast
  then show ?thesis
  proof cases
    case 2
    have "cut_of ?p pathname"
    proof (cases "pathname \<noteq> [] \<and> last pathname = CHR ''/''")
      case True
      then have "pathname = butlast pathname @ CHR ''/'' # []" by (metis append_butlast_last_id)
      then show ?thesis using True by (auto simp: cut_of_def)
    qed (auto simp: cut_of_def)
    then have "cut_of q pathname" using 2(2) by (auto simp: cut_of_def)
    then show ?thesis using cut_of_resolve [of q pathname] 2(1) by (auto simp: is_dir_def)
  qed simp
qed

section \<open>Properties\<close>

text \<open>
  C14: when no \<open>mkdir\<close> is refused, the path fits the buffer, has a component, and no part of it is
  a plain file, \<open>mkdirs\<close> returns 0 and the directory is there; nothing is created but the
  directory and its ancestors, and no file changes.
\<close>

theorem mkdirs_correct:
  assumes "\<And>p. faults s SMkdir p = None" "length pathname < PATH_LENGTH_MAX" "components pathname \<noteq> []"
    and "\<And>k. \<not> is_file s (IsAbspath pathname, take k (components pathname))"
  shows "\<exists>s'. mkdirs pathname s = (0, s') \<and> is_dir s' (resolve pathname) \<and> files s' = files s
    \<and> (\<forall>p. is_dir s' p \<longrightarrow> is_dir s p \<or> (\<exists>k. p = (IsAbspath pathname, take k (components pathname))))"
proof -
  obtain s' where s': "mkdirs pathname s = (0, s')" "is_dir s' (resolve pathname)" "grew_dirs s s'"
    using mkdirs_creates [OF assms] by blast
  show ?thesis
    using s' mkdirs_only [OF s'(1) assms(2)] by (intro exI [of _ s']) (auto simp: grew_dirs_def)
qed

definition blank_os :: os where
  "blank_os = \<lparr>files = (\<lambda>_. None), dirs = (\<lambda>_. False), errno = 0, faults = (\<lambda>_ _. None), room = (\<lambda>_. None),
     dir_size = 4096, heap = (\<lambda>_. NUL)\<rparr>"

theorem mkdirs_correct_witness:
  "\<exists>s'. mkdirs ''store/.lock'' blank_os = (0, s') \<and> is_dir s' (resolve ''store/.lock'')"
proof -
  have c: "components ''store/.lock'' \<noteq> []" by code_simp
  have "\<exists>s'. mkdirs ''store/.lock'' blank_os = (0, s') \<and> is_dir s' (resolve ''store/.lock'')
    \<and> files s' = files blank_os
    \<and> (\<forall>p. is_dir s' p \<longrightarrow> is_dir blank_os p
         \<or> (\<exists>k. p = (IsAbspath ''store/.lock'', take k (components ''store/.lock''))))"
    by (rule mkdirs_correct) (simp_all add: blank_os_def PATH_LENGTH_MAX_def is_file_def c)
  then show ?thesis by blast
qed

text \<open>
  \<open>mkdirs\<close> takes \<open>EEXIST\<close> for success without looking at what exists: where a plain file
  bears the name it returns 0 and there is no directory.
\<close>

theorem mkdirs_on_plain_file:
  "mkdirs ''a'' (put_file (False, [''a'']) [] blank_os)
     = (0, set_errno EEXIST (put_file (False, [''a'']) [] blank_os))
   \<and> \<not> is_dir (put_file (False, [''a'']) [] blank_os) (resolve ''a'')"
proof -
  have r: "resolve ''a'' = (False, [''a''])" by code_simp
  show ?thesis
    by (simp add: mkdirs_def PATH_LENGTH_MAX_def mkdirs_loop.simps [of "[]"] os_mkdir_def r blank_os_def
        is_dir_def Let_def)
qed

end
