(* ===== verification/FileLock.thy ===== *)
theory FileLock
  imports OS
begin

text \<open>
  \<open>src/src/bundle/filelock.h\<close>: a lock is a file that \<open>open\<close> creates exclusively. The
  class keeps the name and a flag; locking and unlocking work on the file system. The
  second half states what a user of the lock relies on as a locale and interprets it on
  the class.
\<close>

section \<open>Definitions\<close>

record FileLock =
  lockfile :: string
  timeout :: int
  delay :: int
  locked :: bool

definition FileLock_new :: "string \<Rightarrow> int \<Rightarrow> int \<Rightarrow> FileLock" where
  "FileLock_new n t d = \<lparr>lockfile = n, timeout = t, delay = d, locked = False\<rparr>"

text \<open>The two static members.\<close>

definition lock_file :: "string \<Rightarrow> os \<Rightarrow> bool \<times> os" where
  "lock_file n s =
     (case os_open_excl n s of (None, s') \<Rightarrow> (False, s') | (Some fd, s') \<Rightarrow> (True, s'))"

definition unlock_file :: "string \<Rightarrow> os \<Rightarrow> bool \<times> os" where
  "unlock_file n s = (case os_unlink n s of (r, s') \<Rightarrow> (0 = r, s'))"

definition TryLock :: "FileLock \<Rightarrow> os \<Rightarrow> bool \<times> FileLock \<times> os" where
  "TryLock l s = (case lock_file (lockfile l) s of (ok, s') \<Rightarrow> (ok, l\<lparr>locked := ok\<rparr>, s'))"

text \<open>\<open>Unlock\<close> leaves the flag set, as the source does.\<close>

definition Unlock :: "FileLock \<Rightarrow> os \<Rightarrow> os" where
  "Unlock l s = (if locked l then snd (unlock_file (lockfile l) s) else s)"

definition IsLocked :: "FileLock \<Rightarrow> bool" where
  "IsLocked l = locked l"

definition FileLock_delete :: "FileLock \<Rightarrow> os \<Rightarrow> os" where
  "FileLock_delete l s = (if locked l then Unlock l s else s)"

text \<open>
  The waiting \<open>Lock\<close>: \<open>others n\<close> is what other processes do to the file system during the
  \<open>n\<close>-th \<open>usleep\<close>. Nothing in the source bounds the loop for every \<open>delay\<close>, so the
  result is an option and \<open>None\<close> means that it never returns.
\<close>

partial_function (option) lock_loop ::
  "(nat \<Rightarrow> os \<Rightarrow> os) \<Rightarrow> nat \<Rightarrow> int \<Rightarrow> FileLock \<Rightarrow> os \<Rightarrow> (FileLock \<times> os) option" where
  "lock_loop others n d l s =
     (let (ok, s1) = lock_file (lockfile l) s; l1 = l\<lparr>locked := ok\<rparr> in
      if \<not> ok then
        if d < timeout l then lock_loop others (Suc n) (wrap32 (d + d)) l1 (others n s1)
        else Some (l1, s1)
      else Some (l1, s1))"

definition Lock :: "(nat \<Rightarrow> os \<Rightarrow> os) \<Rightarrow> FileLock \<Rightarrow> os \<Rightarrow> (bool \<times> FileLock \<times> os) option" where
  "Lock others l s =
     map_option (\<lambda>(l', s'). (locked l', l', s')) (lock_loop others 0 (delay l) l s)"

section \<open>The lock file\<close>

lemma lock_file_True:
  "lock_file n s = (True, s') \<longleftrightarrow>
     s' = put_file (resolve n) [] s \<and> faults s SOpen (resolve n) = None \<and> n \<noteq> []
     \<and> \<not> is_dir s (resolve n) \<and> \<not> is_file s (resolve n) \<and> is_dir s (parent (resolve n))"
  by (auto simp: lock_file_def os_open_excl_Some split: prod.splits option.splits
      intro: os_open_excl_Some [THEN iffD2])
    (metis os_open_excl_Some option.distinct(1) prod.inject option.exhaust)+

lemma lock_file_False: "lock_file n s = (False, s') \<Longrightarrow> \<exists>e. s' = set_errno e s"
  by (auto simp: lock_file_def dest: os_open_excl_None split: prod.splits option.splits)

lemma unlock_file_cases:
  assumes "unlock_file n s = (ok, s')"
  obtains (freed) "ok" "s' = del_file (resolve n) s" "is_file s (resolve n)"
  | (kept) e where "\<not> ok" "s' = set_errno e s"
  using assms by (auto simp: unlock_file_def split: prod.splits elim!: os_unlink_cases)

lemma unlock_file_free:
  assumes "faults s SUnlink (resolve n) = None" "n \<noteq> []" "is_file s (resolve n)" "\<not> is_dir s (resolve n)"
  shows "unlock_file n s = (True, del_file (resolve n) s)"
  using assms by (simp add: unlock_file_def os_unlink_def Let_def)

lemma fs_wf_lock_file: "fs_wf s \<Longrightarrow> lock_file n s = (ok, s') \<Longrightarrow> fs_wf s'"
  by (auto simp: lock_file_def dest: fs_wf_open_excl split: prod.splits option.splits)

lemma fs_wf_Unlock: "fs_wf s \<Longrightarrow> fs_wf (Unlock l s)"
  by (auto simp: Unlock_def unlock_file_def dest: fs_wf_unlink split: prod.splits)

lemma fs_wf_FileLock_delete: "fs_wf s \<Longrightarrow> fs_wf (FileLock_delete l s)"
  by (simp add: FileLock_delete_def fs_wf_Unlock)

section \<open>The waiting lock returns\<close>

lemma lock_loop_returns:
  assumes "0 < d" "timeout l \<le> 2 ^ 30"
  shows "\<exists>r. lock_loop others n d l s = Some r"
  using assms
proof (induction "nat (timeout l - d)" arbitrary: n d l s rule: less_induct)
  case less
  obtain ok s1 where step: "lock_file (lockfile l) s = (ok, s1)" by fastforce
  show ?case
  proof (cases "ok \<or> \<not> d < timeout l")
    case True
    then show ?thesis using step by (auto simp: lock_loop.simps [of others n d l s] Let_def)
  next
    case False
    have w: "wrap32 (d + d) = d + d" using less.prems False by (intro wrap32_id) auto
    have "\<exists>r. lock_loop others (Suc n) (d + d) (l\<lparr>locked := ok\<rparr>) (others n s1) = Some r"
      using less.prems False by (intro less.hyps) auto
    then show ?thesis using step False w by (simp add: lock_loop.simps [of others n d l s])
  qed
qed

lemma Lock_returns:
  assumes "0 < delay l" "timeout l \<le> 2 ^ 30"
  shows "\<exists>r. Lock others l s = Some r"
  using lock_loop_returns [OF assms] by (auto simp: Lock_def)

section \<open>What a user of locks relies on\<close>

locale lock_service =
  fixes acquire :: "string \<Rightarrow> 's \<Rightarrow> bool \<times> 's"
    and release :: "string \<Rightarrow> 's \<Rightarrow> bool \<times> 's"
    and key :: "string \<Rightarrow> 'k"
    and held :: "'s \<Rightarrow> 'k \<Rightarrow> bool"
  assumes acquire_free: "acquire n s = (True, s') \<Longrightarrow> \<not> held s (key n)"
    and acquire_held: "acquire n s = (True, s') \<Longrightarrow> held s' k \<longleftrightarrow> k = key n \<or> held s k"
    and acquire_fails: "acquire n s = (False, s') \<Longrightarrow> held s' k = held s k"
    and release_held: "release n s = (True, s') \<Longrightarrow> held s' k \<longleftrightarrow> k \<noteq> key n \<and> held s k"
    and release_fails: "release n s = (False, s') \<Longrightarrow> held s' k = held s k"
begin

text \<open>
  Processes own sets of locks. If every owned lock is held and no lock has two owners, then
  taking a lock, failing to take it and giving back an owned one keep it that way.
\<close>

definition exclusive :: "('p \<Rightarrow> 'k set) \<Rightarrow> 's \<Rightarrow> bool" where
  "exclusive own s \<longleftrightarrow> (\<forall>i k. k \<in> own i \<longrightarrow> held s k) \<and> (\<forall>i j k. k \<in> own i \<and> k \<in> own j \<longrightarrow> i = j)"

lemma acquire_excludes: "acquire n s = (True, s') \<Longrightarrow> acquire m s' = (True, s'') \<Longrightarrow> key m \<noteq> key n"
  using acquire_free acquire_held by metis

lemma exclusive_acquire:
  assumes "exclusive own s" "acquire n s = (True, s')"
  shows "exclusive (own(i := insert (key n) (own i))) s'"
  using assms acquire_free [OF assms(2)] acquire_held [OF assms(2)]
  unfolding exclusive_def by (auto split: if_splits) metis+

lemma exclusive_acquire_fails:
  assumes "exclusive own s" "acquire n s = (False, s')"
  shows "exclusive own s'"
  using assms acquire_fails [OF assms(2)] by (simp add: exclusive_def)

lemma exclusive_release:
  assumes "exclusive own s" "release n s = (ok, s')" "key n \<in> own i"
  shows "exclusive (own(i := own i - {key n})) s'"
proof (cases ok)
  case True
  then show ?thesis
    using assms release_held [of n s s'] unfolding exclusive_def by (auto split: if_splits) blast+
next
  case False
  then show ?thesis
    using assms release_fails [of n s s'] unfolding exclusive_def by (auto split: if_splits) blast+
qed

end

interpretation flock: lock_service lock_file unlock_file resolve is_file
proof
  fix n s s' k
  show "lock_file n s = (True, s') \<Longrightarrow> \<not> is_file s (resolve n)"
    by (simp add: lock_file_True)
  show "lock_file n s = (True, s') \<Longrightarrow> is_file s' k = (k = resolve n \<or> is_file s k)"
    by (auto simp: lock_file_True)
  show "lock_file n s = (False, s') \<Longrightarrow> is_file s' k = is_file s k"
    by (auto dest!: lock_file_False)
  show "unlock_file n s = (True, s') \<Longrightarrow> is_file s' k = (k \<noteq> resolve n \<and> is_file s k)"
    by (erule unlock_file_cases) auto
  show "unlock_file n s = (False, s') \<Longrightarrow> is_file s' k = is_file s k"
    by (erule unlock_file_cases) auto
qed

section \<open>Properties\<close>

text \<open>
  C12: mutual exclusion. If every lock that a process owns is a lock file and no lock has two
  owners, a successful \<open>lock_file\<close> by one process and a later one by any process before the
  first is unlocked are for different lock files, and ownership stays exclusive.
\<close>

theorem lock_exclusion:
  assumes "flock.exclusive own s" "lock_file n s = (True, s')"
  shows "flock.exclusive (own(i := insert (resolve n) (own i))) s'
    \<and> (\<forall>j. resolve n \<notin> own j) \<and> (\<forall>s'' r. lock_file n s' = (r, s'') \<longrightarrow> \<not> r)"
proof (intro conjI allI impI)
  show "flock.exclusive (own(i := insert (resolve n) (own i))) s'"
    using assms by (rule flock.exclusive_acquire)
  show "resolve n \<notin> own j" for j
    using assms flock.acquire_free [OF assms(2)] unfolding flock.exclusive_def by blast
  show "\<not> r" if "lock_file n s' = (r, s'')" for r s''
    using that flock.acquire_excludes [OF assms(2), of n s''] by (cases r) auto
qed

definition lock_os :: os where
  "lock_os = \<lparr>files = (\<lambda>_. None), dirs = (\<lambda>p. p = (False, [''.lock''])), errno = 0, faults = (\<lambda>_ _. None),
     room = (\<lambda>_. None), dir_size = 4096, heap = (\<lambda>_. NUL)\<rparr>"

theorem lock_exclusion_witness:
  "flock.exclusive ((\<lambda>_. {})(0 := {resolve ''.lock/7''}) :: nat \<Rightarrow> path set) (snd (lock_file ''.lock/7'' lock_os))"
proof -
  have r: "resolve ''.lock/7'' = (False, [''.lock'', ''7''])" by code_simp
  have l: "lock_file ''.lock/7'' lock_os = (True, put_file (resolve ''.lock/7'') [] lock_os)"
    by (simp add: lock_file_True r lock_os_def is_dir_def is_file_def parent_def)
  have e: "flock.exclusive ((\<lambda>_. {}) :: nat \<Rightarrow> path set) lock_os"
    by (simp add: flock.exclusive_def)
  from lock_exclusion [OF e l, of 0] show ?thesis by (simp add: l)
qed

text \<open>
  C13: the waiting \<open>Lock\<close> always returns when the delay is positive and the timeout below \<open>2^30\<close>
  (the default is 10000 with a delay of 500), whatever other processes do meanwhile.
\<close>

theorem Lock_terminates:
  assumes "0 < delay l" "timeout l \<le> 2 ^ 30"
  shows "\<exists>r. Lock others l s = Some r"
  using assms by (rule Lock_returns)

theorem Lock_terminates_witness: "\<exists>r. Lock (\<lambda>n s. s) (FileLock_new ''.lock/7'' 10000 500) lock_os = Some r"
  by (rule Lock_terminates) (simp_all add: FileLock_new_def)

text \<open>
  After \<open>Unlock\<close> the object still thinks that it is locked, so a second \<open>Unlock\<close> (the
  destructor calls one) removes the lock file that another process has created in between.
\<close>

theorem Unlock_twice_steals:
  assumes "locked l" "lockfile l \<noteq> []" "faults s SUnlink (resolve (lockfile l)) = None"
    and "lock_file (lockfile l) s = (True, s')" "fs_wf s"
  shows "\<not> is_file (FileLock_delete l s') (resolve (lockfile l))"
proof -
  have "unlock_file (lockfile l) s' = (True, del_file (resolve (lockfile l)) s')"
    using assms by (intro unlock_file_free) (auto simp: lock_file_True)
  then show ?thesis using assms(1) by (simp add: FileLock_delete_def Unlock_def)
qed

theorem Unlock_twice_steals_witness:
  "\<not> is_file (FileLock_delete ((FileLock_new ''.lock/7'' 10000 500)\<lparr>locked := True\<rparr>)
     (put_file (False, [''.lock'', ''7'']) [] lock_os)) (resolve ''.lock/7'')"
proof -
  have r: "resolve ''.lock/7'' = (False, [''.lock'', ''7''])" by code_simp
  have wf: "fs_wf lock_os" by (auto simp: fs_wf_def lock_os_def is_file_def is_dir_def parent_def)
  show ?thesis
    using Unlock_twice_steals [of "(FileLock_new ''.lock/7'' 10000 500)\<lparr>locked := True\<rparr>" lock_os
        "put_file (False, [''.lock'', ''7'']) [] lock_os"] wf
    by (simp add: FileLock_new_def lock_file_True r) (simp add: lock_os_def is_dir_def is_file_def parent_def)
qed

end
