(* ===== verification/BundleStore.thy ===== *)
theory BundleStore
  imports BundleUrl Mkdirs FileLock
begin

text \<open>
  The storage part of \<open>src/src/bundle/bundle.cc\<close>: the on-disk \<open>FileHeader\<close>, \<open>Reader::Read\<close>,
  the three \<open>Writer::Write\<close> members, \<open>BatchWrite\<close>, \<open>CreateBundle\<close>, \<open>Writer::Allocate\<close>
  and \<open>Release\<close>, on the file system of theory \<open>OS\<close> (the build without
  \<open>USE_CACHED_IO\<close> and without \<open>USE_MOOSECLIENT\<close>).
\<close>

section \<open>Results\<close>

text \<open>
  A C++ call returns, throws (\<open>std::bad_alloc\<close> and its kin) or has undefined behaviour.
\<close>

datatype 'a outcome = Ret 'a | Throw | Undefined

section \<open>The file header\<close>

record FileHeader =
  magic :: nat
  version :: nat
  flag :: nat
  content_length :: nat
  url :: bytes
  user_data :: bytes

definition kMAGIC_CODE :: nat where "kMAGIC_CODE = 0xE4E4E4E4"
definition kVERSION :: nat where "kVERSION = 1"
definition kFILE_NORMAL :: nat where "kFILE_NORMAL = 1"
definition kFILE_REDIRECT :: nat where "kFILE_REDIRECT = 2"
definition kFILE_DELETE :: nat where "kFILE_DELETE = 4"

text \<open>A \<open>uint32_t\<close> in memory (little-endian) and back.\<close>

definition le32 :: "nat \<Rightarrow> bytes" where
  "le32 n = map (\<lambda>i. char_of (n div 256 ^ i)) [0, 1, 2, 3]"

definition rd32 :: "bytes \<Rightarrow> nat" where
  "rd32 b = of_char (b ! 0) + 256 * of_char (b ! 1) + 65536 * of_char (b ! 2)
     + 16777216 * of_char (b ! 3)"

definition decode_header :: "bytes \<Rightarrow> FileHeader" where
  "decode_header b =
     \<lparr>magic = rd32 (take 4 b), version = rd32 (take 4 (drop 4 b)),
      flag = rd32 (take 4 (drop 8 b)), content_length = rd32 (take 4 (drop 12 b)),
      url = take kUrlSize (drop 16 b), user_data = take kUserDataSize (drop (16 + kUrlSize) b)\<rparr>"

text \<open>\<open>strncpy (dst, src, n)\<close>: the C string, cut or filled up with NULs.\<close>

definition strncpy :: "nat \<Rightarrow> string \<Rightarrow> bytes" where
  "strncpy n s = take n (c_str s @ replicate n NUL)"

text \<open>
  Storing into a buffer. \<open>new char[n]\<close> yields whatever the heap holds; what is not stored
  over keeps those bytes.
\<close>

definition poke :: "bytes \<Rightarrow> nat \<Rightarrow> bytes \<Rightarrow> bytes" where
  "poke buf i b = take i buf @ b @ drop (i + length b) buf"

definition new_buffer :: "os \<Rightarrow> nat \<Rightarrow> bytes" where
  "new_buffer s n = map (heap s) [0..<n]"

section \<open>Reader\<close>

record ReadResult =
  rr_code :: int
  rr_data :: bytes
  rr_readed :: nat
  rr_user :: "bytes option"
    \<comment> \<open>what was copied to \<open>user_data\<close>, if anything\<close>

definition read_error :: "int \<Rightarrow> ReadResult" where
  "read_error e = \<lparr>rr_code = e, rr_data = [], rr_readed = 0, rr_user = None\<rparr>"

text \<open>
  \<open>Reader::Read (filename, offset, length, buf, buf_size, &readed, user_data, user_data_size)\<close>;
  \<open>ud\<close> is the size of the \<open>user_data\<close> buffer, \<open>None\<close> for a null pointer. \<open>rr_data\<close> are
  the bytes stored to \<open>buf\<close>, \<open>rr_readed\<close> is \<open>*readed\<close>. \<open>fseek\<close> takes a \<open>long\<close>
  and refuses negative positions; \<open>rsize\<close> and \<open>ret\<close> are \<open>int\<close>s, whatever the sizes are.
\<close>

definition Reader_Read_file ::
  "string \<Rightarrow> nat \<Rightarrow> nat \<Rightarrow> nat \<Rightarrow> nat option \<Rightarrow> os \<Rightarrow> (ReadResult \<times> os) outcome" where
  "Reader_Read_file filename off len buf_size ud s =
     (if (case ud of Some n \<Rightarrow> n < kUserDataSize | None \<Rightarrow> False) then Ret (read_error EINVAL, s)
      else case os_open filename s of
        (None, s) \<Rightarrow> Ret (read_error (errno s), s)
      | (Some fp, s) \<Rightarrow>
          if wrap64 (int off) < 0 then Ret (read_error EINVAL, set_errno EINVAL s)
          else
            let (hb, s) = os_read fp off kFileHeaderSize s in
            if length hb < kFileHeaderSize then Ret (read_error EIO, s)
            else
              let header = decode_header hb in
              if kMAGIC_CODE \<noteq> magic header then Ret (read_error EIO, s)
              else if kVERSION \<noteq> version header then Ret (read_error EIO, s)
              else if content_length header < len then Ret (read_error EIO, s)
              else if kFILE_NORMAL \<noteq> flag header then Ret (read_error EIO, s)
              else
                let rsize = wrap32 (int (if len > buf_size then buf_size else len));
                    (b, s) = os_read fp (off + kFileHeaderSize) (to_size rsize) s
                in if buf_size < length b then Undefined
                   else let ret = wrap32 (int (length b)) in
                   if ret < rsize
                   then Ret (\<lparr>rr_code = errno s, rr_data = b, rr_readed = to_size ret, rr_user = None\<rparr>, s)
                   else Ret (\<lparr>rr_code = 0, rr_data = b, rr_readed = to_size ret,
                              rr_user = (if ud = None then None else Some (user_data header))\<rparr>, s))"

text \<open>The largest array \<open>new\<close> can be asked for, and the longest \<open>std::string\<close>.\<close>

definition max_array :: nat where
  "max_array = 2 ^ 63 - 1"

text \<open>
  \<open>Reader::Read (url, &buf, storage, extract, &user_data)\<close>: the result code, \<open>*buf\<close> and
  \<open>*user_data\<close> (the local buffer \<open>ud\<close> starts as zeros).
\<close>

definition Reader_Read ::
  "Setting \<Rightarrow> string \<Rightarrow> string \<Rightarrow> ExtractUrl option \<Rightarrow> os \<Rightarrow> ((int \<times> bytes \<times> bytes) \<times> os) outcome" where
  "Reader_Read g u storage ex s =
     (if u = [] then Ret ((-1, [], []), s)
      else
        let ex = (case ex of None \<Rightarrow> url_extract g | Some f \<Rightarrow> f);
            (ok, info) = ex u Info0
        in if \<not> ok then Ret ((-1, [], []), s)
           else
             let bundle_name = PathJoin storage (info_prefix info);
                 bundle_name = PathJoin bundle_name (Bid2Filename g (info_id info))
             in if max_array < info_size info then Throw
                else case Reader_Read_file bundle_name (info_offset info) (info_size info)
                            (info_size info) (Some kUserDataSize) s of
                  Throw \<Rightarrow> Throw
                | Undefined \<Rightarrow> Undefined
                | Ret (rr, s) \<Rightarrow>
                    if max_array < rr_readed rr then Throw
                    else Ret ((rr_code rr, take (rr_readed rr) (rr_data rr),
                          (case rr_user rr of Some x \<Rightarrow> x | None \<Rightarrow> replicate kUserDataSize NUL)), s))"

section \<open>Writer\<close>

text \<open>
  The static \<open>Write (bundle_file, offset, url, buf, buf_size, &written, user_data, user_data_size)\<close>:
  the result code and \<open>*written\<close>. \<open>lseek\<close>'s \<open>off_t\<close> result and the size of the block are
  squeezed into \<open>int\<close>s; a block that comes out too small for the header and the data would
  be overrun.
\<close>

definition block_buffer :: "os \<Rightarrow> nat \<Rightarrow> string \<Rightarrow> bytes \<Rightarrow> bytes option \<Rightarrow> bytes" where
  "block_buffer s tot u buf ud =
     (let content = new_buffer s tot;
          content = poke content 0 (le32 kMAGIC_CODE);
          content = poke content 12 (le32 (length buf));
          content = poke content 4 (le32 kVERSION);
          content = poke content 8 (le32 kFILE_NORMAL);
          content = poke content 16 (strncpy kUrlSize u);
          content = (case ud of None \<Rightarrow> content
                     | Some d \<Rightarrow> poke content (16 + kUrlSize) (take (min (length d) kUserDataSize) d))
      in poke content kFileHeaderSize buf)"

definition Writer_Write_at ::
  "string \<Rightarrow> nat \<Rightarrow> string \<Rightarrow> bytes \<Rightarrow> bytes option \<Rightarrow> os \<Rightarrow> ((int \<times> nat) \<times> os) outcome" where
  "Writer_Write_at bundle_file off u buf ud s =
     (case os_open bundle_file s of
        (None, s) \<Rightarrow> Ret ((errno s, 0), s)
      | (Some fd, s) \<Rightarrow>
          let pos = wrap64 (int off);
              (ret, s) = (if pos < 0 then (-1, set_errno EINVAL s) else (wrap32 pos, s))
          in if ret = -1 then Ret ((EIO, 0), s)
             else
               let tot = wrap32 (int (Align1K (szadd kFileHeaderSize (length buf)))) in
               if tot < 0 then Throw
               else if nat tot < kFileHeaderSize + length buf then Undefined
               else
                 let content = block_buffer s (nat tot) u buf ud;
                     (ret, s) = os_write fd off content s
                 in if ret < 0 \<or> ret \<noteq> tot then Ret ((errno s, 0), s)
                    else Ret ((0, length buf), s))"

record Writer =
  w_filename :: string
  w_filelock :: "FileLock option"
  w_builder :: "BuildUrl option"
  w_info :: Info

definition EnsureUrl :: "Writer \<Rightarrow> string" where
  "EnsureUrl w = (case w_builder w of Some f \<Rightarrow> f (w_info w) | None \<Rightarrow> [])"

definition Writer_Write_url ::
  "Writer \<Rightarrow> string \<Rightarrow> bytes \<Rightarrow> bytes option \<Rightarrow> os \<Rightarrow> ((int \<times> nat) \<times> os) outcome" where
  "Writer_Write_url w u buf ud s = Writer_Write_at (w_filename w) (info_offset (w_info w)) u buf ud s"

definition Writer_Write ::
  "Writer \<Rightarrow> bytes \<Rightarrow> bytes option \<Rightarrow> os \<Rightarrow> ((int \<times> nat) \<times> os) outcome" where
  "Writer_Write w buf ud s = Writer_Write_url w (EnsureUrl w) buf ud s"

text \<open>\<open>BatchWrite\<close>: result code, \<open>*written\<close>, \<open>*url\<close> (when it is set) and the changed writer.\<close>

definition BatchWrite ::
  "Writer \<Rightarrow> bytes \<Rightarrow> bytes option \<Rightarrow> os \<Rightarrow> ((int \<times> nat \<times> string option) \<times> Writer \<times> os) outcome" where
  "BatchWrite w buf ud s =
     (let w = w\<lparr>w_info := (w_info w)\<lparr>info_size := length buf\<rparr>\<rparr>;
          this_url = EnsureUrl w
      in case Writer_Write_url w this_url buf ud s of
           Throw \<Rightarrow> Throw
         | Undefined \<Rightarrow> Undefined
         | Ret ((ret, written), s) \<Rightarrow>
             if ret = 0 then
               Ret ((ret, written, Some this_url),
                    w\<lparr>w_info := (w_info w)\<lparr>info_offset :=
                         szadd (info_offset (w_info w)) (Align1K (szadd kFileHeaderSize (length buf)))\<rparr>\<rparr>, s)
             else Ret ((ret, written, None), w, s))"

text \<open>\<open>CreateBundle\<close>: \<open>now_str\<close> is what \<open>strftime\<close> prints (at most 99 characters).\<close>

definition bundle_header :: "string \<Rightarrow> bytes" where
  "bundle_header now_str =
     (let text = take (kBundleHeaderSize - 1) (''bundle file store'' @ [CHR 0x0A] @ ''1.0''
                   @ [CHR 0x0A] @ now_str @ [CHR 0x0A])
      in text @ replicate (kBundleHeaderSize - length text) NUL)"

definition CreateBundle :: "string \<Rightarrow> string \<Rightarrow> os \<Rightarrow> bool \<times> os" where
  "CreateBundle filename now_str s =
     (case os_open_trunc filename s of
        (None, s) \<Rightarrow> (False, s)
      | (Some fd, s) \<Rightarrow>
          let (ret, s) = os_write fd 0 (bundle_header now_str) s
          in if ret \<noteq> int kBundleHeaderSize then (False, s) else (True, s))"

subsection \<open>Allocate\<close>

text \<open>
  The process-wide state of \<open>Allocate\<close>: the static \<open>last_id_\<close> and the state of \<open>rand ()\<close>
  (the sequence it will return). \<open>getpid ()\<close> and the time are arguments.
\<close>

record proc =
  last_id :: int
  rands :: "nat \<Rightarrow> int"
  rand_pos :: nat

definition proc_rand :: "proc \<Rightarrow> int \<times> proc" where
  "proc_rand p = (rands p (rand_pos p), p\<lparr>rand_pos := Suc (rand_pos p)\<rparr>)"

text \<open>The arguments of one call, after the preamble: a leading slash of the prefix is dropped.\<close>

record request =
  rq_prefix :: string
  rq_postfix :: string
  rq_size :: nat
  rq_storage :: string
  rq_lock_dir :: string
  rq_builder :: "BuildUrl option"
  rq_now :: string

text \<open>One iteration of the loop: try again, give up with \<open>NULL\<close>, or return a writer.\<close>

datatype attempt = Again | Null | Got Writer

text \<open>Step 1: take the lock, creating the lock directory when that is what is missing.\<close>

definition take_lock :: "request \<Rightarrow> FileLock \<Rightarrow> os \<Rightarrow> (attempt + FileLock) \<times> os" where
  "take_lock rq l s =
     (case TryLock l s of
        (True, l, s) \<Rightarrow> (Inr l, s)
      | (False, l, s) \<Rightarrow>
          let (acc, s) = os_access (rq_lock_dir rq) s;
              (made, s) = (if acc = -1 then mkdirs (rq_lock_dir rq) s else (0, s))
          in if made \<noteq> 0 then (Inl Null, FileLock_delete l s)
             else case TryLock l s of
                    (True, l, s) \<Rightarrow> (Inr l, s)
                  | (False, l, s) \<Rightarrow> (Inl Again, FileLock_delete l s))"

definition bundle_path :: "Setting \<Rightarrow> string \<Rightarrow> string \<Rightarrow> int \<Rightarrow> string" where
  "bundle_path g storage pre bid = PathJoin (PathJoin storage pre) (Bid2Filename g bid)"

text \<open>
  Steps 2 to 4, with the lock held: look at the bundle file, create it when it does not
  exist, and build the writer. The last branch of step 3 keeps the lock file (the source
  deletes \<open>filelock\<close> on every other way out).
\<close>

definition bundle_attempt :: "Setting \<Rightarrow> request \<Rightarrow> int \<Rightarrow> FileLock \<Rightarrow> os \<Rightarrow> attempt \<times> os" where
  "bundle_attempt g rq bid l s =
     (let bundle_file = bundle_path g (rq_storage rq) (rq_prefix rq) bid;
          (st, s) = os_lstat bundle_file s;
          need = Align1K (szadd kFileHeaderSize (rq_size rq));
          writer = (\<lambda>off. Got \<lparr>w_filename = bundle_file, w_filelock = Some l,
              w_builder = (case rq_builder rq of Some b \<Rightarrow> Some b | None \<Rightarrow> Some (url_build g)),
              w_info = Info0\<lparr>info_id := bid, info_offset := off, info_size := rq_size rq,
                             info_prefix := rq_prefix rq, info_postfix := rq_postfix rq\<rparr>\<rparr>)
      in case st of
           Some st_size \<Rightarrow>
             if szadd st_size need > max_bundle_size g then (Again, FileLock_delete l s)
             else (writer st_size, s)
         | None \<Rightarrow>
             if errno s = ENOENT then
               let par = Dirname bundle_file;
                   (acc, s) = os_access par s;
                   (made, s) = (if acc = -1 then mkdirs par s else (0, s))
               in if made \<noteq> 0 then (Null, FileLock_delete l s)
                  else case CreateBundle bundle_file (rq_now rq) s of
                         (False, s) \<Rightarrow> (Null, FileLock_delete l s)
                       | (True, s) \<Rightarrow> (writer kBundleHeaderSize, s)
             else (Again, s))"

definition allocate_step :: "Setting \<Rightarrow> request \<Rightarrow> int \<Rightarrow> os \<Rightarrow> attempt \<times> os" where
  "allocate_step g rq bid s =
     (case take_lock rq (FileLock_new (PathJoin (rq_lock_dir rq) (show_int bid)) 10000 500) s of
        (Inl a, s) \<Rightarrow> (a, s)
      | (Inr l, s) \<Rightarrow> bundle_attempt g rq bid l s)"

text \<open>
  The \<open>while (true)\<close> loop; \<open>loop_count\<close> is its value before the increment. It can run for
  ever (every bundle locked or full), which is the result \<open>None\<close>; \<open>loop_count\<close> is counted without the overflow that
  the \<open>int\<close> of the source would meet after \<open>2^31\<close> attempts.
\<close>

definition choose_id :: "Setting \<Rightarrow> int \<Rightarrow> proc \<Rightarrow> proc" where
  "choose_id g loop_count p =
     (if loop_count > bundle_count_per_day g then
        let (r, p) = proc_rand p in p\<lparr>last_id := bundle_count_per_day g + r mod 100\<rparr>
      else p)"

partial_function (option) allocate_loop ::
  "Setting \<Rightarrow> request \<Rightarrow> int \<Rightarrow> proc \<Rightarrow> os \<Rightarrow> (Writer option \<times> proc \<times> os) option" where
  "allocate_loop g rq loop_count p s =
     (let loop_count = loop_count + 1;
          p = choose_id g loop_count p
      in case allocate_step g rq (last_id p) s of
           (Again, s) \<Rightarrow> allocate_loop g rq loop_count (p\<lparr>last_id := wrap32 (last_id p + 1)\<rparr>) s
         | (Null, s) \<Rightarrow> Some (None, p, s)
         | (Got w, s) \<Rightarrow> Some (Some w, p, s))"

definition Allocate ::
  "Setting \<Rightarrow> int \<Rightarrow> string \<Rightarrow> string \<Rightarrow> string \<Rightarrow> nat \<Rightarrow> string \<Rightarrow> string option \<Rightarrow> BuildUrl option
     \<Rightarrow> proc \<Rightarrow> os \<Rightarrow> (Writer option \<times> proc \<times> os) option" where
  "Allocate g pid now pre post sz storage lock_path builder p s =
     (let pre = (if pre \<noteq> [] \<and> pre ! 0 = CHR ''/'' then drop 1 pre else pre);
          p = (if last_id p = -1 then p\<lparr>last_id := pid mod 10\<rparr> else p);
          lock_dir = (case lock_path of None \<Rightarrow> PathJoin storage ''.lock'' | Some d \<Rightarrow> d)
      in allocate_loop g
           \<lparr>rq_prefix = pre, rq_postfix = post, rq_size = sz, rq_storage = storage,
            rq_lock_dir = lock_dir, rq_builder = builder, rq_now = now\<rparr> 0 p s)"

definition Release :: "Writer \<Rightarrow> os \<Rightarrow> Writer \<times> os" where
  "Release w s =
     (w\<lparr>w_filelock := None\<rparr>, (case w_filelock w of None \<Rightarrow> s | Some l \<Rightarrow> FileLock_delete l s))"

section \<open>Layout of a stored block\<close>

lemma mod256_4: "n mod 256 + 256 * (n div 256 mod 256) + 65536 * (n div 65536 mod 256)
    + 16777216 * (n div 16777216 mod 256) = n mod (2 ^ 32 :: nat)"
proof -
  have "n mod (256 * 16777216) = 256 * (n div 256 mod 16777216) + n mod 256"
    by (rule mod_mult2_eq)
  moreover have "n div 256 mod (256 * 65536) = 256 * (n div 256 div 256 mod 65536) + n div 256 mod 256"
    by (rule mod_mult2_eq)
  moreover have "n div 65536 mod (256 * 256) = 256 * (n div 65536 div 256 mod 256) + n div 65536 mod 256"
    by (rule mod_mult2_eq)
  ultimately show ?thesis by (simp add: div_mult2_eq [symmetric])
qed

lemma rd32_le32 [simp]: "rd32 (le32 n) = n mod 2 ^ 32"
  using mod256_4 [of n] by (simp add: rd32_def le32_def)

lemma length_le32 [simp]: "length (le32 n) = 4"
  by (simp add: le32_def)

lemma length_strncpy [simp]: "length (strncpy n s) = n"
  by (simp add: strncpy_def)

lemma length_new_buffer [simp]: "length (new_buffer s n) = n"
  by (simp add: new_buffer_def)

lemma poke_mid: "length x = length b \<Longrightarrow> i = length a \<Longrightarrow> poke (a @ x @ c) i b = a @ b @ c"
  by (simp add: poke_def)

lemma poke_eq:
  assumes "length x = length b" "i = length a" "buf = a @ x @ c" "y = a @ b @ c"
  shows "poke buf i b = y"
  unfolding assms(3,4) using assms(1,2) by (rule poke_mid)

lemma split_len:
  assumes "n \<le> length xs"
  obtains a b where "xs = a @ b" "length a = n"
  using assms by (metis append_take_drop_id length_take min.absorb2)

text \<open>
  The block is the header, the data and a rest that nothing was stored to. \<open>ud\<close> are the 240
  bytes of user data: those that were given, then whatever the heap held.
\<close>

lemma block_buffer_layout:
  assumes "kFileHeaderSize + length buf \<le> tot"
  obtains d rest where
    "block_buffer s tot u buf ud =
       le32 kMAGIC_CODE @ le32 kVERSION @ le32 kFILE_NORMAL @ le32 (length buf)
       @ strncpy kUrlSize u @ d @ buf @ rest"
    "length d = kUserDataSize"
    "take (case ud of None \<Rightarrow> 0 | Some x \<Rightarrow> min (length x) kUserDataSize) d
       = (case ud of None \<Rightarrow> [] | Some x \<Rightarrow> take kUserDataSize x)"
    "length rest = tot - kFileHeaderSize - length buf"
proof -
  have len: "512 + length buf \<le> length (new_buffer s tot)" using assms by (simp add: bundle_consts)
  obtain m r1 where r1: "new_buffer s tot = m @ r1" "length m = 4"
    by (rule split_len [of 4]) (use len in auto)
  obtain v r2 where r2: "r1 = v @ r2" "length v = 4"
    by (rule split_len [of 4 r1]) (use len r1 in auto)
  obtain f r3 where r3: "r2 = f @ r3" "length f = 4"
    by (rule split_len [of 4 r2]) (use len r1 r2 in auto)
  obtain l r4 where r4: "r3 = l @ r4" "length l = 4"
    by (rule split_len [of 4 r3]) (use len r1 r2 r3 in auto)
  obtain n r5 where r5: "r4 = n @ r5" "length n = 256"
    by (rule split_len [of 256 r4]) (use len r1 r2 r3 r4 in auto)
  obtain d r6 where r6: "r5 = d @ r6" "length d = 240"
    by (rule split_len [of 240 r5]) (use len r1 r2 r3 r4 r5 in auto)
  obtain c rest where r7: "r6 = c @ rest" "length c = length buf"
    by (rule split_len [of "length buf" r6]) (use len r1 r2 r3 r4 r5 r6 in auto)
  let ?h = "le32 kMAGIC_CODE @ le32 kVERSION @ le32 kFILE_NORMAL @ le32 (length buf) @ strncpy kUrlSize u"
  let ?t = "case ud of None \<Rightarrow> [] | Some x \<Rightarrow> take kUserDataSize x"
  let ?d = "?t @ drop (length ?t) d"
  have nb: "new_buffer s tot = m @ v @ f @ l @ n @ d @ c @ rest"
    using r1 r2 r3 r4 r5 r6 r7 by simp
  have p1: "poke (m @ v @ f @ l @ n @ d @ c @ rest) 0 (le32 kMAGIC_CODE)
      = le32 kMAGIC_CODE @ v @ f @ l @ n @ d @ c @ rest"
    by (rule poke_eq [of m _ _ "[]" _ "v @ f @ l @ n @ d @ c @ rest"]) (simp_all add: r1(2))
  have p2: "poke (le32 kMAGIC_CODE @ v @ f @ l @ n @ d @ c @ rest) 12 (le32 (length buf))
      = le32 kMAGIC_CODE @ v @ f @ le32 (length buf) @ n @ d @ c @ rest"
    by (rule poke_eq [of l _ _ "le32 kMAGIC_CODE @ v @ f" _ "n @ d @ c @ rest"])
      (simp_all add: r2(2) r3(2) r4(2))
  have p3: "poke (le32 kMAGIC_CODE @ v @ f @ le32 (length buf) @ n @ d @ c @ rest) 4 (le32 kVERSION)
      = le32 kMAGIC_CODE @ le32 kVERSION @ f @ le32 (length buf) @ n @ d @ c @ rest"
    by (rule poke_eq [of v _ _ "le32 kMAGIC_CODE" _ "f @ le32 (length buf) @ n @ d @ c @ rest"])
      (simp_all add: r2(2))
  have p4: "poke (le32 kMAGIC_CODE @ le32 kVERSION @ f @ le32 (length buf) @ n @ d @ c @ rest) 8
        (le32 kFILE_NORMAL)
      = le32 kMAGIC_CODE @ le32 kVERSION @ le32 kFILE_NORMAL @ le32 (length buf) @ n @ d @ c @ rest"
    by (rule poke_eq [of f _ _ "le32 kMAGIC_CODE @ le32 kVERSION" _ "le32 (length buf) @ n @ d @ c @ rest"])
      (simp_all add: r3(2))
  have p5: "poke (le32 kMAGIC_CODE @ le32 kVERSION @ le32 kFILE_NORMAL @ le32 (length buf) @ n @ d @ c @ rest)
        16 (strncpy kUrlSize u) = ?h @ d @ c @ rest"
    by (rule poke_eq [of n _ _ "le32 kMAGIC_CODE @ le32 kVERSION @ le32 kFILE_NORMAL @ le32 (length buf)"
          _ "d @ c @ rest"])
      (simp_all add: r5(2) kUrlSize_def)
  have lt: "length ?t \<le> 240" by (simp add: bundle_consts split: option.splits)
  have user: "(case ud of None \<Rightarrow> ?h @ d @ c @ rest
      | Some x \<Rightarrow> poke (?h @ d @ c @ rest) (16 + kUrlSize) (take (min (length x) kUserDataSize) x))
      = ?h @ ?d @ c @ rest"
  proof (cases ud)
    case (Some x)
    have t: "take (min (length x) kUserDataSize) x = ?t" using Some by (simp add: min_def)
    have "d = take (length ?t) d @ drop (length ?t) d" by simp
    then have "?h @ d @ c @ rest = ?h @ take (length ?t) d @ (drop (length ?t) d @ c @ rest)"
      by (metis append.assoc)
    moreover have "poke (?h @ take (length ?t) d @ (drop (length ?t) d @ c @ rest)) (16 + kUrlSize) ?t
        = ?h @ ?t @ (drop (length ?t) d @ c @ rest)"
      using lt r6 by (intro poke_mid) (simp_all add: bundle_consts)
    ultimately have "poke (?h @ d @ c @ rest) (16 + kUrlSize) ?t = ?h @ ?t @ (drop (length ?t) d @ c @ rest)"
      by (simp only:)
    with t show ?thesis unfolding Some by (simp only: option.case append.assoc)
  qed simp
  have final: "poke (?h @ ?d @ c @ rest) kFileHeaderSize buf = ?h @ ?d @ buf @ rest"
    using poke_mid [of c buf kFileHeaderSize "?h @ ?d" rest] r6 r7 lt by (simp add: bundle_consts)
  have "block_buffer s tot u buf ud = ?h @ ?d @ buf @ rest"
    by (simp only: block_buffer_def Let_def nb p1 p2 p3 p4 p5 user final)
  moreover have "length ?d = kUserDataSize" using lt r6 by (simp add: bundle_consts)
  moreover have "take (case ud of None \<Rightarrow> 0 | Some x \<Rightarrow> min (length x) kUserDataSize) ?d = ?t"
    by (simp split: option.splits)
  moreover have "length rest = tot - kFileHeaderSize - length buf"
    using r1 r2 r3 r4 r5 r6 r7 length_new_buffer [of s tot] by (simp add: bundle_consts)
  ultimately show ?thesis using that [of ?d rest] by simp
qed

end
