(* ===== verification/BundleIO.thy ===== *)
theory BundleIO
  imports BundleStore
begin

text \<open>
  What reading and writing promise. \<open>block_at\<close> is the abstract view of a bundle file: a
  partial map from positions to stored blocks. \<open>Reader::Read\<close> returns what that map holds,
  \<open>Writer::Write\<close> adds an entry and keeps the others, and \<open>bundle_file\<close> is the
  invariant of the files that the library writes.
\<close>

section \<open>The abstract view of a bundle file\<close>

definition block_at :: "bytes \<Rightarrow> nat \<Rightarrow> (bytes \<times> bytes) option" where
  "block_at c off =
     (let hb = take kFileHeaderSize (drop off c);
          h = decode_header hb;
          b = take (content_length h) (drop (off + kFileHeaderSize) c)
      in if length hb < kFileHeaderSize \<or> magic h \<noteq> kMAGIC_CODE \<or> version h \<noteq> kVERSION
            \<or> flag h \<noteq> kFILE_NORMAL \<or> length b < content_length h
         then None else Some (user_data h, b))"

definition fits :: "bytes \<Rightarrow> bool" where
  "fits buf \<longleftrightarrow> length buf + kFileHeaderSize + 1024 < 2 ^ 31"

definition block_size :: "bytes \<Rightarrow> nat" where
  "block_size buf = Align1K (szadd kFileHeaderSize (length buf))"

text \<open>The file is there and the calls on it are not refused.\<close>

definition readable :: "os \<Rightarrow> string \<Rightarrow> bytes \<Rightarrow> bool" where
  "readable s name c \<longleftrightarrow> name \<noteq> [] \<and> faults s SOpen (resolve name) = None
     \<and> faults s SRead (resolve name) = None \<and> \<not> is_dir s (resolve name)
     \<and> files s (resolve name) = Some c"

definition writable :: "os \<Rightarrow> string \<Rightarrow> bytes \<Rightarrow> bool" where
  "writable s name c \<longleftrightarrow> name \<noteq> [] \<and> faults s SOpen (resolve name) = None
     \<and> faults s SWrite (resolve name) = None \<and> room s (resolve name) = None
     \<and> \<not> is_dir s (resolve name) \<and> files s (resolve name) = Some c"

section \<open>Sizes\<close>

lemma fits_numbers:
  assumes "fits buf"
  shows "szadd kFileHeaderSize (length buf) = kFileHeaderSize + length buf"
    and "kFileHeaderSize + length buf \<le> block_size buf"
    and "block_size buf < 2 ^ 31"
    and "1024 dvd block_size buf"
    and "length buf mod 2 ^ 32 = length buf"
proof -
  have small: "length buf + 512 + 1024 < 2 ^ 31" using assms by (simp add: fits_def bundle_consts)
  show sz: "szadd kFileHeaderSize (length buf) = kFileHeaderSize + length buf"
    using small by (intro szadd_less) (simp add: bundle_consts)
  have v: "kFileHeaderSize + length buf + 1024 < 2 ^ 64" using small by (simp add: bundle_consts)
  note props = Align1K_props [OF v]
  show "kFileHeaderSize + length buf \<le> block_size buf" "1024 dvd block_size buf"
    using props unfolding block_size_def sz by simp_all
  have "block_size buf < kFileHeaderSize + length buf + 1024"
    using props(2) unfolding block_size_def sz .
  then show "block_size buf < 2 ^ 31" using small unfolding kFileHeaderSize_def by linarith
  show "length buf mod 2 ^ 32 = length buf" using small by (intro mod_less) simp
qed

lemma block_size_tot: "fits buf \<Longrightarrow> wrap32 (int (block_size buf)) = int (block_size buf)"
  using fits_numbers(3) [of buf] by (intro wrap32_id) simp_all

lemma length_poke [simp]: "i + length b \<le> length buf \<Longrightarrow> length (poke buf i b) = length buf"
  by (simp add: poke_def)

section \<open>A written block is at its place\<close>

lemma decode_block:
  assumes "length d = kUserDataSize"
  shows "decode_header (take kFileHeaderSize (le32 m @ le32 v @ le32 f @ le32 l @ strncpy kUrlSize u @ d @ rest))
     = \<lparr>magic = m mod 2 ^ 32, version = v mod 2 ^ 32, flag = f mod 2 ^ 32, content_length = l mod 2 ^ 32,
        url = strncpy kUrlSize u, user_data = d\<rparr>"
proof -
  have hdr: "take kFileHeaderSize (le32 m @ le32 v @ le32 f @ le32 l @ strncpy kUrlSize u @ d @ rest)
      = le32 m @ le32 v @ le32 f @ le32 l @ strncpy kUrlSize u @ d"
    using assms by (simp add: bundle_consts)
  show ?thesis unfolding hdr decode_header_def using assms by (simp add: bundle_consts)
qed

lemma decode_consts: "kMAGIC_CODE mod 2 ^ 32 = kMAGIC_CODE" "kVERSION mod 2 ^ 32 = kVERSION"
  "kFILE_NORMAL mod 2 ^ 32 = kFILE_NORMAL"
  by (simp_all add: kMAGIC_CODE_def kVERSION_def kFILE_NORMAL_def)

text \<open>The user data a reader gets back: what was given, then bytes of the writer's heap.\<close>

definition user_part :: "bytes option \<Rightarrow> bytes \<Rightarrow> bool" where
  "user_part ud d \<longleftrightarrow> length d = kUserDataSize
     \<and> (case ud of None \<Rightarrow> True | Some x \<Rightarrow> take (min (length x) kUserDataSize) d = take kUserDataSize x)"

lemma length_block_buffer:
  assumes "kFileHeaderSize + length buf \<le> tot"
  shows "length (block_buffer s tot u buf ud) = tot"
  using assms by (rule block_buffer_layout [of buf tot s u ud]) (use assms in \<open>simp add: bundle_consts\<close>)

lemma block_buffer_tot:
  assumes tot: "kFileHeaderSize + length buf \<le> tot" and len: "length buf < 2 ^ 32"
  shows "\<exists>d. user_part ud d \<and> block_at (c @ block_buffer s tot u buf ud @ c') (length c) = Some (d, buf)"
proof -
  obtain d rest where layout: "block_buffer s tot u buf ud =
       le32 kMAGIC_CODE @ le32 kVERSION @ le32 kFILE_NORMAL @ le32 (length buf)
       @ strncpy kUrlSize u @ d @ buf @ rest"
    and d: "length d = kUserDataSize"
    and ud: "take (case ud of None \<Rightarrow> 0 | Some x \<Rightarrow> min (length x) kUserDataSize) d
       = (case ud of None \<Rightarrow> [] | Some x \<Rightarrow> take kUserDataSize x)"
    using tot by (rule block_buffer_layout)
  let ?f = "c @ block_buffer s tot u buf ud @ c'"
  have at0: "drop (length c) ?f = le32 kMAGIC_CODE @ le32 kVERSION @ le32 kFILE_NORMAL @ le32 (length buf)
       @ strncpy kUrlSize u @ d @ buf @ rest @ c'"
    by (simp add: layout)
  have "drop (length c + kFileHeaderSize) ?f = drop kFileHeaderSize (drop (length c) ?f)"
    by (simp add: add.commute)
  also have "\<dots> = buf @ rest @ c'" unfolding at0 using d by (simp add: bundle_consts)
  finally have at1: "drop (length c + kFileHeaderSize) ?f = buf @ rest @ c'" .
  have hb: "decode_header (take kFileHeaderSize (drop (length c) ?f))
      = \<lparr>magic = kMAGIC_CODE mod 2 ^ 32, version = kVERSION mod 2 ^ 32, flag = kFILE_NORMAL mod 2 ^ 32,
         content_length = length buf mod 2 ^ 32, url = strncpy kUrlSize u, user_data = d\<rparr>"
    unfolding at0 by (rule decode_block [OF d])
  have hl: "\<not> length (take kFileHeaderSize (drop (length c) ?f)) < kFileHeaderSize"
    unfolding at0 using d by (simp add: bundle_consts)
  note cs = decode_consts [simplified] mod_less [OF len, simplified]
  have "user_part ud d" using d ud by (auto simp: user_part_def split: option.splits)
  moreover have "block_at ?f (length c) = Some (d, buf)"
    unfolding block_at_def Let_def at1 hb using hl by (simp add: cs)
  ultimately show ?thesis by blast
qed

lemma block_buffer_block:
  assumes "fits buf"
  shows "\<exists>d. user_part ud d \<and> block_at (c @ block_buffer s (block_size buf) u buf ud @ c') (length c) = Some (d, buf)"
  using fits_numbers(2) [OF assms] assms by (intro block_buffer_tot) (simp_all add: fits_def)

lemma overlay_cut:
  "off \<le> length c \<Longrightarrow> overlay c off b = take off c @ b @ drop (off + length b) c"
  by (simp add: overlay_def)

lemma overlay_pad:
  "overlay c off b = (take off c @ replicate (off - length c) NUL) @ b @ drop (off + length b) c"
  by (simp add: overlay_def)

lemma overlay_block:
  assumes "fits buf"
  shows "\<exists>d. user_part ud d
     \<and> block_at (overlay c off (block_buffer s (block_size buf) u buf ud)) off = Some (d, buf)"
proof -
  have len: "length (take off c @ replicate (off - length c) NUL) = off" by (simp add: min_def)
  show ?thesis
    unfolding overlay_pad
    using block_buffer_block [OF assms, of ud "take off c @ replicate (off - length c) NUL" s u] len by simp
qed

text \<open>A block is found by looking at nothing but its own bytes.\<close>

lemma block_at_cong:
  assumes "block_at c i = Some (d, b)" "take (kFileHeaderSize + length b) (drop i c') = take (kFileHeaderSize + length b) (drop i c)"
  shows "block_at c' i = Some (d, b)"
proof -
  let ?n = "kFileHeaderSize + length b"
  have b: "b = take (content_length (decode_header (take kFileHeaderSize (drop i c)))) (drop (i + kFileHeaderSize) c)"
    and ok: "\<not> length b < content_length (decode_header (take kFileHeaderSize (drop i c)))"
    using assms(1) by (auto simp: block_at_def Let_def split: if_splits)
  then have len: "length b = content_length (decode_header (take kFileHeaderSize (drop i c)))"
    using length_take by (metis le_antisym linorder_not_less min.cobounded2)
  have h: "take kFileHeaderSize (drop i x) = take kFileHeaderSize (take ?n (drop i x))" for x :: bytes
    by (simp add: min_absorb1)
  have t: "take (length b) (drop (i + kFileHeaderSize) x) = drop kFileHeaderSize (take ?n (drop i x))" for x :: bytes
    by (simp add: drop_take add.commute)
  have heq: "take kFileHeaderSize (drop i c') = take kFileHeaderSize (drop i c)"
    unfolding h [of c'] h [of c] assms(2) ..
  have teq: "take (length b) (drop (i + kFileHeaderSize) c') = take (length b) (drop (i + kFileHeaderSize) c)"
    unfolding t assms(2) ..
  show ?thesis using assms(1) heq teq len unfolding block_at_def Let_def by metis
qed

lemma block_at_end: "block_at c i = Some (d, b) \<Longrightarrow> i + kFileHeaderSize + length b \<le> length c"
  by (auto simp: block_at_def Let_def bundle_consts split: if_splits)

lemma block_at_append:
  assumes "block_at c i = Some (d, b)"
  shows "block_at (c @ x) i = Some (d, b)"
  using assms by (rule block_at_cong) (use block_at_end [OF assms] in simp)

lemma block_at_overlay:
  assumes "block_at c i = Some (d, b)" "off \<le> length c"
    and "i + kFileHeaderSize + length b \<le> off \<or> off + length x \<le> i"
  shows "block_at (overlay c off x) i = Some (d, b)"
  using assms(1)
proof (rule block_at_cong)
  show "take (kFileHeaderSize + length b) (drop i (overlay c off x)) = take (kFileHeaderSize + length b) (drop i c)"
    using assms(2,3) overlay_before [of i "kFileHeaderSize + length b" off c x] overlay_after [of off x i c]
    by auto
qed

section \<open>Reading\<close>

lemma block_at_header:
  assumes "block_at c off = Some (d, b)"
  shows "\<not> length (take kFileHeaderSize (drop off c)) < kFileHeaderSize"
    and "magic (decode_header (take kFileHeaderSize (drop off c))) = kMAGIC_CODE"
    and "version (decode_header (take kFileHeaderSize (drop off c))) = kVERSION"
    and "flag (decode_header (take kFileHeaderSize (drop off c))) = kFILE_NORMAL"
    and "content_length (decode_header (take kFileHeaderSize (drop off c))) = length b"
    and "user_data (decode_header (take kFileHeaderSize (drop off c))) = d"
    and "take (length b) (drop (off + kFileHeaderSize) c) = b"
  using assms by (auto simp: block_at_def Let_def split: if_splits)

lemma Reader_Read_file_block:
  assumes r: "readable s name c" and blk: "block_at c off = Some (d, b)"
    and len: "len \<le> length b" "len \<le> buf_size" "len < 2 ^ 31" and off: "off < 2 ^ 63"
    and ud: "case ud of None \<Rightarrow> True | Some n \<Rightarrow> kUserDataSize \<le> n"
  shows "Reader_Read_file name off len buf_size ud s =
    Ret (\<lparr>rr_code = 0, rr_data = take len b, rr_readed = len,
          rr_user = (if ud = None then None else Some d)\<rparr>, s)"
proof -
  have op: "os_open name s = (Some (resolve name), s)"
    using r by (simp add: os_open_Some readable_def is_file_def)
  have rd: "os_read (resolve name) i n s = (take n (drop i c), s)" for i n
    using r by (simp add: os_read_def readable_def)
  have w: "\<not> wrap64 (int off) < 0" using off wrap64_id [of "int off"] by simp
  have rs: "wrap32 (int len) = int len" using len by (intro wrap32_id) simp_all
  have ts: "to_size (int len) = len" using len(3) to_size_id [of "int len"] by simp
  have dat: "take len (drop (off + kFileHeaderSize) c) = take len b"
    using block_at_header(7) [OF blk] len(1) by (metis min.absorb1 take_take)
  have l: "length (take len b) = len" using len(1) by simp
  show ?thesis
    using ud len
    unfolding Reader_Read_file_def op rd Let_def
    by (auto simp: block_at_header(2-) [OF blk] block_at_header(1) [OF blk, simplified] w rs ts dat l rd split: option.splits)
qed

text \<open>
  Conversely, a successful read saw a valid header and as many bytes as it was asked for,
  unless \<open>errno\<close> was 0 when a short read made it the result.
\<close>

lemma Reader_Read_file_sound:
  assumes r: "readable s name c" and len: "len \<le> buf_size" "len < 2 ^ 31" and off: "off < 2 ^ 63"
    and ret: "Reader_Read_file name off len buf_size ud s = Ret (rr, s')"
    and code: "rr_code rr = 0" and err: "errno s \<noteq> 0"
  shows "rr_data rr = take len (drop (off + kFileHeaderSize) c) \<and> length (rr_data rr) = len
     \<and> rr_readed rr = len \<and> s' = s
     \<and> magic (decode_header (take kFileHeaderSize (drop off c))) = kMAGIC_CODE
     \<and> version (decode_header (take kFileHeaderSize (drop off c))) = kVERSION
     \<and> flag (decode_header (take kFileHeaderSize (drop off c))) = kFILE_NORMAL
     \<and> len \<le> content_length (decode_header (take kFileHeaderSize (drop off c)))"
proof -
  have op: "os_open name s = (Some (resolve name), s)"
    using r by (simp add: os_open_Some readable_def is_file_def)
  have rd: "os_read (resolve name) i n s = (take n (drop i c), s)" for i n
    using r by (simp add: os_read_def readable_def)
  have w: "\<not> wrap64 (int off) < 0" using off wrap64_id [of "int off"] by simp
  have rs: "wrap32 (int len) = int len" using len by (intro wrap32_id) simp_all
  have ts: "to_size (int len) = len" using len(2) to_size_id [of "int len"] by simp
  let ?b = "take len (drop (off + kFileHeaderSize) c)"
  have lb: "length ?b \<le> len" by simp
  then have wb: "wrap32 (int (length ?b)) = int (length ?b)" using len(2) by (intro wrap32_id) simp_all
  have ls: "\<not> len > buf_size" using len(1) by simp
  have big: "\<not> buf_size < length ?b" using len(1) lb by linarith
  have len_eq: "len \<le> length ?b \<longleftrightarrow> length ?b = len" using lb by linarith
  show ?thesis
    using ret code err
    unfolding Reader_Read_file_def op rd Let_def if_not_P [OF w] prod.case option.case if_not_P [OF ls] rs ts
      if_not_P [OF big] wb read_error_def
    by (auto simp: errno_defs not_less len_eq ts simp del: length_take split: if_splits)
qed

section \<open>Writing\<close>

lemma Writer_Write_at_block:
  assumes w: "writable s name c" and fit: "fits buf" and off: "off < 2 ^ 63" "off mod 2 ^ 32 \<noteq> 2 ^ 32 - 1"
  shows "Writer_Write_at name off u buf ud s = Ret ((0, length buf),
    put_file (resolve name) (overlay c off (block_buffer s (block_size buf) u buf ud)) s)"
proof -
  let ?blk = "block_buffer s (block_size buf) u buf ud"
  have op: "os_open name s = (Some (resolve name), s)"
    using w by (simp add: os_open_Some writable_def is_file_def)
  have len: "length ?blk = block_size buf" by (rule length_block_buffer [OF fits_numbers(2) [OF fit]])
  have wr: "os_write (resolve name) off ?blk s = (int (block_size buf), put_file (resolve name) (overlay c off ?blk) s)"
    using w len by (simp add: os_write_def writable_def Let_def)
  have pos: "wrap64 (int off) = int off" using off(1) by (intro wrap64_id) simp_all
  have seek: "wrap32 (int off) \<noteq> -1"
  proof
    assume "wrap32 (int off) = -1"
    then have "take_bit 32 (int off) = take_bit 32 (-1 :: int)"
      unfolding wrap32_def using signed_take_bit_eq_iff_take_bit_eq [of 31 "int off" "-1"] by simp
    then have "int (off mod 2 ^ 32) = 2 ^ 32 - 1" by (simp add: take_bit_eq_mod zmod_int)
    then have "off mod 2 ^ 32 = 2 ^ 32 - 1" by simp
    then show False using off(2) by simp
  qed
  have tot: "wrap32 (int (Align1K (szadd kFileHeaderSize (length buf)))) = int (block_size buf)"
    using block_size_tot [OF fit] by (simp add: block_size_def)
  show ?thesis
    unfolding Writer_Write_at_def op pos Let_def prod.case option.case tot nat_int wr
    using fits_numbers(2) [OF fit] seek by (simp add: wr)
qed

text \<open>At the end of the file a write appends.\<close>

definition append_block :: "os \<Rightarrow> string \<times> bytes \<times> bytes option \<Rightarrow> bytes \<Rightarrow> bytes" where
  "append_block s x c = (case x of (u, buf, ud) \<Rightarrow> c @ block_buffer s (block_size buf) u buf ud)"

lemma block_buffer_heap: "heap s = heap s' \<Longrightarrow> block_buffer s = block_buffer s'"
  by (intro ext) (simp add: block_buffer_def new_buffer_def)

lemma append_block_heap: "heap s = heap s' \<Longrightarrow> append_block s = append_block s'"
  by (intro ext) (simp add: append_block_def block_buffer_heap [of s s'] split: prod.splits)

lemma length_append_block:
  "fits buf \<Longrightarrow> length (append_block s (u, buf, ud) c) = length c + block_size buf"
  by (simp add: append_block_def length_block_buffer fits_numbers(2))

section \<open>What a client of an append-only store relies on\<close>

text \<open>
  \<open>BatchWrite\<close> and the writers of one bundle append; readers address what they stored by
  its position. \<open>sees x e\<close> says that \<open>e\<close> is a reader's view of the stored \<open>x\<close>.
\<close>

locale append_store =
  fixes app :: "'d \<Rightarrow> 'c \<Rightarrow> 'c" and fin :: "'c \<Rightarrow> nat" and get :: "'c \<Rightarrow> nat \<Rightarrow> 'e option"
    and sees :: "'d \<Rightarrow> 'e \<Rightarrow> bool" and ok :: "'d \<Rightarrow> bool"
  assumes app_get: "ok x \<Longrightarrow> \<exists>e. sees x e \<and> get (app x c) (fin c) = Some e"
    and app_keeps: "get c i = Some e \<Longrightarrow> get (app x c) i = Some e"
    and app_grows: "ok x \<Longrightarrow> fin c < fin (app x c)"
begin

lemma app_all_keeps: "get c i = Some e \<Longrightarrow> get (fold app xs c) i = Some e"
  by (induction xs arbitrary: c) (auto intro: app_keeps)

lemma app_all_get:
  assumes "list_all ok xs" "k < length xs"
  shows "\<exists>e. sees (xs ! k) e \<and> get (fold app xs c) (fin (fold app (take k xs) c)) = Some e"
  using assms
proof (induction xs arbitrary: c k)
  case (Cons x xs)
  show ?case
  proof (cases k)
    case 0
    obtain e where "sees x e" "get (app x c) (fin c) = Some e" using Cons.prems app_get by auto
    then show ?thesis using 0 app_all_keeps [of "app x c" "fin c" e xs] by auto
  next
    case (Suc j)
    then show ?thesis using Cons.IH [of j "app x c"] Cons.prems by simp
  qed
qed simp

lemma app_all_grows: "list_all ok xs \<Longrightarrow> fin c \<le> fin (fold app xs c)"
proof (induction xs arbitrary: c)
  case (Cons x xs)
  then have "fin c < fin (app x c)" "fin (app x c) \<le> fin (fold app xs (app x c))"
    using app_grows [of x c] by simp_all
  then show ?case by simp
qed simp

lemma app_all_distinct:
  assumes "list_all ok xs" "j < k" "k < length xs"
  shows "fin (fold app (take j xs) c) < fin (fold app (take k xs) c)"
proof -
  have "take k xs = take j (take k xs) @ take k xs ! j # drop (Suc j) (take k xs)"
    using assms by (intro id_take_nth_drop) simp
  then have jk: "take k xs = take j xs @ xs ! j # drop (Suc j) (take k xs)"
    using assms by (simp only: take_take nth_take min.absorb1 less_imp_le)
  have "list_all ok (drop (Suc j) (take k xs))" "ok (xs ! j)"
    using assms by (auto simp: list_all_iff dest!: in_set_dropD in_set_takeD)
  then show ?thesis
    using app_grows [of "xs ! j" "fold app (take j xs) c"]
      app_all_grows [of "drop (Suc j) (take k xs)" "app (xs ! j) (fold app (take j xs) c)"]
    by (subst jk) simp
qed

end

definition stored_as :: "string \<times> bytes \<times> bytes option \<Rightarrow> bytes \<times> bytes \<Rightarrow> bool" where
  "stored_as x e \<longleftrightarrow> (case x of (u, buf, ud) \<Rightarrow> user_part ud (fst e) \<and> snd e = buf)"

definition storable :: "string \<times> bytes \<times> bytes option \<Rightarrow> bool" where
  "storable x \<longleftrightarrow> fits (fst (snd x))"

interpretation blocks: append_store "append_block s" length block_at stored_as storable for s
proof
  fix x :: "string \<times> bytes \<times> bytes option" and c i e
  obtain u buf ud where x: "x = (u, buf, ud)" by (cases x)
  show "storable x \<Longrightarrow> \<exists>e. stored_as x e \<and> block_at (append_block s x c) (length c) = Some e"
    using block_buffer_block [of buf ud c s u "[]"]
    by (auto simp: x storable_def stored_as_def append_block_def)
  show "block_at c i = Some e \<Longrightarrow> block_at (append_block s x c) i = Some e"
    by (cases e) (simp add: x append_block_def block_at_append)
  show "storable x \<Longrightarrow> length c < length (append_block s x c)"
    using fits_numbers(2) [of buf] by (simp add: x storable_def length_append_block bundle_consts)
qed

section \<open>The invariant of a bundle file\<close>

text \<open>
  A bundle is created with its header and then only appended to. \<open>bundle_file bs c\<close>: the
  file \<open>c\<close> holds the blocks \<open>bs\<close> (position and stored pair), in this order and 1K-aligned.
\<close>

inductive bundle_file :: "(nat \<times> bytes \<times> bytes) list \<Rightarrow> bytes \<Rightarrow> bool" where
  created: "length h = kBundleHeaderSize \<Longrightarrow> bundle_file [] h"
| appended: "bundle_file bs c \<Longrightarrow> fits b \<Longrightarrow> length x = block_size b
     \<Longrightarrow> block_at (c @ x) (length c) = Some (d, b) \<Longrightarrow> bundle_file (bs @ [(length c, d, b)]) (c @ x)"

inductive_cases bundle_file_snocE: "bundle_file (bs @ [x]) c"

lemma bundle_file_aligned: "bundle_file bs c \<Longrightarrow> 1024 dvd length c \<and> kBundleHeaderSize \<le> length c"
  by (induction rule: bundle_file.induct) (auto simp: bundle_consts fits_numbers(4))

lemma bundle_file_blocks:
  "bundle_file bs c \<Longrightarrow> (i, d, b) \<in> set bs \<Longrightarrow>
     block_at c i = Some (d, b) \<and> 1024 dvd i \<and> kBundleHeaderSize \<le> i \<and> i < length c"
proof (induction rule: bundle_file.induct)
  case (appended bs c b' x d')
  have pos: "0 < block_size b'" using fits_numbers(2) [OF appended.hyps(2)] by (simp add: bundle_consts)
  show ?case
  proof (cases "(i, d, b) \<in> set bs")
    case True
    then show ?thesis using appended.IH block_at_append [of c i d b x] by auto
  next
    case False
    then show ?thesis
      using appended.prems appended.hyps bundle_file_aligned [OF appended.hyps(1)] pos by auto
  qed
qed simp

text \<open>Two blocks of a bundle never overlap.\<close>

lemma bundle_file_sorted:
  "bundle_file bs c \<Longrightarrow> sorted_wrt (\<lambda>(i, d, b) (j, _, _). i + block_size b \<le> j) bs
     \<and> (\<forall>(i, d, b) \<in> set bs. i + block_size b \<le> length c)"
  by (induction rule: bundle_file.induct) (auto simp: sorted_wrt_append)

lemma bundle_file_append:
  assumes "bundle_file bs c" "fits buf"
  shows "\<exists>d. user_part ud d \<and> bundle_file (bs @ [(length c, d, buf)]) (append_block s (u, buf, ud) c)"
proof -
  obtain d where d: "user_part ud d" "block_at (append_block s (u, buf, ud) c) (length c) = Some (d, buf)"
    using block_buffer_block [OF assms(2), of ud c s u "[]"] by (auto simp: append_block_def)
  then show ?thesis
    using bundle_file.appended [OF assms(1,2), of "block_buffer s (block_size buf) u buf ud" d]
      length_block_buffer [OF fits_numbers(2) [OF assms(2)]]
    by (auto simp: append_block_def)
qed

lemma length_bundle_header: "length (bundle_header now) = kBundleHeaderSize"
  by (auto simp: bundle_header_def Let_def bundle_consts)

lemma CreateBundle_True:
  assumes "CreateBundle name now s = (True, s')"
  shows "files s' = (files s)(resolve name := Some (bundle_header now)) \<and> dirs s' = dirs s
     \<and> faults s' = faults s \<and> room s' = room s \<and> heap s' = heap s \<and> name \<noteq> [] \<and> \<not> is_dir s (resolve name)
     \<and> is_dir s (parent (resolve name))"
proof -
  obtain fd s1 where op: "os_open_trunc name s = (Some fd, s1)"
    using assms by (auto simp: CreateBundle_def split: prod.splits option.splits)
  note o = op [unfolded os_open_trunc_Some]
  obtain r s2 where wr: "os_write fd 0 (bundle_header now) s1 = (r, s2)" by fastforce
  have r: "r = int kBundleHeaderSize" "s2 = s'"
    using assms op wr by (auto simp: CreateBundle_def split: if_splits)
  have "s2 = put_file fd (bundle_header now) s1"
  proof -
    let ?n = "case room s1 fd of None \<Rightarrow> length (bundle_header now) | Some k \<Rightarrow> min k (length (bundle_header now))"
    have f: "faults s1 SWrite fd = None" using wr r(1) by (auto simp: os_write_def split: option.splits)
    then have n: "?n = kBundleHeaderSize" using wr r(1) by (simp add: os_write_def Let_def)
    have "take ?n (bundle_header now) = bundle_header now" unfolding n by (simp add: length_bundle_header)
    then show ?thesis using wr f o by (simp add: os_write_def Let_def overlay_def)
  qed
  then show ?thesis using r o by auto
qed

section \<open>A batch of writes\<close>

text \<open>The calls of a client that stores several files through one writer.\<close>

fun batch :: "Writer \<Rightarrow> (bytes \<times> bytes option) list \<Rightarrow> os \<Rightarrow> (string list \<times> Writer \<times> os) option" where
  "batch w [] s = Some ([], w, s)"
| "batch w ((buf, ud) # xs) s =
     (case BatchWrite w buf ud s of
        Ret ((r, n, Some u), w, s) \<Rightarrow>
          if r = 0 then map_option (\<lambda>(us, q). (u # us, q)) (batch w xs s) else None
      | _ \<Rightarrow> None)"

definition for_block :: "Writer \<Rightarrow> nat \<Rightarrow> bytes \<Rightarrow> Writer" where
  "for_block w off buf = w\<lparr>w_info := (w_info w)\<lparr>info_offset := off, info_size := length buf\<rparr>\<rparr>"

lemma for_block_simps [simp]:
  "w_filename (for_block w off b) = w_filename w" "info_offset (w_info (for_block w off b)) = off"
  "for_block (for_block w off b) off' b' = for_block w off' b'"
  "w_filelock (for_block w off b) = w_filelock w"
  "(for_block w off b)\<lparr>w_info := (w_info (for_block w off b))\<lparr>info_offset := off'\<rparr>\<rparr> = for_block w off' b"
  by (simp_all add: for_block_def)

lemma aligned_not_minus_one:
  assumes "1024 dvd (n::nat)"
  shows "n mod 2 ^ 32 \<noteq> 2 ^ 32 - 1"
proof
  assume eq: "n mod 2 ^ 32 = 2 ^ 32 - 1"
  have "(1024::nat) dvd 2 ^ 32" by simp
  then have "1024 dvd n mod 2 ^ 32" using assms by (rule dvd_mod [rotated])
  then show False unfolding eq by (simp add: dvd_eq_mod_eq_0)
qed

lemma BatchWrite_appends:
  assumes w: "writable s (w_filename w) c" and fit: "fits buf"
    and off: "info_offset (w_info w) = length c" "length c + 2 ^ 31 < 2 ^ 63" "1024 dvd length c"
  shows "BatchWrite w buf ud s =
     Ret ((0, length buf, Some (EnsureUrl (for_block w (length c) buf))),
          for_block w (length c + block_size buf) buf,
          put_file (resolve (w_filename w))
            (append_block s (EnsureUrl (for_block w (length c) buf), buf, ud) c) s)"
proof -
  let ?w = "w\<lparr>w_info := (w_info w)\<lparr>info_size := length buf\<rparr>\<rparr>"
  have wb: "?w = for_block w (length c) buf" using off(1) by (simp add: for_block_def)
  have odd: "length c mod 2 ^ 32 \<noteq> 2 ^ 32 - 1" using off(3) by (rule aligned_not_minus_one)
  have wr: "Writer_Write_url (for_block w (length c) buf) u buf ud s = Ret ((0, length buf),
      put_file (resolve (w_filename w)) (append_block s (u, buf, ud) c) s)" for u
    using Writer_Write_at_block [OF w fit _ odd, of u ud] off
    by (simp add: Writer_Write_url_def append_block_def overlay_end)
  have add: "szadd (length c) (Align1K (szadd kFileHeaderSize (length buf))) = length c + block_size buf"
    using off(2) fits_numbers(3) [OF fit] unfolding block_size_def by (intro szadd_less) simp
  show ?thesis
    unfolding BatchWrite_def Let_def wb wr by (simp add: add)
qed

fun batch_items :: "Writer \<Rightarrow> nat \<Rightarrow> (bytes \<times> bytes option) list \<Rightarrow> (string \<times> bytes \<times> bytes option) list" where
  "batch_items w off [] = []"
| "batch_items w off ((buf, ud) # xs) =
     (EnsureUrl (for_block w off buf), buf, ud) # batch_items w (off + block_size buf) xs"

definition batch_space :: "(bytes \<times> bytes option) list \<Rightarrow> nat" where
  "batch_space xs = sum_list (map (block_size \<circ> fst) xs)"

lemma batch_items_for_block [simp]: "batch_items (for_block w o' b) off xs = batch_items w off xs"
  by (induction w off xs rule: batch_items.induct) simp_all

lemma length_batch_items [simp]: "length (batch_items w off xs) = length xs"
  by (induction w off xs rule: batch_items.induct) simp_all

lemma storable_batch_items: "list_all (fits \<circ> fst) xs \<Longrightarrow> list_all storable (batch_items w off xs)"
  by (induction w off xs rule: batch_items.induct) (simp_all add: storable_def)

lemma batch_appends:
  assumes "writable s (w_filename w) c" "list_all (fits \<circ> fst) xs" "info_offset (w_info w) = length c"
    and "1024 dvd length c" "length c + batch_space xs + 2 ^ 31 < 2 ^ 63"
  shows "\<exists>w'. batch w xs s = Some (map fst (batch_items w (length c) xs), w',
      put_file (resolve (w_filename w)) (fold (append_block s) (batch_items w (length c) xs) c) s)
    \<and> info_offset (w_info w') = length (fold (append_block s) (batch_items w (length c) xs) c)
    \<and> w_filename w' = w_filename w \<and> w_filelock w' = w_filelock w"
  using assms
proof (induction xs arbitrary: w s c)
  case Nil
  have "put_file (resolve (w_filename w)) c s = s"
    using Nil.prems(1) by (simp add: put_file_def writable_def fun_upd_idem)
  then show ?case using Nil.prems(3) by simp
next
  case (Cons x xs)
  obtain buf ud where x: "x = (buf, ud)" by (cases x)
  let ?p = "resolve (w_filename w)" and ?u = "EnsureUrl (for_block w (length c) buf)"
  let ?c = "append_block s (?u, buf, ud) c" and ?w = "for_block w (length c + block_size buf) buf"
  let ?s = "put_file ?p ?c s"
  have fit: "fits buf" using Cons.prems(2) by (simp add: x)
  have len: "length ?c = length c + block_size buf" by (rule length_append_block [OF fit])
  have bw: "BatchWrite w buf ud s = Ret ((0, length buf, Some ?u), ?w, ?s)"
    using Cons.prems by (intro BatchWrite_appends [OF _ fit]) simp_all
  have "\<exists>w'. batch ?w xs ?s = Some (map fst (batch_items ?w (length ?c) xs), w',
      put_file (resolve (w_filename ?w)) (fold (append_block ?s) (batch_items ?w (length ?c) xs) ?c) ?s)
    \<and> info_offset (w_info w') = length (fold (append_block ?s) (batch_items ?w (length ?c) xs) ?c)
    \<and> w_filename w' = w_filename ?w \<and> w_filelock w' = w_filelock ?w"
    using Cons.prems len fits_numbers(4) [OF fit]
    by (intro Cons.IH) (auto simp: x writable_def batch_space_def)
  moreover have "append_block ?s = append_block s" by (rule append_block_heap) simp
  moreover have "put_file ?p d ?s = put_file ?p d s" for d by (simp add: put_file_def)
  ultimately show ?case by (auto simp: x bw len)
qed

section \<open>Reading through a URL\<close>

lemma Reader_Read_block:
  assumes ext: "f u Info0 = (True, i)" and f: "ex = Some f \<or> ex = None \<and> url_extract g = f" and u: "u \<noteq> []"
    and r: "readable s (bundle_path g storage (info_prefix i) (info_id i)) c"
    and blk: "block_at c (info_offset i) = Some (d, b)" and sz: "info_size i = length b"
    and bound: "length b < 2 ^ 31" "info_offset i < 2 ^ 63"
  shows "Reader_Read g u storage ex s = Ret ((0, b, d), s)"
proof -
  have rd: "Reader_Read_file (bundle_path g storage (info_prefix i) (info_id i)) (info_offset i) (info_size i)
      (info_size i) (Some kUserDataSize) s
      = Ret (\<lparr>rr_code = 0, rr_data = take (length b) b, rr_readed = length b, rr_user = Some d\<rparr>, s)"
    using Reader_Read_file_block [OF r blk, of "length b" "length b" "Some kUserDataSize"] bound sz by simp
  have big: "\<not> max_array < length b" using bound(1) by (simp add: max_array_def)
  have "(case ex of None \<Rightarrow> url_extract g | Some f \<Rightarrow> f) = f" using f by auto
  then show ?thesis
    using u ext rd big unfolding Reader_Read_def bundle_path_def Let_def by (simp add: sz)
qed

context url_scheme
begin

text \<open>What was stored at the address of an \<open>Info\<close> is what its URL reads.\<close>

lemma read_address:
  assumes "ok i" "ex = Some ext \<or> ex = None \<and> url_extract g = ext"
    and "readable s (bundle_path g storage (info_prefix i) (info_id i)) c"
    and "block_at c (info_offset i) = Some (d, b)" "info_size i = length b" "length b < 2 ^ 31"
    and "info_offset i < 2 ^ 63"
  shows "Reader_Read g (bld i) storage ex s = Ret ((0, b, d), s)"
  by (rule Reader_Read_block [where i = "copy_address i Info0"])
    (use assms extract_build build_nonempty in \<open>simp_all add: copy_address_def\<close>)

text \<open>One \<open>Write\<close> at the end of the bundle, then a read of the URL in a later state.\<close>

lemma write_then_read:
  assumes wr: "writable s (w_filename w) c" and fit: "fits buf"
    and info: "info_offset (w_info w) = length c" "info_size (w_info w) = length buf" "ok (w_info w)"
    and bld: "w_builder w = Some bld" and ex: "ex = Some ext \<or> ex = None \<and> url_extract g = ext"
    and name: "w_filename w = bundle_path g storage (info_prefix (w_info w)) (info_id (w_info w))"
    and off: "length c < 2 ^ 63" "1024 dvd length c"
  shows "\<exists>s' d. Writer_Write w buf ud s = Ret ((0, length buf), s') \<and> user_part ud d
    \<and> (\<forall>s'' more. readable s'' (w_filename w) (the (files s' (resolve (w_filename w))) @ more) \<longrightarrow>
          Reader_Read g (EnsureUrl w) storage ex s'' = Ret ((0, buf, d), s''))"
proof -
  let ?u = "EnsureUrl w"
  let ?c = "append_block s (?u, buf, ud) c"
  have odd: "length c mod 2 ^ 32 \<noteq> 2 ^ 32 - 1" using off(2) by (rule aligned_not_minus_one)
  have w: "Writer_Write w buf ud s = Ret ((0, length buf), put_file (resolve (w_filename w)) ?c s)"
    using Writer_Write_at_block [OF wr fit off(1) odd, of ?u ud]
    by (simp add: Writer_Write_def Writer_Write_url_def info append_block_def overlay_end)
  obtain d where d: "user_part ud d" "block_at ?c (length c) = Some (d, buf)"
    using block_buffer_block [OF fit, of ud c s ?u "[]"] by (auto simp: append_block_def)
  have "Reader_Read g ?u storage ex s'' = Ret ((0, buf, d), s'')"
    if "readable s'' (w_filename w) (?c @ more)" for s'' more
    unfolding EnsureUrl_def bld option.case
    by (rule read_address [of _ _ _ _ _ "?c @ more"])
      (use that info ex off fit block_at_append [OF d(2)] name bld in \<open>simp_all add: EnsureUrl_def fits_def\<close>)
  then show ?thesis using w d(1) by auto
qed

end

section \<open>Batches by URL\<close>

fun batch_infos :: "Writer \<Rightarrow> nat \<Rightarrow> (bytes \<times> bytes option) list \<Rightarrow> Info list" where
  "batch_infos w off [] = []"
| "batch_infos w off ((buf, ud) # xs) = w_info (for_block w off buf) # batch_infos w (off + block_size buf) xs"

lemma length_batch_infos [simp]: "length (batch_infos w off xs) = length xs"
  by (induction w off xs rule: batch_infos.induct) simp_all

lemma w_info_for_block:
  "w_info (for_block w off buf) = (w_info w)\<lparr>info_offset := off, info_size := length buf\<rparr>"
  by (simp add: for_block_def)

lemma batch_infos_nth:
  "k < length xs \<Longrightarrow> \<exists>off'. batch_infos w off xs ! k = w_info (for_block w off' (fst (xs ! k)))
     \<and> batch_items w off xs ! k = (EnsureUrl (for_block w off' (fst (xs ! k))), fst (xs ! k), snd (xs ! k))"
proof (induction xs arbitrary: off k)
  case (Cons x xs)
  then show ?case by (cases x; cases k) auto
qed simp

lemma batch_infos_offset:
  assumes "list_all (fits \<circ> fst) xs" "k < length xs"
  shows "info_offset (batch_infos w (length c) xs ! k)
    = length (fold (append_block s) (take k (batch_items w (length c) xs)) c)"
  using assms
proof (induction xs arbitrary: c k)
  case (Cons x xs)
  obtain buf ud where x: "x = (buf, ud)" by (cases x)
  let ?c = "append_block s (EnsureUrl (for_block w (length c) buf), buf, ud) c"
  have len: "length ?c = length c + block_size buf"
    using Cons.prems by (intro length_append_block) (simp add: x)
  show ?case
  proof (cases k)
    case (Suc j)
    then show ?thesis using Cons.IH [of j ?c] Cons.prems len by (simp add: x)
  qed (simp add: x)
qed simp

context url_scheme
begin

lemma batch_then_read:
  assumes wr: "writable s (w_filename w) c" and fit: "list_all (fits \<circ> fst) xs"
    and off: "info_offset (w_info w) = length c" "1024 dvd length c" "length c + batch_space xs + 2 ^ 31 < 2 ^ 63"
    and bld: "w_builder w = Some bld" and ex: "ex = Some ext \<or> ex = None \<and> url_extract g = ext"
    and name: "w_filename w = bundle_path g storage (info_prefix (w_info w)) (info_id (w_info w))"
    and rd: "faults s SRead (resolve (w_filename w)) = None"
    and ok: "list_all ok (batch_infos w (length c) xs)" and bound: "list_all (\<lambda>i. info_offset i < 2 ^ 63) (batch_infos w (length c) xs)"
  shows "\<exists>us w' s'. batch w xs s = Some (us, w', s') \<and> length us = length xs
    \<and> (\<forall>k < length xs. \<exists>d. user_part (snd (xs ! k)) d
          \<and> Reader_Read g (us ! k) storage ex s' = Ret ((0, fst (xs ! k), d), s'))"
proof -
  let ?is = "batch_items w (length c) xs" and ?p = "resolve (w_filename w)"
  let ?c = "fold (append_block s) ?is c"
  obtain w' where b: "batch w xs s = Some (map fst ?is, w', put_file ?p ?c s)"
    using batch_appends [OF wr fit off(1,2,3)] by blast
  have r: "readable (put_file ?p ?c s) (w_filename w) ?c"
    using wr rd by (simp add: readable_def writable_def)
  have "\<exists>d. user_part (snd (xs ! k)) d \<and> Reader_Read g (map fst ?is ! k) storage ex (put_file ?p ?c s)
      = Ret ((0, fst (xs ! k), d), put_file ?p ?c s)" if k: "k < length xs" for k
  proof -
    obtain o' where o: "batch_infos w (length c) xs ! k = w_info (for_block w o' (fst (xs ! k)))"
        "?is ! k = (EnsureUrl (for_block w o' (fst (xs ! k))), fst (xs ! k), snd (xs ! k))"
      using batch_infos_nth [OF k] by blast
    let ?i = "batch_infos w (length c) xs ! k"
    have i: "ok ?i" "info_offset ?i < 2 ^ 63" "fits (fst (xs ! k))"
      using ok bound fit k by (auto simp: list_all_length)
    obtain e where e: "stored_as (?is ! k) e" "block_at ?c (info_offset ?i) = Some e"
      using blocks.app_all_get [OF storable_batch_items [OF fit], of k w "length c" s c] k
        batch_infos_offset [OF fit k, of w c s] by auto
    obtain d where d: "e = (d, fst (xs ! k))" "user_part (snd (xs ! k)) d"
      using e(1) by (cases e) (auto simp: stored_as_def o(2) split: prod.splits)
    have "Reader_Read g (bld ?i) storage ex (put_file ?p ?c s) = Ret ((0, fst (xs ! k), d), put_file ?p ?c s)"
      using i e(2) d(1) r ex name
      by (intro read_address) (auto simp: o(1) w_info_for_block fits_def)
    then show ?thesis using d(2) k o bld by (auto simp: EnsureUrl_def for_block_def)
  qed
  then show ?thesis using b by (intro exI [of _ "map fst ?is"] exI [of _ w'] exI [of _ "put_file ?p ?c s"]) simp
qed

end

section \<open>Properties\<close>

text \<open>A small file system with one bundle, for the examples below.\<close>

definition sample_name :: string where
  "sample_name = ''b/p/00000000/00000007''"

definition sample_os :: os where
  "sample_os = \<lparr>files = (\<lambda>q. if q = resolve sample_name then Some (bundle_header ''now'') else None),
     dirs = (\<lambda>q. q \<in> {(False, [''b'']), (False, [''b'', ''p'']), (False, [''b'', ''p'', ''00000000''])}),
     errno = ENOENT, faults = (\<lambda>_ _. None), room = (\<lambda>_. None), dir_size = 4096, heap = (\<lambda>_. CHR ''#'')\<rparr>"

definition sample_writer :: Writer where
  "sample_writer = \<lparr>w_filename = sample_name, w_filelock = None, w_builder = Some BuildWithEncode, w_info = sample_info\<rparr>"

lemma sample_writer_name: "w_filename sample_writer = sample_name"
  by (simp add: sample_writer_def)

lemma sample_writer_parts: "w_info sample_writer = sample_info" "w_builder sample_writer = Some BuildWithEncode"
  by (simp_all add: sample_writer_def)

lemma resolve_sample: "resolve sample_name = (False, [''b'', ''p'', ''00000000'', ''00000007''])"
  unfolding sample_name_def by code_simp

lemma replicate7: "replicate 7 c = [c, c, c, c, c, c, c]"
  by (simp add: numeral_eq_Suc)

lemma sample_path: "bundle_path g_default_setting ''b'' ''p'' 7 = sample_name"
  by (simp add: bundle_path_def PathJoin_def IsAbspath_def IsPathSep_def IsDirectory_def Bid2Filename_def
      sample_name_def g_default_setting_def show_hex8_def to_u32_def digits_rev.simps digit_chars replicate7)

lemma sample_info_simps:
  "info_offset sample_info = 1024" "info_size sample_info = 5" "info_prefix sample_info = ''p''"
  "info_id sample_info = 7"
  by (simp_all add: sample_info_def)

lemma sample_scheme: "url_extract g_default_setting = ExtractWithEncode" "url_build g_default_setting = BuildWithEncode"
  by (simp_all add: g_default_setting_def)

lemma sample_writable: "writable sample_os sample_name (bundle_header ''now'')"
  by (simp add: writable_def sample_os_def is_dir_def resolve_sample) (simp add: sample_name_def)

lemma sample_readable: "readable sample_os sample_name (bundle_header ''now'')"
  by (simp add: readable_def sample_os_def is_dir_def resolve_sample) (simp add: sample_name_def)

lemma fits_hello: "fits ''hello''"
  by (simp add: fits_def bundle_consts)

lemma sample_encode_ok: "encode_ok sample_info"
  using sample_address_ok sample_hash by (simp add: encode_ok_def to_u32_def)

text \<open>
  What \<open>Write\<close> stored at the end of a bundle is what \<open>Reader::Read\<close> returns for the URL of the
  writer, in every later state in which the bundle was only appended to: result 0, exactly the
  bytes written, and user data that starts with the bytes given.
\<close>

theorem write_read_round_trip:
  assumes "writable s (w_filename w) c" "fits buf"
    and "info_offset (w_info w) = length c" "info_size (w_info w) = length buf" "encode_ok (w_info w)"
    and "w_builder w = Some BuildWithEncode" "url_extract g = ExtractWithEncode"
    and "w_filename w = bundle_path g storage (info_prefix (w_info w)) (info_id (w_info w))"
    and "length c < 2 ^ 63" "1024 dvd length c"
  shows "\<exists>s' d. Writer_Write w buf ud s = Ret ((0, length buf), s') \<and> user_part ud d
    \<and> (\<forall>s'' more. readable s'' (w_filename w) (the (files s' (resolve (w_filename w))) @ more) \<longrightarrow>
          Reader_Read g (EnsureUrl w) storage None s'' = Ret ((0, buf, d), s''))"
  using assms by (intro encoded_url.write_then_read) simp_all

theorem write_read_round_trip_witness:
  "\<exists>s' d. Writer_Write sample_writer ''hello'' (Some ''user'') sample_os = Ret ((0, length ''hello''), s')
     \<and> user_part (Some ''user'') d
     \<and> (\<forall>s'' more. readable s'' sample_name (the (files s' (resolve sample_name)) @ more) \<longrightarrow>
          Reader_Read g_default_setting (EnsureUrl sample_writer) ''b'' None s'' = Ret ((0, ''hello'', d), s''))"
proof -
  have "\<exists>s' d. Writer_Write sample_writer ''hello'' (Some ''user'') sample_os = Ret ((0, length ''hello''), s')
     \<and> user_part (Some ''user'') d
     \<and> (\<forall>s'' more. readable s'' (w_filename sample_writer)
            (the (files s' (resolve (w_filename sample_writer))) @ more) \<longrightarrow>
          Reader_Read g_default_setting (EnsureUrl sample_writer) ''b'' None s'' = Ret ((0, ''hello'', d), s''))"
    by (rule write_read_round_trip [OF _ fits_hello, of _ _ "bundle_header ''now''"])
      (simp_all add: sample_writer_def sample_writable sample_encode_ok length_bundle_header sample_info_simps
        sample_path kBundleHeaderSize_def sample_scheme)
  then show ?thesis by (simp only: sample_writer_name)
qed

text \<open>
  C9: a write puts its block where it was told to and changes no other block: any block that
  ends before it or begins after it is found as before, and no other file changes.
\<close>

theorem write_keeps_other_blocks:
  assumes "writable s name c" "fits buf" "off \<le> length c" "off < 2 ^ 63" "off mod 2 ^ 32 \<noteq> 2 ^ 32 - 1"
  shows "\<exists>c' d s'. Writer_Write_at name off u buf ud s = Ret ((0, length buf), s')
    \<and> files s' = (files s)(resolve name := Some c') \<and> user_part ud d
    \<and> block_at c' off = Some (d, buf)
    \<and> (\<forall>i e b. block_at c i = Some (e, b)
         \<and> (i + kFileHeaderSize + length b \<le> off \<or> off + block_size buf \<le> i) \<longrightarrow> block_at c' i = Some (e, b))"
proof -
  let ?x = "block_buffer s (block_size buf) u buf ud"
  obtain d where "user_part ud d" "block_at (overlay c off ?x) off = Some (d, buf)"
    using overlay_block [OF assms(2)] by blast
  then show ?thesis
    using Writer_Write_at_block [OF assms(1,2,4,5), of u ud] block_at_overlay [OF _ assms(3), of _ _ _ ?x]
      length_block_buffer [OF fits_numbers(2) [OF assms(2)]]
    by (intro exI [of _ "overlay c off ?x"] exI [of _ d]) auto
qed

theorem write_keeps_other_blocks_witness:
  "\<exists>c' d s'. Writer_Write_at sample_name 1024 ''u'' ''hello'' None sample_os = Ret ((0, length ''hello''), s')
    \<and> files s' = (files sample_os)(resolve sample_name := Some c') \<and> block_at c' 1024 = Some (d, ''hello'')"
  using write_keeps_other_blocks [OF sample_writable fits_hello, of 1024 "''u''" None]
  by (simp add: length_bundle_header kBundleHeaderSize_def) blast

text \<open>
  C8: several files stored through one writer with \<open>BatchWrite\<close> all succeed, and in the world after the last of them each
  of the URLs handed out reads exactly its file. The conditions: the bundle file can be opened and written, its length is a multiple of 1024
  and is the offset the writer starts at, every file fits a block, nothing refuses the reads, the setting has the default (encoded) URL
  scheme, and every address can be encoded (\<open>encode_ok\<close>: numbers in range, a prefix without
  zero bytes that is not empty, a postfix of a dot and characters other than dot, slash and zero, and a hash other than the reserved
  \<open>0xffffffff\<close>; a file with that hash is stored under a URL that cannot be read).
\<close>

theorem batch_round_trip:
  assumes "writable s (w_filename w) c" "list_all (fits \<circ> fst) xs"
    and "info_offset (w_info w) = length c" "1024 dvd length c" "length c + batch_space xs + 2 ^ 31 < 2 ^ 63"
    and "w_builder w = Some BuildWithEncode" "url_extract g = ExtractWithEncode"
    and "w_filename w = bundle_path g storage (info_prefix (w_info w)) (info_id (w_info w))"
    and "faults s SRead (resolve (w_filename w)) = None"
    and "list_all encode_ok (batch_infos w (length c) xs)"
  shows "\<exists>us w' s'. batch w xs s = Some (us, w', s') \<and> length us = length xs
    \<and> (\<forall>k < length xs. \<exists>d. user_part (snd (xs ! k)) d
          \<and> Reader_Read g (us ! k) storage None s' = Ret ((0, fst (xs ! k), d), s'))"
proof -
  have "list_all (\<lambda>i. info_offset i < 2 ^ 63) (batch_infos w (length c) xs)"
    using assms(10) by (auto simp: list_all_iff encode_ok_def address_ok_def)
  then show ?thesis
    using encoded_url.batch_then_read [OF assms(1-6) _ assms(8-10)] assms(7) by blast
qed

lemma second_hash: "unat (url_hash (sample_info\<lparr>info_offset := 2048, info_size := 2\<rparr>)) = 290926800"
  by (simp add: url_hash_def sample_info_def Info0_def hash_eval)

lemma block_size_small: "length b \<le> 512 \<Longrightarrow> b \<noteq> [] \<Longrightarrow> block_size b = 1024"
proof -
  assume b: "length b \<le> 512" "b \<noteq> []"
  then have f: "fits b" by (simp add: fits_def bundle_consts)
  have "512 + length b \<le> block_size b" using fits_numbers(2) [OF f] by (simp add: bundle_consts)
  moreover have "block_size b < 512 + length b + 1024"
    unfolding block_size_def fits_numbers(1) [OF f]
    using b by (intro less_le_trans [OF Align1K_props(2)]) (simp_all add: bundle_consts)
  moreover obtain q where "block_size b = 1024 * q" using fits_numbers(4) [OF f] by (elim dvdE)
  moreover have "0 < length b" using b(2) by simp
  ultimately have "q = 1" using b(1) by simp
  then show ?thesis using \<open>block_size b = 1024 * q\<close> by simp
qed

theorem batch_round_trip_witness:
  "\<exists>us w' s'. batch sample_writer [(''hello'', None), (''yo'', Some ''user'')] sample_os = Some (us, w', s')
     \<and> (\<exists>d. Reader_Read g_default_setting (us ! 1) ''b'' None s' = Ret ((0, ''yo'', d), s'))"
proof -
  let ?xs = "[(''hello'', None), (''yo'', Some ''user'')]"
  have infos: "batch_infos sample_writer 1024 ?xs = [sample_info, sample_info\<lparr>info_offset := 2048, info_size := 2\<rparr>]"
    by (simp add: w_info_for_block sample_writer_def block_size_small) (simp add: sample_info_def)
  have ok: "encode_ok (sample_info\<lparr>info_offset := 2048, info_size := 2\<rparr>)"
    using sample_address_ok second_hash by (simp add: encode_ok_def address_ok_def to_u32_def)
  have "\<exists>us w' s'. batch sample_writer ?xs sample_os = Some (us, w', s') \<and> length us = length ?xs
    \<and> (\<forall>k < length ?xs. \<exists>d. user_part (snd (?xs ! k)) d
          \<and> Reader_Read g_default_setting (us ! k) ''b'' None s' = Ret ((0, fst (?xs ! k), d), s'))"
    by (rule batch_round_trip [of _ _ "bundle_header ''now''"])
      (simp_all add: sample_writer_name sample_writable sample_path length_bundle_header kBundleHeaderSize_def
        sample_scheme infos ok sample_encode_ok sample_writer_parts sample_info_simps del: batch_infos.simps,
       simp_all add: fits_def bundle_consts batch_space_def block_size_small sample_os_def)
  then obtain us w' s' where "batch sample_writer ?xs sample_os = Some (us, w', s')"
      "\<forall>k < length ?xs. \<exists>d. user_part (snd (?xs ! k)) d
          \<and> Reader_Read g_default_setting (us ! k) ''b'' None s' = Ret ((0, fst (?xs ! k), d), s')" by blast
  then show ?thesis by (intro exI [of _ us] exI [of _ w'] exI [of _ s']) (auto dest: spec [of _ "1::nat"])
qed

text \<open>
  C7: the invariant of bundle files. Whenever \<open>CreateBundle\<close> returns true, the file is an empty bundle and no other
  file has changed. A write at the end of a bundle file that can be written succeeds, keeps the length a multiple of 1024, keeps all
  blocks where they are, non-overlapping and in order, and adds its own.
\<close>

theorem bundle_file_preserved:
  assumes "bundle_file bs c" "writable s name c" "fits buf" "length c < 2 ^ 63"
  shows "(\<forall>n now s0 s1. CreateBundle n now s0 = (True, s1) \<longrightarrow>
      (\<exists>c0. files s1 = (files s0)(resolve n := Some c0) \<and> bundle_file [] c0))
    \<and> (\<exists>s' c' d. Writer_Write_at name (length c) u buf ud s = Ret ((0, length buf), s')
      \<and> files s' = (files s)(resolve name := Some c') \<and> bundle_file (bs @ [(length c, d, buf)]) c'
      \<and> user_part ud d \<and> 1024 dvd length c' \<and> (\<forall>(i, e, b) \<in> set bs. block_at c' i = Some (e, b))
      \<and> sorted_wrt (\<lambda>(i, e, b) (j, _, _). i + block_size b \<le> j) (bs @ [(length c, d, buf)]))"
proof (intro conjI)
  show "\<forall>n now s0 s1. CreateBundle n now s0 = (True, s1) \<longrightarrow>
      (\<exists>c0. files s1 = (files s0)(resolve n := Some c0) \<and> bundle_file [] c0)"
    using CreateBundle_True bundle_file.created [OF length_bundle_header] by blast
  let ?c = "append_block s (u, buf, ud) c"
  have al: "1024 dvd length c" using bundle_file_aligned [OF assms(1)] by simp
  have w: "Writer_Write_at name (length c) u buf ud s = Ret ((0, length buf), put_file (resolve name) ?c s)"
    using Writer_Write_at_block [OF assms(2,3,4) aligned_not_minus_one [OF al], of u ud]
    by (simp add: append_block_def overlay_end)
  obtain d where d: "user_part ud d" "bundle_file (bs @ [(length c, d, buf)]) ?c"
    using bundle_file_append [OF assms(1,3)] by blast
  show "\<exists>s' c' d. Writer_Write_at name (length c) u buf ud s = Ret ((0, length buf), s')
      \<and> files s' = (files s)(resolve name := Some c') \<and> bundle_file (bs @ [(length c, d, buf)]) c'
      \<and> user_part ud d \<and> 1024 dvd length c' \<and> (\<forall>(i, e, b) \<in> set bs. block_at c' i = Some (e, b))
      \<and> sorted_wrt (\<lambda>(i, e, b) (j, _, _). i + block_size b \<le> j) (bs @ [(length c, d, buf)])"
    using w d bundle_file_aligned [OF d(2)] bundle_file_blocks [OF d(2)] bundle_file_sorted [OF d(2)]
    by (intro exI [of _ "put_file (resolve name) ?c s"] exI [of _ ?c] exI [of _ d]) auto
qed

text \<open>A bundle is created and a block written to it.\<close>

theorem bundle_file_preserved_witness:
  "\<exists>s1 c0 s' c' d. CreateBundle sample_name ''now'' (sample_os\<lparr>files := \<lambda>_. None\<rparr>) = (True, s1)
    \<and> files s1 (resolve sample_name) = Some c0 \<and> bundle_file [] c0
    \<and> Writer_Write_at sample_name (length (bundle_header ''now'')) ''u'' ''hello'' None sample_os = Ret ((0, length ''hello''), s')
    \<and> files s' (resolve sample_name) = Some c' \<and> bundle_file [(1024, d, ''hello'')] c'"
proof -
  note both = bundle_file_preserved [OF bundle_file.created [OF length_bundle_header] sample_writable fits_hello, of "''u''" None]
  have "\<exists>s1. CreateBundle sample_name ''now'' (sample_os\<lparr>files := \<lambda>_. None\<rparr>) = (True, s1)"
    by (simp add: CreateBundle_def os_open_trunc_def os_write_def length_bundle_header sample_os_def is_dir_def parent_def
        resolve_sample sample_name_def [THEN arg_cong [where f = "\<lambda>n. n = []"]] Let_def)
  then obtain s1 where s1: "CreateBundle sample_name ''now'' (sample_os\<lparr>files := \<lambda>_. None\<rparr>) = (True, s1)" by blast
  moreover have "\<exists>c0. files s1 (resolve sample_name) = Some c0 \<and> bundle_file [] c0"
    using both s1 by (fastforce simp: length_bundle_header kBundleHeaderSize_def)
  moreover have "\<exists>s' c' d. Writer_Write_at sample_name (length (bundle_header ''now'')) ''u'' ''hello'' None sample_os = Ret ((0, length ''hello''), s')
      \<and> files s' = (files sample_os)(resolve sample_name := Some c') \<and> bundle_file ([] @ [(length (bundle_header ''now''), d, ''hello'')]) c'"
    using both by (simp add: length_bundle_header kBundleHeaderSize_def) blast
  ultimately show ?thesis by (fastforce simp: length_bundle_header kBundleHeaderSize_def)
qed

text \<open>
  C10: \<open>Reader::Read\<close> of a file name returns 0 only when the header at the offset is a valid one of
  an ordinary file at least as long as asked for, and then returns exactly the bytes asked for
  and leaves the file system alone; this needs \<open>errno\<close> not to be 0 before the call.
\<close>

theorem read_sound:
  assumes "readable s name c" "len \<le> buf_size" "len < 2 ^ 31" "off < 2 ^ 63" "errno s \<noteq> 0"
    and "Reader_Read_file name off len buf_size ud s = Ret (rr, s')" "rr_code rr = 0"
  shows "rr_data rr = take len (drop (off + kFileHeaderSize) c) \<and> length (rr_data rr) = len
     \<and> rr_readed rr = len \<and> s' = s
     \<and> magic (decode_header (take kFileHeaderSize (drop off c))) = kMAGIC_CODE
     \<and> version (decode_header (take kFileHeaderSize (drop off c))) = kVERSION
     \<and> flag (decode_header (take kFileHeaderSize (drop off c))) = kFILE_NORMAL
     \<and> len \<le> content_length (decode_header (take kFileHeaderSize (drop off c)))"
  using Reader_Read_file_sound [OF assms(1-4,6,7,5)] .

definition stored_os :: os where
  "stored_os = put_file (resolve sample_name) (append_block sample_os (''u'', ''hello'', None) (bundle_header ''now'')) sample_os"

lemma stored_readable:
  "readable stored_os sample_name (append_block sample_os (''u'', ''hello'', None) (bundle_header ''now''))"
  using sample_readable by (simp add: readable_def stored_os_def)

theorem read_sound_witness:
  "\<exists>rr. Reader_Read_file sample_name 1024 5 5 None stored_os = Ret (rr, stored_os) \<and> rr_data rr = ''hello''
     \<and> length (rr_data rr) = 5"
proof -
  let ?c = "append_block sample_os (''u'', ''hello'', None) (bundle_header ''now'')"
  obtain e where e: "stored_as (''u'', ''hello'', None) e" "block_at ?c 1024 = Some e"
    using blocks.app_get [of "(''u'', ''hello'', None)" sample_os "bundle_header ''now''"] fits_hello
    by (auto simp: storable_def length_bundle_header kBundleHeaderSize_def)
  obtain d where d: "block_at ?c 1024 = Some (d, ''hello'')" using e by (cases e) (simp add: stored_as_def)
  obtain rr where r: "Reader_Read_file sample_name 1024 5 5 None stored_os = Ret (rr, stored_os)"
      "rr_code rr = 0" "rr_data rr = ''hello''"
    using Reader_Read_file_block [OF stored_readable d, of 5 5 None] by simp
  have "errno stored_os \<noteq> 0" by (simp add: stored_os_def sample_os_def ENOENT_def)
  from read_sound [OF stored_readable _ _ _ this r(1,2)] r show ?thesis by simp
qed

text \<open>
  A short \<open>write\<close> (a full device) does not set \<open>errno\<close>, and \<open>Writer::Write\<close> returns whatever
  \<open>errno\<close> held before: with \<open>errno\<close> 0 a write that did not store the file reports success,
  only \<open>*written\<close> tells.
\<close>

theorem short_write_reports_errno:
  assumes "name \<noteq> []" "faults s SOpen (resolve name) = None" "faults s SWrite (resolve name) = None"
    and "\<not> is_dir s (resolve name)" "is_file s (resolve name)" "fits buf" "off < 2 ^ 31"
    and "room s (resolve name) = Some r" "r < block_size buf"
  shows "\<exists>s'. Writer_Write_at name off u buf ud s = Ret ((errno s, 0), s')"
proof -
  let ?blk = "block_buffer s (block_size buf) u buf ud"
  have op: "os_open name s = (Some (resolve name), s)" using assms by (simp add: os_open_Some)
  have len: "length ?blk = block_size buf" by (rule length_block_buffer [OF fits_numbers(2) [OF assms(6)]])
  obtain s' where wr: "os_write (resolve name) off ?blk s = (int r, s')" "errno s' = errno s"
    using assms(3,8,9) len by (simp add: os_write_def Let_def min_def split: if_splits)
  have pos: "wrap64 (int off) = int off" "wrap32 (int off) = int off"
    using assms(7) by (auto intro: wrap64_id wrap32_id)
  have tot: "wrap32 (int (Align1K (szadd kFileHeaderSize (length buf)))) = int (block_size buf)"
    using block_size_tot [OF assms(6)] by (simp add: block_size_def)
  show ?thesis
    unfolding Writer_Write_at_def op pos Let_def prod.case option.case tot nat_int
    using fits_numbers(2) [OF assms(6)] assms(9) wr by (simp add: pos)
qed

theorem short_write_reports_errno_witness:
  "\<exists>s'. Writer_Write_at sample_name 1024 ''u'' ''hello'' None (set_errno 0 (sample_os\<lparr>room := (\<lambda>_. Some 10)\<rparr>))
     = Ret ((0, 0), s')"
proof -
  let ?s = "set_errno 0 (sample_os\<lparr>room := (\<lambda>_. Some 10)\<rparr>)"
  have f: "is_file ?s (resolve sample_name)" "\<not> is_dir ?s (resolve sample_name)"
    using sample_writable by (auto simp: writable_def is_file_def is_dir_def)
  have "block_size ''hello'' = 1024" by (rule block_size_small) simp_all
  then show ?thesis
    using short_write_reports_errno [OF _ _ _ f(2,1) fits_hello, of 1024 10 "''u''" None]
    by (simp add: sample_os_def sample_name_def)
qed

text \<open>
  The same for reading: a bundle that was cut off in the middle of a file gives the bytes
  that are left and the old \<open>errno\<close>, success when that is 0.
\<close>

theorem short_read_reports_errno:
  assumes "readable s name c" "len \<le> buf_size" "len < 2 ^ 31" "off < 2 ^ 31"
    and "off + kFileHeaderSize \<le> length c" "length c < off + kFileHeaderSize + len"
    and "magic (decode_header (take kFileHeaderSize (drop off c))) = kMAGIC_CODE"
    and "version (decode_header (take kFileHeaderSize (drop off c))) = kVERSION"
    and "flag (decode_header (take kFileHeaderSize (drop off c))) = kFILE_NORMAL"
    and "len \<le> content_length (decode_header (take kFileHeaderSize (drop off c)))"
  shows "Reader_Read_file name off len buf_size None s =
    Ret (\<lparr>rr_code = errno s, rr_data = drop (off + kFileHeaderSize) c,
          rr_readed = length c - off - kFileHeaderSize, rr_user = None\<rparr>, s)"
proof -
  let ?b = "drop (off + kFileHeaderSize) c"
  have op: "os_open name s = (Some (resolve name), s)"
    using assms(1) by (simp add: os_open_Some readable_def is_file_def)
  have rd: "os_read (resolve name) i n s = (take n (drop i c), s)" for i n
    using assms(1) by (simp add: os_read_def readable_def)
  have lb: "length ?b = length c - off - kFileHeaderSize" by simp
  have lt: "length ?b < len" using assms(5,6) lb by linarith
  have w: "\<not> wrap64 (int off) < 0" using assms(4) wrap64_id [of "int off"] by simp
  have rs: "wrap32 (int len) = int len" "wrap32 (int (length ?b)) = int (length ?b)"
    using assms(3) lt by (auto intro!: wrap32_id)
  have ts: "to_size (int len) = len" "to_size (int (length ?b)) = length ?b"
    using assms(3) lt to_size_id [of "int len"] to_size_id [of "int (length ?b)"] by auto
  have hl: "\<not> length (take kFileHeaderSize (drop off c)) < kFileHeaderSize" using assms(5) by simp
  have tk: "take len ?b = ?b" using lt by simp
  have ls: "\<not> buf_size < len" "\<not> buf_size < length ?b" using assms(2) lt by linarith+
  show ?thesis
    unfolding Reader_Read_file_def op rd Let_def option.case prod.case if_False if_not_P [OF w] if_not_P [OF hl]
      if_not_P [OF ls(1)] rs ts tk if_not_P [OF ls(2)]
    using assms(7-10) lt lb by simp
qed

theorem short_read_reports_errno_witness:
  "\<exists>c b. readable (put_file (resolve sample_name) c (set_errno 0 sample_os)) sample_name c \<and> length b = 2
     \<and> Reader_Read_file sample_name 1024 5 5 None (put_file (resolve sample_name) c (set_errno 0 sample_os)) =
       Ret (\<lparr>rr_code = 0, rr_data = b, rr_readed = 2, rr_user = None\<rparr>,
            put_file (resolve sample_name) c (set_errno 0 sample_os))"
proof -
  let ?f = "append_block sample_os (''u'', ''hello'', None) (bundle_header ''now'')"
  let ?c = "take 1538 ?f" and ?s = "\<lambda>c. put_file (resolve sample_name) c (set_errno 0 sample_os)"
  have len: "length ?f = 2048"
    using length_append_block [OF fits_hello] by (simp add: length_bundle_header kBundleHeaderSize_def block_size_small)
  obtain e where e: "stored_as (''u'', ''hello'', None) e" "block_at ?f 1024 = Some e"
    using blocks.app_get [of "(''u'', ''hello'', None)" sample_os "bundle_header ''now''"] fits_hello
    by (auto simp: storable_def length_bundle_header kBundleHeaderSize_def)
  obtain d where d: "block_at ?f 1024 = Some (d, ''hello'')" using e by (cases e) (simp add: stored_as_def)
  have hd: "take kFileHeaderSize (drop 1024 ?c) = take kFileHeaderSize (drop 1024 ?f)"
    by (simp add: kFileHeaderSize_def drop_take)
  have r: "readable (?s ?c) sample_name ?c" using sample_readable by (simp add: readable_def)
  have "Reader_Read_file sample_name 1024 5 5 None (?s ?c) =
    Ret (\<lparr>rr_code = errno (?s ?c), rr_data = drop (1024 + kFileHeaderSize) ?c,
          rr_readed = length ?c - 1024 - kFileHeaderSize, rr_user = None\<rparr>, ?s ?c)"
    using short_read_reports_errno [OF r, of 5 5 1024] block_at_header [OF d] len
    unfolding hd by (simp add: kFileHeaderSize_def)
  then show ?thesis
    using r len by (intro exI [of _ ?c] exI [of _ "drop (1024 + kFileHeaderSize) ?c"]) (simp add: kFileHeaderSize_def)
qed

lemma nth_poke:
  "i + length b \<le> length buf \<Longrightarrow> j < length buf \<Longrightarrow>
     poke buf i b ! j = (if i \<le> j \<and> j < i + length b then b ! (j - i) else buf ! j)"
  by (auto simp: poke_def nth_append min_def)

text \<open>
  Without user data the 240 bytes reserved for it are written as the allocator left them: what
  the heap held before reaches the disk, and every reader gets it as user data.
\<close>

theorem write_leaks_heap:
  assumes "kFileHeaderSize + length buf \<le> tot" "16 + kUrlSize \<le> j" "j < kFileHeaderSize"
  shows "block_buffer s tot u buf None ! j = heap s j"
proof -
  have t: "512 + length buf \<le> tot" and j: "272 \<le> j" "j < 512" using assms by (simp_all add: bundle_consts)
  show ?thesis
    unfolding block_buffer_def Let_def
    using t j by (simp add: nth_poke bundle_consts new_buffer_def)
qed

theorem write_leaks_heap_witness:
  "block_buffer sample_os 1024 ''u'' ''hello'' None ! 300 = CHR ''#''"
  using write_leaks_heap [of "''hello''" 1024 300 sample_os "''u''"] by (simp add: bundle_consts sample_os_def)

end
