(* ===== verification/BundleAlloc.thy ===== *)
theory BundleAlloc
  imports BundleIO
begin

text \<open>
  What \<open>Writer::Allocate\<close> promises: the writer it returns holds the lock of its bundle, its
  offset is the end of the bundle file, and the bundle stays within its size limit; files
  other than the lock files and the new bundle are untouched; and under which conditions
  the loop returns.
\<close>

section \<open>Where locks and bundles are\<close>

definition lock_path :: "request \<Rightarrow> int \<Rightarrow> string" where
  "lock_path rq bid = PathJoin (rq_lock_dir rq) (show_int bid)"

definition is_lock :: "request \<Rightarrow> path \<Rightarrow> bool" where
  "is_lock rq p \<longleftrightarrow> (\<exists>bid. p = resolve (lock_path rq bid))"

text \<open>No lock file can be taken for a bundle file, whose last two components have eight digits.\<close>

definition lock_dir_ok :: "string \<Rightarrow> bool" where
  "lock_dir_ok d \<longleftrightarrow> components d = [] \<or> length (last (components d)) \<noteq> 8"

lemma show_int_chars: "c \<in> set (show_int i) \<Longrightarrow> c = CHR ''-'' \<or> is_digit c"
  by (auto simp: show_int_def dest: show_nat_digits split: if_splits)

lemma show_int_not_Nil [simp]: "show_int i \<noteq> []"
  by (simp add: show_int_def)

lemma show_int_plain: "CHR ''/'' \<notin> set (show_int i)" "CHR ''.'' \<notin> set (show_int i)"
  using show_int_chars is_digit_plain by fastforce+

lemma components_show_int: "components (show_int i) = [show_int i]"
proof (rule components_plain)
  show "show_int i \<noteq> ''.''" using show_int_plain(2) [of i] by auto
qed (simp_all add: show_int_plain)

lemma resolve_lock_path:
  "resolve (lock_path rq bid) = (IsAbspath (rq_lock_dir rq), components (rq_lock_dir rq) @ [show_int bid])"
proof -
  have "\<not> IsAbspath (show_int bid)"
    using show_int_plain(1) [of bid] by (cases "show_int bid") (auto simp: IsAbspath_def IsPathSep_def)
  then show ?thesis by (simp add: lock_path_def resolve_PathJoin components_show_int)
qed

lemma show_int_inject: "show_int a = show_int b \<longleftrightarrow> a = b"
proof
  assume eq: "show_int a = show_int b"
  have nm: "CHR ''-'' # x \<noteq> show_nat n" for x n
    using show_nat_digits [of "CHR ''-''" n] is_digit_plain [of "CHR ''-''"]
    by (metis list.set_intros(1))
  have "(a < 0) = (b < 0)" using eq nm [of _ "nat a"] nm [of _ "nat b"]
    by (auto simp: show_int_def split: if_splits)
  then show "a = b" using eq by (auto simp: show_int_def show_nat_inject split: if_splits)
qed simp

lemma lock_path_inject: "resolve (lock_path rq a) = resolve (lock_path rq b) \<longleftrightarrow> a = b"
  by (simp add: resolve_lock_path show_int_inject)

lemma lock_path_not_Nil [simp]: "lock_path rq bid \<noteq> []"
  by (simp add: lock_path_def PathJoin_def)

lemma resolve_bundle_path:
  assumes "levels_ok g"
  shows "resolve (bundle_path g storage pre bid) =
    (IsAbspath (PathJoin storage pre), components (PathJoin storage pre)
       @ [show_hex8 (to_u32 bid div file_count_level_1 g), show_hex8 (to_u32 bid mod file_count_level_2 g)])"
  unfolding bundle_path_def
  using assms by (simp add: resolve_PathJoin Bid2Filename_relative components_Bid2Filename)

lemma bundle_not_lock:
  assumes "levels_ok g" "lock_dir_ok (rq_lock_dir rq)"
  shows "\<not> is_lock rq (resolve (bundle_path g storage pre bid))"
proof
  assume "is_lock rq (resolve (bundle_path g storage pre bid))"
  then obtain b where eq: "components (rq_lock_dir rq) @ [show_int b] = components (PathJoin storage pre)
      @ [show_hex8 (to_u32 bid div file_count_level_1 g)] @ [show_hex8 (to_u32 bid mod file_count_level_2 g)]"
    by (auto simp: is_lock_def resolve_lock_path resolve_bundle_path [OF assms(1)])
  then have "components (rq_lock_dir rq) = components (PathJoin storage pre)
      @ [show_hex8 (to_u32 bid div file_count_level_1 g)]"
    by (metis append.assoc butlast_snoc)
  then show False using assms(2) Bid2Filename_parts(2) [OF assms(1), of bid] by (simp add: lock_dir_ok_def)
qed

lemma default_lock_dir_ok: "lock_dir_ok (PathJoin storage ''.lock'')"
proof -
  have "components ''.lock'' = [''.lock'']" by code_simp
  moreover have "\<not> IsAbspath ''.lock''" by code_simp
  ultimately show ?thesis by (simp add: lock_dir_ok_def components_PathJoin)
qed

text \<open>
  With ids in the range of \<open>uint32_t\<close> the bundle file determines the id, hence the lock: two
  writers of one bundle file, whatever their prefixes, use the same lock file.
\<close>

lemma bundle_path_bid:
  assumes "levels_ok g" "0 \<le> a" "a < 2 ^ 32" "0 \<le> b" "b < 2 ^ 32"
    and "resolve (bundle_path g storage pre a) = resolve (bundle_path g storage' pre' b)"
  shows "a = b"
proof -
  have "Bid2Filename g a = Bid2Filename g b"
    using assms(6) unfolding resolve_bundle_path [OF assms(1)] Bid2Filename_parts(1) [OF assms(1)] by simp
  then show ?thesis using Bid2Filename_inject assms(1-5) by blast
qed

section \<open>What an attempt leaves alone\<close>

definition kept :: "(path \<Rightarrow> bool) \<Rightarrow> os \<Rightarrow> os \<Rightarrow> bool" where
  "kept A s s' \<longleftrightarrow> (\<forall>p. \<not> A p \<longrightarrow> files s' p = files s p) \<and> (\<forall>p. is_dir s p \<longrightarrow> is_dir s' p)
     \<and> faults s' = faults s \<and> room s' = room s \<and> heap s' = heap s \<and> (fs_wf s \<longrightarrow> fs_wf s')"

lemma kept_refl [simp]: "kept A s s"
  by (simp add: kept_def)

lemma kept_trans: "kept A s s' \<Longrightarrow> kept A s' s'' \<Longrightarrow> kept A s s''"
  by (auto simp: kept_def)

lemma kept_mono: "kept A s s' \<Longrightarrow> (\<And>p. A p \<Longrightarrow> B p) \<Longrightarrow> kept B s s'"
  by (auto simp: kept_def)

lemma kept_grew: "grew_dirs s s' \<Longrightarrow> kept A s s'"
  by (auto simp: kept_def grew_dirs_def)

lemma kept_errno: "kept A s (set_errno e s)"
  by (simp add: kept_def)

lemma kept_lock_file: "lock_file n s = (ok, s') \<Longrightarrow> kept (\<lambda>p. p = resolve n) s s'"
proof (cases ok)
  case True
  assume "lock_file n s = (ok, s')"
  with True show ?thesis by (auto simp: lock_file_True kept_def intro: fs_wf_put_file)
next
  case False
  assume "lock_file n s = (ok, s')"
  with False show ?thesis by (auto dest: lock_file_False intro: kept_errno)
qed

lemma kept_FileLock_delete: "kept (\<lambda>p. p = resolve (lockfile l)) s (FileLock_delete l s)"
proof (cases "locked l")
  case True
  obtain ok s' where u: "unlock_file (lockfile l) s = (ok, s')" by fastforce
  then have "kept (\<lambda>p. p = resolve (lockfile l)) s s'"
    by (rule unlock_file_cases) (auto simp: kept_def intro: fs_wf_del_file)
  then show ?thesis using True u by (simp add: FileLock_delete_def Unlock_def)
qed (simp add: FileLock_delete_def)

lemma kept_access: "os_access n s = (r, s') \<Longrightarrow> kept A s s'"
  by (auto dest: os_access_same intro: kept_errno)

lemma kept_lstat: "os_lstat n s = (r, s') \<Longrightarrow> kept A s s'"
  by (auto dest: os_lstat_same intro: kept_errno)

lemma kept_mkdirs: "mkdirs n s = (r, s') \<Longrightarrow> kept A s s'"
  by (rule kept_grew [OF mkdirs_grew])

text \<open>Making a missing directory, as both places of \<open>Allocate\<close> do it.\<close>

definition ensure_dir :: "string \<Rightarrow> os \<Rightarrow> int \<times> os" where
  "ensure_dir d s = (let (acc, s) = os_access d s in if acc = -1 then mkdirs d s else (0, s))"

lemma kept_ensure_dir: "ensure_dir d s = (r, s') \<Longrightarrow> kept A s s'"
  unfolding ensure_dir_def Let_def
  by (auto split: prod.splits if_splits intro: kept_trans dest!: kept_access [where A = A] kept_mkdirs [where A = A])

lemma take_lock_eq:
  "take_lock rq l s =
     (case TryLock l s of
        (True, l, s) \<Rightarrow> (Inr l, s)
      | (False, l, s) \<Rightarrow>
          (case ensure_dir (rq_lock_dir rq) s of
             (made, s) \<Rightarrow>
               if made \<noteq> 0 then (Inl Null, FileLock_delete l s)
               else case TryLock l s of
                      (True, l, s) \<Rightarrow> (Inr l, s)
                    | (False, l, s) \<Rightarrow> (Inl Again, FileLock_delete l s)))"
proof -
  obtain ok l1 s1 where t1: "TryLock l s = (ok, l1, s1)" by (metis prod_cases3)
  obtain acc s2 where a: "os_access (rq_lock_dir rq) s1 = (acc, s2)" by fastforce
  obtain made s3 where m: "mkdirs (rq_lock_dir rq) s2 = (made, s3)" by fastforce
  show ?thesis by (cases ok) (simp_all add: take_lock_def ensure_dir_def t1 a m)
qed

lemma TryLock_D:
  "TryLock l s = (ok, l', s') \<Longrightarrow> l' = l\<lparr>locked := ok\<rparr> \<and> lock_file (lockfile l) s = (ok, s')"
  by (auto simp: TryLock_def split: prod.splits)

lemma delete_unlocked [simp]: "\<not> locked l \<Longrightarrow> FileLock_delete l s = s"
  by (simp add: FileLock_delete_def)

lemma take_lock_Inr:
  assumes "take_lock rq l s = (Inr l', s')"
  shows "l' = l\<lparr>locked := True\<rparr> \<and> is_file s' (resolve (lockfile l)) \<and> \<not> is_file s (resolve (lockfile l))
    \<and> kept (\<lambda>p. p = resolve (lockfile l)) s s'"
proof -
  obtain ok l1 s1 where t1: "TryLock l s = (ok, l1, s1)" by (metis prod_cases3)
  note c1 = TryLock_D [OF t1]
  show ?thesis
  proof (cases ok)
    case True
    then show ?thesis
      using assms t1 c1 kept_lock_file [of "lockfile l" s ok s1]
      by (auto simp: take_lock_eq lock_file_True)
  next
    case False
    obtain r s2 where e: "ensure_dir (rq_lock_dir rq) s1 = (r, s2)" by fastforce
    obtain ok2 l2 s3 where t2: "TryLock l1 s2 = (ok2, l2, s3)" by (metis prod_cases3)
    note c2 = TryLock_D [OF t2]
    have r: "ok2" "l' = l2" "s' = s3"
      using assms t1 False e t2 by (auto simp: take_lock_eq split: if_splits bool.splits)
    have l1: "l1 = l\<lparr>locked := False\<rparr>" using c1 False by auto
    have k: "kept (\<lambda>p. p = resolve (lockfile l)) s s1" "kept (\<lambda>p. p = resolve (lockfile l)) s1 s2"
      "kept (\<lambda>p. p = resolve (lockfile l)) s2 s3"
      using c1 kept_lock_file [of "lockfile l" s ok s1] kept_ensure_dir [OF e] c2 kept_lock_file [of "lockfile l" s2 ok2 s3]
      by (auto simp: l1)
    have same: "files s2 = files s"
      using c1 False lock_file_False [of "lockfile l" s s1] kept_ensure_dir [OF e, of "\<lambda>_. False"]
      by (auto simp: kept_def)
    show ?thesis
      using r c2 kept_trans [OF k(1) kept_trans [OF k(2,3)]] same
      by (auto simp: l1 lock_file_True is_file_def)
  qed
qed

lemma take_lock_Inl:
  assumes "take_lock rq (FileLock_new n t d) s = (Inl a, s')"
  shows "a \<noteq> Got w \<and> files s' = files s \<and> kept (\<lambda>_. False) s s'"
proof -
  obtain ok l1 s1 where t1: "TryLock (FileLock_new n t d) s = (ok, l1, s1)" by (metis prod_cases3)
  have ok: "\<not> ok" using assms t1 by (cases ok) (auto simp: take_lock_eq)
  have 1: "\<not> locked l1" "kept (\<lambda>_. False) s s1"
    using TryLock_D [OF t1] ok lock_file_False [of n s s1] by (auto simp: FileLock_new_def intro: kept_errno)
  obtain r s2 where e: "ensure_dir (rq_lock_dir rq) s1 = (r, s2)" by fastforce
  note 2 = kept_ensure_dir [OF e, of "\<lambda>_. False"]
  obtain ok2 l2 s3 where t2: "TryLock l1 s2 = (ok2, l2, s3)" by (metis prod_cases3)
  have 3: "\<not> ok2 \<Longrightarrow> kept (\<lambda>_. False) s2 s3 \<and> \<not> locked l2"
    using TryLock_D [OF t2] lock_file_False [of "lockfile l1" s2 s3] by (auto intro: kept_errno)
  have "a \<noteq> Got w \<and> kept (\<lambda>_. False) s s'"
    using assms t1 ok e t2 1 3 kept_trans [OF 1(2) 2] kept_trans [OF kept_trans [OF 1(2) 2], of s3]
    by (auto simp: take_lock_eq split: if_splits bool.splits)
  then show ?thesis by (auto simp: kept_def)
qed

section \<open>The attempt with the lock held\<close>

definition new_writer :: "Setting \<Rightarrow> request \<Rightarrow> int \<Rightarrow> FileLock \<Rightarrow> nat \<Rightarrow> Writer" where
  "new_writer g rq bid l off =
     \<lparr>w_filename = bundle_path g (rq_storage rq) (rq_prefix rq) bid, w_filelock = Some l,
      w_builder = (case rq_builder rq of Some b \<Rightarrow> Some b | None \<Rightarrow> Some (url_build g)),
      w_info = Info0\<lparr>info_id := bid, info_offset := off, info_size := rq_size rq,
                     info_prefix := rq_prefix rq, info_postfix := rq_postfix rq\<rparr>\<rparr>"

definition bundle_of :: "Setting \<Rightarrow> request \<Rightarrow> int \<Rightarrow> path" where
  "bundle_of g rq bid = resolve (bundle_path g (rq_storage rq) (rq_prefix rq) bid)"

text \<open>The room a request needs in a bundle.\<close>

definition need :: "request \<Rightarrow> nat" where
  "need rq = Align1K (szadd kFileHeaderSize (rq_size rq))"

lemma bundle_attempt_eq:
  "bundle_attempt g rq bid l s =
     (case os_lstat (bundle_path g (rq_storage rq) (rq_prefix rq) bid) s of
        (Some n, s) \<Rightarrow>
          if szadd n (need rq) > max_bundle_size g then (Again, FileLock_delete l s)
          else (Got (new_writer g rq bid l n), s)
      | (None, s) \<Rightarrow>
          if errno s = ENOENT then
            (case ensure_dir (Dirname (bundle_path g (rq_storage rq) (rq_prefix rq) bid)) s of
               (made, s) \<Rightarrow>
                 if made \<noteq> 0 then (Null, FileLock_delete l s)
                 else case CreateBundle (bundle_path g (rq_storage rq) (rq_prefix rq) bid) (rq_now rq) s of
                        (False, s) \<Rightarrow> (Null, FileLock_delete l s)
                      | (True, s) \<Rightarrow> (Got (new_writer g rq bid l kBundleHeaderSize), s))
          else (Again, s))"
proof -
  let ?f = "bundle_path g (rq_storage rq) (rq_prefix rq) bid"
  obtain st s1 where t1: "os_lstat ?f s = (st, s1)" by fastforce
  obtain acc s2 where a: "os_access (Dirname ?f) s1 = (acc, s2)" by fastforce
  obtain made s3 where m: "mkdirs (Dirname ?f) s2 = (made, s3)" by fastforce
  show ?thesis
    unfolding new_writer_def need_def bundle_attempt_def ensure_dir_def Let_def t1
    by (cases st) (simp_all add: a m)
qed

lemma bundle_path_not_Nil: "levels_ok g \<Longrightarrow> bundle_path g storage pre bid \<noteq> []"
  using resolve_bundle_path [of g storage pre bid] by (auto simp: resolve_def)

lemma os_lstat_Some:
  assumes "os_lstat n s = (Some k, s')" "\<not> is_dir s (resolve n)"
  shows "s' = s \<and> (\<exists>c. files s (resolve n) = Some c \<and> length c = k)"
  using assms by (auto simp: os_lstat_def Let_def split: if_splits option.splits)

lemma kept_CreateBundle:
  assumes "CreateBundle n now s = (ok, s')"
  shows "kept (\<lambda>p. p = resolve n) s s'"
proof -
  obtain fd s1 where op: "os_open_trunc n s = (fd, s1)" by fastforce
  show ?thesis
  proof (cases fd)
    case None
    then show ?thesis
      using assms op os_open_trunc_None [of n s s1] by (auto simp: CreateBundle_def intro: kept_errno)
  next
    case (Some p)
    note o = op [unfolded Some os_open_trunc_Some]
    obtain r s2 where w: "os_write p 0 (bundle_header now) s1 = (r, s2)" by fastforce
    have wf: "fs_wf s \<Longrightarrow> fs_wf s1" using o by (auto intro: fs_wf_put_file)
    then have "fs_wf s \<Longrightarrow> fs_wf s2" using w o fs_wf_write [of s1 p 0 "bundle_header now" r s2] by auto
    moreover have "s' = s2" using assms op Some w by (auto simp: CreateBundle_def split: if_splits)
    ultimately show ?thesis
      using w o by (auto simp: kept_def os_write_def Let_def split: option.splits)
  qed
qed

text \<open>
  The writer of a successful attempt: its offset is the end of the bundle file; the file is
  the one that was there and has room for the request, or a new one with its header.
\<close>

lemma bundle_attempt_Got:
  assumes "bundle_attempt g rq bid l s = (Got w, s')" "\<not> is_dir s (bundle_of g rq bid)"
  obtains (existing) c where "files s (bundle_of g rq bid) = Some c" "s' = s"
      "szadd (length c) (need rq) \<le> max_bundle_size g" "w = new_writer g rq bid l (length c)"
  | (fresh) "\<not> is_file s (bundle_of g rq bid) \<or> faults s SStat (bundle_of g rq bid) = Some ENOENT"
      "files s' (bundle_of g rq bid) = Some (bundle_header (rq_now rq))"
      "w = new_writer g rq bid l kBundleHeaderSize" "kept (\<lambda>p. p = bundle_of g rq bid) s s'"
      "\<not> is_dir s' (bundle_of g rq bid)"
proof -
  let ?f = "bundle_path g (rq_storage rq) (rq_prefix rq) bid"
  obtain st s1 where st: "os_lstat ?f s = (st, s1)" by fastforce
  show ?thesis
  proof (cases st)
    case (Some n)
    then have "s1 = s" "\<exists>c. files s (bundle_of g rq bid) = Some c \<and> length c = n"
      using os_lstat_Some [of ?f s n s1] st assms(2) by (auto simp: bundle_of_def)
    then show ?thesis using existing assms(1) st Some by (auto simp: bundle_attempt_eq split: if_splits)
  next
    case None
    then have e: "errno s1 = ENOENT" using assms(1) st by (auto simp: bundle_attempt_eq split: if_splits)
    obtain r s2 where d: "ensure_dir (Dirname ?f) s1 = (r, s2)" by fastforce
    obtain ok s3 where c: "CreateBundle ?f (rq_now rq) s2 = (ok, s3)" by fastforce
    have r: "ok" "s' = s3" "w = new_writer g rq bid l kBundleHeaderSize"
      using assms(1) st None e d c by (auto simp: bundle_attempt_eq split: if_splits bool.splits)
    have cb: "files s3 = (files s2)(resolve ?f := Some (bundle_header (rq_now rq)))" "dirs s3 = dirs s2"
        "\<not> is_dir s2 (resolve ?f)" "?f \<noteq> []"
      using CreateBundle_True [of ?f "rq_now rq" s2 s3] c r(1) by auto
    have k: "kept (\<lambda>p. p = resolve ?f) s s3"
      by (rule kept_trans [OF kept_lstat [OF st] kept_trans [OF kept_ensure_dir [OF d] kept_CreateBundle [OF c]]])
    have nofile: "\<not> is_file s (resolve ?f) \<or> faults s SStat (resolve ?f) = Some ENOENT"
      using st None e assms(2) cb(4)
      by (auto simp: os_lstat_def Let_def is_file_def bundle_of_def split: if_splits option.splits)
    have nd: "\<not> is_dir s3 (resolve ?f)" using cb(2,3) by (simp add: is_dir_def)
    show ?thesis
      using fresh nofile cb(1) r k nd by (simp add: bundle_of_def)
  qed
qed

lemma bundle_attempt_kept:
  assumes "bundle_attempt g rq bid l s = (a, s')"
  shows "kept (\<lambda>p. p = resolve (lockfile l) \<or> p = bundle_of g rq bid) s s'"
    and "a = Again \<Longrightarrow> kept (\<lambda>p. p = resolve (lockfile l)) s s'"
proof -
  let ?f = "bundle_path g (rq_storage rq) (rq_prefix rq) bid"
  let ?A = "\<lambda>p. p = resolve (lockfile l) \<or> p = bundle_of g rq bid"
  obtain st s1 where st: "os_lstat ?f s = (st, s1)" by fastforce
  obtain r s2 where d: "ensure_dir (Dirname ?f) s1 = (r, s2)" by fastforce
  obtain ok s3 where c: "CreateBundle ?f (rq_now rq) s2 = (ok, s3)" by fastforce
  note k1 = kept_lstat [OF st] and k2 = kept_trans [OF kept_lstat [OF st] kept_ensure_dir [OF d]]
  have k3: "kept ?A s s3"
    by (rule kept_trans [OF k2 kept_mono [OF kept_CreateBundle [OF c]]]) (simp add: bundle_of_def)
  have del: "kept B s t \<Longrightarrow> (\<And>p. p = resolve (lockfile l) \<Longrightarrow> B p) \<Longrightarrow> kept B s (FileLock_delete l t)" for B t
    by (rule kept_trans [OF _ kept_mono [OF kept_FileLock_delete]]) auto
  show "kept ?A s s'"
    using assms k1 k2 k3 by (cases st)
      (auto simp: bundle_attempt_eq st d c intro!: del split: if_splits bool.splits)
  show "a = Again \<Longrightarrow> kept (\<lambda>p. p = resolve (lockfile l)) s s'"
    using assms k1 k2 by (cases st)
      (auto simp: bundle_attempt_eq st d c intro!: del split: if_splits bool.splits)
qed

end
