(* ===== verification/AllocLoop.thy ===== *)
theory AllocLoop
  imports BundleAlloc
begin

text \<open>
  The retry loop of \<open>Writer::Allocate\<close>: what any returned writer satisfies, when the loop is
  sure to return one, and when it never returns.
\<close>

section \<open>One iteration\<close>

lemma keptD:
  assumes "kept A s s'"
  shows "\<not> A p \<Longrightarrow> files s' p = files s p" "is_dir s p \<Longrightarrow> is_dir s' p" "faults s' = faults s"
    "room s' = room s" "heap s' = heap s" "fs_wf s \<Longrightarrow> fs_wf s'"
  using assms unfolding kept_def by blast+

definition ancestor :: "string \<Rightarrow> path \<Rightarrow> bool" where
  "ancestor d p \<longleftrightarrow> (\<exists>k. p = (IsAbspath d, take k (components d)))"

definition dirs_within :: "(path \<Rightarrow> bool) \<Rightarrow> os \<Rightarrow> os \<Rightarrow> bool" where
  "dirs_within D s s' \<longleftrightarrow> (\<forall>p. is_dir s' p \<longrightarrow> is_dir s p \<or> D p)"

lemma dirs_within_same: "dirs s' = dirs s \<Longrightarrow> dirs_within D s s'"
  by (simp add: dirs_within_def is_dir_def)

lemma dirs_within_trans: "dirs_within D s s' \<Longrightarrow> dirs_within D s' s'' \<Longrightarrow> dirs_within D s s''"
  by (auto simp: dirs_within_def)

lemma dirs_lock_file: "lock_file n s = (ok, s') \<Longrightarrow> dirs s' = dirs s"
  by (cases ok) (auto simp: lock_file_True dest: lock_file_False)

lemma dirs_FileLock_delete [simp]: "dirs (FileLock_delete l s) = dirs s"
proof -
  obtain ok s' where u: "unlock_file (lockfile l) s = (ok, s')" by fastforce
  then have "dirs s' = dirs s" by (rule unlock_file_cases) auto
  then show ?thesis using u by (simp add: FileLock_delete_def Unlock_def)
qed

lemma dirs_access: "os_access n s = (r, s') \<Longrightarrow> dirs s' = dirs s"
  by (auto dest: os_access_same)

lemma dirs_ensure_dir:
  assumes "ensure_dir d s = (r, s')" "length d < PATH_LENGTH_MAX"
  shows "dirs_within (ancestor d) s s'"
proof -
  obtain acc s1 where a: "os_access d s = (acc, s1)" by fastforce
  have 1: "is_dir s1 = is_dir s" using dirs_access [OF a] by (auto simp: is_dir_def)
  show ?thesis
  proof (cases "acc = -1")
    case True
    then have "mkdirs d s1 = (r, s')" using assms(1) a by (simp add: ensure_dir_def)
    then show ?thesis using mkdirs_only [OF _ assms(2)] by (auto simp: dirs_within_def ancestor_def 1 [symmetric])
  next
    case False
    then have "s' = s1" using assms(1) a by (simp add: ensure_dir_def)
    then show ?thesis by (simp add: dirs_within_def 1)
  qed
qed

lemma dirs_TryLock: "TryLock l s = (ok, l', s') \<Longrightarrow> dirs s' = dirs s"
  by (auto dest!: TryLock_D dirs_lock_file)

lemma dirs_take_lock:
  assumes "take_lock rq l s = (r, s')" "length (rq_lock_dir rq) < PATH_LENGTH_MAX"
  shows "dirs_within (ancestor (rq_lock_dir rq)) s s'"
proof -
  let ?D = "ancestor (rq_lock_dir rq)"
  obtain ok l1 s1 where t1: "TryLock l s = (ok, l1, s1)" by (metis prod_cases3)
  obtain m s2 where e: "ensure_dir (rq_lock_dir rq) s1 = (m, s2)" by fastforce
  obtain ok2 l2 s3 where t2: "TryLock l1 s2 = (ok2, l2, s3)" by (metis prod_cases3)
  have 1: "dirs_within ?D s s1" by (rule dirs_within_same [OF dirs_TryLock [OF t1]])
  have 2: "dirs_within ?D s s2" by (rule dirs_within_trans [OF 1 dirs_ensure_dir [OF e assms(2)]])
  have 3: "dirs_within ?D s s3" by (rule dirs_within_trans [OF 2 dirs_within_same [OF dirs_TryLock [OF t2]]])
  have del: "dirs_within ?D s t \<Longrightarrow> dirs_within ?D s (FileLock_delete l' t)" for t l'
    by (erule dirs_within_trans) (simp add: dirs_within_same)
  show ?thesis
    using assms(1) 1 2 3 t1 e t2 by (auto simp: take_lock_eq intro: del split: if_splits bool.splits)
qed

text \<open>What the caller of \<open>Allocate\<close> gets.\<close>

definition allocated :: "Setting \<Rightarrow> request \<Rightarrow> int \<Rightarrow> os \<Rightarrow> Writer \<Rightarrow> os \<Rightarrow> bool" where
  "allocated g rq bid s w s' \<longleftrightarrow>
     (\<exists>l c. w = new_writer g rq bid l (length c) \<and> locked l \<and> lockfile l = lock_path rq bid
        \<and> is_file s' (resolve (lock_path rq bid)) \<and> \<not> is_file s (resolve (lock_path rq bid))
        \<and> files s' (bundle_of g rq bid) = Some c \<and> \<not> is_dir s' (bundle_of g rq bid)
        \<and> kept (\<lambda>p. p = resolve (lock_path rq bid) \<or> p = bundle_of g rq bid) s s'
        \<and> (files s (bundle_of g rq bid) = Some c \<and> szadd (length c) (need rq) \<le> max_bundle_size g
           \<or> \<not> is_file s (bundle_of g rq bid) \<and> c = bundle_header (rq_now rq)))"

text \<open>The paths of a request do not get in each other's way.\<close>

definition apart :: "Setting \<Rightarrow> request \<Rightarrow> bool" where
  "apart g rq \<longleftrightarrow> levels_ok g \<and> lock_dir_ok (rq_lock_dir rq) \<and> length (rq_lock_dir rq) < PATH_LENGTH_MAX
     \<and> (\<forall>bid. \<not> ancestor (rq_lock_dir rq) (bundle_of g rq bid))"

lemma apart_default:
  assumes "levels_ok g" "rq_lock_dir rq = PathJoin (rq_storage rq) ''.lock''"
    and "length (rq_lock_dir rq) < PATH_LENGTH_MAX" "\<not> IsAbspath (rq_prefix rq)"
  shows "apart g rq"
proof -
  have lock: "components (rq_lock_dir rq) = components (rq_storage rq) @ [''.lock'']"
  proof -
    have "components ''.lock'' = [''.lock'']" "\<not> IsAbspath ''.lock''" by code_simp+
    then show ?thesis by (simp add: assms(2) components_PathJoin)
  qed
  have "\<not> ancestor (rq_lock_dir rq) (bundle_of g rq bid)" for bid
  proof
    assume "ancestor (rq_lock_dir rq) (bundle_of g rq bid)"
    then have "length (components (PathJoin (rq_storage rq) (rq_prefix rq))) + 2 \<le> length (components (rq_lock_dir rq))"
      by (auto simp: ancestor_def bundle_of_def resolve_bundle_path [OF assms(1)] dest!: arg_cong [where f = length])
    then show False by (simp add: lock components_PathJoin [OF assms(4)])
  qed
  then show ?thesis using assms(1,3) default_lock_dir_ok by (simp add: apart_def assms(2))
qed

lemma allocate_step_Got:
  assumes step: "allocate_step g rq bid s = (Got w, s')" and ap: "apart g rq"
    and nodir: "\<not> is_dir s (bundle_of g rq bid)" and stat: "faults s SStat (bundle_of g rq bid) = None"
  shows "allocated g rq bid s w s'"
proof -
  let ?L = "FileLock_new (PathJoin (rq_lock_dir rq) (show_int bid)) 10000 500"
  have lf: "lockfile ?L = lock_path rq bid" by (simp add: FileLock_new_def lock_path_def)
  obtain r s1 where t: "take_lock rq ?L s = (r, s1)" by fastforce
  obtain l where r: "r = Inr l"
    using step t take_lock_Inl [of rq _ _ _ s _ s1 w] by (cases r) (auto simp: allocate_step_def)
  have b: "bundle_attempt g rq bid l s1 = (Got w, s')" using step t r by (simp add: allocate_step_def)
  have l: "l = ?L\<lparr>locked := True\<rparr>" "is_file s1 (resolve (lock_path rq bid))"
      "\<not> is_file s (resolve (lock_path rq bid))" and k1: "kept (\<lambda>p. p = resolve (lock_path rq bid)) s s1"
    using take_lock_Inr [OF t [unfolded r]] unfolding lf by auto
  have nl: "bundle_of g rq bid \<noteq> resolve (lock_path rq bid)"
    using bundle_not_lock [of g rq "rq_storage rq" "rq_prefix rq" bid] ap
    by (auto simp: apart_def bundle_of_def is_lock_def)
  have same: "files s1 (bundle_of g rq bid) = files s (bundle_of g rq bid)" "faults s1 = faults s"
    using keptD [OF k1] nl by auto
  have nd1: "\<not> is_dir s1 (bundle_of g rq bid)"
    using dirs_take_lock [OF t] ap nodir unfolding dirs_within_def apart_def by blast
  have lk: "locked l" "lockfile l = lock_path rq bid" using l(1) lf by auto
  from b nd1 show ?thesis
  proof (cases rule: bundle_attempt_Got)
    case (existing c)
    then show ?thesis
      using l lk k1 same nd1 unfolding allocated_def
      by (intro exI [of _ l] exI [of _ c]) (auto intro: kept_mono)
  next
    case fresh
    have "kept (\<lambda>p. p = resolve (lock_path rq bid) \<or> p = bundle_of g rq bid) s s'"
      by (rule kept_trans [OF kept_mono [OF k1] kept_mono [OF fresh(4)]]) auto
    moreover have "is_file s' (resolve (lock_path rq bid))"
      using keptD(1) [OF fresh(4), of "resolve (lock_path rq bid)"] l(2) nl by (simp add: is_file_def)
    moreover have "\<not> is_file s (bundle_of g rq bid)"
      using fresh(1) same stat by (auto simp: is_file_def)
    ultimately show ?thesis
      using l lk fresh unfolding allocated_def
      by (intro exI [of _ l] exI [of _ "bundle_header (rq_now rq)"]) (simp add: length_bundle_header)
  qed
qed

text \<open>An attempt that is repeated changes lock files only, and makes the lock directory at most.\<close>

lemma allocate_step_Again:
  assumes step: "allocate_step g rq bid s = (Again, s')" and len: "length (rq_lock_dir rq) < PATH_LENGTH_MAX"
  shows "kept (is_lock rq) s s'" "dirs_within (ancestor (rq_lock_dir rq)) s s'"
proof -
  let ?L = "FileLock_new (PathJoin (rq_lock_dir rq) (show_int bid)) 10000 500"
  have lf: "lockfile ?L = lock_path rq bid" by (simp add: FileLock_new_def lock_path_def)
  have il: "is_lock rq p" if "p = resolve (lock_path rq bid)" for p using that by (auto simp: is_lock_def)
  obtain r s1 where t: "take_lock rq ?L s = (r, s1)" by fastforce
  note d1 = dirs_take_lock [OF t len]
  have "kept (is_lock rq) s s' \<and> dirs_within (ancestor (rq_lock_dir rq)) s s'"
  proof (cases r)
    case (Inl a)
    then have "s' = s1" using step t by (simp add: allocate_step_def)
    then show ?thesis
      using take_lock_Inl [OF t [unfolded Inl]] d1 by (auto intro: kept_mono)
  next
    case (Inr l)
    have l: "lockfile l = lock_path rq bid" "kept (\<lambda>p. p = resolve (lock_path rq bid)) s s1"
      using take_lock_Inr [OF t [unfolded Inr]] lf by auto
    have b: "bundle_attempt g rq bid l s1 = (Again, s')" using step t Inr by (simp add: allocate_step_def)
    have k: "kept (\<lambda>p. p = resolve (lock_path rq bid)) s1 s'"
      using bundle_attempt_kept(2) [OF b] by (simp add: l(1))
    obtain st s2 where st: "os_lstat (bundle_path g (rq_storage rq) (rq_prefix rq) bid) s1 = (st, s2)" by fastforce
    have "dirs s2 = dirs s1" using os_lstat_same [OF st] by auto
    moreover have "dirs s' = dirs s2"
      using b st by (cases st) (auto simp: bundle_attempt_eq split: if_splits prod.splits bool.splits)
    ultimately have "dirs_within (ancestor (rq_lock_dir rq)) s s'"
      by (intro dirs_within_trans [OF d1] dirs_within_same) simp
    then show ?thesis using kept_mono [OF kept_trans [OF l(2) k], of "is_lock rq"] il by blast
  qed
  then show "kept (is_lock rq) s s'" "dirs_within (ancestor (rq_lock_dir rq)) s s'" by auto
qed

section \<open>What a returned writer satisfies\<close>

definition loop_result :: "Setting \<Rightarrow> request \<Rightarrow> os \<Rightarrow> Writer option \<times> proc \<times> os \<Rightarrow> bool" where
  "loop_result g rq s y \<longleftrightarrow>
     (\<exists>s1. kept (is_lock rq) s s1 \<and> dirs_within (ancestor (rq_lock_dir rq)) s s1
        \<and> allocate_step g rq (last_id (fst (snd y))) s1
            = (case fst y of None \<Rightarrow> Null | Some w \<Rightarrow> Got w, snd (snd y)))"

lemma loop_result_now:
  "allocate_step g rq (last_id p) s = (case r of None \<Rightarrow> Null | Some w \<Rightarrow> Got w, s')
     \<Longrightarrow> loop_result g rq s (r, p, s')"
  unfolding loop_result_def by (rule exI [of _ s]) (simp add: dirs_within_same)

lemma loop_result_later:
  "kept (is_lock rq) s s1 \<Longrightarrow> dirs_within (ancestor (rq_lock_dir rq)) s s1 \<Longrightarrow> loop_result g rq s1 y
     \<Longrightarrow> loop_result g rq s y"
  unfolding loop_result_def by (meson kept_trans dirs_within_trans)

lemma allocate_loop_result:
  assumes "allocate_loop g rq n p s = Some y"
  shows "length (rq_lock_dir rq) < PATH_LENGTH_MAX \<longrightarrow> loop_result g rq s y"
  using assms
proof (rule allocate_loop.raw_induct
    [of "\<lambda>g rq n p s y. length (rq_lock_dir rq) < PATH_LENGTH_MAX \<longrightarrow> loop_result g rq s y", rotated], intro impI)
  fix loop g rq n p s y
  assume ih: "\<And>g rq n p s y. loop g rq n p s = Some y
      \<Longrightarrow> length (rq_lock_dir rq) < PATH_LENGTH_MAX \<longrightarrow> loop_result g rq s y"
    and body: "(let loop_count = n + 1; p = choose_id g loop_count p
      in case allocate_step g rq (last_id p) s of
         (Again, s) \<Rightarrow> loop g rq loop_count (p\<lparr>last_id := wrap32 (last_id p + 1)\<rparr>) s
         | (Null, s) \<Rightarrow> Some (None, p, s)
         | (Got w, s) \<Rightarrow> Some (Some w, p, s)) = Some y"
    and len: "length (rq_lock_dir rq) < PATH_LENGTH_MAX"
  let ?p = "choose_id g (n + 1) p"
  obtain a s1 where st: "allocate_step g rq (last_id ?p) s = (a, s1)" by fastforce
  show "loop_result g rq s y"
  proof (cases a)
    case Again
    have "loop g rq (n + 1) (?p\<lparr>last_id := wrap32 (last_id ?p + 1)\<rparr>) s1 = Some y"
      using body st Again by (simp add: Let_def)
    then show ?thesis
      using loop_result_later [OF allocate_step_Again [OF st [unfolded Again] len]] ih len by blast
  qed (use body st in \<open>auto simp: Let_def intro: loop_result_now\<close>)
qed

lemma allocate_loop_Some:
  assumes run: "allocate_loop g rq n p s = Some (Some w, p', s')" and ap: "apart g rq"
    and nodir: "\<And>bid. \<not> is_dir s (bundle_of g rq bid)"
    and stat: "\<And>bid. faults s SStat (bundle_of g rq bid) = None"
  shows "\<exists>s1. kept (is_lock rq) s s1 \<and> allocated g rq (last_id p') s1 w s'"
proof -
  obtain s1 where s1: "kept (is_lock rq) s s1" "dirs_within (ancestor (rq_lock_dir rq)) s s1"
    and step: "allocate_step g rq (last_id p') s1 = (Got w, s')"
    using allocate_loop_result [OF run] ap by (auto simp: loop_result_def apart_def)
  have "\<not> is_dir s1 (bundle_of g rq (last_id p'))"
    using s1(2) nodir ap unfolding dirs_within_def apart_def by blast
  then have "allocated g rq (last_id p') s1 w s'"
    using step stat keptD(3) [OF s1(1)] ap by (intro allocate_step_Got) auto
  then show ?thesis using s1(1) by blast
qed

section \<open>When the loop returns a writer\<close>

text \<open>
  No call is refused, and nothing that is in the way of a directory to be made is a plain
  file. \<open>has_room\<close>: the bundle is not locked and can take the request.
\<close>

definition usable :: "Setting \<Rightarrow> request \<Rightarrow> os \<Rightarrow> bool" where
  "usable g rq s \<longleftrightarrow> (\<forall>c p. faults s c p = None) \<and> (\<forall>p. room s p = None)
     \<and> components (rq_lock_dir rq) \<noteq> [] \<and> (\<forall>p. ancestor (rq_lock_dir rq) p \<longrightarrow> \<not> is_file s p)
     \<and> (\<forall>bid. let d = Dirname (bundle_path g (rq_storage rq) (rq_prefix rq) bid) in
          length d < PATH_LENGTH_MAX \<and> (\<forall>p. ancestor d p \<longrightarrow> \<not> is_file s p \<and> \<not> is_lock rq p)
          \<and> \<not> is_dir s (bundle_of g rq bid) \<and> \<not> is_dir s (resolve (lock_path rq bid)))"

definition has_room :: "Setting \<Rightarrow> request \<Rightarrow> os \<Rightarrow> int \<Rightarrow> bool" where
  "has_room g rq s bid \<longleftrightarrow> \<not> is_file s (resolve (lock_path rq bid))
     \<and> (case files s (bundle_of g rq bid) of None \<Rightarrow> True
        | Some c \<Rightarrow> szadd (length c) (need rq) \<le> max_bundle_size g)"

lemma ensure_dir_ok:
  assumes "\<And>c p. faults s c p = None" "length d < PATH_LENGTH_MAX" "components d \<noteq> []"
    and free: "\<And>p. ancestor d p \<Longrightarrow> \<not> is_file s p"
  shows "\<exists>s'. ensure_dir d s = (0, s') \<and> is_dir s' (resolve d)"
proof -
  obtain acc s1 where a: "os_access d s = (acc, s1)" by fastforce
  have s1: "faults s1 = faults s" "files s1 = files s" "is_dir s1 = is_dir s"
    using os_access_same [OF a] by auto
  have nf: "\<not> is_file s1 (IsAbspath d, take k (components d))" for k
    using free by (auto simp: ancestor_def is_file_def s1)
  show ?thesis
  proof (cases "acc = -1")
    case True
    then show ?thesis
      using mkdirs_creates [of s1 d] nf assms(1-3) a by (auto simp: ensure_dir_def s1)
  next
    case False
    then have "is_dir s (resolve d) \<or> is_file s (resolve d)"
      using a assms(1) by (auto simp: os_access_def Let_def split: if_splits)
    moreover have "\<not> is_file s (resolve d)"
      by (intro free) (simp add: ancestor_def resolve_def, metis order_refl take_all)
    ultimately show ?thesis using a False by (simp add: ensure_dir_def s1)
  qed
qed

lemma lock_not_ancestor: "\<not> ancestor (rq_lock_dir rq) (resolve (lock_path rq bid))"
  by (auto simp: ancestor_def resolve_lock_path dest: arg_cong [where f = length])

lemma lock_file_free:
  assumes "\<And>c p. faults s c p = None" "\<not> is_dir s (resolve n)" "\<not> is_file s (resolve n)" "n \<noteq> []"
    and "is_dir s (parent (resolve n))"
  shows "lock_file n s = (True, put_file (resolve n) [] s)"
  using assms by (simp add: lock_file_True)

lemma parent_lock: "parent (resolve (lock_path rq bid)) = resolve (rq_lock_dir rq)"
  unfolding resolve_lock_path by (simp add: parent_def resolve_def)

lemma take_lock_usable:
  assumes u: "usable g rq s" and len: "length (rq_lock_dir rq) < PATH_LENGTH_MAX"
    and l: "lockfile l = lock_path rq bid" "\<not> locked l"
  shows "if is_file s (resolve (lock_path rq bid))
    then \<exists>s'. take_lock rq l s = (Inl Again, s') \<and> files s' = files s
    else \<exists>s'. take_lock rq l s = (Inr (l\<lparr>locked := True\<rparr>), s')"
proof -
  let ?n = "lock_path rq bid"
  obtain ok l1 s1 where t1: "TryLock l s = (ok, l1, s1)" by (metis prod_cases3)
  note d1 = TryLock_D [OF t1, unfolded l(1)]
  show ?thesis
  proof (cases ok)
    case True
    then show ?thesis using d1 t1 by (auto simp: take_lock_eq lock_file_True)
  next
    case False
    then obtain e where s1: "s1 = set_errno e s" using d1 lock_file_False [of ?n s s1] by auto
    have "\<exists>s2. ensure_dir (rq_lock_dir rq) s1 = (0, s2) \<and> is_dir s2 (resolve (rq_lock_dir rq))"
      using u len by (intro ensure_dir_ok) (auto simp: usable_def s1)
    then obtain s2 where e: "ensure_dir (rq_lock_dir rq) s1 = (0, s2)" "is_dir s2 (resolve (rq_lock_dir rq))" by blast
    have k: "files s2 = files s" "faults s2 = faults s"
      using keptD [OF kept_ensure_dir [OF e(1), of "\<lambda>_. False"]] by (auto simp: s1 fun_eq_iff)
    have nd: "\<not> is_dir s2 (resolve ?n)"
      using dirs_ensure_dir [OF e(1) len] u lock_not_ancestor [of rq bid]
      unfolding dirs_within_def usable_def s1 Let_def by (metis is_dir_simps(1))
    obtain ok2 l2 s3 where t2: "TryLock l1 s2 = (ok2, l2, s3)" by (metis prod_cases3)
    have d2: "l2 = l1\<lparr>locked := ok2\<rparr>" "lock_file ?n s2 = (ok2, s3)" using TryLock_D [OF t2] d1 by (auto simp: l(1))
    show ?thesis
    proof (cases "is_file s (resolve ?n)")
      case there: True
      have "\<not> ok2" using d2(2) there k by (cases ok2) (auto simp: lock_file_True is_file_def)
      then have "files s3 = files s" "take_lock rq l s = (Inl Again, s3)"
        using d1 d2 False t1 e t2 lock_file_False [of ?n s2 s3] k by (auto simp: take_lock_eq)
      then show ?thesis using there by simp
    next
      case free: False
      have "lock_file ?n s2 = (True, put_file (resolve ?n) [] s2)"
        using u nd free k e(2) by (intro lock_file_free) (auto simp: usable_def is_file_def parent_lock)
      then show ?thesis using d1 d2 False t1 e t2 free by (auto simp: take_lock_eq)
    qed
  qed
qed

lemma Bid2Filename_not_Nil: "levels_ok g \<Longrightarrow> Bid2Filename g bid \<noteq> []"
  using Bid2Filename_parts(1) [of g bid] by simp

lemma path_join_suffix: "\<not> IsAbspath b \<Longrightarrow> b \<noteq> [] \<Longrightarrow> \<exists>y. PathJoin a b = y @ b"
  by (auto simp: PathJoin_def intro: exI [of _ "[]"] exI [of _ "a @ ''/''"])

lemma Dirname_bundle_path:
  assumes "levels_ok g"
  shows "resolve (Dirname (bundle_path g storage pre bid)) = parent (resolve (bundle_path g storage pre bid))"
    and "components (Dirname (bundle_path g storage pre bid)) \<noteq> []"
proof -
  let ?f = "bundle_path g storage pre bid"
  let ?h = "show_hex8 (to_u32 bid div file_count_level_1 g)" and ?t = "show_hex8 (to_u32 bid mod file_count_level_2 g)"
  have hex: "CHR ''/'' \<notin> set ?t" using show_hex8_chars by blast
  have h: "?h \<noteq> []" using Bid2Filename_parts(2) [OF assms, of bid] by auto
  obtain y where y: "?f = y @ Bid2Filename g bid"
    using path_join_suffix [OF Bid2Filename_relative [OF assms] Bid2Filename_not_Nil [OF assms], of "PathJoin storage pre" bid]
    by (auto simp: bundle_path_def)
  then have f: "?f = (y @ ?h) @ CHR ''/'' # ?t" using Bid2Filename_parts(1) [OF assms] by simp
  have d: "Dirname ?f = y @ ?h" unfolding f by (rule Dirname_append [OF hex])
  have "IsAbspath (y @ ?h) = IsAbspath ?f" using f h IsAbspath_append [of "y @ ?h" "CHR ''/'' # ?t"] by simp
  moreover have "components ?f = components (y @ ?h) @ [?t]"
    unfolding f components_append by (simp add: hex_component)
  ultimately show "resolve (Dirname ?f) = parent (resolve ?f)" by (simp add: resolve_def parent_def d)
  have "components ?f = components (PathJoin storage pre) @ [?h, ?t]"
    using resolve_bundle_path [OF assms, of storage pre bid] by (simp add: resolve_def)
  with \<open>components ?f = components (y @ ?h) @ [?t]\<close> show "components (Dirname ?f) \<noteq> []"
    unfolding d by (metis append_eq_append_conv2 append_Cons append_Nil butlast_append butlast_snoc last_snoc snoc_eq_iff_butlast list.distinct(1))
qed

lemma CreateBundle_ok:
  assumes "\<And>c p. faults s c p = None" "\<And>p. room s p = None" "n \<noteq> []" "\<not> is_dir s (resolve n)"
    and "is_dir s (parent (resolve n))"
  shows "\<exists>s'. CreateBundle n now s = (True, s')"
  using assms by (simp add: CreateBundle_def os_open_trunc_def Let_def os_write_def length_bundle_header)

lemma bundle_attempt_usable:
  assumes q: "\<And>c p. faults s c p = None" "\<And>p. room s p = None" and lv: "levels_ok g"
    and nd: "\<not> is_dir s (bundle_of g rq bid)"
    and dir: "length (Dirname (bundle_path g (rq_storage rq) (rq_prefix rq) bid)) < PATH_LENGTH_MAX"
      "\<And>p. ancestor (Dirname (bundle_path g (rq_storage rq) (rq_prefix rq) bid)) p \<Longrightarrow> \<not> is_file s p"
  shows "if (case files s (bundle_of g rq bid) of None \<Rightarrow> True | Some c \<Rightarrow> szadd (length c) (need rq) \<le> max_bundle_size g)
    then \<exists>w s'. bundle_attempt g rq bid l s = (Got w, s')
    else bundle_attempt g rq bid l s = (Again, FileLock_delete l s)"
proof (cases "files s (bundle_of g rq bid)")
  case (Some c)
  then have "os_lstat (bundle_path g (rq_storage rq) (rq_prefix rq) bid) s = (Some (length c), s)"
    using q nd bundle_path_not_Nil [OF lv] by (simp add: os_lstat_def Let_def bundle_of_def)
  then show ?thesis using Some by (auto simp: bundle_attempt_eq)
next
  case None
  let ?f = "bundle_path g (rq_storage rq) (rq_prefix rq) bid"
  have f: "resolve ?f = bundle_of g rq bid" by (simp add: bundle_of_def)
  let ?s = "set_errno ENOENT s"
  note d = Dirname_bundle_path(1) [OF lv, of "rq_storage rq" "rq_prefix rq" bid]
  have "fst (resolve ?f) = IsAbspath (Dirname ?f)" using d by (simp add: resolve_def parent_def)
  moreover have "take k (snd (resolve ?f)) = take k (components (Dirname ?f))" if "k < length (snd (resolve ?f))" for k
    using d that by (simp add: resolve_def parent_def take_butlast)
  moreover have "\<not> is_file s (IsAbspath (Dirname ?f), take k (components (Dirname ?f)))" for k
    by (rule dir(2)) (auto simp: ancestor_def)
  ultimately have "missing_parent (resolve ?f) s = ENOENT" by (simp add: missing_parent_def)
  then have st: "os_lstat ?f s = (None, ?s)"
    using None q nd bundle_path_not_Nil [OF lv] by (simp add: os_lstat_def Let_def f)
  obtain s2 where e: "ensure_dir (Dirname ?f) ?s = (0, s2)" "is_dir s2 (resolve (Dirname ?f))"
    using ensure_dir_ok [of ?s "Dirname ?f"] q dir Dirname_bundle_path(2) [OF lv] by auto
  note k = keptD [OF kept_ensure_dir [OF e(1), of "\<lambda>_. False"]]
  have "\<not> ancestor (Dirname ?f) (resolve ?f)"
    using Dirname_bundle_path(1) [OF lv, of "rq_storage rq" "rq_prefix rq" bid]
      resolve_bundle_path [OF lv, of "rq_storage rq" "rq_prefix rq" bid]
    by (auto simp: ancestor_def parent_def resolve_def dest!: arg_cong [where f = length])
  then have nd2: "\<not> is_dir s2 (resolve ?f)"
    using dirs_ensure_dir [OF e(1) dir(1)] nd f unfolding dirs_within_def is_dir_simps by metis
  obtain s3 where "CreateBundle ?f (rq_now rq) s2 = (True, s3)"
    using CreateBundle_ok [of s2 ?f "rq_now rq"] q k nd2 e(2) bundle_path_not_Nil [OF lv]
      Dirname_bundle_path(1) [OF lv] by auto
  then show ?thesis using st e None by (simp add: bundle_attempt_eq)
qed

lemma allocate_step_usable:
  assumes u: "usable g rq s" and ap: "apart g rq"
  shows "if has_room g rq s bid then \<exists>w s'. allocate_step g rq bid s = (Got w, s')
    else \<exists>s'. allocate_step g rq bid s = (Again, s') \<and> files s' = files s"
proof -
  let ?L = "FileLock_new (PathJoin (rq_lock_dir rq) (show_int bid)) 10000 500"
  let ?p = "resolve (lock_path rq bid)" and ?d = "Dirname (bundle_path g (rq_storage rq) (rq_prefix rq) bid)"
  have L: "lockfile ?L = lock_path rq bid" "\<not> locked ?L" by (simp_all add: FileLock_new_def lock_path_def)
  have len: "length (rq_lock_dir rq) < PATH_LENGTH_MAX" and lv: "levels_ok g" using ap by (auto simp: apart_def)
  note tl = take_lock_usable [OF u len L]
  show ?thesis
  proof (cases "is_file s ?p")
    case True
    then show ?thesis using tl by (auto simp: allocate_step_def has_room_def)
  next
    case False
    then obtain s1 where t: "take_lock rq ?L s = (Inr (?L\<lparr>locked := True\<rparr>), s1)" using tl by auto
    note k = keptD [OF conjunct2 [OF conjunct2 [OF conjunct2 [OF take_lock_Inr [OF t]]]], unfolded L]
    have lk: "files s1 ?p \<noteq> None" using take_lock_Inr [OF t] by (simp add: L is_file_def)
    have nl: "bundle_of g rq bid \<noteq> ?p"
      using bundle_not_lock [of g rq "rq_storage rq" "rq_prefix rq" bid] ap
      by (auto simp: apart_def bundle_of_def is_lock_def)
    have nd: "\<not> is_dir s1 (bundle_of g rq bid)" "\<not> is_dir s1 ?p"
      using dirs_take_lock [OF t len] u ap lock_not_ancestor [of rq bid]
      unfolding dirs_within_def usable_def apart_def Let_def by blast+
    have free: "\<not> is_file s1 q" if "ancestor ?d q" for q
    proof -
      have "\<not> is_file s q" "q \<noteq> ?p" using u that unfolding usable_def Let_def is_lock_def by blast+
      then show ?thesis using k(1) [of q] by (simp add: is_file_def)
    qed
    have q: "faults s1 c p = None" "room s1 p = None" "length ?d < PATH_LENGTH_MAX" for c p
      using u unfolding usable_def Let_def k(3,4) by blast+
    note b = bundle_attempt_usable [OF q(1,2) lv nd(1) q(3) free, of "?L\<lparr>locked := True\<rparr>"]
    have same: "files s1 (bundle_of g rq bid) = files s (bundle_of g rq bid)" using k(1) nl by simp
    have restored: "files (FileLock_delete (?L\<lparr>locked := True\<rparr>) s1) = files s"
    proof -
      have "unlock_file (lock_path rq bid) s1 = (True, del_file ?p s1)"
        using q(1) lk nd(2) by (intro unlock_file_free) (auto simp: is_file_def)
      moreover have "files (del_file ?p s1) = files s"
        using False k(1) by (auto simp: is_file_def fun_eq_iff)
      ultimately show ?thesis using L by (simp add: FileLock_delete_def Unlock_def FileLock_new_def)
    qed
    show ?thesis
      using b t False same restored by (auto simp: allocate_step_def has_room_def)
  qed
qed

lemma usable_Again:
  assumes "usable g rq s" "apart g rq" "allocate_step g rq bid s = (Again, s')" "files s' = files s"
  shows "usable g rq s'"
proof -
  have len: "length (rq_lock_dir rq) < PATH_LENGTH_MAX" using assms(2) by (simp add: apart_def)
  note ag = allocate_step_Again [OF assms(3) len]
  have nd: "\<not> is_dir s' (bundle_of g rq b)" "\<not> is_dir s' (resolve (lock_path rq b))" for b
    using ag(2) assms(1,2) lock_not_ancestor [of rq b]
    unfolding dirs_within_def usable_def apart_def Let_def by blast+
  have f: "is_file s' = is_file s" using assms(4) by (simp add: is_file_def fun_eq_iff)
  show ?thesis
    using assms(1) nd keptD(3,4) [OF ag(1)] unfolding usable_def f Let_def by auto
qed

text \<open>
  If one of the next \<open>k\<close> ids has room, \<open>Allocate\<close> returns a writer, provided the count of
  attempts stays below the number at which it turns to random ids.
\<close>

lemma allocate_loop_live:
  assumes "usable g rq s" "apart g rq" "has_room g rq s (last_id p + int k)"
    and "n + int k < bundle_count_per_day g" "0 \<le> last_id p" "last_id p + int k < 2 ^ 31"
  shows "\<exists>w p' s'. allocate_loop g rq n p s = Some (Some w, p', s')"
  using assms
proof (induction k arbitrary: n p s)
  case 0
  then have c: "choose_id g (n + 1) p = p" by (simp add: choose_id_def)
  obtain w s' where "allocate_step g rq (last_id p) s = (Got w, s')"
    using allocate_step_usable [OF 0(1,2), of "last_id p"] 0(3) by auto
  then show ?case by (simp add: allocate_loop.simps [of g rq n p s] c Let_def)
next
  case (Suc k)
  then have c: "choose_id g (n + 1) p = p" by (simp add: choose_id_def)
  show ?case
  proof (cases "has_room g rq s (last_id p)")
    case True
    then obtain w s' where "allocate_step g rq (last_id p) s = (Got w, s')"
      using allocate_step_usable [OF Suc.prems(1,2), of "last_id p"] by auto
    then show ?thesis by (simp add: allocate_loop.simps [of g rq n p s] c Let_def)
  next
    case False
    then obtain s' where st: "allocate_step g rq (last_id p) s = (Again, s')" "files s' = files s"
      using allocate_step_usable [OF Suc.prems(1,2), of "last_id p"] by auto
    have w: "wrap32 (last_id p + 1) = last_id p + 1" using Suc.prems by (intro wrap32_id) auto
    have "has_room g rq s' (last_id p + 1 + int k)"
      using Suc.prems(3) st(2) by (simp add: has_room_def is_file_def ac_simps)
    then have "\<exists>w p' s''. allocate_loop g rq (n + 1) (p\<lparr>last_id := last_id p + 1\<rparr>) s' = Some (Some w, p', s'')"
      using Suc.prems usable_Again [OF Suc.prems(1,2) st] by (intro Suc.IH) auto
    then show ?thesis by (simp add: allocate_loop.simps [of g rq n p s] c Let_def st(1) w)
  qed
qed

section \<open>When the loop never returns\<close>

text \<open>With every lock taken (and the lock directory there) the loop has no way out.\<close>

definition all_locked :: "request \<Rightarrow> os \<Rightarrow> bool" where
  "all_locked rq s \<longleftrightarrow> (\<forall>bid. is_file s (resolve (lock_path rq bid))) \<and> is_dir s (resolve (rq_lock_dir rq))
     \<and> rq_lock_dir rq \<noteq> [] \<and> faults s SAccess (resolve (rq_lock_dir rq)) = None"

lemma allocate_step_all_locked:
  assumes "all_locked rq s"
  shows "\<exists>s'. allocate_step g rq bid s = (Again, s') \<and> all_locked rq s'"
proof -
  let ?L = "FileLock_new (PathJoin (rq_lock_dir rq) (show_int bid)) 10000 500"
  have fail: "\<exists>e l'. TryLock l t = (False, l', set_errno e t) \<and> \<not> locked l' \<and> lockfile l' = lockfile l"
    if "all_locked rq t" "lockfile l = lock_path rq bid" for l t
  proof -
    obtain ok l' t' where t: "TryLock l t = (ok, l', t')" by (metis prod_cases3)
    note d = TryLock_D [OF t, unfolded that(2)]
    have "\<not> ok" using d that(1) by (cases ok) (auto simp: lock_file_True all_locked_def)
    then show ?thesis using d t lock_file_False [of "lock_path rq bid" t t'] by auto
  qed
  have keep: "all_locked rq (set_errno e t) = all_locked rq t" for e t by (simp add: all_locked_def)
  obtain e1 l1 where 1: "TryLock ?L s = (False, l1, set_errno e1 s)" "lockfile l1 = lock_path rq bid"
    using fail [OF assms, of ?L] by (auto simp: FileLock_new_def lock_path_def)
  have acc: "ensure_dir (rq_lock_dir rq) (set_errno e1 s) = (0, set_errno e1 s)"
    using assms by (simp add: ensure_dir_def os_access_def Let_def all_locked_def)
  obtain e2 l2 where 2: "TryLock l1 (set_errno e1 s) = (False, l2, set_errno e2 (set_errno e1 s))" "\<not> locked l2"
    using fail [of "set_errno e1 s" l1] assms 1(2) by (auto simp: keep)
  show ?thesis
    using assms by (simp add: allocate_step_def take_lock_eq 1 acc 2 keep)
qed

lemma allocate_loop_all_locked: "all_locked rq s \<Longrightarrow> allocate_loop g rq n p s = None"
proof (rule ccontr)
  assume "all_locked rq s" "allocate_loop g rq n p s \<noteq> None"
  then obtain y where "allocate_loop g rq n p s = Some y" by auto
  then have "\<not> all_locked rq s"
  proof (rule allocate_loop.raw_induct [of "\<lambda>g rq n p s y. \<not> all_locked rq s", rotated], intro notI)
    fix loop g rq n p s y
    assume ih: "\<And>g rq n p s y. loop g rq n p s = Some y \<Longrightarrow> \<not> all_locked rq s"
      and body: "(let loop_count = n + 1; p = choose_id g loop_count p
      in case allocate_step g rq (last_id p) s of
         (Again, s) \<Rightarrow> loop g rq loop_count (p\<lparr>last_id := wrap32 (last_id p + 1)\<rparr>) s
         | (Null, s) \<Rightarrow> Some (None, p, s)
         | (Got w, s) \<Rightarrow> Some (Some w, p, s)) = Some y"
      and al: "all_locked rq s"
    obtain s' where "loop g rq (n + 1)
        (choose_id g (n + 1) p\<lparr>last_id := wrap32 (last_id (choose_id g (n + 1) p) + 1)\<rparr>) s' = Some y"
        "all_locked rq s'"
      using body allocate_step_all_locked [OF al, of g "last_id (choose_id g (n + 1) p)"] by (auto simp: Let_def)
    then show False using ih by blast
  qed
  with \<open>all_locked rq s\<close> show False by simp
qed

section \<open>The whole call\<close>

definition request_of ::
  "string \<Rightarrow> string \<Rightarrow> string \<Rightarrow> nat \<Rightarrow> string \<Rightarrow> string option \<Rightarrow> BuildUrl option \<Rightarrow> request" where
  "request_of now pre post sz storage lock_dir builder =
     \<lparr>rq_prefix = (if pre \<noteq> [] \<and> pre ! 0 = CHR ''/'' then drop 1 pre else pre), rq_postfix = post, rq_size = sz,
      rq_storage = storage,
      rq_lock_dir = (case lock_dir of None \<Rightarrow> PathJoin storage ''.lock'' | Some d \<Rightarrow> d),
      rq_builder = builder, rq_now = now\<rparr>"

definition first_id :: "int \<Rightarrow> proc \<Rightarrow> proc" where
  "first_id pid p = (if last_id p = -1 then p\<lparr>last_id := pid mod 10\<rparr> else p)"

lemma Allocate_loop:
  "Allocate g pid now pre post sz storage ld builder p s =
     allocate_loop g (request_of now pre post sz storage ld builder) 0 (first_id pid p) s"
  by (simp add: Allocate_def request_of_def first_id_def Let_def)

lemma request_of_simps [simp]:
  "rq_size (request_of now pre post sz storage ld builder) = sz"
  "rq_storage (request_of now pre post sz storage ld builder) = storage"
  "rq_builder (request_of now pre post sz storage ld builder) = builder"
  "rq_postfix (request_of now pre post sz storage ld builder) = post"
  by (simp_all add: request_of_def)

section \<open>Properties\<close>

text \<open>
  C5: a writer that \<open>Allocate\<close> returns holds the lock file of its bundle, which nobody held before;
  its offset is the length of the bundle file, which either was there and has room for the
  request within the size limit, or is a new one that consists of the bundle header; every file
  but the lock files and the new bundle is as it was.
\<close>

theorem Allocate_returns_end_of_bundle:
  assumes "Allocate g pid now pre post sz storage ld builder p s = Some (Some w, p', s')"
    and "apart g (request_of now pre post sz storage ld builder)"
    and "\<And>bid. \<not> is_dir s (bundle_of g (request_of now pre post sz storage ld builder) bid)"
    and "\<And>bid. faults s SStat (bundle_of g (request_of now pre post sz storage ld builder) bid) = None"
  shows "\<exists>s1. kept (is_lock (request_of now pre post sz storage ld builder)) s s1
    \<and> allocated g (request_of now pre post sz storage ld builder) (last_id p') s1 w s'"
  using assms unfolding Allocate_loop by (rule allocate_loop_Some)

text \<open>A state in which bundle 3 is locked, bundle 4 is free and absent.\<close>

definition busy_os :: os where
  "busy_os = \<lparr>files = (\<lambda>q. if q = (False, [''b'', ''.lock'', ''3'']) then Some [] else None),
     dirs = (\<lambda>q. q \<in> {(False, [''b'']), (False, [''b'', ''.lock''])}),
     errno = 0, faults = (\<lambda>_ _. None), room = (\<lambda>_. None), dir_size = 4096, heap = (\<lambda>_. CHR ''#'')\<rparr>"

definition proc3 :: proc where
  "proc3 = \<lparr>last_id = 3, rands = (\<lambda>_. 0), rand_pos = 0\<rparr>"

definition sample_rq :: request where
  "sample_rq = request_of ''now'' ''/p'' ''.jpg'' 5 ''b'' None None"

lemma sample_rq_parts:
  "rq_prefix sample_rq = ''p''" "rq_storage sample_rq = ''b''" "rq_lock_dir sample_rq = PathJoin ''b'' ''.lock''"
  "rq_size sample_rq = 5" "rq_postfix sample_rq = ''.jpg''" "rq_builder sample_rq = None"
  by (simp_all add: sample_rq_def request_of_def)

lemma sample_lock_dir: "PathJoin ''b'' ''.lock'' = ''b/.lock''" "components ''b/.lock'' = [''b'', ''.lock'']"
  "\<not> IsAbspath ''b/.lock''" "\<not> IsAbspath ''p''" "components (PathJoin ''b'' ''p'') = [''b'', ''p'']"
  "\<not> IsAbspath (PathJoin ''b'' ''p'')"
  by code_simp+

lemma sample_apart: "apart g_default_setting sample_rq"
  by (rule apart_default)
    (simp_all add: levels_ok_default sample_rq_parts sample_lock_dir PATH_LENGTH_MAX_def)

lemma sample_bundle_of: "bundle_of g_default_setting sample_rq bid =
    (False, [''b'', ''p'', show_hex8 (to_u32 bid div 50), show_hex8 (to_u32 bid mod 400)])"
  using resolve_bundle_path [OF levels_ok_default, of "''b''" "''p''" bid]
  by (simp add: bundle_of_def sample_rq_parts sample_lock_dir) (simp add: g_default_setting_def)

lemma sample_lock_path: "resolve (lock_path sample_rq bid) = (False, [''b'', ''.lock'', show_int bid])"
  by (simp add: resolve_lock_path sample_rq_parts sample_lock_dir)

lemma sample_dirname:
  "resolve (Dirname (bundle_path g_default_setting ''b'' ''p'' bid)) = (False, [''b'', ''p'', show_hex8 (to_u32 bid div 50)])"
  "length (Dirname (bundle_path g_default_setting ''b'' ''p'' bid)) < PATH_LENGTH_MAX"
proof -
  show "resolve (Dirname (bundle_path g_default_setting ''b'' ''p'' bid)) = (False, [''b'', ''p'', show_hex8 (to_u32 bid div 50)])"
    using Dirname_bundle_path(1) [OF levels_ok_default, of "''b''" "''p''" bid] sample_bundle_of [of bid]
    by (simp add: bundle_of_def sample_rq_parts parent_def)
  let ?h = "show_hex8 (to_u32 bid div 50)" and ?t = "show_hex8 (to_u32 bid mod 400)"
  have parts: "Bid2Filename g_default_setting bid = ?h @ ''/'' @ ?t" "length ?h = 8"
    using Bid2Filename_parts [OF levels_ok_default, of bid] by (simp_all add: g_default_setting_def)
  have j: "PathJoin ''b'' ''p'' = ''b/p''" by code_simp
  have "bundle_path g_default_setting ''b'' ''p'' bid = (''b/p/'' @ ?h) @ CHR ''/'' # ?t"
    using Bid2Filename_relative [OF levels_ok_default, of bid] parts
    unfolding bundle_path_def j by (simp add: PathJoin_def IsDirectory_def IsPathSep_def)
  moreover have "CHR ''/'' \<notin> set ?t" using show_hex8_chars by blast
  ultimately have "Dirname (bundle_path g_default_setting ''b'' ''p'' bid) = ''b/p/'' @ ?h"
    using Dirname_append by metis
  then show "length (Dirname (bundle_path g_default_setting ''b'' ''p'' bid)) < PATH_LENGTH_MAX"
    using parts(2) by (simp add: PATH_LENGTH_MAX_def)
qed

lemma ancestor_resolve: "ancestor d p \<longleftrightarrow> (\<exists>k. p = (fst (resolve d), take k (snd (resolve d))))"
  by (simp add: ancestor_def resolve_def)

lemma busy_usable: "usable g_default_setting sample_rq busy_os"
proof -
  let ?d = "\<lambda>bid. Dirname (bundle_path g_default_setting ''b'' ''p'' bid)"
  have l: "resolve ''b/.lock'' = (False, [''b'', ''.lock''])" by (simp add: resolve_def sample_lock_dir)
  have s3: "show_int 3 = ''3''" by (simp add: print_eval)
  have free: "\<not> is_file busy_os p \<and> \<not> is_lock sample_rq p" if "ancestor (?d bid) p" for bid p
    using that unfolding ancestor_resolve sample_dirname(1)
    by (auto simp: is_file_def busy_os_def is_lock_def sample_lock_path take_Cons' split: if_splits)
  show ?thesis
    unfolding usable_def Let_def sample_rq_parts sample_lock_dir(1)
    using free sample_dirname(2)
    by (auto simp: sample_lock_dir ancestor_resolve l sample_bundle_of sample_lock_path)
      (auto simp: busy_os_def is_file_def is_dir_def take_Cons' split: if_splits)
qed

lemma busy_has_room: "has_room g_default_setting sample_rq busy_os 4"
  by (simp add: has_room_def sample_lock_path sample_bundle_of is_file_def busy_os_def print_eval)

lemma busy_allocates:
  "\<exists>w p' s'. Allocate g_default_setting 1 ''now'' ''/p'' ''.jpg'' 5 ''b'' None None proc3 busy_os = Some (Some w, p', s')"
proof -
  have "first_id 1 proc3 = proc3" by (simp add: first_id_def proc3_def)
  then show ?thesis
    using allocate_loop_live [OF busy_usable sample_apart, of proc3 1 0] busy_has_room
    by (simp add: Allocate_loop sample_rq_def [symmetric]) (simp add: proc3_def g_default_setting_def bundle_consts)
qed

lemma busy_quiet:
  "\<not> is_dir busy_os (bundle_of g_default_setting sample_rq bid)"
  "faults busy_os c q = None"
  using busy_usable by (auto simp: usable_def Let_def busy_os_def)

theorem Allocate_returns_end_of_bundle_witness:
  "\<exists>w p' s'. Allocate g_default_setting 1 ''now'' ''/p'' ''.jpg'' 5 ''b'' None None proc3 busy_os = Some (Some w, p', s')
     \<and> (\<exists>s1. allocated g_default_setting sample_rq (last_id p') s1 w s')"
proof -
  obtain w p' s' where a: "Allocate g_default_setting 1 ''now'' ''/p'' ''.jpg'' 5 ''b'' None None proc3 busy_os
      = Some (Some w, p', s')" using busy_allocates by blast
  have "\<exists>s1. kept (is_lock sample_rq) busy_os s1 \<and> allocated g_default_setting sample_rq (last_id p') s1 w s'"
    using Allocate_returns_end_of_bundle [OF a] sample_apart busy_quiet unfolding sample_rq_def by blast
  then show ?thesis using a by blast
qed

text \<open>
  C6: progress: when no call is refused and no plain file stands where a directory is needed, and
  one of the next bundles that \<open>Allocate\<close> will try is unlocked and absent or has room, it returns a
  writer after finitely many attempts.
\<close>

theorem Allocate_progress:
  assumes "usable g (request_of now pre post sz storage ld builder) s"
    and "apart g (request_of now pre post sz storage ld builder)"
    and "has_room g (request_of now pre post sz storage ld builder) s (last_id (first_id pid p) + int k)"
    and "int k < bundle_count_per_day g" "0 \<le> last_id (first_id pid p)" "last_id (first_id pid p) + int k < 2 ^ 31"
  shows "\<exists>w p' s'. Allocate g pid now pre post sz storage ld builder p s = Some (Some w, p', s')"
  unfolding Allocate_loop using assms by (intro allocate_loop_live [where k = k]) simp_all

theorem Allocate_progress_witness:
  "\<exists>w p' s'. Allocate g_default_setting 1 ''now'' ''/p'' ''.jpg'' 5 ''b'' None None proc3 busy_os = Some (Some w, p', s')"
proof (rule Allocate_progress [where k = 1])
  have f: "first_id 1 proc3 = proc3" by (simp add: first_id_def proc3_def)
  show "usable g_default_setting (request_of ''now'' ''/p'' ''.jpg'' 5 ''b'' None None) busy_os"
    using busy_usable by (simp only: sample_rq_def)
  show "apart g_default_setting (request_of ''now'' ''/p'' ''.jpg'' 5 ''b'' None None)"
    using sample_apart by (simp only: sample_rq_def)
  show "has_room g_default_setting (request_of ''now'' ''/p'' ''.jpg'' 5 ''b'' None None) busy_os
      (last_id (first_id 1 proc3) + int 1)"
    using busy_has_room by (simp add: sample_rq_def f) (simp add: proc3_def)
qed (simp_all add: first_id_def proc3_def g_default_setting_def bundle_consts)

text \<open>
  Nothing bounds the search: with every lock file present (left behind by crashed processes,
  say) \<open>Allocate\<close> does not return at all.
\<close>

theorem Allocate_can_spin:
  assumes "all_locked (request_of now pre post sz storage ld builder) s"
  shows "Allocate g pid now pre post sz storage ld builder p s = None"
  unfolding Allocate_loop using assms by (rule allocate_loop_all_locked)

theorem Allocate_can_spin_witness:
  "Allocate g_default_setting 1 ''now'' ''p'' ''.jpg'' 5 ''b'' (Some ''l'') None proc3
     (busy_os\<lparr>files := (\<lambda>q. if length (snd q) = 2 then Some [] else None), dirs := (\<lambda>q. q = (False, [''l'']))\<rparr>) = None"
proof (rule Allocate_can_spin)
  let ?rq = "request_of ''now'' ''p'' ''.jpg'' 5 ''b'' (Some ''l'') None"
  have l: "components ''l'' = [''l'']" "\<not> IsAbspath ''l''" by code_simp+
  have "rq_lock_dir ?rq = ''l''" by (simp add: request_of_def)
  then show "all_locked ?rq
      (busy_os\<lparr>files := (\<lambda>q. if length (snd q) = 2 then Some [] else None), dirs := (\<lambda>q. q = (False, [''l'']))\<rparr>)"
    unfolding all_locked_def resolve_lock_path by (simp add: is_file_def is_dir_def l resolve_def busy_os_def)
qed

text \<open>
  When \<open>lstat\<close> fails with an error other than \<open>ENOENT\<close>, the iteration goes on to the next
  bundle without deleting its \<open>FileLock\<close>: the lock file stays and nothing refers to it.
\<close>

theorem stat_error_leaks_lock:
  assumes "take_lock rq (FileLock_new (PathJoin (rq_lock_dir rq) (show_int bid)) 10000 500) s = (Inr l, s1)"
    and "faults s1 SStat (bundle_of g rq bid) = Some e" "e \<noteq> ENOENT"
  shows "allocate_step g rq bid s = (Again, set_errno e s1) \<and> \<not> is_file s (resolve (lock_path rq bid))
    \<and> is_file (set_errno e s1) (resolve (lock_path rq bid))"
proof -
  have "os_lstat (bundle_path g (rq_storage rq) (rq_prefix rq) bid) s1 = (None, set_errno e s1)"
    using assms(2) by (simp add: os_lstat_def bundle_of_def Let_def)
  then show ?thesis
    using assms(1,3) take_lock_Inr [OF assms(1)]
    by (simp add: allocate_step_def bundle_attempt_eq FileLock_new_def lock_path_def)
qed

theorem stat_error_leaks_lock_witness:
  "\<exists>s'. allocate_step g_default_setting sample_rq 4 (busy_os\<lparr>faults := (\<lambda>c q. if c = SStat then Some 13 else None)\<rparr>) = (Again, s')
     \<and> is_file s' (resolve (lock_path sample_rq 4))"
proof -
  let ?s = "busy_os\<lparr>faults := (\<lambda>c q. if c = SStat then Some 13 else None)\<rparr>"
  let ?L = "FileLock_new (PathJoin (rq_lock_dir sample_rq) (show_int 4)) 10000 500"
  have n: "lockfile ?L = lock_path sample_rq 4" by (simp add: FileLock_new_def lock_path_def)
  have "lock_file (lock_path sample_rq 4) ?s = (True, put_file (resolve (lock_path sample_rq 4)) [] ?s)"
    unfolding lock_file_True sample_lock_path
    by (simp add: is_dir_def is_file_def parent_def) (simp add: busy_os_def print_eval)
  then have t: "take_lock sample_rq ?L ?s = (Inr (?L\<lparr>locked := True\<rparr>), put_file (resolve (lock_path sample_rq 4)) [] ?s)"
    by (simp add: take_lock_def TryLock_def n)
  have "faults (put_file (resolve (lock_path sample_rq 4)) [] ?s) SStat (bundle_of g_default_setting sample_rq 4) = Some 13"
    by simp
  from stat_error_leaks_lock [OF t this] show ?thesis by (auto simp: ENOENT_def)
qed

end
