(* ===== verification/Concurrent.thy ===== *)
theory Concurrent
  imports AllocLoop
begin

text \<open>
  Several processes store files at the same time. \<open>turn\<close> cuts \<open>Writer::Allocate\<close> into the system calls that change or
  look at shared files, with both results of each; put together again without interruption they are \<open>allocate_step\<close>, one round
  of its loop (\<open>turns_alone\<close>). \<open>step\<close> interleaves the turns of all processes, their calls of \<open>Write\<close>,
  \<open>BatchWrite\<close> and \<open>Release\<close>, other programs that make directories, and the death of a process at any point. The lock
  files are the only coordination. Shown is that no two processes ever have the same bundle file to write to, and that a file
  reported as written stays readable for ever.
\<close>

section \<open>The state machine\<close>

text \<open>Where a process stands in the loop of \<open>Allocate\<close>: the constructor names what it knows, the comment its next call.\<close>

datatype pc =
    Idle
  | Trying request int FileLock
    \<comment> \<open>the first \<open>TryLock\<close>\<close>
  | LockFailed request int FileLock
    \<comment> \<open>\<open>access (lock_dir)\<close>\<close>
  | NoLockDir request int FileLock
    \<comment> \<open>\<open>mkdirs (lock_dir)\<close>\<close>
  | Retrying request int FileLock
    \<comment> \<open>the second \<open>TryLock\<close>\<close>
  | Holding request int FileLock
    \<comment> \<open>\<open>lstat\<close> of the bundle file\<close>
  | Absent request int FileLock
    \<comment> \<open>\<open>access (parent)\<close>\<close>
  | NoParent request int FileLock
    \<comment> \<open>\<open>mkdirs (parent)\<close>\<close>
  | Creating request int FileLock
    \<comment> \<open>\<open>CreateBundle\<close>: \<open>fopen\<close>\<close>
  | Emptied request int FileLock
    \<comment> \<open>\<open>CreateBundle\<close>: the header is written\<close>
  | Leaving attempt request int FileLock
    \<comment> \<open>\<open>delete filelock\<close>\<close>
  | Left attempt
    \<comment> \<open>the round is over: \<open>continue\<close> or \<open>return NULL\<close>\<close>
  | Ready Writer
    \<comment> \<open>\<open>Allocate\<close> has returned the writer\<close>
  | Done Writer
    \<comment> \<open>written to (or failed to), not released\<close>
  | Dead

text \<open>
  One system call of \<open>Allocate\<close> (\<open>mkdirs\<close>, which makes one directory after the other, is one turn). A bundle that
  cannot be looked at leaves its lock file behind.
\<close>

fun turn :: "Setting \<Rightarrow> pc \<Rightarrow> os \<Rightarrow> pc \<times> os" where
  "turn g (Trying rq bid l) s =
     (case TryLock l s of (True, l, s) \<Rightarrow> (Holding rq bid l, s) | (False, l, s) \<Rightarrow> (LockFailed rq bid l, s))"
| "turn g (LockFailed rq bid l) s =
     (case os_access (rq_lock_dir rq) s of (acc, s) \<Rightarrow> (if acc = -1 then NoLockDir rq bid l else Retrying rq bid l, s))"
| "turn g (NoLockDir rq bid l) s =
     (case mkdirs (rq_lock_dir rq) s of (made, s) \<Rightarrow> (if made \<noteq> 0 then Leaving Null rq bid l else Retrying rq bid l, s))"
| "turn g (Retrying rq bid l) s =
     (case TryLock l s of (True, l, s) \<Rightarrow> (Holding rq bid l, s) | (False, l, s) \<Rightarrow> (Leaving Again rq bid l, s))"
| "turn g (Holding rq bid l) s =
     (case os_lstat (bundle_path g (rq_storage rq) (rq_prefix rq) bid) s of
        (Some st_size, s) \<Rightarrow>
          (if szadd st_size (need rq) > max_bundle_size g then Leaving Again rq bid l
           else Ready (new_writer g rq bid l st_size), s)
      | (None, s) \<Rightarrow> (if errno s = ENOENT then Absent rq bid l else Left Again, s))"
| "turn g (Absent rq bid l) s =
     (case os_access (Dirname (bundle_path g (rq_storage rq) (rq_prefix rq) bid)) s of
        (acc, s) \<Rightarrow> (if acc = -1 then NoParent rq bid l else Creating rq bid l, s))"
| "turn g (NoParent rq bid l) s =
     (case mkdirs (Dirname (bundle_path g (rq_storage rq) (rq_prefix rq) bid)) s of
        (made, s) \<Rightarrow> (if made \<noteq> 0 then Leaving Null rq bid l else Creating rq bid l, s))"
| "turn g (Creating rq bid l) s =
     (case os_open_trunc (bundle_path g (rq_storage rq) (rq_prefix rq) bid) s of
        (None, s) \<Rightarrow> (Leaving Null rq bid l, s) | (Some fd, s) \<Rightarrow> (Emptied rq bid l, s))"
| "turn g (Emptied rq bid l) s =
     (case os_write (bundle_of g rq bid) 0 (bundle_header (rq_now rq)) s of
        (ret, s) \<Rightarrow> (if ret \<noteq> int kBundleHeaderSize then Leaving Null rq bid l
                       else Ready (new_writer g rq bid l kBundleHeaderSize), s))"
| "turn g (Leaving a rq bid l) s = (Left a, FileLock_delete l s)"
| "turn g q s = (q, s)"

definition new_lock :: "request \<Rightarrow> int \<Rightarrow> FileLock" where
  "new_lock rq bid = FileLock_new (PathJoin (rq_lock_dir rq) (show_int bid)) 10000 500"

fun answer :: "attempt \<Rightarrow> pc" where
  "answer (Got w) = Ready w"
| "answer a = Left a"

record sys =
  world :: os
  procs :: "nat \<Rightarrow> pc"
  stored :: "(Writer \<times> bytes \<times> bytes option) set"
    \<comment> \<open>the writes that reported success\<close>

definition valid_id :: "int \<Rightarrow> bool" where
  "valid_id bid \<longleftrightarrow> 0 \<le> bid \<and> bid < 2 ^ 31"

definition is_bundle :: "Setting \<Rightarrow> (request \<Rightarrow> bool) \<Rightarrow> path \<Rightarrow> bool" where
  "is_bundle g R p \<longleftrightarrow> (\<exists>rq bid. R rq \<and> valid_id bid \<and> p = bundle_of g rq bid)"

text \<open>
  \<open>R\<close> are the requests the processes make. A process that is not in a call of \<open>Allocate\<close> may begin one, and one
  whose round is over the next one, with any bundle number. \<open>other\<close> is what other programs do: they make directories, but
  none in the place of a bundle file. A writer is given one \<open>Write\<close>, of a file of the size that was asked for, or any number
  of \<open>BatchWrite\<close>s. A write counts as stored when it reports that all bytes, and at least one, were written.
\<close>

inductive step :: "Setting \<Rightarrow> (request \<Rightarrow> bool) \<Rightarrow> sys \<Rightarrow> sys \<Rightarrow> bool" for g R where
  other: "grew_dirs (world x) s' \<Longrightarrow> (\<And>p. is_bundle g R p \<Longrightarrow> is_dir s' p \<Longrightarrow> is_dir (world x) p)
    \<Longrightarrow> step g R x (x\<lparr>world := s'\<rparr>)"
| enter: "procs x i = Idle \<or> procs x i = Left a \<Longrightarrow> R rq \<Longrightarrow> valid_id bid
    \<Longrightarrow> step g R x (x\<lparr>procs := (procs x)(i := Trying rq bid (new_lock rq bid))\<rparr>)"
| allocate: "turn g (procs x i) (world x) = (q, s')
    \<Longrightarrow> step g R x (x\<lparr>world := s', procs := (procs x)(i := q)\<rparr>)"
| write_block: "procs x i = Ready w \<Longrightarrow> length buf = info_size (w_info w)
    \<Longrightarrow> Writer_Write w buf ud (world x) = Ret ((r, n), s')
    \<Longrightarrow> step g R x (x\<lparr>world := s', procs := (procs x)(i := Done w),
          stored := (if n = length buf \<and> n \<noteq> 0 then insert (w, buf, ud) (stored x) else stored x)\<rparr>)"
| batch_write: "procs x i = Ready w \<Longrightarrow> BatchWrite w buf ud (world x) = Ret ((r, n, Some u), w', s') \<Longrightarrow> fits buf
    \<Longrightarrow> info_offset (w_info w) + 2 ^ 31 < 2 ^ 64
    \<Longrightarrow> step g R x (x\<lparr>world := s', procs := (procs x)(i := Ready w'),
          stored := (if n = length buf \<and> n \<noteq> 0
             then insert (for_block w (info_offset (w_info w)) buf, buf, ud) (stored x) else stored x)\<rparr>)"
| batch_fails: "procs x i = Ready w \<Longrightarrow> BatchWrite w buf ud (world x) = Ret ((r, n, None), w', s')
    \<Longrightarrow> step g R x (x\<lparr>world := s', procs := (procs x)(i := Done w')\<rparr>)"
| release_lock: "procs x i = Ready w \<or> procs x i = Done w \<Longrightarrow> Release w (world x) = (w', s')
    \<Longrightarrow> step g R x (x\<lparr>world := s', procs := (procs x)(i := Idle)\<rparr>)"
| dies: "step g R x (x\<lparr>procs := (procs x)(i := Dead)\<rparr>)"

inductive reachable :: "Setting \<Rightarrow> (request \<Rightarrow> bool) \<Rightarrow> sys \<Rightarrow> sys \<Rightarrow> bool" for g R x0 where
  start: "reachable g R x0 x0"
| next_step: "reachable g R x0 x \<Longrightarrow> step g R x y \<Longrightarrow> reachable g R x0 y"

section \<open>The invariant\<close>

fun held :: "pc \<Rightarrow> int option" where
  "held (Holding rq bid l) = Some bid"
| "held (Absent rq bid l) = Some bid"
| "held (NoParent rq bid l) = Some bid"
| "held (Creating rq bid l) = Some bid"
| "held (Leaving a rq bid l) = (if locked l then Some bid else None)"
| "held (Emptied rq bid l) = Some bid"
| "held (Ready w) = Some (info_id (w_info w))"
| "held (Done w) = Some (info_id (w_info w))"
| "held _ = None"

definition lock_for :: "string \<Rightarrow> int \<Rightarrow> FileLock \<Rightarrow> bool" where
  "lock_for D bid l \<longleftrightarrow> valid_id bid \<and> lockfile l = PathJoin D (show_int bid)"

definition lock_ok :: "string \<Rightarrow> int \<Rightarrow> FileLock \<Rightarrow> bool" where
  "lock_ok D bid l \<longleftrightarrow> valid_id bid \<and> locked l \<and> lockfile l = PathJoin D (show_int bid)"

definition made_for :: "Setting \<Rightarrow> request \<Rightarrow> Writer \<Rightarrow> bool" where
  "made_for g rq w \<longleftrightarrow> w_filename w = bundle_path g (rq_storage rq) (info_prefix (w_info w)) (info_id (w_info w))
     \<and> info_prefix (w_info w) = rq_prefix rq
     \<and> w_builder w = (case rq_builder rq of Some b \<Rightarrow> Some b | None \<Rightarrow> Some (url_build g))"

definition writer_ok :: "Setting \<Rightarrow> (request \<Rightarrow> bool) \<Rightarrow> string \<Rightarrow> Writer \<Rightarrow> bool" where
  "writer_ok g R D w \<longleftrightarrow>
     (\<exists>rq l. R rq \<and> w_filelock w = Some l \<and> lock_ok D (info_id (w_info w)) l \<and> made_for g rq w)"

fun pc_ok :: "Setting \<Rightarrow> (request \<Rightarrow> bool) \<Rightarrow> string \<Rightarrow> pc \<Rightarrow> bool" where
  "pc_ok g R D (Trying rq bid l) \<longleftrightarrow> R rq \<and> lock_for D bid l"
| "pc_ok g R D (LockFailed rq bid l) \<longleftrightarrow> R rq \<and> lock_for D bid l \<and> \<not> locked l"
| "pc_ok g R D (NoLockDir rq bid l) \<longleftrightarrow> R rq \<and> lock_for D bid l \<and> \<not> locked l"
| "pc_ok g R D (Retrying rq bid l) \<longleftrightarrow> R rq \<and> lock_for D bid l"
| "pc_ok g R D (Holding rq bid l) \<longleftrightarrow> R rq \<and> lock_ok D bid l"
| "pc_ok g R D (Absent rq bid l) \<longleftrightarrow> R rq \<and> lock_ok D bid l"
| "pc_ok g R D (NoParent rq bid l) \<longleftrightarrow> R rq \<and> lock_ok D bid l"
| "pc_ok g R D (Creating rq bid l) \<longleftrightarrow> R rq \<and> lock_ok D bid l"
| "pc_ok g R D (Leaving a rq bid l) \<longleftrightarrow> lock_for D bid l"
| "pc_ok g R D (Emptied rq bid l) \<longleftrightarrow> R rq \<and> lock_ok D bid l"
| "pc_ok g R D (Ready w) \<longleftrightarrow> writer_ok g R D w"
| "pc_ok g R D (Done w) \<longleftrightarrow> writer_ok g R D w"
| "pc_ok g R D _ \<longleftrightarrow> True"

text \<open>What a process knows about the bundle file it has locked.\<close>

fun sees_file :: "Setting \<Rightarrow> os \<Rightarrow> pc \<Rightarrow> bool" where
  "sees_file g s (Absent rq bid l) \<longleftrightarrow> \<not> is_file s (bundle_of g rq bid)"
| "sees_file g s (NoParent rq bid l) \<longleftrightarrow> \<not> is_file s (bundle_of g rq bid)"
| "sees_file g s (Creating rq bid l) \<longleftrightarrow> \<not> is_file s (bundle_of g rq bid)"
| "sees_file g s (Emptied rq bid l) \<longleftrightarrow> files s (bundle_of g rq bid) = Some []"
| "sees_file g s (Ready w) \<longleftrightarrow>
     (\<exists>c. files s (resolve (w_filename w)) = Some c \<and> length c \<le> info_offset (w_info w))"
| "sees_file g s _ \<longleftrightarrow> True"

definition own :: "string \<Rightarrow> (nat \<Rightarrow> pc) \<Rightarrow> nat \<Rightarrow> path set" where
  "own D ps i = {resolve (PathJoin D (show_int bid)) | bid. held (ps i) = Some bid}"

definition found :: "Setting \<Rightarrow> (request \<Rightarrow> bool) \<Rightarrow> os \<Rightarrow> Writer \<times> bytes \<times> bytes option \<Rightarrow> bool" where
  "found g R s e \<longleftrightarrow>
     (case e of (w, buf, ud) \<Rightarrow> is_bundle g R (resolve (w_filename w)) \<and> (\<exists>rq. R rq \<and> made_for g rq w)
        \<and> info_size (w_info w) = length buf
        \<and> (\<exists>c d. files s (resolve (w_filename w)) = Some c \<and> user_part ud d
             \<and> block_at c (info_offset (w_info w)) = Some (d, buf)))"

definition sys_inv :: "Setting \<Rightarrow> (request \<Rightarrow> bool) \<Rightarrow> string \<Rightarrow> sys \<Rightarrow> bool" where
  "sys_inv g R D x \<longleftrightarrow> (\<forall>i. pc_ok g R D (procs x i)) \<and> flock.exclusive (own D (procs x)) (world x)
     \<and> (\<forall>i. sees_file g (world x) (procs x i)) \<and> (\<forall>e \<in> stored x. found g R (world x) e)
     \<and> (\<forall>p. is_bundle g R p \<longrightarrow> \<not> is_dir (world x) p \<and> faults (world x) SStat p \<noteq> Some ENOENT)"

text \<open>
  What is assumed of the configuration: one lock directory \<open>D\<close> for all requests, whose files are no bundle files, and no
  bundle file in the place of a directory that \<open>Allocate\<close> makes (the lock directory or the parent of a bundle file).
\<close>

definition parent_of :: "Setting \<Rightarrow> request \<Rightarrow> int \<Rightarrow> string" where
  "parent_of g rq bid = Dirname (bundle_path g (rq_storage rq) (rq_prefix rq) bid)"

definition clear_dir :: "Setting \<Rightarrow> (request \<Rightarrow> bool) \<Rightarrow> string \<Rightarrow> bool" where
  "clear_dir g R d \<longleftrightarrow> length d < PATH_LENGTH_MAX \<and> (\<forall>p. is_bundle g R p \<longrightarrow> \<not> ancestor d p)"

definition config :: "Setting \<Rightarrow> (request \<Rightarrow> bool) \<Rightarrow> string \<Rightarrow> bool" where
  "config g R D \<longleftrightarrow> levels_ok g \<and> lock_dir_ok D \<and> (\<forall>rq. R rq \<longrightarrow> rq_lock_dir rq = D)
     \<and> clear_dir g R D \<and> (\<forall>rq bid. R rq \<longrightarrow> valid_id bid \<longrightarrow> clear_dir g R (parent_of g rq bid))"

section \<open>The turns of one process are \<open>allocate_step\<close>\<close>

definition turns :: "Setting \<Rightarrow> nat \<Rightarrow> pc \<times> os \<Rightarrow> pc \<times> os" where
  "turns g n = (\<lambda>(q, s). turn g q s) ^^ n"

lemma turns_0 [simp]: "turns g 0 x = x"
  by (simp add: turns_def)

lemma turns_Suc [simp]: "turns g (Suc n) (q, s) = turns g n (turn g q s)"
  by (simp only: turns_def funpow_Suc_right o_apply split)

lemma turns_add: "turns g (m + n) x = turns g n (turns g m x)"
  unfolding turns_def by (simp only: funpow_add o_apply add.commute [of m n])

lemma turns_answer: "turns g n (answer a, s) = (answer a, s)"
  by (induction n) (cases a; simp)+

lemma turns_take_lock:
  "\<exists>k \<le> 5. turns g k (Trying rq bid l, s) =
     (case take_lock rq l s of (Inl a, s) \<Rightarrow> (Left a, s) | (Inr l, s) \<Rightarrow> (Holding rq bid l, s))"
proof -
  obtain ok l1 s1 where t1: "TryLock l s = (ok, l1, s1)" by (metis prod_cases3)
  obtain acc s2 where a: "os_access (rq_lock_dir rq) s1 = (acc, s2)" by fastforce
  obtain made s3 where m: "mkdirs (rq_lock_dir rq) s2 = (made, s3)" by fastforce
  obtain ok2 l2 t2 where r1: "TryLock l1 s2 = (ok2, l2, t2)" by (metis prod_cases3)
  obtain ok3 l3 t3 where r2: "TryLock l1 s3 = (ok3, l3, t3)" by (metis prod_cases3)
  consider "ok" | "\<not> ok" "acc \<noteq> -1" "ok2" | "\<not> ok" "acc \<noteq> -1" "\<not> ok2" | "\<not> ok" "acc = -1" "made \<noteq> 0"
    | "\<not> ok" "acc = -1" "made = 0" "ok3" | "\<not> ok" "acc = -1" "made = 0" "\<not> ok3" by blast
  then show ?thesis
  proof cases
    case 1
    then show ?thesis by (intro exI [of _ 1]) (simp add: take_lock_def t1)
  next
    case 2
    then show ?thesis by (intro exI [of _ 3]) (simp add: take_lock_def t1 a r1 numeral_eq_Suc)
  next
    case 3
    then show ?thesis by (intro exI [of _ 4]) (simp add: take_lock_def t1 a r1 numeral_eq_Suc)
  next
    case 4
    then show ?thesis by (intro exI [of _ 4]) (simp add: take_lock_def t1 a m numeral_eq_Suc)
  next
    case 5
    then show ?thesis by (intro exI [of _ 4]) (simp add: take_lock_def t1 a m r2 numeral_eq_Suc)
  next
    case 6
    then show ?thesis by (intro exI [of _ 5]) (simp add: take_lock_def t1 a m r2 numeral_eq_Suc)
  qed
qed

lemma turns_create:
  "\<exists>k \<le> 3. turns g k (Creating rq bid l, s) =
     (case CreateBundle (bundle_path g (rq_storage rq) (rq_prefix rq) bid) (rq_now rq) s of
        (False, s) \<Rightarrow> (Left Null, FileLock_delete l s) | (True, s) \<Rightarrow> (Ready (new_writer g rq bid l kBundleHeaderSize), s))"
proof -
  obtain fd s1 where o: "os_open_trunc (bundle_path g (rq_storage rq) (rq_prefix rq) bid) s = (fd, s1)" by fastforce
  obtain ret s2 where w: "os_write (bundle_of g rq bid) 0 (bundle_header (rq_now rq)) s1 = (ret, s2)" by fastforce
  consider "fd = None" | p where "fd = Some p" "ret \<noteq> int kBundleHeaderSize" | p where "fd = Some p" "ret = int kBundleHeaderSize"
    by (cases fd) auto
  then show ?thesis
  proof cases
    case 1
    then show ?thesis by (intro exI [of _ 2]) (simp add: CreateBundle_def o numeral_eq_Suc)
  next
    case (2 p)
    then have "p = bundle_of g rq bid" using o by (simp add: os_open_trunc_Some bundle_of_def)
    then show ?thesis using 2 by (intro exI [of _ 3]) (simp add: CreateBundle_def o w numeral_eq_Suc)
  next
    case (3 p)
    then have "p = bundle_of g rq bid" using o by (simp add: os_open_trunc_Some bundle_of_def)
    then show ?thesis using 3 by (intro exI [of _ 2]) (simp add: CreateBundle_def o w numeral_eq_Suc)
  qed
qed

lemma turns_bundle_attempt:
  "\<exists>k \<le> 6. turns g k (Holding rq bid l, s) = (case bundle_attempt g rq bid l s of (a, s) \<Rightarrow> (answer a, s))"
proof -
  let ?f = "bundle_path g (rq_storage rq) (rq_prefix rq) bid"
  obtain st s1 where t: "os_lstat ?f s = (st, s1)" by fastforce
  obtain acc s2 where a: "os_access (Dirname ?f) s1 = (acc, s2)" by fastforce
  obtain made s3 where m: "mkdirs (Dirname ?f) s2 = (made, s3)" by fastforce
  have create: "\<exists>k \<le> 3. turns g k (Creating rq bid l, s') = (case CreateBundle ?f (rq_now rq) s' of
      (False, s) \<Rightarrow> (Left Null, FileLock_delete l s) | (True, s) \<Rightarrow> (Ready (new_writer g rq bid l kBundleHeaderSize), s))" for s'
    by (rule turns_create)
  consider n where "st = Some n" "szadd n (need rq) > max_bundle_size g" | n where "st = Some n" "\<not> szadd n (need rq) > max_bundle_size g"
    | "st = None" "errno s1 \<noteq> ENOENT" | "st = None" "errno s1 = ENOENT" "acc \<noteq> -1"
    | "st = None" "errno s1 = ENOENT" "acc = -1" "made \<noteq> 0" | "st = None" "errno s1 = ENOENT" "acc = -1" "made = 0"
    by (cases st) auto
  then show ?thesis
  proof cases
    case 1
    then show ?thesis by (intro exI [of _ 2]) (simp add: bundle_attempt_eq t numeral_eq_Suc)
  next
    case 2
    then show ?thesis by (intro exI [of _ 1]) (simp add: bundle_attempt_eq t)
  next
    case 3
    then show ?thesis by (intro exI [of _ 1]) (simp add: bundle_attempt_eq t)
  next
    case 4
    obtain k where "k \<le> 3" "turns g k (Creating rq bid l, s2) = (case CreateBundle ?f (rq_now rq) s2 of
      (False, s) \<Rightarrow> (Left Null, FileLock_delete l s) | (True, s) \<Rightarrow> (Ready (new_writer g rq bid l kBundleHeaderSize), s))"
      using create by blast
    then show ?thesis using 4
      by (intro exI [of _ "Suc (Suc k)"]) (simp add: bundle_attempt_eq ensure_dir_def t a split: prod.split bool.split)
  next
    case 5
    then show ?thesis by (intro exI [of _ 4]) (simp add: bundle_attempt_eq ensure_dir_def t a m numeral_eq_Suc)
  next
    case 6
    obtain k where "k \<le> 3" "turns g k (Creating rq bid l, s3) = (case CreateBundle ?f (rq_now rq) s3 of
      (False, s) \<Rightarrow> (Left Null, FileLock_delete l s) | (True, s) \<Rightarrow> (Ready (new_writer g rq bid l kBundleHeaderSize), s))"
      using create by blast
    then show ?thesis using 6
      by (intro exI [of _ "Suc (Suc (Suc k))"]) (simp add: bundle_attempt_eq ensure_dir_def t a m split: prod.split bool.split)
  qed
qed

text \<open>A process that is not interrupted runs one round of the loop, as \<open>allocate_step\<close> says, in at most eleven turns.\<close>

lemma turns_alone:
  "turns g 11 (Trying rq bid (new_lock rq bid), s) = (case allocate_step g rq bid s of (a, s) \<Rightarrow> (answer a, s))"
proof -
  let ?l = "new_lock rq bid"
  obtain r s1 where t: "take_lock rq ?l s = (r, s1)" by fastforce
  have "\<exists>k \<le> 11. turns g k (Trying rq bid ?l, s) = (case allocate_step g rq bid s of (a, s) \<Rightarrow> (answer a, s))"
  proof (cases r)
    case (Inl a)
    have na: "a \<noteq> Got w" for w
      using take_lock_Inl [of rq _ 10000 500 s a s1 w] t Inl by (simp add: new_lock_def)
    obtain k where "k \<le> 5" "turns g k (Trying rq bid ?l, s) = (Left a, s1)"
      using turns_take_lock [of g rq bid ?l s] by (auto simp: t Inl)
    then show ?thesis
      using t Inl na by (intro exI [of _ k]) (cases a, auto simp: allocate_step_def new_lock_def)
  next
    case (Inr l)
    obtain k where k: "k \<le> 5" "turns g k (Trying rq bid ?l, s) = (Holding rq bid l, s1)"
      using turns_take_lock [of g rq bid ?l s] by (auto simp: t Inr)
    obtain m where m: "m \<le> 6" "turns g m (Holding rq bid l, s1) = (case bundle_attempt g rq bid l s1 of (a, s) \<Rightarrow> (answer a, s))"
      using turns_bundle_attempt by blast
    have "turns g (k + m) (Trying rq bid ?l, s) = (case bundle_attempt g rq bid l s1 of (a, s) \<Rightarrow> (answer a, s))"
      by (simp only: turns_add k(2) m(2))
    then show ?thesis
      using k(1) m(1) t Inr by (intro exI [of _ "k + m"]) (simp add: allocate_step_def new_lock_def)
  qed
  then obtain k a s' where k: "k \<le> 11" "turns g k (Trying rq bid ?l, s) = (answer a, s')" "allocate_step g rq bid s = (a, s')"
    by (auto split: prod.splits)
  have "turns g (k + (11 - k)) (Trying rq bid ?l, s) = (answer a, s')" by (simp only: turns_add k(2) turns_answer)
  then show ?thesis using k(1,3) by simp
qed

section \<open>Paths\<close>

lemma resolve_lock_name: "resolve (PathJoin D (show_int bid)) = (IsAbspath D, components D @ [show_int bid])"
  using resolve_lock_path [of "undefined\<lparr>rq_lock_dir := D\<rparr>" bid] by (simp add: lock_path_def)

lemma lock_name_inject: "resolve (PathJoin D (show_int a)) = resolve (PathJoin D (show_int b)) \<longleftrightarrow> a = b"
  by (simp add: resolve_lock_name show_int_inject)

lemma bundle_no_lock:
  assumes "config g R D" "is_bundle g R p"
  shows "p \<noteq> resolve (PathJoin D (show_int b))"
proof -
  obtain rq bid where rq: "R rq" "p = bundle_of g rq bid" using assms(2) by (auto simp: is_bundle_def)
  have "\<not> is_lock rq (resolve (bundle_path g (rq_storage rq) (rq_prefix rq) bid))"
    using assms(1) rq(1) by (intro bundle_not_lock) (auto simp: config_def)
  then show ?thesis using assms(1) rq by (auto simp: is_lock_def bundle_of_def lock_path_def config_def)
qed

lemma bundle_id:
  assumes "config g R D" "valid_id a" "valid_id b" "bundle_of g rq a = bundle_of g rq' b"
  shows "a = b"
  using assms unfolding bundle_of_def config_def valid_id_def by (intro bundle_path_bid) auto

lemma is_bundleI: "R rq \<Longrightarrow> valid_id bid \<Longrightarrow> is_bundle g R (bundle_of g rq bid)"
  by (auto simp: is_bundle_def)

lemma writer_bundle:
  assumes "writer_ok g R D w"
  obtains rq where "R rq" "valid_id (info_id (w_info w))" "resolve (w_filename w) = bundle_of g rq (info_id (w_info w))"
    "made_for g rq w"
  using assms by (auto simp: writer_ok_def lock_ok_def bundle_of_def made_for_def)

section \<open>What one process does does not disturb the others\<close>

definition same_bundles :: "Setting \<Rightarrow> (request \<Rightarrow> bool) \<Rightarrow> path set \<Rightarrow> os \<Rightarrow> os \<Rightarrow> bool" where
  "same_bundles g R A s s' \<longleftrightarrow> (\<forall>q. is_bundle g R q \<and> q \<notin> A \<longrightarrow> files s' q = files s q)"

definition appended_at :: "path set \<Rightarrow> os \<Rightarrow> os \<Rightarrow> bool" where
  "appended_at A s s' \<longleftrightarrow> (\<forall>p \<in> A. \<forall>c. files s p = Some c \<longrightarrow> (\<exists>x. files s' p = Some (c @ x)))"

lemma sees_other:
  assumes "sees_file g s q" "pc_ok g R D q" "same_bundles g R A s s'" "config g R D"
    and "\<And>p. p \<in> A \<Longrightarrow> \<exists>rq b. valid_id b \<and> p = bundle_of g rq b \<and> held q \<noteq> Some b"
  shows "sees_file g s' q"
proof -
  have same: "files s' (bundle_of g rq b) = files s (bundle_of g rq b)"
    if "R rq" "valid_id b" "held q = Some b" for rq b
  proof -
    have "bundle_of g rq b \<notin> A"
    proof
      assume "bundle_of g rq b \<in> A"
      then obtain rq' b' where "valid_id b'" "bundle_of g rq b = bundle_of g rq' b'" "held q \<noteq> Some b'"
        using assms(5) by blast
      then show False using bundle_id [OF assms(4) that(2), of b' rq rq'] that by auto
    qed
    then show ?thesis using assms(3) is_bundleI [of R rq b g] that unfolding same_bundles_def by blast
  qed
  show ?thesis
  proof (cases q)
    case (Absent rq bid l)
    then show ?thesis using assms(1,2) same [of rq bid] by (simp add: is_file_def lock_ok_def)
  next
    case (NoParent rq bid l)
    then show ?thesis using assms(1,2) same [of rq bid] by (simp add: is_file_def lock_ok_def)
  next
    case (Creating rq bid l)
    then show ?thesis using assms(1,2) same [of rq bid] by (simp add: is_file_def lock_ok_def)
  next
    case (Emptied rq bid l)
    then show ?thesis using assms(1,2) same [of rq bid] by (simp add: lock_ok_def)
  next
    case (Ready w)
    then show ?thesis
      using assms(1,2) same by (auto elim!: writer_bundle)
  qed simp_all
qed

lemma found_later:
  assumes "found g R s e" "same_bundles g R A s s'" "appended_at A s s'"
  shows "found g R s' e"
proof -
  obtain w buf ud where e: "e = (w, buf, ud)" by (cases e)
  let ?p = "resolve (w_filename w)"
  obtain c d where c: "files s ?p = Some c" "user_part ud d" "block_at c (info_offset (w_info w)) = Some (d, buf)"
    and b: "is_bundle g R ?p" "info_size (w_info w) = length buf" "\<exists>rq. R rq \<and> made_for g rq w"
    using assms(1) by (auto simp: found_def e)
  have "\<exists>x. files s' ?p = Some (c @ x)"
  proof (cases "?p \<in> A")
    case True
    then show ?thesis using assms(3) c(1) by (auto simp: appended_at_def)
  next
    case False
    then have "files s' ?p = files s ?p" using assms(2) b(1) unfolding same_bundles_def by blast
    then show ?thesis using c(1) by (intro exI [of _ "[]"]) simp
  qed
  then show ?thesis using c b block_at_append [OF c(3)] by (auto simp: found_def e)
qed

lemma inv_step:
  assumes inv: "sys_inv g R D x" and conf: "config g R D"
    and q: "pc_ok g R D q" "sees_file g s' q" "flock.exclusive (own D ((procs x)(i := q))) s'"
    and frame: "same_bundles g R A s s'" "appended_at A s s'" "s = world x"
    and A: "\<And>p j. p \<in> A \<Longrightarrow> j \<noteq> i \<Longrightarrow> \<exists>rq b. valid_id b \<and> p = bundle_of g rq b \<and> held (procs x j) \<noteq> Some b"
    and dirs: "\<And>p. is_bundle g R p \<Longrightarrow> is_dir s' p \<Longrightarrow> is_dir s p" "faults s' = faults s"
    and log: "\<And>e. e \<in> L \<Longrightarrow> e \<in> stored x \<or> found g R s' e"
  shows "sys_inv g R D (x\<lparr>world := s', procs := (procs x)(i := q), stored := L\<rparr>)"
proof -
  note I = inv [unfolded sys_inv_def, folded frame(3)]
  have "sees_file g s' (procs x j)" if "j \<noteq> i" for j
    using I A that by (intro sees_other [OF _ _ frame(1) conf]) auto
  moreover have "found g R s' e" if "e \<in> L" for e
    using I log [OF that] found_later [OF _ frame(1,2), of e] by blast
  ultimately show ?thesis
    using I q dirs unfolding sys_inv_def by auto
qed

section \<open>Ownership\<close>

lemma exclusive_keep:
  "flock.exclusive o' s \<Longrightarrow> (\<And>k. is_file s k \<Longrightarrow> is_file s' k) \<Longrightarrow> flock.exclusive o' s'"
  unfolding flock.exclusive_def by blast

lemma exclusive_less:
  "flock.exclusive o1 s \<Longrightarrow> (\<And>i. o2 i \<subseteq> o1 i) \<Longrightarrow> flock.exclusive o2 s"
  unfolding flock.exclusive_def by blast

lemma own_upd: "own D (ps(i := q)) = (own D ps)(i := {resolve (PathJoin D (show_int bid)) | bid. held q = Some bid})"
  by (auto simp: own_def fun_eq_iff)

lemma own_same: "held q = held (ps i) \<Longrightarrow> own D (ps(i := q)) = own D ps"
  by (auto simp: own_def fun_eq_iff)

lemma own_less: "held q = None \<Longrightarrow> own D (ps(i := q)) j \<subseteq> own D ps j"
  by (auto simp: own_def)

lemma own_held: "held (ps i) = Some b \<Longrightarrow> own D ps i = {resolve (PathJoin D (show_int b))}"
  by (auto simp: own_def)

lemma held_unique:
  assumes "flock.exclusive (own D ps) s" "held (ps i) = Some b" "held (ps j) = Some b"
  shows "i = j"
  using assms own_held [of ps i b D] own_held [of ps j b D] unfolding flock.exclusive_def by blast

lemma exclusive_unlock:
  assumes "flock.exclusive (own D ps) s" "held (ps i) = Some b" "lock_ok D b l" "held q = None"
  shows "flock.exclusive (own D (ps(i := q))) (FileLock_delete l s)"
proof -
  let ?k = "PathJoin D (show_int b)"
  obtain ok s' where u: "unlock_file ?k s = (ok, s')" by fastforce
  have "flock.exclusive ((own D ps)(i := own D ps i - {resolve ?k})) s'"
    using assms(1) u own_held [of ps i b D, OF assms(2)] by (intro flock.exclusive_release) auto
  moreover have "(own D ps)(i := own D ps i - {resolve ?k}) = own D (ps(i := q))"
    using own_held [of ps i b D, OF assms(2)] assms(4) by (auto simp: own_upd fun_eq_iff)
  moreover have "FileLock_delete l s = s'"
    using assms(3) u by (simp add: FileLock_delete_def Unlock_def lock_ok_def)
  ultimately show ?thesis by simp
qed

section \<open>Writing past the end\<close>

lemma overlay_past: "length c \<le> off \<Longrightarrow> overlay c off b = (c @ replicate (off - length c) NUL) @ b"
  by (simp add: overlay_def)

lemma os_write_past:
  assumes "os_write p off b s = (r, s')" "files s p = Some c" "length c \<le> off"
  shows "\<exists>x. files s' = (files s)(p := Some (c @ x)) \<and> dirs s' = dirs s \<and> faults s' = faults s
    \<and> length (c @ x) \<le> off + length b \<and> (r = int (length b) \<longrightarrow> c @ x = (c @ replicate (off - length c) NUL) @ b)"
proof (cases "faults s SWrite p")
  case None
  let ?n = "case room s p of None \<Rightarrow> length b | Some k \<Rightarrow> min k (length b)"
  have w: "r = int ?n" "s' = put_file p (overlay c off (take ?n b)) s"
    using assms(1,2) None by (simp_all add: os_write_def Let_def)
  have "c @ replicate (off - length c) NUL @ take ?n b = (c @ replicate (off - length c) NUL) @ b"
    if "r = int (length b)"
    using that w(1) by simp
  then show ?thesis
    using w(2) by (intro exI [of _ "replicate (off - length c) NUL @ take ?n b"])
      (use assms(3) in \<open>simp add: overlay_past [OF assms(3)] split: option.splits\<close>)
next
  case (Some e)
  then have s': "r = -1" "s' = set_errno e s" using assms(1) by (simp_all add: os_write_def)
  then show ?thesis using assms(2,3) by (intro exI [of _ "[]"]) (simp add: fun_upd_idem)
qed

lemma Writer_Write_at_past:
  assumes run: "Writer_Write_at name off u buf ud s = Ret ((r, n), s')"
    and c: "files s (resolve name) = Some c" "length c \<le> off"
  shows "\<exists>x. files s' = (files s)(resolve name := Some (c @ x)) \<and> dirs s' = dirs s \<and> faults s' = faults s
    \<and> length (c @ x) \<le> off + nat (wrap32 (int (Align1K (szadd kFileHeaderSize (length buf)))))
    \<and> (n = length buf \<and> n \<noteq> 0 \<longrightarrow> (\<exists>d. user_part ud d \<and> block_at (c @ x) off = Some (d, buf)))"
proof -
  obtain fd s1 where op: "os_open name s = (fd, s1)" by fastforce
  note same = os_open_same [OF op]
  show ?thesis
  proof (cases fd)
    case None
    then have "n = 0" "s' = s1" using run op by (simp_all add: Writer_Write_at_def)
    then show ?thesis using same c by (intro exI [of _ "[]"]) (simp add: fun_upd_idem)
  next
    case (Some p)
    have p: "p = resolve name" "s1 = s" using op by (auto simp: Some os_open_Some)
    let ?pos = "wrap64 (int off)"
    let ?tot = "wrap32 (int (Align1K (szadd kFileHeaderSize (length buf))))"
    let ?blk = "block_buffer s (nat ?tot) u buf ud"
    show ?thesis
    proof (cases "?pos < 0 \<or> wrap32 ?pos = -1")
      case True
      then have "n = 0 \<and> files s' = files s \<and> dirs s' = dirs s \<and> faults s' = faults s"
        using run op Some p by (auto simp: Writer_Write_at_def Let_def split: if_splits)
      then show ?thesis using c by (intro exI [of _ "[]"]) (simp add: fun_upd_idem)
    next
      case False
      then have ok: "\<not> ?pos < 0" "wrap32 ?pos \<noteq> -1" by auto
      have tot: "0 \<le> ?tot" "kFileHeaderSize + length buf \<le> nat ?tot"
        using run op Some p ok by (auto simp: Writer_Write_at_def Let_def split: if_splits)
      obtain k s2 where w: "os_write (resolve name) off ?blk s = (k, s2)" by fastforce
      have res: "s' = s2" "n = (if k < 0 \<or> k \<noteq> ?tot then 0 else length buf)"
        using run op Some p ok tot w by (auto simp: Writer_Write_at_def Let_def split: if_splits)
      obtain x where x: "files s2 = (files s)(resolve name := Some (c @ x))" "dirs s2 = dirs s" "faults s2 = faults s"
          "length (c @ x) \<le> off + length ?blk" "k = int (length ?blk) \<Longrightarrow> c @ x = (c @ replicate (off - length c) NUL) @ ?blk"
        using os_write_past [OF w c] by blast
      have len: "length ?blk = nat ?tot" "length buf < 2 ^ 32"
        using tot(2) wrap32_bounds(2) [of "int (Align1K (szadd kFileHeaderSize (length buf)))"]
        by (auto intro: length_block_buffer simp: bundle_consts)
      have "\<exists>d. user_part ud d \<and> block_at (c @ x) off = Some (d, buf)" if "n = length buf" "n \<noteq> 0"
      proof -
        have "k = int (length ?blk)" using that res(2) len(1) tot(1) by (auto split: if_splits)
        moreover have "length (c @ replicate (off - length c) NUL) = off" using c(2) by simp
        ultimately show ?thesis
          using block_buffer_tot [OF tot(2) len(2), of ud "c @ replicate (off - length c) NUL" s u "[]"] x(5) by simp
      qed
      then show ?thesis using x(1-4) res(1) len(1) by (intro exI [of _ x]) auto
    qed
  qed
qed

section \<open>The invariant is kept\<close>

lemma same_bundles_kept:
  assumes "kept (\<lambda>p. p = resolve (PathJoin D (show_int b))) s s'" "config g R D"
  shows "same_bundles g R {} s s'"
  unfolding same_bundles_def using keptD(1) [OF assms(1)] bundle_no_lock [OF assms(2)] by blast

lemma same_bundles_files: "files s' = files s \<Longrightarrow> same_bundles g R {} s s'"
  by (simp add: same_bundles_def)

lemma appended_none [simp]: "appended_at {} s s'"
  by (simp add: appended_at_def)

lemma lstat_world:
  assumes "os_lstat n s = (r, s')"
  shows "files s' = files s" "is_dir s' = is_dir s" "faults s' = faults s" "is_file s' = is_file s"
  using os_lstat_same [OF assms] by auto

text \<open>A step that leaves the bundles alone and ends in a state without obligations on files.\<close>

lemma inv_unlock:
  assumes inv: "sys_inv g R D x" and conf: "config g R D" and h: "held (procs x i) = Some b" "lock_ok D b l"
    and s: "files s = files (world x)" "is_dir s = is_dir (world x)" "faults s = faults (world x)"
    and q: "pc_ok g R D q" "sees_file g (FileLock_delete l s) q" "held q = None"
  shows "sys_inv g R D (x\<lparr>world := FileLock_delete l s, procs := (procs x)(i := q)\<rparr>)"
proof -
  have k: "kept (\<lambda>p. p = resolve (PathJoin D (show_int b))) s (FileLock_delete l s)"
    using kept_FileLock_delete [of l s] h(2) by (simp add: lock_ok_def)
  have "flock.exclusive (own D (procs x)) s"
    using inv s(1) by (auto simp: sys_inv_def is_file_def intro: exclusive_keep)
  then have ex: "flock.exclusive (own D ((procs x)(i := q))) (FileLock_delete l s)"
    by (rule exclusive_unlock [where ps = "procs x", OF _ h q(3)])
  have sb: "same_bundles g R {} (world x) (FileLock_delete l s)"
    using same_bundles_kept [OF k conf] s(1) by (simp add: same_bundles_def)
  have d: "is_dir (FileLock_delete l s) = is_dir (world x)"
    unfolding s(2) [symmetric] by (simp add: is_dir_def fun_eq_iff)
  have "sys_inv g R D (x\<lparr>world := FileLock_delete l s, procs := (procs x)(i := q), stored := stored x\<rparr>)"
    by (rule inv_step [OF inv conf q(1,2) ex sb]) (use keptD(3) [OF k] s(3) d in simp_all)
  then show ?thesis by simp
qed

lemma inv_pc:
  assumes inv: "sys_inv g R D x" and conf: "config g R D"
    and s: "files s = files (world x)" "\<And>p. is_bundle g R p \<Longrightarrow> is_dir s p \<Longrightarrow> is_dir (world x) p" "faults s = faults (world x)"
    and q: "pc_ok g R D q" "sees_file g s q" "held q = held (procs x i) \<or> held q = None"
  shows "sys_inv g R D (x\<lparr>world := s, procs := (procs x)(i := q)\<rparr>)"
proof -
  have "flock.exclusive (own D (procs x)) s"
    using inv s(1) by (auto simp: sys_inv_def is_file_def intro: exclusive_keep)
  then have ex: "flock.exclusive (own D ((procs x)(i := q))) s"
    using q(3) own_same [of q "procs x" i D] own_less [of q D "procs x" i]
    by (cases "held q = None") (auto intro: exclusive_less)
  have "sys_inv g R D (x\<lparr>world := s, procs := (procs x)(i := q), stored := stored x\<rparr>)"
    by (rule inv_step [OF inv conf q(1,2) ex same_bundles_files [OF s(1)]]) (use s in simp_all)
  then show ?thesis by simp
qed

text \<open>A lock that is taken, and one that is not.\<close>

lemma inv_lock:
  assumes inv: "sys_inv g R D x" and conf: "config g R D" and free: "held (procs x i) = None"
    and rq: "R rq" "lock_for D bid l0" and t: "TryLock l0 (world x) = (True, l, s')"
  shows "sys_inv g R D (x\<lparr>world := s', procs := (procs x)(i := Holding rq bid l)\<rparr>)"
proof -
  let ?k = "PathJoin D (show_int bid)"
  have l: "lock_file ?k (world x) = (True, s')" "lock_ok D bid l"
    using TryLock_D [OF t] rq(2) by (auto simp: lock_ok_def lock_for_def)
  have ex0: "flock.exclusive (own D (procs x)) (world x)" using inv by (simp add: sys_inv_def)
  have "flock.exclusive ((own D (procs x))(i := insert (resolve ?k) (own D (procs x) i))) s'"
    by (rule flock.exclusive_acquire [OF ex0 l(1)])
  moreover have "own D (procs x) i = {}" using free by (simp add: own_def)
  ultimately have ex: "flock.exclusive (own D ((procs x)(i := Holding rq bid l))) s'" by (simp add: own_upd)
  have k: "kept (\<lambda>p. p = resolve ?k) (world x) s'" by (rule kept_lock_file [OF l(1)])
  have d: "is_dir s' = is_dir (world x)" using dirs_lock_file [OF l(1)] by (simp add: is_dir_def fun_eq_iff)
  have "sys_inv g R D (x\<lparr>world := s', procs := (procs x)(i := Holding rq bid l), stored := stored x\<rparr>)"
    by (rule inv_step [OF inv conf _ _ ex same_bundles_kept [OF k conf]]) (use keptD(3) [OF k] d rq l(2) in simp_all)
  then show ?thesis by simp
qed

lemma inv_no_lock:
  assumes inv: "sys_inv g R D x" and conf: "config g R D" and t: "TryLock l0 (world x) = (False, l, s')"
    and q: "pc_ok g R D q" "\<And>s. sees_file g s q" "held q = None"
  shows "sys_inv g R D (x\<lparr>world := s', procs := (procs x)(i := q)\<rparr>)"
proof -
  obtain e where "s' = set_errno e (world x)" using TryLock_D [OF t] lock_file_False by blast
  then show ?thesis by (intro inv_pc [OF inv conf _ _ _ q(1,2)]) (simp_all add: q(3) is_dir_def)
qed

text \<open>A directory that \<open>Allocate\<close> makes.\<close>

lemma inv_mkdirs:
  assumes inv: "sys_inv g R D x" and conf: "config g R D" and m: "mkdirs d (world x) = (made, s')" and d: "clear_dir g R d"
    and q: "pc_ok g R D q" "sees_file g (world x) q \<Longrightarrow> sees_file g s' q" "sees_file g (world x) q"
      "held q = held (procs x i) \<or> held q = None"
  shows "sys_inv g R D (x\<lparr>world := s', procs := (procs x)(i := q)\<rparr>)"
proof -
  have gr: "files s' = files (world x)" "faults s' = faults (world x)" using mkdirs_grew [OF m] by (auto simp: grew_dirs_def)
  have len: "length d < PATH_LENGTH_MAX" using d by (simp add: clear_dir_def)
  have "is_dir (world x) p" if "is_bundle g R p" "is_dir s' p" for p
    using mkdirs_only [OF m len, of p] that d unfolding clear_dir_def ancestor_def by blast
  then show ?thesis using gr q by (intro inv_pc [OF inv conf]) auto
qed

lemma inv_access:
  assumes inv: "sys_inv g R D x" and conf: "config g R D" and a: "os_access n (world x) = (acc, s')"
    and q: "pc_ok g R D q" "sees_file g s' q" "held q = held (procs x i) \<or> held q = None"
  shows "sys_inv g R D (x\<lparr>world := s', procs := (procs x)(i := q)\<rparr>)"
  by (rule inv_pc [OF inv conf _ _ _ q]) (use os_access_same [OF a] in \<open>auto simp: is_dir_def\<close>)

text \<open>A step of the holder of a bundle's lock that writes to this bundle.\<close>

lemma inv_own_bundle:
  assumes inv: "sys_inv g R D x" and conf: "config g R D" and h: "held (procs x i) = Some b"
    and rq: "R rq" "valid_id b" "p = bundle_of g rq b"
    and f: "\<And>q. q \<noteq> p \<Longrightarrow> files s' q = files (world x) q" "is_file s' p"
      "\<And>c. files (world x) p = Some c \<Longrightarrow> \<exists>y. files s' p = Some (c @ y)"
    and w: "is_dir s' = is_dir (world x)" "faults s' = faults (world x)"
    and q: "pc_ok g R D q" "sees_file g s' q" "held q = Some b"
    and log: "\<And>e. e \<in> L \<Longrightarrow> e \<in> stored x \<or> found g R s' e"
  shows "sys_inv g R D (x\<lparr>world := s', procs := (procs x)(i := q), stored := L\<rparr>)"
proof -
  have ex0: "flock.exclusive (own D (procs x)) (world x)" using inv by (simp add: sys_inv_def)
  have "is_file s' k" if "is_file (world x) k" for k using that f by (cases "k = p") (auto simp: is_file_def)
  then have ex: "flock.exclusive (own D ((procs x)(i := q))) s'"
    using exclusive_keep [OF ex0] own_same [of q "procs x" i D] h q(3) by simp
  have sb: "same_bundles g R {p} (world x) s'" using f(1) unfolding same_bundles_def by blast
  have ap: "appended_at {p} (world x) s'" using f(3) by (simp add: appended_at_def)
  show ?thesis
  proof (rule inv_step [OF inv conf q(1,2) ex sb ap refl _ _ w(2) log])
    fix p' j assume "p' \<in> {p}" "j \<noteq> i"
    then show "\<exists>rq b. valid_id b \<and> p' = bundle_of g rq b \<and> held (procs x j) \<noteq> Some b"
      using rq held_unique [OF ex0, of i b j] h by auto
  qed (use w in simp)
qed

lemma inv_create:
  assumes inv: "sys_inv g R D x" and conf: "config g R D" and pc: "procs x i = Creating rq bid l"
    and op: "os_open_trunc (bundle_path g (rq_storage rq) (rq_prefix rq) bid) (world x) = (Some fd, s')"
  shows "sys_inv g R D (x\<lparr>world := s', procs := (procs x)(i := Emptied rq bid l)\<rparr>)"
proof -
  let ?p = "bundle_of g rq bid"
  have o: "s' = put_file ?p [] (world x)" using op by (simp add: os_open_trunc_Some bundle_of_def)
  have q: "pc_ok g R D (procs x i)" "sees_file g (world x) (procs x i)" using inv by (auto simp: sys_inv_def)
  then have "sys_inv g R D (x\<lparr>world := s', procs := (procs x)(i := Emptied rq bid l), stored := stored x\<rparr>)"
    by (intro inv_own_bundle [OF inv conf, of i bid rq ?p]) (auto simp: pc o lock_ok_def is_file_def)
  then show ?thesis by simp
qed

lemma inv_header:
  assumes inv: "sys_inv g R D x" and conf: "config g R D" and pc: "procs x i = Emptied rq bid l"
    and wr: "os_write (bundle_of g rq bid) 0 (bundle_header (rq_now rq)) (world x) = (r, s')"
  shows "r = int kBundleHeaderSize \<Longrightarrow>
      sys_inv g R D (x\<lparr>world := s', procs := (procs x)(i := Ready (new_writer g rq bid l kBundleHeaderSize))\<rparr>)"
    and "sys_inv g R D (x\<lparr>world := s', procs := (procs x)(i := Leaving a rq bid l)\<rparr>)"
proof -
  let ?p = "bundle_of g rq bid"
  have q: "R rq" "lock_ok D bid l" "files (world x) ?p = Some []"
    using inv pc by (auto simp: sys_inv_def dest!: spec [of _ i])
  obtain y where y: "files s' = (files (world x))(?p := Some y)" "dirs s' = dirs (world x)" "faults s' = faults (world x)"
      "r = int (length (bundle_header (rq_now rq))) \<Longrightarrow> y = bundle_header (rq_now rq)"
    using os_write_past [OF wr q(3)] by auto
  have d: "is_dir s' = is_dir (world x)" using y(2) by (simp add: is_dir_def fun_eq_iff)
  note own = inv_own_bundle [OF inv conf, of i bid rq ?p s']
  { assume "r = int kBundleHeaderSize"
    then have "files s' ?p = Some (bundle_header (rq_now rq))" using y by (simp add: length_bundle_header)
    then have "sys_inv g R D (x\<lparr>world := s', procs := (procs x)(i := Ready (new_writer g rq bid l kBundleHeaderSize)),
        stored := stored x\<rparr>)"
      using q y d pc
      by (intro own) (auto simp: lock_ok_def is_file_def writer_ok_def made_for_def new_writer_def bundle_of_def length_bundle_header)
    then show "sys_inv g R D (x\<lparr>world := s', procs := (procs x)(i := Ready (new_writer g rq bid l kBundleHeaderSize))\<rparr>)"
      by simp }
  have "sys_inv g R D (x\<lparr>world := s', procs := (procs x)(i := Leaving a rq bid l), stored := stored x\<rparr>)"
    using q y d pc by (intro own) (auto simp: lock_ok_def lock_for_def is_file_def)
  then show "sys_inv g R D (x\<lparr>world := s', procs := (procs x)(i := Leaving a rq bid l)\<rparr>)" by simp
qed

lemma inv_block:
  assumes inv: "sys_inv g R D x" and conf: "config g R D" and pc: "procs x i = Ready w"
    and run: "Writer_Write_at (w_filename w) (info_offset (w_info w)) u buf ud (world x) = Ret ((r, n), s')"
    and q: "pc_ok g R D q" "held q = held (Ready w)" "\<And>c. files s' (resolve (w_filename w)) = Some c
        \<Longrightarrow> length c \<le> info_offset (w_info w) + nat (wrap32 (int (Align1K (szadd kFileHeaderSize (length buf)))))
        \<Longrightarrow> sees_file g s' q"
    and e: "w_filename e = w_filename w" "info_offset (w_info e) = info_offset (w_info w)"
      "info_size (w_info e) = length buf" "\<And>rq. made_for g rq w \<Longrightarrow> made_for g rq e"
  shows "sys_inv g R D (x\<lparr>world := s', procs := (procs x)(i := q),
    stored := (if n = length buf \<and> n \<noteq> 0 then insert (e, buf, ud) (stored x) else stored x)\<rparr>)"
proof -
  have w: "writer_ok g R D w" "sees_file g (world x) (Ready w)"
    using inv pc by (auto simp: sys_inv_def dest!: spec [of _ i])
  obtain rq where rq: "R rq" "valid_id (info_id (w_info w))" "resolve (w_filename w) = bundle_of g rq (info_id (w_info w))"
      "made_for g rq w"
    using w(1) by (rule writer_bundle)
  obtain c where c: "files (world x) (resolve (w_filename w)) = Some c" "length c \<le> info_offset (w_info w)"
    using w(2) by auto
  obtain y where y: "files s' = (files (world x))(resolve (w_filename w) := Some (c @ y))" "dirs s' = dirs (world x)"
      "faults s' = faults (world x)"
      "length (c @ y) \<le> info_offset (w_info w) + nat (wrap32 (int (Align1K (szadd kFileHeaderSize (length buf)))))"
      "n = length buf \<Longrightarrow> n \<noteq> 0 \<Longrightarrow> \<exists>d. user_part ud d \<and> block_at (c @ y) (info_offset (w_info w)) = Some (d, buf)"
    using Writer_Write_at_past [OF run c] by blast
  have "found g R s' (e, buf, ud)" if "n = length buf" "n \<noteq> 0"
    using y(1,5) that e rq is_bundleI [of R rq "info_id (w_info w)" g] by (auto simp: found_def)
  moreover have "is_dir s' = is_dir (world x)" using y(2) by (simp add: is_dir_def fun_eq_iff)
  moreover have "sees_file g s' q" using q(3) y(1,4) by simp
  ultimately show ?thesis
    using q(1,2) rq c y(1,3) pc by (intro inv_own_bundle [OF inv conf, of i "info_id (w_info w)" rq "resolve (w_filename w)"])
      (auto simp: is_file_def split: if_splits)
qed

lemma inv_other:
  assumes inv: "sys_inv g R D x" and conf: "config g R D" and gr: "grew_dirs (world x) s'"
    and d: "\<And>p. is_bundle g R p \<Longrightarrow> is_dir s' p \<Longrightarrow> is_dir (world x) p"
  shows "sys_inv g R D (x\<lparr>world := s'\<rparr>)"
proof -
  have f: "files s' = files (world x)" "faults s' = faults (world x)" using gr by (auto simp: grew_dirs_def)
  have "flock.exclusive (own D (procs x)) (world x)" using inv by (simp add: sys_inv_def)
  then have ex: "flock.exclusive (own D ((procs x)(0 := procs x 0))) s'"
    using f(1) by (auto simp: is_file_def intro: exclusive_keep)
  have q: "pc_ok g R D (procs x 0)" "sees_file g s' (procs x 0)"
  proof -
    have "sees_file g (world x) (procs x 0)" "pc_ok g R D (procs x 0)" using inv by (simp_all add: sys_inv_def)
    then show "sees_file g s' (procs x 0)" "pc_ok g R D (procs x 0)"
      using sees_other [OF _ _ same_bundles_files [OF f(1)] conf] by auto
  qed
  have "sys_inv g R D (x\<lparr>world := s', procs := (procs x)(0 := procs x 0), stored := stored x\<rparr>)"
    by (rule inv_step [OF inv conf q ex same_bundles_files [OF f(1)]]) (use f d in simp_all)
  then show ?thesis by simp
qed

lemma BatchWrite_D:
  assumes "BatchWrite w buf ud s = Ret ((r, n, mu), w', s')"
  shows "Writer_Write_at (w_filename w) (info_offset (w_info w)) (EnsureUrl (for_block w (info_offset (w_info w)) buf))
      buf ud s = Ret ((r, n), s')"
    and "w' = for_block w (if r = 0 then szadd (info_offset (w_info w)) (Align1K (szadd kFileHeaderSize (length buf)))
       else info_offset (w_info w)) buf"
  using assms
  by (auto simp: BatchWrite_def Let_def Writer_Write_url_def for_block_def split: outcome.splits prod.splits if_splits)

lemma made_for_for_block: "made_for g rq (for_block w off buf) = made_for g rq w"
  by (simp add: made_for_def for_block_def)

lemma writer_ok_for_block: "writer_ok g R D (for_block w off buf) = writer_ok g R D w"
  by (simp add: writer_ok_def w_info_for_block made_for_for_block)

lemma held_for_block: "held (Ready (for_block w off buf)) = held (Ready w)"
  by (simp add: w_info_for_block)

lemma inv_batch:
  assumes inv: "sys_inv g R D x" and conf: "config g R D" and pc: "procs x i = Ready w"
    and run: "BatchWrite w buf ud (world x) = Ret ((r, n, Some u), w', s')" and fit: "fits buf"
    and off: "info_offset (w_info w) + 2 ^ 31 < 2 ^ 64"
  shows "sys_inv g R D (x\<lparr>world := s', procs := (procs x)(i := Ready w'),
          stored := (if n = length buf \<and> n \<noteq> 0
             then insert (for_block w (info_offset (w_info w)) buf, buf, ud) (stored x) else stored x)\<rparr>)"
proof -
  note b = BatchWrite_D [OF run]
  have r: "r = 0"
    using run by (auto simp: BatchWrite_def Let_def split: outcome.splits prod.splits if_splits)
  have wok: "writer_ok g R D w" using inv pc by (auto simp: sys_inv_def dest!: spec [of _ i])
  have add: "szadd (info_offset (w_info w)) (block_size buf) = info_offset (w_info w) + block_size buf"
    using off fits_numbers(3) [OF fit] by (intro szadd_less) simp
  have w': "w' = for_block w (info_offset (w_info w) + block_size buf) buf"
    using b(2) add by (simp add: r block_size_def)
  have tot: "nat (wrap32 (int (Align1K (szadd kFileHeaderSize (length buf))))) = block_size buf"
    using block_size_tot [OF fit] by (simp add: block_size_def)
  show ?thesis
    by (rule inv_block [OF inv conf pc b(1)])
      (use wok tot in \<open>simp_all add: w' writer_ok_for_block w_info_for_block made_for_for_block\<close>)
qed

text \<open>Looking at the bundle file.\<close>

lemma inv_lstat:
  assumes inv: "sys_inv g R D x" and conf: "config g R D" and pc: "procs x i = Holding rq bid l"
    and st: "os_lstat (bundle_path g (rq_storage rq) (rq_prefix rq) bid) (world x) = (r, s')"
  shows "r = Some n \<Longrightarrow> sys_inv g R D (x\<lparr>world := s', procs := (procs x)(i := Ready (new_writer g rq bid l n))\<rparr>)"
    and "r = None \<Longrightarrow> errno s' = ENOENT \<Longrightarrow> sys_inv g R D (x\<lparr>world := s', procs := (procs x)(i := Absent rq bid l)\<rparr>)"
    and "sys_inv g R D (x\<lparr>world := s', procs := (procs x)(i := Leaving a rq bid l)\<rparr>)"
    and "sys_inv g R D (x\<lparr>world := s', procs := (procs x)(i := Left a)\<rparr>)"
proof -
  have q: "R rq" "lock_ok D bid l" using inv pc by (auto simp: sys_inv_def dest!: spec [of _ i])
  have b: "\<not> is_dir (world x) (bundle_of g rq bid)" "faults (world x) SStat (bundle_of g rq bid) \<noteq> Some ENOENT"
    using inv is_bundleI [of R rq bid g] q unfolding sys_inv_def lock_ok_def by blast+
  have lv: "levels_ok g" using conf by (simp add: config_def)
  note w = lstat_world [OF st]
  have dirs: "is_dir s' p \<Longrightarrow> is_dir (world x) p" for p using w(2) by simp
  note pcs = inv_pc [OF inv conf w(1) dirs w(3)]
  show "sys_inv g R D (x\<lparr>world := s', procs := (procs x)(i := Leaving a rq bid l)\<rparr>)"
    "sys_inv g R D (x\<lparr>world := s', procs := (procs x)(i := Left a)\<rparr>)"
    using q pc by (auto intro!: pcs simp: lock_ok_def lock_for_def)
  { assume "r = Some n"
    then obtain c where "files (world x) (bundle_of g rq bid) = Some c" "length c = n"
      using os_lstat_Some [of _ "world x" n s'] st b(1) by (auto simp: bundle_of_def)
    then show "sys_inv g R D (x\<lparr>world := s', procs := (procs x)(i := Ready (new_writer g rq bid l n))\<rparr>)"
      using q pc w(1) by (intro pcs) (auto simp: writer_ok_def made_for_def new_writer_def bundle_of_def) }
  { assume "r = None" "errno s' = ENOENT"
    then have "\<not> is_file s' (bundle_of g rq bid)"
      using st b bundle_path_not_Nil [OF lv]
      by (auto simp: os_lstat_def Let_def bundle_of_def is_file_def split: option.splits if_splits)
    then show "sys_inv g R D (x\<lparr>world := s', procs := (procs x)(i := Absent rq bid l)\<rparr>)"
      using q pc by (intro pcs) auto }
qed

lemma turn_inv:
  assumes t: "turn g (procs x i) (world x) = (q, s')" and inv: "sys_inv g R D x" and conf: "config g R D"
  shows "sys_inv g R D (x\<lparr>world := s', procs := (procs x)(i := q)\<rparr>)"
proof -
  have ok: "pc_ok g R D (procs x i)" "sees_file g (world x) (procs x i)" using inv by (auto simp: sys_inv_def)
  have stay: ?thesis if "q = procs x i" "s' = world x"
  proof -
    have "x\<lparr>world := s', procs := (procs x)(i := q)\<rparr> = x" using that by simp
    then show ?thesis using inv by simp
  qed
  have dirs: "R rq \<Longrightarrow> rq_lock_dir rq = D" "clear_dir g R D"
      "R rq \<Longrightarrow> valid_id bid \<Longrightarrow> clear_dir g R (Dirname (bundle_path g (rq_storage rq) (rq_prefix rq) bid))" for rq bid
    using conf by (auto simp: config_def parent_of_def)
  show ?thesis
  proof (cases "procs x i")
    case (Trying rq bid l)
    obtain ok1 l1 s1 where k: "TryLock l (world x) = (ok1, l1, s1)" by (metis prod_cases3)
    then have "lock_for D bid l1 \<and> (locked l1 \<longleftrightarrow> ok1)" using ok Trying TryLock_D [OF k] by (auto simp: lock_for_def)
    then show ?thesis
      using t ok k Trying inv_lock [OF inv conf, of i rq bid l l1 s1] inv_no_lock [OF inv conf, of l l1 s1 "LockFailed rq bid l1" i]
      by (cases ok1) auto
  next
    case (LockFailed rq bid l)
    then show ?thesis using t ok by (auto split: prod.splits if_splits intro!: inv_access [OF inv conf])
  next
    case (NoLockDir rq bid l)
    obtain made s1 where m: "mkdirs D (world x) = (made, s1)" by fastforce
    have "sys_inv g R D (x\<lparr>world := s1, procs := (procs x)(i := Leaving Null rq bid l)\<rparr>)"
      "sys_inv g R D (x\<lparr>world := s1, procs := (procs x)(i := Retrying rq bid l)\<rparr>)"
      using ok NoLockDir by (auto intro!: inv_mkdirs [OF inv conf m dirs(2)])
    then show ?thesis using t ok NoLockDir m dirs(1) [of rq] by (auto split: if_splits)
  next
    case (Retrying rq bid l)
    obtain ok1 l1 s1 where k: "TryLock l (world x) = (ok1, l1, s1)" by (metis prod_cases3)
    then have "lock_for D bid l1 \<and> (locked l1 \<longleftrightarrow> ok1)" using ok Retrying TryLock_D [OF k] by (auto simp: lock_for_def)
    then show ?thesis
      using t ok k Retrying inv_lock [OF inv conf, of i rq bid l l1 s1] inv_no_lock [OF inv conf, of l l1 s1 "Leaving Again rq bid l1" i]
      by (cases ok1) auto
  next
    case (Holding rq bid l)
    obtain st s1 where k: "os_lstat (bundle_path g (rq_storage rq) (rq_prefix rq) bid) (world x) = (st, s1)" by fastforce
    show ?thesis using t inv_lstat [OF inv conf Holding k] k Holding by (auto split: option.splits if_splits)
  next
    case (Absent rq bid l)
    obtain acc s1 where k: "os_access (Dirname (bundle_path g (rq_storage rq) (rq_prefix rq) bid)) (world x) = (acc, s1)" by fastforce
    have "is_file s1 = is_file (world x)" using os_access_same [OF k] by (auto simp: is_file_def fun_eq_iff)
    then have "sys_inv g R D (x\<lparr>world := s1, procs := (procs x)(i := NoParent rq bid l)\<rparr>)"
      "sys_inv g R D (x\<lparr>world := s1, procs := (procs x)(i := Creating rq bid l)\<rparr>)"
      using ok Absent by (auto intro!: inv_access [OF inv conf k])
    then show ?thesis using t k Absent by (auto split: if_splits)
  next
    case (NoParent rq bid l)
    obtain made s1 where m: "mkdirs (Dirname (bundle_path g (rq_storage rq) (rq_prefix rq) bid)) (world x) = (made, s1)" by fastforce
    have f: "is_file s1 = is_file (world x)" using mkdirs_grew [OF m] by (auto simp: grew_dirs_def is_file_def fun_eq_iff)
    have v: "R rq" "valid_id bid" "lock_for D bid l" "locked l" using ok NoParent by (auto simp: lock_ok_def lock_for_def)
    have "sys_inv g R D (x\<lparr>world := s1, procs := (procs x)(i := Leaving Null rq bid l)\<rparr>)"
      "sys_inv g R D (x\<lparr>world := s1, procs := (procs x)(i := Creating rq bid l)\<rparr>)"
      using ok NoParent f v by (auto intro!: inv_mkdirs [OF inv conf m dirs(3) [OF v(1,2)]])
    then show ?thesis using t NoParent m by (auto split: if_splits)
  next
    case (Creating rq bid l)
    obtain fd s1 where k: "os_open_trunc (bundle_path g (rq_storage rq) (rq_prefix rq) bid) (world x) = (fd, s1)" by fastforce
    show ?thesis
    proof (cases fd)
      case None
      obtain e where e: "s1 = set_errno e (world x)" using k None os_open_trunc_None by blast
      have "sys_inv g R D (x\<lparr>world := s1, procs := (procs x)(i := Leaving Null rq bid l)\<rparr>)"
        using ok Creating e by (intro inv_pc [OF inv conf]) (auto simp: lock_ok_def lock_for_def is_dir_def)
      then show ?thesis using t k None Creating by simp
    next
      case (Some p)
      then show ?thesis using t k Creating inv_create [OF inv conf Creating] by simp
    qed
  next
    case (Emptied rq bid l)
    obtain ret s1 where k: "os_write (bundle_of g rq bid) 0 (bundle_header (rq_now rq)) (world x) = (ret, s1)" by fastforce
    show ?thesis using t k Emptied inv_header [OF inv conf Emptied k] by (auto split: if_splits)
  next
    case (Leaving a rq bid l)
    show ?thesis
    proof (cases "locked l")
      case True
      then have "held (procs x i) = Some bid" "lock_ok D bid l" using ok Leaving by (auto simp: lock_ok_def lock_for_def)
      then have "sys_inv g R D (x\<lparr>world := FileLock_delete l (world x), procs := (procs x)(i := Left a)\<rparr>)"
        by (intro inv_unlock [OF inv conf]) simp_all
      then show ?thesis using t Leaving by simp
    next
      case False
      have "sys_inv g R D (x\<lparr>world := world x, procs := (procs x)(i := Left a)\<rparr>)" by (intro inv_pc [OF inv conf]) simp_all
      then show ?thesis using t Leaving False by auto
    qed
  qed (use t stay in simp_all)
qed

lemma step_inv: "step g R x y \<Longrightarrow> sys_inv g R D x \<Longrightarrow> config g R D \<Longrightarrow> sys_inv g R D y"
proof (induction rule: step.induct)
  case (other x s')
  then show ?case by (intro inv_other)
next
  case (enter x i a rq bid)
  have l: "lock_for D bid (new_lock rq bid)"
    using enter by (simp add: lock_for_def new_lock_def FileLock_new_def config_def)
  have "sys_inv g R D (x\<lparr>world := world x, procs := (procs x)(i := Trying rq bid (new_lock rq bid))\<rparr>)"
    by (rule inv_pc [OF enter(4,5)]) (use enter l in simp_all)
  then show ?case by simp
next
  case (allocate x i q s')
  then show ?case by (intro turn_inv)
next
  case (write_block x i w buf ud r n s')
  have "writer_ok g R D w" using write_block by (auto simp: sys_inv_def dest!: spec [of _ i])
  then show ?case
    using write_block(2,3)
    by (intro inv_block [OF write_block(4,5,1)]) (simp_all add: Writer_Write_def Writer_Write_url_def)
next
  case (batch_write x i w buf ud r n u w' s')
  then show ?case by (intro inv_batch)
next
  case (batch_fails x i w buf ud r n w' s')
  note b = BatchWrite_D [OF batch_fails.hyps(2)]
  have r: "r \<noteq> 0" using batch_fails.hyps(2) by (auto simp: BatchWrite_def Let_def split: outcome.splits prod.splits if_splits)
  have "writer_ok g R D w" using batch_fails by (auto simp: sys_inv_def dest!: spec [of _ i])
  moreover have "n = 0" using b(1) r
    by (auto simp: Writer_Write_at_def Let_def split: prod.splits option.splits if_splits)
  ultimately show ?case
    using inv_block [OF batch_fails(3,4,1) b(1), of "Done w'" "for_block w (info_offset (w_info w)) buf"] b(2) r
    by (simp add: writer_ok_for_block w_info_for_block made_for_for_block)
next
  case (release_lock x i w w' s')
  have w: "writer_ok g R D w" using release_lock by (auto simp: sys_inv_def dest!: spec [of _ i])
  then obtain l where l: "w_filelock w = Some l" "lock_ok D (info_id (w_info w)) l" by (auto simp: writer_ok_def)
  have "s' = FileLock_delete l (world x)" using release_lock.hyps(2) l(1) by (simp add: Release_def)
  moreover have "held (procs x i) = Some (info_id (w_info w))" using release_lock.hyps(1) by auto
  ultimately show ?case
    using inv_unlock [OF release_lock(3,4) _ l(2) refl refl refl, of i Idle] by simp
next
  case (dies x i)
  have "sys_inv g R D (x\<lparr>world := world x, procs := (procs x)(i := Dead)\<rparr>)"
    by (rule inv_pc [OF dies]) simp_all
  then show ?case by simp
qed

section \<open>Reachable states\<close>

definition initial :: "Setting \<Rightarrow> (request \<Rightarrow> bool) \<Rightarrow> sys \<Rightarrow> bool" where
  "initial g R x \<longleftrightarrow> (\<forall>i. procs x i = Idle) \<and> stored x = {}
     \<and> (\<forall>p. is_bundle g R p \<longrightarrow> \<not> is_dir (world x) p \<and> faults (world x) SStat p \<noteq> Some ENOENT)"

lemma initial_inv: "initial g R x \<Longrightarrow> sys_inv g R D x"
  unfolding initial_def sys_inv_def flock.exclusive_def own_def by simp

lemma reachable_inv:
  assumes "reachable g R x0 x" "initial g R x0" "config g R D"
  shows "sys_inv g R D x"
  using assms by (induction rule: reachable.induct) (auto intro: initial_inv step_inv)

text \<open>A round of \<open>Allocate\<close> that nobody interrupts is a run of the system.\<close>

lemma reachable_turns:
  "reachable g R x0 x \<Longrightarrow> turns g n (procs x i, world x) = (q, s')
    \<Longrightarrow> reachable g R x0 (x\<lparr>world := s', procs := (procs x)(i := q)\<rparr>)"
proof (induction n arbitrary: x)
  case (Suc n)
  obtain q1 s1 where t: "turn g (procs x i) (world x) = (q1, s1)" by fastforce
  let ?y = "x\<lparr>world := s1, procs := (procs x)(i := q1)\<rparr>"
  have "reachable g R x0 ?y" using Suc.prems(1) step.allocate [of g x i q1 s1, OF t] by (rule reachable.next_step)
  moreover have "turns g n (procs ?y i, world ?y) = (q, s')" using Suc.prems(2) t by simp
  ultimately have "reachable g R x0 (?y\<lparr>world := s', procs := (procs ?y)(i := q)\<rparr>)" by (rule Suc.IH)
  moreover have "?y\<lparr>world := s', procs := (procs ?y)(i := q)\<rparr> = x\<lparr>world := s', procs := (procs x)(i := q)\<rparr>" by simp
  ultimately show ?case by (simp only:)
next
  case 0
  then have "x\<lparr>world := s', procs := (procs x)(i := q)\<rparr> = x" by auto
  then show ?case using 0(1) by (simp only:)
qed

lemma allocate_step_run:
  assumes "reachable g R x0 x" "procs x i = Idle \<or> procs x i = Left b" "R rq" "valid_id bid"
    and "allocate_step g rq bid (world x) = (a, s')"
  shows "reachable g R x0 (x\<lparr>world := s', procs := (procs x)(i := answer a)\<rparr>)"
proof -
  let ?y = "x\<lparr>procs := (procs x)(i := Trying rq bid (new_lock rq bid))\<rparr>"
  have "reachable g R x0 ?y" using assms(1) step.enter [of x i b R rq bid g, OF assms(2-4)] by (rule reachable.next_step)
  moreover have "turns g 11 (procs ?y i, world ?y) = (answer a, s')" using turns_alone [of g rq bid "world x"] assms(5) by simp
  ultimately have "reachable g R x0 (?y\<lparr>world := s', procs := (procs ?y)(i := answer a)\<rparr>)" by (rule reachable_turns)
  then show ?thesis by simp
qed

section \<open>An example run\<close>

text \<open>Everything one configuration of the library serves: one storage, one lock directory, default URLs.\<close>

definition one_store :: "Setting \<Rightarrow> (request \<Rightarrow> bool) \<Rightarrow> string \<Rightarrow> string \<Rightarrow> bool" where
  "one_store g R storage D \<longleftrightarrow> config g R D \<and> url_build g = BuildWithEncode \<and> url_extract g = ExtractWithEncode
     \<and> (\<forall>rq. R rq \<longrightarrow> rq_storage rq = storage \<and> rq_builder rq = None)"

definition conc_os :: os where
  "conc_os = sample_os\<lparr>dirs := (\<lambda>q. dirs sample_os q \<or> q = (False, [''b'', ''.lock'']))\<rparr>"

definition conc_sys :: sys where
  "conc_sys = \<lparr>world = conc_os, procs = (\<lambda>_. Idle), stored = {}\<rparr>"

abbreviation conc_R :: "request \<Rightarrow> bool" where
  "conc_R \<equiv> (\<lambda>rq. rq = sample_rq)"

definition conc_lock :: FileLock where
  "conc_lock = (new_lock sample_rq 7)\<lparr>locked := True\<rparr>"

definition conc_locked :: os where
  "conc_locked = put_file (resolve (lock_path sample_rq 7)) [] conc_os"

definition conc_writer :: Writer where
  "conc_writer = new_writer g_default_setting sample_rq 7 conc_lock 1024"

definition conc_ready :: sys where
  "conc_ready = \<lparr>world = conc_locked, procs = (\<lambda>_. Idle)(0 := Ready conc_writer), stored = {}\<rparr>"

lemma conc_name: "bundle_path g_default_setting (rq_storage sample_rq) (rq_prefix sample_rq) 7 = sample_name"
  using sample_path by (simp add: sample_rq_parts)

lemma conc_info: "w_info conc_writer = sample_info" "w_filename conc_writer = sample_name"
  by (simp_all add: conc_writer_def new_writer_def sample_info_def sample_rq_parts conc_name sample_path)

lemma conc_writable: "writable conc_locked sample_name (bundle_header ''now'')"
  using sample_writable
  by (simp add: writable_def conc_locked_def conc_os_def sample_lock_path resolve_sample is_dir_def)

lemma clear_dir_shorter:
  assumes "length d < PATH_LENGTH_MAX" "\<And>rq bid. R rq \<Longrightarrow> valid_id bid \<Longrightarrow> length (components d) < length (snd (bundle_of g rq bid))"
  shows "clear_dir g R d"
proof -
  have "\<not> ancestor d p" if b: "is_bundle g R p" for p
  proof
    assume "ancestor d p"
    then have "length (snd p) \<le> length (components d)" by (auto simp: ancestor_def)
    moreover obtain rq bid where "R rq" "valid_id bid" "p = bundle_of g rq bid" using b by (auto simp: is_bundle_def)
    ultimately show False using assms(2) [of rq bid] by simp
  qed
  then show ?thesis using assms(1) by (simp add: clear_dir_def)
qed

lemma conc_one_store: "one_store g_default_setting conc_R ''b'' (PathJoin ''b'' ''.lock'')"
proof -
  have len: "length (snd (bundle_of g_default_setting sample_rq bid)) = 4" for bid
    by (simp add: sample_bundle_of)
  have "components (PathJoin ''b'' ''.lock'') = [''b'', ''.lock'']" "length (PathJoin ''b'' ''.lock'') = 7" by code_simp+
  then have "clear_dir g_default_setting conc_R (PathJoin ''b'' ''.lock'')"
    by (intro clear_dir_shorter) (simp_all add: len PATH_LENGTH_MAX_def)
  moreover have "clear_dir g_default_setting conc_R (parent_of g_default_setting sample_rq bid)" for bid
  proof -
    have "components (Dirname (bundle_path g_default_setting ''b'' ''p'' bid)) = [''b'', ''p'', show_hex8 (to_u32 bid div 50)]"
      using sample_dirname(1) [of bid] by (simp add: resolve_def)
    then show ?thesis
      using sample_dirname(2) [of bid] by (intro clear_dir_shorter) (simp_all add: parent_of_def sample_rq_parts len)
  qed
  ultimately show ?thesis
    by (simp add: one_store_def config_def levels_ok_default default_lock_dir_ok sample_rq_parts sample_scheme)
qed

lemma conc_initial: "initial g_default_setting conc_R conc_sys"
  unfolding initial_def is_bundle_def
  by (auto simp: conc_sys_def conc_os_def sample_os_def sample_bundle_of is_dir_def)

lemma conc_reaches: "reachable g_default_setting conc_R conc_sys conc_ready"
proof -
  let ?x0 = "conc_sys\<lparr>procs := (procs conc_sys)(0 := Trying sample_rq 7 (new_lock sample_rq 7))\<rparr>"
  let ?x1 = "conc_sys\<lparr>world := conc_locked, procs := (procs conc_sys)(0 := Holding sample_rq 7 conc_lock)\<rparr>"
  have n: "lockfile (new_lock sample_rq 7) = lock_path sample_rq 7" by (simp add: new_lock_def FileLock_new_def lock_path_def)
  have "lock_file (lock_path sample_rq 7) conc_os = (True, conc_locked)"
    by (simp add: lock_file_True conc_locked_def sample_lock_path)
      (simp add: conc_os_def sample_os_def is_dir_def is_file_def parent_def resolve_sample)
  then have "TryLock (new_lock sample_rq 7) conc_os = (True, conc_lock, conc_locked)" by (simp add: TryLock_def n conc_lock_def)
  then have t: "turn g_default_setting (Trying sample_rq 7 (new_lock sample_rq 7)) conc_os = (Holding sample_rq 7 conc_lock, conc_locked)"
    by simp
  have "step g_default_setting conc_R conc_sys ?x0"
    by (intro step.enter [of _ 0 Again]) (simp_all add: conc_sys_def valid_id_def)
  then have r0: "reachable g_default_setting conc_R conc_sys ?x0" by (rule reachable.next_step [OF reachable.start])
  have "step g_default_setting conc_R ?x0 (?x0\<lparr>world := conc_locked, procs := (procs ?x0)(0 := Holding sample_rq 7 conc_lock)\<rparr>)"
    by (rule step.allocate) (use t in \<open>simp add: conc_sys_def\<close>)
  moreover have "?x0\<lparr>world := conc_locked, procs := (procs ?x0)(0 := Holding sample_rq 7 conc_lock)\<rparr> = ?x1" by simp
  ultimately have r1: "reachable g_default_setting conc_R conc_sys ?x1" using reachable.next_step [OF r0] by simp
  have calm: "faults conc_locked c p = None" for c p by (simp add: conc_locked_def conc_os_def sample_os_def)
  have st: "os_lstat (bundle_path g_default_setting (rq_storage sample_rq) (rq_prefix sample_rq) 7) conc_locked
      = (Some 1024, conc_locked)"
    using conc_writable calm unfolding conc_name
    by (simp add: os_lstat_def writable_def Let_def length_bundle_header kBundleHeaderSize_def)
  have room: "szadd 1024 (need sample_rq) \<le> max_bundle_size g_default_setting"
    by (simp add: need_def sample_rq_parts bundle_consts Align1K_def szadd_def szsub_def g_default_setting_def)
  have "turn g_default_setting (Holding sample_rq 7 conc_lock) conc_locked
      = (Ready (new_writer g_default_setting sample_rq 7 conc_lock 1024), conc_locked)"
    using st room by simp
  then have "step g_default_setting conc_R ?x1
      (?x1\<lparr>world := conc_locked, procs := (procs ?x1)(0 := Ready (new_writer g_default_setting sample_rq 7 conc_lock 1024))\<rparr>)"
    by (intro step.allocate) simp
  moreover have "?x1\<lparr>world := conc_locked, procs := (procs ?x1)(0 := Ready (new_writer g_default_setting sample_rq 7 conc_lock 1024))\<rparr> = conc_ready"
    by (simp add: conc_ready_def conc_sys_def conc_writer_def)
  ultimately show ?thesis using reachable.next_step [OF r1] by simp
qed

section \<open>Properties\<close>

text \<open>
  C4: however the turns of the processes interleave, and whichever of them die, no two processes have a writer for the same bundle
  file at the same time, and the offset of a writer is never before the end of its bundle file. The turns are those of the
  source: the eleven turns that a process makes without interruption are one round of the loop of \<open>Writer::Allocate\<close>
  (\<open>allocate_step\<close>, with \<open>take_lock\<close> and \<open>bundle_attempt\<close>), in every world and with every result. Conditions:
  all requests use one lock directory whose files are no bundle files (\<open>config\<close>), no bundle file stands where a directory belongs,
  and bundle numbers are from 0 to \<open>2^31 - 1\<close>; in the initial world no process runs, no bundle path is a directory, and
  \<open>lstat\<close> does not fail with \<open>ENOENT\<close> for a bundle file that is there; and nothing but these processes writes or removes
  files, lock files among them (other programs may make directories, see \<open>step\<close>). \<open>Write\<close>, \<open>BatchWrite\<close>, \<open>Release\<close> and one call of
  \<open>mkdirs\<close> are one step each, and what the system refuses stays the same.
\<close>

theorem concurrent_exclusion:
  assumes "reachable g R x0 x" "initial g R x0" "config g R D"
    and "procs x i = Ready w" "procs x j = Ready v" "resolve (w_filename w) = resolve (w_filename v)"
  shows "i = j \<and> (\<exists>c. files (world x) (resolve (w_filename w)) = Some c \<and> length c \<le> info_offset (w_info w))
    \<and> turns g 11 (Trying rq bid (new_lock rq bid), s) = (case allocate_step g rq bid s of (a, s') \<Rightarrow> (answer a, s'))"
proof -
  have inv: "sys_inv g R D x" by (rule reachable_inv [OF assms(1-3)])
  have ok: "writer_ok g R D w" "writer_ok g R D v" "sees_file g (world x) (Ready w)"
    using inv assms(4,5) unfolding sys_inv_def by (metis pc_ok.simps(11))+
  have "info_id (w_info w) = info_id (w_info v)"
    using ok(1,2) assms(6) by (elim writer_bundle) (metis bundle_id [OF assms(3)])
  then have "i = j"
    using inv held_unique [of D "procs x" "world x" i "info_id (w_info w)" j] assms(4,5) by (simp add: sys_inv_def)
  then show ?thesis using ok(3) turns_alone by simp
qed

theorem concurrent_exclusion_witness:
  "\<exists>c. files (world conc_ready) (resolve (w_filename conc_writer)) = Some c \<and> length c \<le> 1024"
proof -
  have "procs conc_ready 0 = Ready conc_writer" by (simp add: conc_ready_def)
  moreover have "config g_default_setting conc_R (PathJoin ''b'' ''.lock'')"
    using conc_one_store by (simp add: one_store_def)
  ultimately show ?thesis
    using concurrent_exclusion [OF conc_reaches conc_initial, of "PathJoin ''b'' ''.lock''" 0 conc_writer 0 conc_writer]
    by (simp add: conc_info sample_info_simps)
qed

text \<open>
  C3: a file whose write reported success can be read back through the URL of its writer in every state that any interleaving of
  the processes reaches afterwards, crashes included: the read returns 0 and exactly the bytes written. A write reports success
  when it says that all bytes of the file, and at least one, were written. Conditions: the file is smaller than 2 GB and its address
  can be encoded (\<open>encode_ok\<close>: among others its hash is not the reserved \<open>0xffffffff\<close>); the default (encoded) URL scheme;
  all requests use one storage and one lock directory, with no bundle file in the place of a lock file or of a directory
  (\<open>config\<close>); the initial world and what other programs do are as for the exclusion above (\<open>initial\<close>, \<open>step\<close>); and the system
  refuses neither to open nor to read the bundle when it is read. A writer makes one \<open>Write\<close>, of
  a file of the size asked for, or any number of \<open>BatchWrite\<close>s.
\<close>

theorem concurrent_durability:
  assumes "reachable g R x0 x" "initial g R x0" "one_store g R storage D"
    and "(w, buf, ud) \<in> stored x" "encode_ok (w_info w)" "length buf < 2 ^ 31"
    and "faults (world x) SOpen (resolve (w_filename w)) = None" "faults (world x) SRead (resolve (w_filename w)) = None"
  shows "\<exists>d. user_part ud d
    \<and> Reader_Read g (EnsureUrl w) storage None (world x) = Ret ((0, buf, d), world x)"
proof -
  have conf: "config g R D" and st: "url_build g = BuildWithEncode" "url_extract g = ExtractWithEncode"
    "\<And>rq. R rq \<Longrightarrow> rq_storage rq = storage \<and> rq_builder rq = None"
    using assms(3) by (auto simp: one_store_def)
  have inv: "sys_inv g R D x" by (rule reachable_inv [OF assms(1,2) conf])
  then have "found g R (world x) (w, buf, ud)" using assms(4) by (simp add: sys_inv_def)
  then obtain rq c d where f: "is_bundle g R (resolve (w_filename w))" "R rq" "made_for g rq w"
      "info_size (w_info w) = length buf" "files (world x) (resolve (w_filename w)) = Some c" "user_part ud d"
      "block_at c (info_offset (w_info w)) = Some (d, buf)"
    by (auto simp: found_def)
  have nd: "\<not> is_dir (world x) (resolve (w_filename w))" using inv f(1) unfolding sys_inv_def by blast
  have w: "w_filename w = bundle_path g storage (info_prefix (w_info w)) (info_id (w_info w))"
      "w_builder w = Some BuildWithEncode"
    using f(2,3) st by (auto simp: made_for_def)
  have r: "readable (world x) (bundle_path g storage (info_prefix (w_info w)) (info_id (w_info w))) c"
    using conf nd f(5) assms(7,8) bundle_path_not_Nil unfolding readable_def w(1) [symmetric] config_def
    by (metis w(1))
  have "info_offset (w_info w) < 2 ^ 63" using assms(5) by (simp add: encode_ok_def address_ok_def)
  then have "Reader_Read g (BuildWithEncode (w_info w)) storage None (world x) = Ret ((0, buf, d), world x)"
    using encoded_url.read_address [OF assms(5) _ r f(7,4) assms(6)] st(2) by blast
  then show ?thesis using f(6) w(2) by (auto simp: EnsureUrl_def)
qed

theorem concurrent_durability_witness:
  "\<exists>x d. reachable g_default_setting conc_R conc_sys x \<and> (conc_writer, ''hello'', None) \<in> stored x
     \<and> Reader_Read g_default_setting (EnsureUrl conc_writer) ''b'' None (world x) = Ret ((0, ''hello'', d), world x)"
proof -
  have al: "1024 dvd length (bundle_header ''now'')" by (simp add: length_bundle_header kBundleHeaderSize_def)
  obtain s' where w: "Writer_Write conc_writer ''hello'' None conc_locked = Ret ((0, length ''hello''), s')"
      "faults s' = faults conc_locked"
    using Writer_Write_at_block [OF conc_writable fits_hello _ aligned_not_minus_one [OF al], of "EnsureUrl conc_writer" None]
    by (auto simp: Writer_Write_def Writer_Write_url_def conc_info sample_info_simps length_bundle_header kBundleHeaderSize_def)
  let ?x = "conc_ready\<lparr>world := s', procs := (procs conc_ready)(0 := Done conc_writer),
    stored := (if length ''hello'' = length ''hello'' \<and> length ''hello'' \<noteq> 0
       then insert (conc_writer, ''hello'', None) (stored conc_ready) else stored conc_ready)\<rparr>"
  have "step g_default_setting conc_R conc_ready ?x"
    by (rule step.write_block) (use w in \<open>simp_all add: conc_ready_def conc_info sample_info_simps\<close>)
  then have r: "reachable g_default_setting conc_R conc_sys ?x" by (rule reachable.next_step [OF conc_reaches])
  have "\<exists>d. user_part None d
    \<and> Reader_Read g_default_setting (EnsureUrl conc_writer) ''b'' None (world ?x) = Ret ((0, ''hello'', d), world ?x)"
    by (rule concurrent_durability [OF r conc_initial conc_one_store])
      (use w(2) in \<open>simp_all add: conc_info sample_encode_ok conc_locked_def conc_os_def sample_os_def\<close>)
  then show ?thesis using r by (intro exI [of _ ?x]) auto
qed

end
