(* ===== verification/StoreLoad.thy ===== *)
theory StoreLoad
  imports AllocLoop
begin

text \<open>
  The life of one stored file across the parts of the bundle store: allocation, writing, release and
  reading.
\<close>

lemma store_load:
  assumes alloc: "Allocate g pid now pre post (length buf) storage ld None p s = Some (Some w, p', s1)"
    and scheme: "url_build g = BuildWithEncode" "url_extract g = ExtractWithEncode"
    and ap: "apart g (request_of now pre post (length buf) storage ld None)"
    and calm: "\<And>c q. faults s c q = None" "\<And>q. room s q = None"
    and nodir: "\<And>bid. \<not> is_dir s (bundle_of g (request_of now pre post (length buf) storage ld None) bid)"
      "fs_wf s"
    and aligned: "\<And>bid c. files s (bundle_of g (request_of now pre post (length buf) storage ld None) bid) = Some c
       \<Longrightarrow> 1024 dvd length c \<and> length c < 2 ^ 63"
    and fit: "fits buf" and ok: "encode_ok (w_info w)"
  shows "\<exists>s2 d. Writer_Write w buf ud s1 = Ret ((0, length buf), s2) \<and> user_part ud d
    \<and> \<not> is_file (snd (Release w s2)) (resolve (lock_path (request_of now pre post (length buf) storage ld None) (last_id p')))
    \<and> Reader_Read g (EnsureUrl w) storage None (snd (Release w s2)) = Ret ((0, buf, d), snd (Release w s2))"
proof -
  let ?rq = "request_of now pre post (length buf) storage ld None"
  let ?bid = "last_id p'" and ?b = "bundle_of g ?rq (last_id p')" and ?l = "resolve (lock_path ?rq (last_id p'))"
  obtain s0 where k0: "kept (is_lock ?rq) s s0" and al: "allocated g ?rq ?bid s0 w s1"
    using allocate_loop_Some [OF alloc [unfolded Allocate_loop] ap nodir(1)] calm(1) by blast
  obtain l c where w: "w = new_writer g ?rq ?bid l (length c)" "locked l" "lockfile l = lock_path ?rq ?bid"
    and lk: "is_file s1 ?l" and c: "files s1 ?b = Some c" "\<not> is_dir s1 ?b"
    and k1: "kept (\<lambda>q. q = ?l \<or> q = ?b) s0 s1"
    and old: "files s0 ?b = Some c \<or> c = bundle_header now"
    using al unfolding allocated_def by (auto simp: request_of_def)
  have q: "faults s1 x q = None" "room s1 q = None" for x q
    using calm keptD(3,4) [OF k0] keptD(3,4) [OF k1] by simp_all
  have lv: "levels_ok g" using ap by (simp add: apart_def)
  have nl: "\<not> is_lock ?rq ?b"
    using bundle_not_lock [of g ?rq storage "rq_prefix ?rq" ?bid] ap by (simp add: apart_def bundle_of_def)
  have len: "1024 dvd length c \<and> length c < 2 ^ 63"
    using old aligned [of ?bid c] keptD(1) [OF k0 nl] by (auto simp: length_bundle_header kBundleHeaderSize_def)
  have name: "w_filename w = bundle_path g storage (rq_prefix ?rq) ?bid" "resolve (w_filename w) = ?b"
    by (simp_all add: w(1) new_writer_def bundle_of_def)
  have wr: "writable s1 (w_filename w) c"
    unfolding writable_def name(2) using c q bundle_path_not_Nil [OF lv] name(1) by simp
  obtain s2 d where s2: "Writer_Write w buf ud s1 = Ret ((0, length buf), s2)" and d: "user_part ud d"
    and read: "\<And>s3 more. readable s3 (w_filename w) (the (files s2 (resolve (w_filename w))) @ more)
      \<Longrightarrow> Reader_Read g (EnsureUrl w) storage None s3 = Ret ((0, buf, d), s3)"
    using encoded_url.write_then_read [OF wr fit, of None g storage ud] ok len scheme name
    by (auto simp: w(1) new_writer_def)
  obtain c2 where f2: "s2 = put_file ?b c2 s1"
    using s2 Writer_Write_at_block [OF wr fit, of "length c" "EnsureUrl w" ud] len aligned_not_minus_one [of "length c"]
    by (auto simp: Writer_Write_def Writer_Write_url_def w(1) new_writer_def bundle_of_def)
  have nd: "\<not> is_dir s1 ?l"
    using lk keptD(6) [OF k1 keptD(6) [OF k0 nodir(2)]] unfolding fs_wf_def by blast
  have bl: "?b \<noteq> ?l" using nl by (auto simp: is_lock_def)
  have "unlock_file (lock_path ?rq ?bid) s2 = (True, del_file ?l s2)"
    using q lk nd by (intro unlock_file_free) (auto simp: f2)
  then have rel: "snd (Release w s2) = del_file ?l s2"
    using w by (simp add: Release_def new_writer_def FileLock_delete_def Unlock_def)
  have "readable (del_file ?l s2) (w_filename w) (the (files s2 (resolve (w_filename w))) @ [])"
    using wr q bl unfolding readable_def writable_def name(2) by (simp add: f2)
  from read [OF this] show ?thesis using s2 d rel by (intro exI [of _ s2] exI [of _ d]) simp
qed

lemma allocated_writer:
  assumes "Allocate g pid now pre post sz storage ld None p s = Some (Some w, p', s1)"
    and "apart g (request_of now pre post sz storage ld None)" "\<And>c q. faults s c q = None"
    and "\<And>bid. \<not> is_dir s (bundle_of g (request_of now pre post sz storage ld None) bid)"
  shows "info_prefix (w_info w) = rq_prefix (request_of now pre post sz storage ld None) \<and> w_builder w = Some (url_build g)"
proof -
  let ?rq = "request_of now pre post sz storage ld None"
  obtain s0 where "allocated g ?rq (last_id p') s0 w s1"
    using allocate_loop_Some [OF assms(1) [unfolded Allocate_loop] assms(2,4)] assms(3) by blast
  then show ?thesis unfolding allocated_def by (auto simp: new_writer_def request_of_def)
qed

lemma busy_runs:
  assumes "Allocate g_default_setting 1 ''now'' ''/p'' ''.jpg'' 5 ''b'' None None proc3 busy_os = Some (Some w, p', s')"
  shows "last_id p' = 4"
proof -
  have nr: "\<not> has_room g_default_setting sample_rq busy_os 3"
    by (simp add: has_room_def sample_lock_path is_file_def busy_os_def print_eval)
  obtain s1 where st: "allocate_step g_default_setting sample_rq 3 busy_os = (Again, s1)" "files s1 = files busy_os"
    using allocate_step_usable [OF busy_usable sample_apart, of 3] nr by auto
  have "has_room g_default_setting sample_rq s1 4"
    using busy_has_room st(2) by (simp add: has_room_def is_file_def)
  then obtain w1 s2 where st2: "allocate_step g_default_setting sample_rq 4 s1 = (Got w1, s2)"
    using allocate_step_usable [OF usable_Again [OF busy_usable sample_apart st] sample_apart, of 4] by auto
  have p: "first_id 1 proc3 = proc3" "last_id proc3 = 3" by (simp_all add: first_id_def proc3_def)
  have ch: "choose_id g_default_setting n q = q" if "n \<le> 2" for n q
    using that by (simp add: choose_id_def g_default_setting_def bundle_consts)
  have w4: "wrap32 4 = 4" by (rule wrap32_id) simp_all
  show ?thesis
    using assms unfolding Allocate_loop p sample_rq_def [symmetric]
    by (auto simp: allocate_loop.simps [of _ _ 0] allocate_loop.simps [of _ _ 1] ch st st2 p w4 Let_def)
qed

definition busy_info :: Info where
  "busy_info = Info0\<lparr>info_id := 4, info_offset := 1024, info_size := 5, info_prefix := ''p'', info_postfix := ''.jpg''\<rparr>"

lemma busy_encode_ok: "encode_ok busy_info"
proof -
  have "unat (url_hash busy_info) = 3419531857"
    by (simp add: url_hash_def busy_info_def Info0_def hash_eval)
  then show ?thesis by (auto simp: encode_ok_def address_ok_def busy_info_def Info0_def to_u32_def)
qed

end
