(* ===== verification/Http.thy ===== *)
theory Http
  imports CString
begin

text \<open>
  \<open>src/src/cwf/http.h\<close> and \<open>src/src/cwf/http.cc\<close>: the HTTP enumerations with their names, the
  classification of status codes and headers, attribute lists and RFC 1123 dates. Names are
  compared as \<open>strcasecmp\<close> does.
\<close>

section \<open>Names without case\<close>

definition fold_case :: "string \<Rightarrow> string" where
  "fold_case s = map tolower (c_str s)"

section \<open>Enumerations\<close>

text \<open>\<open>find_string\<close>: the first index with that name, \<open>None\<close> when there is none.\<close>

fun find_from :: "nat \<Rightarrow> string \<Rightarrow> string list \<Rightarrow> nat option" where
  "find_from index needle [] = None"
| "find_from index needle (h # hs) =
     (if fold_case needle = fold_case h then Some index else find_from (Suc index) needle hs)"

definition find_string :: "string \<Rightarrow> string list \<Rightarrow> nat option" where
  "find_string needle haystack = find_from 0 needle haystack"

datatype HttpStatusCode =
    HC_CONTINUE | HC_SWITCHING_PROTOCOLS | HC_PROCESSING
  | HC_OK | HC_CREATED | HC_ACCEPTED | HC_NON_AUTHORATIVE_INFORMATION | HC_NO_CONTENT | HC_RESET_CONTENT
  | HC_PARTIAL_CONTENT | HC_MULTI_STATUS
  | HC_MULTIPLE_CHOICES | HC_MOVED_PERMANENTLY | HC_FOUND | HC_SEE_OTHER | HC_NOT_MODIFIED | HC_USE_PROXY
  | HC_SWITCH_PROXY | HC_TEMPORARY_REDIRECT
  | HC_BAD_REQUEST | HC_UNAUTHORIZED | HC_PAYMENT_REQUIRED | HC_FORBIDDEN | HC_NOT_FOUND | HC_METHOD_NOT_ALLOWED
  | HC_NOT_ACCEPTABLE | HC_PROXY_AUTHENTICATION_REQUIRED | HC_REQUEST_TIMEOUT | HC_CONFLICT | HC_GONE
  | HC_LENGTH_REQUIRED | HC_PRECONDITION_FAILED | HC_REQUEST_ENTITY_TOO_LARGE | HC_REQUEST_URI_TOO_LONG
  | HC_UNSUPPORTED_MEDIA_TYPE | HC_REQUEST_RANGE_NOT_SATISFIABLE | HC_EXPECTATION_FAILED
  | HC_UNPROCESSABLE_ENTITY | HC_LOCKED | HC_FAILED_DEPENDENCY | HC_UNORDERED_COLLECTION | HC_UPGRADE_REQUIRED
  | HC_RETRY_WITH
  | HC_INTERNAL_SERVER_ERROR | HC_NOT_IMPLEMENTED | HC_BAD_GATEWAY | HC_SERVICE_UNAVAILABLE | HC_GATEWAY_TIMEOUT
  | HC_HTTP_VERSION_NOT_SUPPORTED | HC_INSUFFICIENT_STORAGE | HC_BANDWIDTH_LIMIT_EXCEEDED

primrec status_code :: "HttpStatusCode \<Rightarrow> nat" where
  "status_code HC_CONTINUE = 100"
| "status_code HC_SWITCHING_PROTOCOLS = 101"
| "status_code HC_PROCESSING = 102"
| "status_code HC_OK = 200"
| "status_code HC_CREATED = 201"
| "status_code HC_ACCEPTED = 202"
| "status_code HC_NON_AUTHORATIVE_INFORMATION = 203"
| "status_code HC_NO_CONTENT = 204"
| "status_code HC_RESET_CONTENT = 205"
| "status_code HC_PARTIAL_CONTENT = 206"
| "status_code HC_MULTI_STATUS = 207"
| "status_code HC_MULTIPLE_CHOICES = 300"
| "status_code HC_MOVED_PERMANENTLY = 301"
| "status_code HC_FOUND = 302"
| "status_code HC_SEE_OTHER = 303"
| "status_code HC_NOT_MODIFIED = 304"
| "status_code HC_USE_PROXY = 305"
| "status_code HC_SWITCH_PROXY = 306"
| "status_code HC_TEMPORARY_REDIRECT = 307"
| "status_code HC_BAD_REQUEST = 400"
| "status_code HC_UNAUTHORIZED = 401"
| "status_code HC_PAYMENT_REQUIRED = 402"
| "status_code HC_FORBIDDEN = 403"
| "status_code HC_NOT_FOUND = 404"
| "status_code HC_METHOD_NOT_ALLOWED = 405"
| "status_code HC_NOT_ACCEPTABLE = 406"
| "status_code HC_PROXY_AUTHENTICATION_REQUIRED = 407"
| "status_code HC_REQUEST_TIMEOUT = 408"
| "status_code HC_CONFLICT = 409"
| "status_code HC_GONE = 410"
| "status_code HC_LENGTH_REQUIRED = 411"
| "status_code HC_PRECONDITION_FAILED = 412"
| "status_code HC_REQUEST_ENTITY_TOO_LARGE = 413"
| "status_code HC_REQUEST_URI_TOO_LONG = 414"
| "status_code HC_UNSUPPORTED_MEDIA_TYPE = 415"
| "status_code HC_REQUEST_RANGE_NOT_SATISFIABLE = 416"
| "status_code HC_EXPECTATION_FAILED = 417"
| "status_code HC_UNPROCESSABLE_ENTITY = 422"
| "status_code HC_LOCKED = 423"
| "status_code HC_FAILED_DEPENDENCY = 424"
| "status_code HC_UNORDERED_COLLECTION = 425"
| "status_code HC_UPGRADE_REQUIRED = 426"
| "status_code HC_RETRY_WITH = 449"
| "status_code HC_INTERNAL_SERVER_ERROR = 500"
| "status_code HC_NOT_IMPLEMENTED = 501"
| "status_code HC_BAD_GATEWAY = 502"
| "status_code HC_SERVICE_UNAVAILABLE = 503"
| "status_code HC_GATEWAY_TIMEOUT = 504"
| "status_code HC_HTTP_VERSION_NOT_SUPPORTED = 505"
| "status_code HC_INSUFFICIENT_STORAGE = 506"
| "status_code HC_BANDWIDTH_LIMIT_EXCEEDED = 509"

datatype HttpVersion = HVER_1_0 | HVER_1_1 | HVER_X

datatype HttpVerb = HV_GET | HV_POST | HV_PUT | HV_DELETE | HV_CONNECT | HV_HEAD

datatype HttpHeader =
    HH_ACCEPT | HH_ACCEPT_CHARSET | HH_ACCEPT_ENCODING | HH_ACCEPT_LANGUAGE | HH_AGE | HH_CACHE_CONTROL
  | HH_CONNECTION | HH_CONTENT_LENGTH | HH_CONTENT_RANGE | HH_CONTENT_TYPE | HH_COOKIE | HH_DATE | HH_ETAG
  | HH_EXPIRES | HH_HOST | HH_IF_MODIFIED_SINCE | HH_IF_NONE_MATCH | HH_KEEP_ALIVE | HH_LAST_MODIFIED
  | HH_LOCATION | HH_PROXY_AUTHENTICATE | HH_PROXY_AUTHORIZATION | HH_PROXY_CONNECTION | HH_RANGE | HH_SERVER
  | HH_SET_COOKIE | HH_TE | HH_TRAILERS | HH_TRANSFER_ENCODING | HH_UPGRADE | HH_USER_AGENT | HH_WWW_AUTHENTICATE

text \<open>
  The values of an enumeration in order: an \<open>enum\<close> value is its position, and
  \<open>static_cast\<close> from a position is the element there. \<open>Name\<close> and \<open>Parse\<close> are the members of
  the template \<open>Enum<E>\<close> for given names and values.
\<close>

definition HttpVersions :: "HttpVersion list" where
  "HttpVersions = [HVER_1_0, HVER_1_1, HVER_X]"

definition HttpVerbs :: "HttpVerb list" where
  "HttpVerbs = [HV_GET, HV_POST, HV_PUT, HV_DELETE, HV_CONNECT, HV_HEAD]"

definition HttpHeaders :: "HttpHeader list" where
  "HttpHeaders =
    [HH_ACCEPT, HH_ACCEPT_CHARSET, HH_ACCEPT_ENCODING, HH_ACCEPT_LANGUAGE, HH_AGE, HH_CACHE_CONTROL,
     HH_CONNECTION, HH_CONTENT_LENGTH, HH_CONTENT_RANGE, HH_CONTENT_TYPE, HH_COOKIE, HH_DATE, HH_ETAG,
     HH_EXPIRES, HH_HOST, HH_IF_MODIFIED_SINCE, HH_IF_NONE_MATCH, HH_KEEP_ALIVE, HH_LAST_MODIFIED,
     HH_LOCATION, HH_PROXY_AUTHENTICATE, HH_PROXY_AUTHORIZATION, HH_PROXY_CONNECTION, HH_RANGE, HH_SERVER,
     HH_SET_COOKIE, HH_TE, HH_TRAILERS, HH_TRANSFER_ENCODING, HH_UPGRADE, HH_USER_AGENT, HH_WWW_AUTHENTICATE]"

definition kHttpVersions :: "string list" where
  "kHttpVersions = [''1.0'', ''1.1'', ''1.x'']"

definition kHttpVerbs :: "string list" where
  "kHttpVerbs = [''GET'', ''POST'', ''PUT'', ''DELETE'', ''CONNECT'', ''HEAD'']"

definition kHttpHeaders :: "string list" where
  "kHttpHeaders =
    [''Accept'', ''Accept-Charset'', ''Accept-Encoding'', ''Accept-Language'', ''Age'', ''Cache-Control'',
     ''Connection'', ''Content-Length'', ''Content-Range'', ''Content-Type'', ''Cookie'', ''Date'', ''ETag'',
     ''Expires'', ''Host'', ''If-Modified-Since'', ''If-None-Match'', ''Keep-Alive'', ''Last-Modified'',
     ''Location'', ''Proxy-Authenticate'', ''Proxy-Authorization'', ''Proxy-Connection'', ''Range'', ''Server'',
     ''Set-Cookie'', ''TE'', ''Trailers'', ''Transfer-Encoding'', ''Upgrade'', ''User-Agent'', ''WWW-Authenticate'']"

fun index_of :: "'e \<Rightarrow> 'e list \<Rightarrow> nat" where
  "index_of e [] = 0"
| "index_of e (v # vs) = (if e = v then 0 else Suc (index_of e vs))"

definition Enum_Name :: "string list \<Rightarrow> 'e list \<Rightarrow> 'e \<Rightarrow> string" where
  "Enum_Name names vals v = names ! index_of v vals"

definition Enum_Parse :: "string list \<Rightarrow> 'e list \<Rightarrow> string \<Rightarrow> 'e option" where
  "Enum_Parse names vals s = map_option (\<lambda>i. vals ! i) (find_string s names)"

definition ToString_version :: "HttpVersion \<Rightarrow> string" where
  "ToString_version = Enum_Name kHttpVersions HttpVersions"

definition FromString_version :: "string \<Rightarrow> HttpVersion option" where
  "FromString_version = Enum_Parse kHttpVersions HttpVersions"

definition ToString_verb :: "HttpVerb \<Rightarrow> string" where
  "ToString_verb = Enum_Name kHttpVerbs HttpVerbs"

definition FromString_verb :: "string \<Rightarrow> HttpVerb option" where
  "FromString_verb = Enum_Parse kHttpVerbs HttpVerbs"

definition ToString_header :: "HttpHeader \<Rightarrow> string" where
  "ToString_header = Enum_Name kHttpHeaders HttpHeaders"

definition FromString_header :: "string \<Rightarrow> HttpHeader option" where
  "FromString_header = Enum_Parse kHttpHeaders HttpHeaders"

section \<open>Classes of codes and headers\<close>

definition HttpCodeIsInformational :: "nat \<Rightarrow> bool" where
  "HttpCodeIsInformational code \<longleftrightarrow> code div 100 = 1"
definition HttpCodeIsSuccessful :: "nat \<Rightarrow> bool" where
  "HttpCodeIsSuccessful code \<longleftrightarrow> code div 100 = 2"
definition HttpCodeIsRedirection :: "nat \<Rightarrow> bool" where
  "HttpCodeIsRedirection code \<longleftrightarrow> code div 100 = 3"
definition HttpCodeIsClientError :: "nat \<Rightarrow> bool" where
  "HttpCodeIsClientError code \<longleftrightarrow> code div 100 = 4"
definition HttpCodeIsServerError :: "nat \<Rightarrow> bool" where
  "HttpCodeIsServerError code \<longleftrightarrow> code div 100 = 5"

definition HttpCodeHasBody :: "nat \<Rightarrow> bool" where
  "HttpCodeHasBody code \<longleftrightarrow> \<not> HttpCodeIsInformational code
     \<and> code \<noteq> status_code HC_NO_CONTENT \<and> code \<noteq> status_code HC_NOT_MODIFIED"

definition HttpCodeIsCacheable :: "nat \<Rightarrow> bool" where
  "HttpCodeIsCacheable code \<longleftrightarrow>
     code \<in> status_code ` {HC_OK, HC_UNAUTHORIZED, HC_PARTIAL_CONTENT, HC_MULTIPLE_CHOICES, HC_MOVED_PERMANENTLY, HC_GONE}"

definition HttpHeaderIsEndToEnd :: "HttpHeader \<Rightarrow> bool" where
  "HttpHeaderIsEndToEnd header \<longleftrightarrow>
     header \<notin> {HH_CONNECTION, HH_KEEP_ALIVE, HH_PROXY_AUTHENTICATE, HH_PROXY_AUTHORIZATION, HH_TE, HH_TRAILERS,
                HH_TRANSFER_ENCODING, HH_UPGRADE}"

definition HttpHeaderIsCollapsible :: "HttpHeader \<Rightarrow> bool" where
  "HttpHeaderIsCollapsible header \<longleftrightarrow> header \<notin> {HH_SET_COOKIE, HH_PROXY_AUTHENTICATE, HH_WWW_AUTHENTICATE}"

section \<open>Attribute lists\<close>

type_synonym HttpAttribute = "string \<times> string"

text \<open>The text from the current position on stands for the position.\<close>

fun IsEndOfAttributeName :: "string \<Rightarrow> bool" where
  "IsEndOfAttributeName [] = True"
| "IsEndOfAttributeName (c # cs) =
     (is_space c \<or> (c = CHR ''='' \<and> cs \<noteq> [] \<and> \<not> is_space (hd cs) \<and> hd cs \<noteq> CHR ''=''))"

fun attr_name :: "string \<Rightarrow> string \<times> string" where
  "attr_name [] = ([], [])"
| "attr_name (c # cs) =
     (if IsEndOfAttributeName (c # cs) then ([], c # cs)
      else case attr_name cs of (n, r) \<Rightarrow> (c # n, r))"

text \<open>The quoted value behind its opening quote: up to the closing one, with \<open>\\\<close> as escape.\<close>

fun quoted_value :: "string \<Rightarrow> string \<times> string" where
  "quoted_value [] = ([], [])"
| "quoted_value (c # cs) =
     (if c = CHR 0x22 then ([], cs)
      else if c = CHR 0x5C \<and> cs \<noteq> [] then case quoted_value (tl cs) of (v, r) \<Rightarrow> (hd cs # v, r)
      else case quoted_value cs of (v, r) \<Rightarrow> (c # v, r))"

fun plain_value :: "string \<Rightarrow> string \<times> string" where
  "plain_value [] = ([], [])"
| "plain_value (c # cs) =
     (if is_space c \<or> c = CHR '','' then ([], c # cs)
      else case plain_value cs of (v, r) \<Rightarrow> (c # v, r))"

definition attr_value :: "string \<Rightarrow> string \<times> string" where
  "attr_value s =
     (if s \<noteq> [] \<and> hd s = CHR ''='' then
        let s = tl s in if s \<noteq> [] \<and> hd s = CHR 0x22 then quoted_value (tl s) else plain_value s
      else ([], s))"

lemma attr_name_split: "attr_name s = (n, r) \<Longrightarrow> s = n @ r \<and> IsEndOfAttributeName r"
  by (induction s arbitrary: n) (auto split: if_splits prod.splits)

lemma quoted_value_len: "quoted_value s = (v, r) \<Longrightarrow> length r \<le> length s"
proof (induction s arbitrary: v r rule: quoted_value.induct)
  case (2 c cs)
  then show ?case by (cases cs) (force split: if_splits prod.splits)+
qed simp

lemma plain_value_len: "plain_value s = (v, r) \<Longrightarrow> length r \<le> length s"
  by (induction s arbitrary: v r) (force split: if_splits prod.splits)+

lemma attr_value_len: "attr_value s = (v, r) \<Longrightarrow> length r \<le> length s \<and> (s \<noteq> [] \<and> hd s = CHR ''='' \<longrightarrow> length r < length s)"
  by (cases s) (auto simp: attr_value_def Let_def split: if_splits
      dest!: quoted_value_len plain_value_len)

lemma attr_progress:
  assumes "s \<noteq> []" "\<not> is_space (hd s)" "attr_name s = (n, r)" "attr_value r = (v, t)"
  shows "length t < length s"
proof (cases "n = []")
  case False
  then show ?thesis using attr_name_split [OF assms(3)] attr_value_len [OF assms(4)] by (cases n) auto
next
  case True
  then have "s = r" "IsEndOfAttributeName s" using attr_name_split [OF assms(3)] by auto
  then have "hd s = CHR ''=''" using assms(1,2) by (cases s) auto
  then show ?thesis using attr_value_len [OF assms(4)] assms(1) \<open>s = r\<close> by simp
qed

definition skip_comma :: "string \<Rightarrow> string" where
  "skip_comma s = (if s \<noteq> [] \<and> hd s = CHR '','' then tl s else s)"

function HttpParseAttributes :: "string \<Rightarrow> HttpAttribute list" where
  "HttpParseAttributes data =
     (let s = dropWhile is_space data in
      if s = [] then []
      else let (n, r) = attr_name s; (v, t) = attr_value r
           in (n, v) # HttpParseAttributes (skip_comma t))"
  by pat_completeness auto
termination
proof (relation "measure length", goal_cases)
  case (2 data s x n r y v t)
  let ?s = "dropWhile is_space data"
  have s: "?s \<noteq> []" "\<not> is_space (hd ?s)" using 2 hd_dropWhile [of is_space data] by auto
  then have "length t < length ?s" using 2 attr_progress [OF s, of n r v t] by auto
  then show ?case
    using length_dropWhile_le [of is_space data] by (auto simp: skip_comma_def dest: le_less_trans less_le_trans)
qed simp

declare HttpParseAttributes.simps [simp del]

fun HttpHasAttribute :: "HttpAttribute list \<Rightarrow> string \<Rightarrow> string option" where
  "HttpHasAttribute [] name = None"
| "HttpHasAttribute ((n, v) # attrs) name = (if n = name then Some v else HttpHasAttribute attrs name)"

definition HttpHasNthAttribute :: "HttpAttribute list \<Rightarrow> nat \<Rightarrow> HttpAttribute option" where
  "HttpHasNthAttribute attrs index = (if length attrs \<le> index then None else Some (attrs ! index))"

section \<open>Dates\<close>

record tm =
  tm_mday :: int
  tm_mon :: int
  tm_year :: int
  tm_hour :: int
  tm_min :: int
  tm_sec :: int

definition kTimeZones :: "string list" where
  "kTimeZones =
    [''UT'', ''GMT'', ''EST'', ''EDT'', ''CST'', ''CDT'', ''MST'', ''MDT'', ''PST'', ''PDT'']
    @ map (\<lambda>c. [c]) ''ABCDEFGHIKLM'' @ map (\<lambda>c. [c]) ''NOPQRSTUVWXY''"

definition kTimeZoneOffsets :: "int list" where
  "kTimeZoneOffsets =
    [0, 0, -5, -4, -6, -5, -7, -6, -8, -7,
     -1, -2, -3, -4, -5, -6, -7, -8, -9, -10, -11, -12,
     1, 2, 3, 4, 5, 6, 7, 8, 9, 10, 11, 12]"

text \<open>
  The conversions of the \<open>sscanf\<close> format: a word of bounded width, a decimal number, a run of
  characters, a literal character. Each yields what was read and the rest of the input.
\<close>

definition scan_word :: "nat \<Rightarrow> string \<Rightarrow> (string \<times> string) option" where
  "scan_word n s =
     (let s = dropWhile is_space s; w = take n (takeWhile (\<lambda>c. \<not> is_space c) s)
      in if w = [] then None else Some (w, drop (length w) s))"

definition scan_int :: "string \<Rightarrow> (int \<times> string) option" where
  "scan_int s =
     (let s = dropWhile is_space s;
          neg = (s \<noteq> [] \<and> hd s = CHR ''-'');
          s = (if s \<noteq> [] \<and> hd s \<in> {CHR ''-'', CHR ''+''} then tl s else s);
          ds = takeWhile is_digit s;
          n = int (digits_val 10 (digits_of s))
      in if ds = [] then None
         else Some (wrap32 (if neg then max (- (2 ^ 63)) (- n) else min (2 ^ 63 - 1) n), drop (length ds) s))"

definition scan_chars :: "nat \<Rightarrow> string \<Rightarrow> (string \<times> string) option" where
  "scan_chars n s = (if s = [] then None else Some (take n s, drop n s))"

definition scan_lit :: "char \<Rightarrow> string \<Rightarrow> string option" where
  "scan_lit c s = (if s \<noteq> [] \<and> hd s = c then Some (tl s) else None)"

text \<open>\<open>"%*3s, %d %3s %d %d:%d:%d %5c"\<close>; \<open>None\<close> when fewer than seven conversions succeed.\<close>

definition scan_date :: "string \<Rightarrow> (int \<times> string \<times> int \<times> int \<times> int \<times> int \<times> string) option" where
  "scan_date s =
     Option.bind (scan_word 3 s) (\<lambda>(_, s).
     Option.bind (scan_lit (CHR '','') s) (\<lambda>s.
     Option.bind (scan_int s) (\<lambda>(mday, s).
     Option.bind (scan_word 3 s) (\<lambda>(month, s).
     Option.bind (scan_int s) (\<lambda>(year, s).
     Option.bind (scan_int s) (\<lambda>(hour, s).
     Option.bind (scan_lit (CHR '':'') s) (\<lambda>s.
     Option.bind (scan_int s) (\<lambda>(mn, s).
     Option.bind (scan_lit (CHR '':'') s) (\<lambda>s.
     Option.bind (scan_int s) (\<lambda>(sec, s).
     Option.bind (scan_chars 5 (dropWhile is_space s)) (\<lambda>(zone, s).
       Some (mday, month, year, hour, mn, sec, zone))))))))))))"

text \<open>The \<open>switch\<close> over the third letter; the buffer behind a short name holds NULs.\<close>

definition month_number :: "string \<Rightarrow> int" where
  "month_number month =
     (let m = month @ replicate 4 NUL; c = toupper (m ! 2)
      in if c = CHR ''N'' then if m ! 1 = CHR ''A'' then 0 else 5
         else if c = CHR ''B'' then 1
         else if c = CHR ''R'' then if m ! 0 = CHR ''M'' then 2 else 3
         else if c = CHR ''Y'' then 4
         else if c = CHR ''L'' then 6
         else if c = CHR ''G'' then 7
         else if c = CHR ''P'' then 8
         else if c = CHR ''T'' then 9
         else if c = CHR ''V'' then 10
         else if c = CHR ''C'' then 11
         else 0)"

text \<open>
  \<open>mktime\<close> and \<open>timezone\<close> depend on the time zone of the process and are arguments. The
  \<open>gmt\<close> of a numeric zone is the value of the expression as C++ groups it: the condition of
  \<open>?:\<close> is the whole sum.
\<close>

definition HttpDateToSeconds :: "(tm \<Rightarrow> int) \<Rightarrow> int \<Rightarrow> string \<Rightarrow> nat option" where
  "HttpDateToSeconds mktime timezone date =
     (case scan_date (c_str date) of
        None \<Rightarrow> None
      | Some (mday, month, year, hour, mn, sec, zone) \<Rightarrow>
          let tval = \<lparr>tm_mday = mday, tm_mon = month_number month, tm_year = wrap32 (year - 1900), tm_hour = hour,
                      tm_min = mn, tm_sec = sec\<rparr>;
              non_gmt = to_size (mktime tval);
              z = zone @ replicate 6 NUL;
              gmt = (if z ! 0 = CHR ''+'' \<or> z ! 0 = CHR ''-'' then
                       if \<not> is_digit (z ! 1) \<or> \<not> is_digit (z ! 2) \<or> \<not> is_digit (z ! 3) \<or> \<not> is_digit (z ! 4) then None
                       else
                         let hours = (of_char (z ! 1) - 48) * 10 + (of_char (z ! 2) - 48);
                             minutes = (of_char (z ! 3) - 48) * 10 + (of_char (z ! 4) - 48);
                             offset = (hours * 60 + minutes) * 60 :: int
                         in Some (if szadd non_gmt (if z ! 0 = CHR ''+'' then 1 else 0) \<noteq> 0 then to_size offset
                                  else to_size (- offset))
                     else map_option (\<lambda>zindex. to_size (int non_gmt + kTimeZoneOffsets ! zindex * 60 * 60))
                            (find_string (c_str zone) kTimeZones))
          in map_option (\<lambda>gmt. to_size (int gmt - timezone)) gmt)"

section \<open>The interface of a named enumeration\<close>

text \<open>
  What the users of \<open>ToString\<close> and \<open>FromString\<close> rely on: as many names as values, none twice
  up to case.
\<close>

locale named_enum =
  fixes names :: "string list" and vals :: "'e list"
  assumes same_length: "length names = length vals"
    and all_vals: "v \<in> set vals"
    and distinct_names: "distinct (map fold_case names)"
    and distinct_vals: "distinct vals"
begin

lemma find_from_nth:
  "distinct (map fold_case ns) \<Longrightarrow> i < length ns \<Longrightarrow> fold_case s = fold_case (ns ! i) \<Longrightarrow> find_from k s ns = Some (k + i)"
proof (induction ns arbitrary: i k)
  case (Cons n ns)
  show ?case
  proof (cases i)
    case (Suc j)
    then have "fold_case (ns ! j) \<in> fold_case ` set ns" using Cons.prems by simp
    moreover have "fold_case n \<notin> fold_case ` set ns" "fold_case s = fold_case (ns ! j)"
      using Cons.prems Suc by auto
    ultimately have "fold_case s \<noteq> fold_case n" by metis
    then show ?thesis using Cons.IH [of j "Suc k"] Cons.prems Suc by simp
  qed (use Cons.prems in simp)
qed simp

lemma find_from_sound:
  "find_from k s ns = Some i \<Longrightarrow> k \<le> i \<and> i - k < length ns \<and> fold_case s = fold_case (ns ! (i - k))"
proof (induction ns arbitrary: k)
  case (Cons n ns)
  show ?case
  proof (cases "fold_case s = fold_case n")
    case False
    then have "Suc k \<le> i \<and> i - Suc k < length ns \<and> fold_case s = fold_case (ns ! (i - Suc k))"
      using Cons by simp
    moreover from this have "i - k = Suc (i - Suc k)" by linarith
    ultimately show ?thesis by simp
  qed (use Cons.prems in simp)
qed simp

lemma index_of_nth: "vs = vals \<Longrightarrow> index_of v vs < length vs \<and> vs ! index_of v vs = v"
proof -
  have "v \<in> set ws \<Longrightarrow> index_of v ws < length ws \<and> ws ! index_of v ws = v" for ws :: "'e list"
    by (induction ws) auto
  then show "vs = vals \<Longrightarrow> ?thesis" using all_vals by blast
qed

lemma index_of_unique: "i < length vals \<Longrightarrow> index_of (vals ! i) vals = i"
  using index_of_nth [OF refl, of "vals ! i"] nth_eq_iff_index_eq [OF distinct_vals, of "index_of (vals ! i) vals" i]
  by simp

text \<open>Parsing finds a value exactly by its name, in any case.\<close>

lemma Parse_iff: "Enum_Parse names vals s = Some v \<longleftrightarrow> fold_case s = fold_case (Enum_Name names vals v)"
proof
  assume "fold_case s = fold_case (Enum_Name names vals v)"
  then show "Enum_Parse names vals s = Some v"
    using index_of_nth [OF refl, of v] find_from_nth [OF distinct_names, of "index_of v vals" s 0] same_length
    by (simp add: Enum_Parse_def Enum_Name_def find_string_def)
next
  assume "Enum_Parse names vals s = Some v"
  then obtain i where "find_from 0 s names = Some i" "v = vals ! i"
    by (auto simp: Enum_Parse_def find_string_def)
  then show "fold_case s = fold_case (Enum_Name names vals v)"
    using find_from_sound [of 0 s names i] index_of_unique [of i] same_length by (simp add: Enum_Name_def)
qed

lemma Parse_Name: "Enum_Parse names vals (Enum_Name names vals v) = Some v"
  by (simp add: Parse_iff)

lemma Name_inject: "Enum_Name names vals v = Enum_Name names vals w \<Longrightarrow> v = w"
  using Parse_Name by (metis option.inject)

end

lemma fold_case_eval: "fold_case s = map tolower (takeWhile (\<lambda>c. c \<noteq> NUL) s)"
  by (simp add: fold_case_def c_str_def)

interpretation versions: named_enum kHttpVersions HttpVersions
proof
  show "length kHttpVersions = length HttpVersions" by code_simp
  show "v \<in> set HttpVersions" for v by (cases v) (simp_all add: HttpVersions_def)
  show "distinct (map fold_case kHttpVersions)" by code_simp
  show "distinct HttpVersions" by code_simp
qed

interpretation verbs: named_enum kHttpVerbs HttpVerbs
proof
  show "length kHttpVerbs = length HttpVerbs" by code_simp
  show "v \<in> set HttpVerbs" for v by (cases v) (simp_all add: HttpVerbs_def)
  show "distinct (map fold_case kHttpVerbs)" by code_simp
  show "distinct HttpVerbs" by code_simp
qed

interpretation headers: named_enum kHttpHeaders HttpHeaders
proof
  show "length kHttpHeaders = length HttpHeaders" by code_simp
  show "v \<in> set HttpHeaders" for v by (cases v) (simp_all add: HttpHeaders_def)
  show "distinct (map fold_case kHttpHeaders)" by code_simp
  show "distinct HttpHeaders" by code_simp
qed

section \<open>Printing attributes\<close>

fun escape_quoted :: "string \<Rightarrow> string" where
  "escape_quoted [] = []"
| "escape_quoted (c # cs) =
     (if c = CHR 0x22 \<or> c = CHR 0x5C then CHR 0x5C # c # escape_quoted cs else c # escape_quoted cs)"

fun show_attributes :: "HttpAttribute list \<Rightarrow> string" where
  "show_attributes [] = []"
| "show_attributes ((n, v) # attrs) =
     n @ [CHR ''='', CHR 0x22] @ escape_quoted v @ [CHR 0x22] @ (if attrs = [] then [] else CHR '','' # show_attributes attrs)"

lemma quoted_value_escape: "quoted_value (escape_quoted v @ CHR 0x22 # r) = (v, r)"
  by (induction v) auto

lemma attr_name_plain:
  assumes "\<And>c. c \<in> set n \<Longrightarrow> \<not> is_space c \<and> c \<noteq> CHR ''=''"
  shows "attr_name (n @ CHR ''='' # CHR 0x22 # r) = (n, CHR ''='' # CHR 0x22 # r)"
  using assms
proof (induction n)
  case Nil
  then show ?case by (simp add: is_space_def)
qed auto

lemma parse_show_attributes:
  assumes "\<And>n v c. (n, v) \<in> set attrs \<Longrightarrow> c \<in> set n \<Longrightarrow> \<not> is_space c \<and> c \<noteq> CHR ''=''"
  shows "HttpParseAttributes (show_attributes attrs) = attrs"
  using assms
proof (induction attrs)
  case Nil
  then show ?case by (simp add: HttpParseAttributes.simps)
next
  case (Cons a attrs)
  obtain n v where a: "a = (n, v)" by (cases a)
  have n: "\<And>c. c \<in> set n \<Longrightarrow> \<not> is_space c \<and> c \<noteq> CHR ''=''" using Cons.prems a by auto
  define rest where "rest = (if attrs = [] then [] else CHR '','' # show_attributes attrs)"
  let ?s = "n @ CHR ''='' # CHR 0x22 # escape_quoted v @ CHR 0x22 # rest"
  have p: "show_attributes (a # attrs) = ?s" by (simp add: a rest_def)
  have "\<not> is_space (hd ?s)" using n by (cases n) (auto simp: is_space_def)
  then have d: "dropWhile is_space ?s = ?s" by (cases ?s) auto
  have val: "attr_value (CHR ''='' # CHR 0x22 # escape_quoted v @ CHR 0x22 # rest) = (v, rest)"
    by (simp add: attr_value_def quoted_value_escape)
  have nm: "attr_name ?s = (n, CHR ''='' # CHR 0x22 # escape_quoted v @ CHR 0x22 # rest)"
    using n by (rule attr_name_plain)
  have "HttpParseAttributes ?s = (n, v) # HttpParseAttributes (skip_comma rest)"
    unfolding HttpParseAttributes.simps [of ?s] Let_def d nm prod.case val by simp
  moreover have "HttpParseAttributes (show_attributes attrs) = attrs"
  proof (rule Cons.IH)
    fix n v c
    assume "(n, v) \<in> set attrs" "c \<in> set n"
    then show "\<not> is_space c \<and> c \<noteq> CHR ''=''" using Cons.prems [of n v c] by simp
  qed
  then have "HttpParseAttributes (skip_comma rest) = attrs"
    by (cases "attrs = []") (simp_all add: skip_comma_def rest_def HttpParseAttributes.simps [of "[]"])
  ultimately show ?case unfolding p by (simp add: a)
qed

lemma HttpHasAttribute_map_of: "HttpHasAttribute attrs name = map_of attrs name"
  by (induction attrs) auto

section \<open>Properties\<close>

text \<open>
  For versions, verbs and headers, \<open>FromString\<close> finds a value exactly by its name in upper or
  lower case, so it takes back what \<open>ToString\<close> gave.
\<close>

theorem http_enum_round_trip:
  "(FromString_version s = Some v \<longleftrightarrow> fold_case s = fold_case (ToString_version v))
   \<and> (FromString_verb s = Some m \<longleftrightarrow> fold_case s = fold_case (ToString_verb m))
   \<and> (FromString_header s = Some h \<longleftrightarrow> fold_case s = fold_case (ToString_header h))
   \<and> FromString_header (ToString_header h) = Some h"
  unfolding FromString_version_def ToString_version_def FromString_verb_def ToString_verb_def
    FromString_header_def ToString_header_def
  by (simp add: versions.Parse_iff verbs.Parse_iff headers.Parse_iff)

text \<open>
  \<open>HttpParseAttributes\<close> reads back any attribute list that was printed with quoted and
  escaped values, whatever bytes the values hold; names may not hold white space or \<open>=\<close>.
\<close>

theorem attributes_round_trip:
  assumes "\<And>n v c. (n, v) \<in> set attrs \<Longrightarrow> c \<in> set n \<Longrightarrow> \<not> is_space c \<and> c \<noteq> CHR ''=''"
  shows "HttpParseAttributes (show_attributes attrs) = attrs"
  using assms by (rule parse_show_attributes)

theorem attributes_round_trip_witness:
  "HttpParseAttributes (show_attributes [(''realm'', ''a, b''), (''nonce'', [CHR 0x22, CHR 0x5C])])
     = [(''realm'', ''a, b''), (''nonce'', [CHR 0x22, CHR 0x5C])]"
  by (rule attributes_round_trip) (auto simp: is_space_def)

text \<open>
  A date with a numeric zone is not converted at all: the sum of the time and the sign is the
  condition of the conditional expression, so the result is the zone offset for almost every
  date, with the sign of the zone ignored.
\<close>

theorem numeric_zone_loses_date:
  assumes "mktime \<lparr>tm_mday = 6, tm_mon = 10, tm_year = 94, tm_hour = 8, tm_min = 49, tm_sec = 37\<rparr> = t"
    and "0 < t" "t < 2 ^ 63"
  shows "HttpDateToSeconds mktime 0 ''Sun, 06 Nov 1994 08:49:37 +0100'' = Some 3600
    \<and> HttpDateToSeconds mktime 0 ''Sun, 06 Nov 1994 08:49:37 -0100'' = Some 3600"
proof -
  have sc: "scan_date (c_str ''Sun, 06 Nov 1994 08:49:37 +0100'') = Some (6, ''Nov'', 1994, 8, 49, 37, ''+0100'')"
      "scan_date (c_str ''Sun, 06 Nov 1994 08:49:37 -0100'') = Some (6, ''Nov'', 1994, 8, 49, 37, ''-0100'')"
      "month_number ''Nov'' = 10" "wrap32 (1994 - 1900) = 94"
    by code_simp+
  have ts: "to_size t = nat t" using assms(2,3) by (simp add: to_size_id)
  have nz: "szadd (nat t) 1 \<noteq> 0" "szadd (nat t) 0 \<noteq> 0"
    using assms(2,3) szadd_less [of "nat t" 1] szadd_less [of "nat t" 0] by auto
  show ?thesis
    unfolding HttpDateToSeconds_def sc option.case prod.case Let_def assms(1) ts
    using nz by (simp add: is_digit_def to_size_def)
qed

theorem numeric_zone_loses_date_witness:
  "HttpDateToSeconds (\<lambda>_. 784111777) 0 ''Sun, 06 Nov 1994 08:49:37 +0100'' = Some 3600"
  using numeric_zone_loses_date [of "\<lambda>_. 784111777" 784111777] by simp

text \<open>
  January is taken for June: the second letter of the month is compared with an upper-case
  \<open>A\<close> without folding its case.
\<close>

theorem January_is_June:
  "HttpDateToSeconds tm_mon 0 ''Sat, 01 Jan 2011 00:00:00 GMT'' = Some 5
   \<and> HttpDateToSeconds tm_mon 0 ''Wed, 01 Jun 2011 00:00:00 GMT'' = Some 5
   \<and> HttpDateToSeconds tm_mon 0 ''Tue, 01 Feb 2011 00:00:00 GMT'' = Some 1"
proof -
  have sc: "scan_date (c_str ''Sat, 01 Jan 2011 00:00:00 GMT'') = Some (1, ''Jan'', 2011, 0, 0, 0, ''GMT'')"
      "scan_date (c_str ''Wed, 01 Jun 2011 00:00:00 GMT'') = Some (1, ''Jun'', 2011, 0, 0, 0, ''GMT'')"
      "scan_date (c_str ''Tue, 01 Feb 2011 00:00:00 GMT'') = Some (1, ''Feb'', 2011, 0, 0, 0, ''GMT'')"
      "month_number ''Jan'' = 5" "month_number ''Jun'' = 5" "month_number ''Feb'' = 1"
      "find_string (c_str ''GMT'') kTimeZones = Some 1"
    by code_simp+
  show ?thesis
    unfolding HttpDateToSeconds_def sc option.case prod.case Let_def
    by (simp add: sc to_size_def kTimeZoneOffsets_def)
qed

end
