(* ===== verification/StringEncode.thy ===== *)
theory StringEncode
  imports CString
begin

text \<open>
  \<open>src/src/base3/stringencode.cc\<close>: escaping, percent, hexadecimal, XML and HTML encodings and UTF-8.

  Every routine fills a buffer of \<open>buflen\<close> bytes from the left and ends it with a zero byte. The
  model returns the bytes in front of that zero: \<open>bufpos\<close> is their number, which is also what the C
  function returns, and the zero byte is stored at that position. A routine stays inside its buffer
  exactly when it returns fewer than \<open>buflen\<close> bytes. \<open>srcpos\<close> is the position where the rest of
  the source begins. Assertions are off, as in a release build.
\<close>

unbundle bit_operations_syntax

section \<open>Hexadecimal digits\<close>

definition HEX :: string where
  "HEX = ''0123456789abcdef''"

definition hex_encode_digit :: "nat \<Rightarrow> char" where
  "hex_encode_digit val = (if val < 16 then HEX ! val else CHR ''!'')"

definition hex_decode_digit :: "char \<Rightarrow> nat" where
  "hex_decode_digit ch =
     (let lower = tolower ch
      in nat ((if schar ch \<le> schar (CHR ''9'') then schar ch - schar (CHR ''0'')
               else (schar lower - schar (CHR ''a'')) + 10) mod 256))"

text \<open>The two digits of a byte, and the byte of two digits.\<close>

definition hex_pair :: "char \<Rightarrow> string" where
  "hex_pair ch = [hex_encode_digit (drop_bit 4 (of_char ch) AND 0xF), hex_encode_digit (of_char ch AND 0xF)]"

definition unhex_pair :: "char \<Rightarrow> char \<Rightarrow> char" where
  "unhex_pair a b = char_of (push_bit 4 (hex_decode_digit a) OR hex_decode_digit b)"

section \<open>Escaping with a character\<close>

text \<open>\<open>strchr\<close> also finds the terminating zero.\<close>

definition strchr :: "string \<Rightarrow> char \<Rightarrow> bool" where
  "strchr illegal ch \<longleftrightarrow> ch \<in> set (c_str illegal) \<or> ch = NUL"

fun escape_loop :: "string \<Rightarrow> char \<Rightarrow> nat \<Rightarrow> string \<Rightarrow> string \<Rightarrow> string" where
  "escape_loop illegal esc buflen out [] = out"
| "escape_loop illegal esc buflen out (ch # source) =
     (if length out + 1 < buflen then
        if ch = esc \<or> strchr illegal ch then
          if buflen \<le> length out + 2 then out
          else escape_loop illegal esc buflen (out @ [esc, ch]) source
        else escape_loop illegal esc buflen (out @ [ch]) source
      else out)"

definition escape :: "string \<Rightarrow> char \<Rightarrow> nat \<Rightarrow> string \<Rightarrow> string" where
  "escape illegal esc buflen source = (if buflen = 0 then [] else escape_loop illegal esc buflen [] source)"

function unescape_loop :: "char \<Rightarrow> nat \<Rightarrow> string \<Rightarrow> string \<Rightarrow> string" where
  "unescape_loop esc buflen out [] = out"
| "unescape_loop esc buflen out (ch # source) =
     (if length out + 1 < buflen then
        if ch = esc \<and> source \<noteq> [] then unescape_loop esc buflen (out @ [hd source]) (tl source)
        else unescape_loop esc buflen (out @ [ch]) source
      else out)"
  by pat_completeness auto
termination
  by (relation "measure (\<lambda>(_, _, _, s). length s)") auto

definition unescape :: "char \<Rightarrow> nat \<Rightarrow> string \<Rightarrow> string" where
  "unescape esc buflen source = (if buflen = 0 then [] else unescape_loop esc buflen [] source)"

section \<open>Escaping with hexadecimal digits\<close>

fun encode_loop :: "string \<Rightarrow> char \<Rightarrow> nat \<Rightarrow> string \<Rightarrow> string \<Rightarrow> string" where
  "encode_loop illegal esc buflen out [] = out"
| "encode_loop illegal esc buflen out (ch # source) =
     (if length out + 1 < buflen then
        if ch \<noteq> esc \<and> \<not> strchr illegal ch then encode_loop illegal esc buflen (out @ [ch]) source
        else if buflen \<le> length out + 3 then out
        else encode_loop illegal esc buflen (out @ esc # hex_pair ch) source
      else out)"

definition encode :: "string \<Rightarrow> char \<Rightarrow> nat \<Rightarrow> string \<Rightarrow> string" where
  "encode illegal esc buflen source = (if buflen = 0 then [] else encode_loop illegal esc buflen [] source)"

fun decode_loop :: "char \<Rightarrow> nat \<Rightarrow> string \<Rightarrow> string \<Rightarrow> string" where
  "decode_loop esc buflen out [] = out"
| "decode_loop esc buflen out [ch] = (if length out + 1 < buflen then out @ [ch] else out)"
| "decode_loop esc buflen out [ch, a] =
     (if length out + 1 < buflen then decode_loop esc buflen (out @ [ch]) [a] else out)"
| "decode_loop esc buflen out (ch # a # b # source) =
     (if length out + 1 < buflen then
        if ch = esc then decode_loop esc buflen (out @ [unhex_pair a b]) source
        else decode_loop esc buflen (out @ [ch]) (a # b # source)
      else out)"

definition decode :: "char \<Rightarrow> nat \<Rightarrow> string \<Rightarrow> string" where
  "decode esc buflen source = (if buflen = 0 then [] else decode_loop esc buflen [] source)"

definition unsafe_filename_characters :: string where
  "unsafe_filename_characters = [CHR 0x5C, CHR ''/'', CHR '':'', CHR ''*'', CHR ''?'', CHR 0x22, CHR ''<'', CHR ''>'', CHR ''|'']"

section \<open>URLs\<close>

definition URL_UNSAFE :: nat where
  "URL_UNSAFE = 0x1"

definition XML_UNSAFE :: nat where
  "XML_UNSAFE = 0x2"

definition HTML_UNSAFE :: nat where
  "HTML_UNSAFE = 0x2"

definition ASCII_CLASS :: "nat list" where
  "ASCII_CLASS = replicate 32 1 @
     [1,0,3,1,1,1,3,2,0,0,0,1,1,0,0,1,0,0,0,0,0,0,0,0,0,0,1,1,3,1,3,1,
      1,0,0,0,0,0,0,0,0,0,0,0,0,0,0,0,0,0,0,0,0,0,0,0,0,0,0,1,1,1,1,0,
      1,0,0,0,0,0,0,0,0,0,0,0,0,0,0,0,0,0,0,0,0,0,0,0,0,0,0,1,1,1,0,1]"

definition class_has :: "char \<Rightarrow> nat \<Rightarrow> bool" where
  "class_has ch bits \<longleftrightarrow> (of_char ch :: nat) < 128 \<and> (ASCII_CLASS ! of_char ch) AND bits \<noteq> 0"

text \<open>
  The \<open>Transform\<close> type: \<open>None\<close> is a null buffer, for which the routine returns an estimate of the
  space it needs and writes nothing.
\<close>

type_synonym Transform = "nat option \<Rightarrow> string \<Rightarrow> nat \<times> string"

fun url_encode_loop :: "nat \<Rightarrow> string \<Rightarrow> string \<Rightarrow> string" where
  "url_encode_loop buflen out [] = out"
| "url_encode_loop buflen out (ch # source) =
     (if length out + 1 < buflen then
        if class_has ch URL_UNSAFE then
          if buflen \<le> length out + 3 then out
          else url_encode_loop buflen (out @ CHR ''%'' # hex_pair ch) source
        else url_encode_loop buflen (out @ [ch]) source
      else out)"

fun url_encode :: Transform where
  "url_encode None source = (length source * 3 + 1, [])"
| "url_encode (Some buflen) source =
     (let out = (if buflen = 0 then [] else url_encode_loop buflen [] source) in (length out, out))"

fun url_decode_loop :: "nat \<Rightarrow> string \<Rightarrow> string \<Rightarrow> string" where
  "url_decode_loop buflen out [] = out"
| "url_decode_loop buflen out [ch] =
     (if length out + 1 < buflen then out @ [if ch = CHR ''+'' then CHR '' '' else ch] else out)"
| "url_decode_loop buflen out [ch, a] =
     (if length out + 1 < buflen
      then url_decode_loop buflen (out @ [if ch = CHR ''+'' then CHR '' '' else ch]) [a] else out)"
| "url_decode_loop buflen out (ch # a # b # source) =
     (if length out + 1 < buflen then
        if ch = CHR ''+'' then url_decode_loop buflen (out @ [CHR '' '']) (a # b # source)
        else if ch = CHR ''%'' then url_decode_loop buflen (out @ [unhex_pair a b]) source
        else url_decode_loop buflen (out @ [ch]) (a # b # source)
      else out)"

fun url_decode :: Transform where
  "url_decode None source = (length source + 1, [])"
| "url_decode (Some buflen) source =
     (let out = (if buflen = 0 then [] else url_decode_loop buflen [] source) in (length out, out))"

text \<open>
  The same loop when buffer and source are one array: \<open>mem\<close> is the array, read at \<open>srcpos\<close> and
  written at \<open>bufpos\<close>. The result is the array and the final \<open>bufpos\<close>.
\<close>

function url_decode_in_place :: "nat \<Rightarrow> nat \<Rightarrow> nat \<Rightarrow> nat \<Rightarrow> string \<Rightarrow> string \<times> nat" where
  "url_decode_in_place buflen srclen srcpos bufpos mem =
     (if srcpos < srclen \<and> bufpos + 1 < buflen then
        let ch = mem ! srcpos; srcpos = srcpos + 1 in
        if ch = CHR ''+'' then
          url_decode_in_place buflen srclen srcpos (bufpos + 1) (mem[bufpos := CHR '' ''])
        else if ch = CHR ''%'' \<and> srcpos + 1 < srclen then
          url_decode_in_place buflen srclen (srcpos + 2) (bufpos + 1)
            (mem[bufpos := unhex_pair (mem ! srcpos) (mem ! (srcpos + 1))])
        else url_decode_in_place buflen srclen srcpos (bufpos + 1) (mem[bufpos := ch])
      else (mem[bufpos := NUL], bufpos))"
  by pat_completeness auto
termination
  by (relation "measure (\<lambda>(_, srclen, srcpos, _, _). srclen - srcpos)") auto

declare url_decode_in_place.simps [simp del]

section \<open>UTF-8\<close>

text \<open>The number of bytes used and the value; \<open>None\<close> for the result 0.\<close>

definition utf8_decode :: "string \<Rightarrow> (nat \<times> nat) option" where
  "utf8_decode source =
     (let s = map of_char source :: nat list; srclen = length source in
      if s ! 0 AND 0x80 = 0x00 then Some (1, s ! 0)
      else if srclen < 2 \<or> s ! 1 AND 0xC0 \<noteq> 0x80 then None
      else let value16 = s ! 1 AND 0x3F in
        if s ! 0 AND 0xE0 = 0xC0 then Some (2, push_bit 6 (s ! 0 AND 0x1F) OR value16)
        else if srclen < 3 \<or> s ! 2 AND 0xC0 \<noteq> 0x80 then None
        else let value16 = push_bit 6 value16 OR (s ! 2 AND 0x3F) in
          if s ! 0 AND 0xF0 = 0xE0 then Some (3, push_bit 12 (s ! 0 AND 0x0F) OR value16)
          else if srclen < 4 \<or> s ! 3 AND 0xC0 \<noteq> 0x80 then None
          else let value16 = push_bit 6 value16 OR (s ! 3 AND 0x3F) in
            if s ! 0 AND 0xF8 = 0xF0 then Some (4, push_bit 18 (s ! 0 AND 0x07) OR value16)
            else None)"

text \<open>The bytes written; none for the result 0.\<close>

definition utf8_encode :: "nat \<Rightarrow> nat \<Rightarrow> string" where
  "utf8_encode buflen value =
     (if value \<le> 0x7F \<and> 1 \<le> buflen then [char_of value]
      else if value \<le> 0x7FF \<and> 2 \<le> buflen then
        [char_of (0xC0 OR (drop_bit 6 value)), char_of (0x80 OR (value AND 0x3F))]
      else if value \<le> 0xFFFF \<and> 3 \<le> buflen then
        [char_of (0xE0 OR (drop_bit 12 value)), char_of (0x80 OR (drop_bit 6 value AND 0x3F)),
         char_of (0x80 OR (value AND 0x3F))]
      else if value \<le> 0x1FFFFF \<and> 4 \<le> buflen then
        [char_of (0xF0 OR (drop_bit 18 value)), char_of (0x80 OR (drop_bit 12 value AND 0x3F)),
         char_of (0x80 OR (drop_bit 6 value AND 0x3F)), char_of (0x80 OR (value AND 0x3F))]
      else [])"

section \<open>Markup\<close>

definition entity :: "char \<Rightarrow> string \<Rightarrow> string" where
  "entity ch apos =
     (if ch = CHR ''<'' then ''&lt;'' else if ch = CHR ''>'' then ''&gt;''
      else if ch = CHR 0x27 then apos else if ch = CHR 0x22 then ''&quot;'' else ''&amp;'')"

definition numeric_entity :: "nat \<Rightarrow> string" where
  "numeric_entity val = ''&#'' @ show_nat val @ '';''"

function html_encode_loop :: "nat \<Rightarrow> string \<Rightarrow> string \<Rightarrow> string" where
  "html_encode_loop buflen out source =
     (if source \<noteq> [] \<and> length out + 1 < buflen then
        let ch = hd source in
        if (of_char ch :: nat) < 128 then
          if class_has ch HTML_UNSAFE then
            let escseq = entity ch ''&#39;'' in
            if buflen \<le> length out + length escseq then out
            else html_encode_loop buflen (out @ escseq) (tl source)
          else html_encode_loop buflen (out @ [ch]) (tl source)
        else
          let (vallen, val) = (case utf8_decode source of Some (n, v) \<Rightarrow> (n, v) | None \<Rightarrow> (1, of_char ch));
              escseq = numeric_entity val in
          if buflen \<le> length out + length escseq then out
          else html_encode_loop buflen (out @ escseq) (drop vallen source)
      else out)"
  by pat_completeness auto
termination
proof (relation "measure (\<lambda>(_, _, s). length s)", goal_cases)
  case (4 buflen out source ch p vallen val escseq)
  have "1 \<le> vallen"
    using 4 by (auto simp: utf8_decode_def Let_def split: option.splits if_splits)
  then show ?case using 4 by simp
qed auto

declare html_encode_loop.simps [simp del]

definition html_encode :: "nat \<Rightarrow> string \<Rightarrow> string" where
  "html_encode buflen source = (if buflen = 0 then [] else html_encode_loop buflen [] source)"

fun xml_encode_loop :: "nat \<Rightarrow> string \<Rightarrow> string \<Rightarrow> string" where
  "xml_encode_loop buflen out [] = out"
| "xml_encode_loop buflen out (ch # source) =
     (if length out + 1 < buflen then
        if class_has ch XML_UNSAFE then
          let escseq = entity ch ''&apos;'' in
          if buflen \<le> length out + length escseq then out
          else xml_encode_loop buflen (out @ escseq) source
        else xml_encode_loop buflen (out @ [ch]) source
      else out)"

definition xml_encode :: "nat \<Rightarrow> string \<Rightarrow> string" where
  "xml_encode buflen source = (if buflen = 0 then [] else xml_encode_loop buflen [] source)"

text \<open>
  \<open>strtoul\<close>: white space, a sign, a base-16 prefix and digits; without digits the value is 0 and
  nothing is consumed. It yields the value and what follows. In \<open>xml_decode\<close> it may run past
  the end of the source, but then the reference is refused whatever lies there, so the model may stop at
  the end.
\<close>

definition digit_value :: "char \<Rightarrow> nat" where
  "digit_value c = (let l = tolower c; n = of_char l :: nat in
     if 48 \<le> n \<and> n \<le> 57 then n - 48 else if 97 \<le> n \<and> n \<le> 122 then n - 87 else 36)"

definition strtoul :: "nat \<Rightarrow> string \<Rightarrow> nat \<times> string" where
  "strtoul base s =
     (let t = dropWhile is_space s;
          neg = (t \<noteq> [] \<and> hd t = CHR ''-'');
          t = (if t \<noteq> [] \<and> hd t \<in> {CHR ''-'', CHR ''+''} then tl t else t);
          t = (if base = 16 \<and> 2 < length t \<and> hd t = CHR ''0'' \<and> tolower (t ! 1) = CHR ''x''
                 \<and> digit_value (t ! 2) < 16 then drop 2 t else t);
          ds = takeWhile (\<lambda>c. digit_value c < base) t;
          n = digits_val base (map digit_value ds)
      in if ds = [] then (0, s)
         else (if 2 ^ 64 \<le> n then 2 ^ 64 - 1 else if neg then szsub 0 n else n, drop (length ds) t))"

definition char_ref :: "nat \<Rightarrow> string \<Rightarrow> (string \<times> string) option" where
  "char_ref room source =
     (let hex = (2 \<le> length source \<and> source ! 1 = CHR ''x'');
          (val, ptr) = strtoul (if hex then 16 else 10) (drop (if hex then 2 else 1) source)
      in if ptr \<noteq> [] \<and> hd ptr = CHR '';'' then
           let esc = utf8_encode room val in if esc = [] then None else Some (esc, tl ptr)
         else None)"

text \<open>What one turn of the loop appends and where the source goes on; \<open>None\<close> leaves the loop.\<close>

definition xml_decode_step :: "nat \<Rightarrow> string \<Rightarrow> (string \<times> string) option" where
  "xml_decode_step room source =
     (let ch = hd source; source = tl source in
      if ch \<noteq> CHR ''&'' then Some ([ch], source)
      else if starts_with source ''lt;'' then Some (''<'', drop 3 source)
      else if starts_with source ''gt;'' then Some (''>'', drop 3 source)
      else if starts_with source ''apos;'' then Some ([CHR 0x27], drop 5 source)
      else if starts_with source ''quot;'' then Some ([CHR 0x22], drop 5 source)
      else if starts_with source ''amp;'' then Some (''&'', drop 4 source)
      else if source \<noteq> [] \<and> hd source = CHR ''#'' then char_ref room source
      else None)"

lemma length_strtoul: "length (snd (strtoul base s)) \<le> length s"
proof -
  have "length (dropWhile P xs) \<le> length xs" for P and xs :: string
    by (rule length_dropWhile_le)
  then show ?thesis
    by (auto simp: strtoul_def Let_def intro: le_trans [OF diff_le_self] diff_le_mono2)
qed

lemma length_xml_decode_step:
  "xml_decode_step room (c # s) = Some (out, r) \<Longrightarrow> length r < length (c # s)"
proof -
  assume step: "xml_decode_step room (c # s) = Some (out, r)"
  have "char_ref room s = Some (out, r) \<Longrightarrow> length r \<le> length s"
    using length_strtoul [of 16 "drop 2 s"] length_strtoul [of 10 "drop 1 s"]
    by (auto simp: char_ref_def Let_def split: if_splits prod.splits)
  then show ?thesis
    using step by (auto simp: xml_decode_step_def Let_def split: if_splits)
qed

function xml_decode_loop :: "nat \<Rightarrow> string \<Rightarrow> string \<Rightarrow> string" where
  "xml_decode_loop buflen out [] = out"
| "xml_decode_loop buflen out (ch # source) =
     (if length out + 1 < buflen then
        case xml_decode_step (buflen - length out) (ch # source) of
          None \<Rightarrow> out | Some (bs, r) \<Rightarrow> xml_decode_loop buflen (out @ bs) r
      else out)"
  by pat_completeness auto
termination
  by (relation "measure (\<lambda>(_, _, s). length s)") (use length_xml_decode_step in fastforce)+

definition xml_decode :: "nat \<Rightarrow> string \<Rightarrow> string" where
  "xml_decode buflen source = (if buflen = 0 then [] else xml_decode_loop buflen [] source)"

definition html_decode :: "nat \<Rightarrow> string \<Rightarrow> string" where
  "html_decode buflen source = xml_decode buflen source"

section \<open>Hexadecimal dumps\<close>

fun hex_encode_loop :: "string \<Rightarrow> string" where
  "hex_encode_loop [] = []"
| "hex_encode_loop (ch # source) = hex_pair ch @ hex_encode_loop source"

definition hex_encode :: "nat \<Rightarrow> string \<Rightarrow> string" where
  "hex_encode buflen source =
     (if buflen = 0 then []
      else let srclen = min (length source) ((buflen - 1) div 2) in hex_encode_loop (take srclen source))"

fun hex_decode_loop :: "nat \<Rightarrow> string \<Rightarrow> string \<Rightarrow> string" where
  "hex_decode_loop buflen out (a # b # source) =
     (if length out + 1 < buflen then hex_decode_loop buflen (out @ [unhex_pair a b]) source else out)"
| "hex_decode_loop buflen out source = out"

definition hex_decode :: "nat \<Rightarrow> string \<Rightarrow> string" where
  "hex_decode buflen source = (if buflen = 0 then [] else hex_decode_loop buflen [] source)"

section \<open>Transforming strings\<close>

definition transform :: "nat \<Rightarrow> string \<Rightarrow> Transform \<Rightarrow> string" where
  "transform maxlen source t = (let (n, buffer) = t (Some (maxlen + 1)) source in take n buffer)"

definition s_transform :: "string \<Rightarrow> Transform \<Rightarrow> string" where
  "s_transform source t =
     (let maxlen = fst (t None source); (len, buffer) = t (Some maxlen) source in take len buffer)"

definition s_url_encode :: "string \<Rightarrow> string" where
  "s_url_encode source = s_transform source url_encode"

definition s_url_decode :: "string \<Rightarrow> string" where
  "s_url_decode source = s_transform source url_decode"

definition make_char_safe_for_filename :: "char \<Rightarrow> char" where
  "make_char_safe_for_filename c =
     (if schar c < 32 then CHR ''_''
      else if c \<in> {CHR ''<'', CHR ''>'', CHR '':'', CHR 0x22, CHR ''/'', CHR 0x5C, CHR ''|'', CHR ''*'', CHR ''?''}
      then CHR ''_'' else c)"

section \<open>Encoders\<close>

text \<open>
  What the encoding loops share. The source is read in units (bytes, or UTF-8 sequences), each of
  which is written whole or not at all.
\<close>

locale emitter =
  fixes loop :: "nat \<Rightarrow> string \<Rightarrow> string \<Rightarrow> string"
    and raw coded :: "'u \<Rightarrow> string"
  assumes loop_Nil: "loop buflen out [] = out"
    and loop_unit: "loop buflen out (raw u @ r) =
      (if length out + length (coded u) < buflen then loop buflen (out @ coded u) r else out)"
begin

lemma loop_prefix:
  "\<exists>k \<le> length us. loop buflen out (concat (map raw us)) = out @ concat (map coded (take k us))"
proof (induction us arbitrary: out)
  case Nil
  then show ?case by (simp add: loop_Nil)
next
  case (Cons u us)
  show ?case
  proof (cases "length out + length (coded u) < buflen")
    case True
    obtain k where "k \<le> length us"
      "loop buflen (out @ coded u) (concat (map raw us)) = (out @ coded u) @ concat (map coded (take k us))"
      using Cons.IH by blast
    then show ?thesis using True by (intro exI [of _ "Suc k"]) (simp add: loop_unit)
  next
    case False
    then show ?thesis by (intro exI [of _ 0]) (simp add: loop_unit)
  qed
qed

lemma loop_fits: "length out < buflen \<Longrightarrow> length (loop buflen out (concat (map raw us))) < buflen"
proof (induction us arbitrary: out)
  case (Cons u us)
  then show ?case by (simp add: loop_unit)
qed (simp add: loop_Nil)

lemma loop_complete:
  "length out + length (concat (map coded us)) < buflen
   \<Longrightarrow> loop buflen out (concat (map raw us)) = out @ concat (map coded us)"
proof (induction us arbitrary: out)
  case (Cons u us)
  then show ?case by (simp add: loop_unit)
qed (simp add: loop_Nil)

end

text \<open>A decoder that undoes the encoding of each unit undoes the whole.\<close>

locale codec = emitter +
  fixes undo :: "nat \<Rightarrow> string \<Rightarrow> string \<Rightarrow> string"
  assumes undo_Nil: "undo buflen out [] = out"
    and undo_unit: "length out + length (raw u) < buflen
      \<Longrightarrow> undo buflen out (coded u @ r) = undo buflen (out @ raw u) r"
begin

lemma undo_coded:
  "length out + length (concat (map raw us)) < buflen
   \<Longrightarrow> undo buflen out (concat (map coded us)) = out @ concat (map raw us)"
proof (induction us arbitrary: out)
  case (Cons u us)
  then show ?case by (simp add: undo_unit)
qed (simp add: undo_Nil)

lemma undo_loop:
  "length (concat (map coded us)) < n \<Longrightarrow> length (concat (map raw us)) < m
   \<Longrightarrow> undo m [] (loop n [] (concat (map raw us))) = concat (map raw us)"
  by (simp add: loop_complete undo_coded)

end

section \<open>Hexadecimal pairs\<close>

lemma hex_digit_round_trip: "n < 16 \<Longrightarrow> hex_decode_digit (hex_encode_digit n) = n"
proof -
  have "list_all (\<lambda>n. hex_decode_digit (hex_encode_digit n) = n) [0..<16]" by code_simp
  then show "n < 16 \<Longrightarrow> ?thesis" by (simp add: list_all_iff)
qed

lemma and_mask_nat: "(n :: nat) AND 0xF = n mod 16" "n AND 0x3F = n mod 64" "n AND 0x1F = n mod 32"
    "n AND 0x07 = n mod 8"
  using take_bit_eq_mask [of 4 n] take_bit_eq_mask [of 6 n] take_bit_eq_mask [of 5 n] take_bit_eq_mask [of 3 n]
  by (simp_all add: mask_eq_exp_minus_1 take_bit_eq_mod)

lemma push_bit_or_less: "(b :: nat) < 2 ^ k \<Longrightarrow> push_bit k a OR b = a * 2 ^ k + b"
proof -
  assume b: "b < 2 ^ k"
  then have "take_bit k b = b" by (simp add: take_bit_nat_eq_self)
  then have "push_bit k a AND b = 0"
    by (metis (no_types) bit_and_iff bit_eqI bit_push_bit_iff bit_0_eq bit_take_bit_iff bot_apply bot_bool_def leD)
  then show ?thesis by (simp add: disjunctive_add_eq_or push_bit_eq_mult flip: disjunctive_add_eq_or)
qed

lemma unhex_hex_pair [simp]:
  "unhex_pair (hex_encode_digit (drop_bit 4 (of_char c) AND 0xF)) (hex_encode_digit (of_char c AND 0xF)) = c"
proof -
  let ?n = "of_char c :: nat"
  have "?n div 16 mod 16 * 16 + ?n mod 16 = ?n"
    using nat_of_char_less_256 [of c] by (simp add: mod_less less_mult_imp_div_less)
  then show ?thesis
    by (simp add: unhex_pair_def and_mask_nat hex_digit_round_trip push_bit_or_less [where k = 4, simplified] drop_bit_eq_div)
qed

lemma hex_pair_unfold: "\<exists>a b. hex_pair c = [a, b] \<and> unhex_pair a b = c"
  by (simp add: hex_pair_def)

lemma length_hex_pair [simp]: "length (hex_pair c) = 2"
  by (simp add: hex_pair_def)

section \<open>The byte encodings\<close>

definition escaped :: "string \<Rightarrow> char \<Rightarrow> char \<Rightarrow> string" where
  "escaped illegal esc c = (if c = esc \<or> strchr illegal c then [esc, c] else [c])"

definition encoded :: "string \<Rightarrow> char \<Rightarrow> char \<Rightarrow> string" where
  "encoded illegal esc c = (if c \<noteq> esc \<and> \<not> strchr illegal c then [c] else esc # hex_pair c)"

definition url_coded :: "char \<Rightarrow> string" where
  "url_coded c = (if class_has c URL_UNSAFE then CHR ''%'' # hex_pair c else [c])"

definition xml_coded :: "char \<Rightarrow> string" where
  "xml_coded c = (if class_has c XML_UNSAFE then entity c ''&apos;'' else [c])"

interpretation escaping: codec "escape_loop illegal esc" "\<lambda>c. [c]" "escaped illegal esc" "unescape_loop esc"
  for illegal esc
  by unfold_locales (auto simp: escaped_def)

lemma decode_loop_hex: "length out + 1 < buflen \<Longrightarrow>
    decode_loop esc buflen out (esc # hex_pair c @ r) = decode_loop esc buflen (out @ [c]) r"
  by (simp add: hex_pair_def)

lemma decode_loop_plain: "length out + 1 < buflen \<Longrightarrow> c \<noteq> esc \<Longrightarrow>
    decode_loop esc buflen out (c # r) = decode_loop esc buflen (out @ [c]) r"
  by (cases "(esc, buflen, out, c # r)" rule: decode_loop.cases) auto

interpretation hexing: codec "encode_loop illegal esc" "\<lambda>c. [c]" "encoded illegal esc" "decode_loop esc"
  for illegal esc
  by unfold_locales (auto simp: encoded_def decode_loop_hex decode_loop_plain)

lemma url_decode_loop_hex: "length out + 1 < buflen \<Longrightarrow>
    url_decode_loop buflen out (CHR ''%'' # hex_pair c @ r) = url_decode_loop buflen (out @ [c]) r"
  by (simp add: hex_pair_def)

lemma url_decode_loop_plain: "length out + 1 < buflen \<Longrightarrow> c \<noteq> CHR ''%'' \<Longrightarrow> c \<noteq> CHR ''+'' \<Longrightarrow>
    url_decode_loop buflen out (c # r) = url_decode_loop buflen (out @ [c]) r"
  by (cases "(buflen, out, c # r)" rule: url_decode_loop.cases) auto

lemma url_unsafe_signs: "class_has (CHR ''%'') URL_UNSAFE" "class_has (CHR ''+'') URL_UNSAFE"
  by code_simp+

interpretation urls: codec url_encode_loop "\<lambda>c. [c]" url_coded url_decode_loop
proof unfold_locales
  fix buflen :: nat and out r :: string and u :: char
  show "url_encode_loop buflen out ([u] @ r) =
      (if length out + length (url_coded u) < buflen then url_encode_loop buflen (out @ url_coded u) r else out)"
    by (auto simp: url_coded_def)
  assume "length out + length [u] < buflen"
  then show "url_decode_loop buflen out (url_coded u @ r) = url_decode_loop buflen (out @ [u]) r"
    using url_unsafe_signs by (auto simp: url_coded_def url_decode_loop_hex intro!: url_decode_loop_plain)
qed auto

lemma xml_unsafe_cases:
  "class_has c XML_UNSAFE \<longleftrightarrow> c \<in> {CHR ''<'', CHR ''>'', CHR 0x27, CHR 0x22, CHR ''&''}"
proof -
  let ?P = "\<lambda>n. (ASCII_CLASS ! n AND XML_UNSAFE \<noteq> 0) = (n \<in> {60, 62, 39, 34, 38})"
  have "list_all ?P [0..<128]" by code_simp
  then have "(of_char c :: nat) < 128 \<Longrightarrow> ?P (of_char c)" by (simp add: list_all_iff)
  moreover have code: "c = d \<longleftrightarrow> (of_char c :: nat) = of_char d" for d by simp
  have "c = CHR ''<'' \<longleftrightarrow> of_char c = (60 :: nat)" "c = CHR ''>'' \<longleftrightarrow> of_char c = (62 :: nat)"
      "c = CHR 0x27 \<longleftrightarrow> of_char c = (39 :: nat)" "c = CHR 0x22 \<longleftrightarrow> of_char c = (34 :: nat)"
      "c = CHR ''&'' \<longleftrightarrow> of_char c = (38 :: nat)"
    unfolding code by simp_all
  ultimately show ?thesis by (auto simp: class_has_def)
qed

lemma xml_decode_step_coded: "xml_decode_step room (xml_coded c @ r) = Some ([c], r)"
  by (cases "class_has c XML_UNSAFE")
    (auto simp: xml_coded_def xml_unsafe_cases entity_def xml_decode_step_def starts_with_def)

interpretation xmls: codec xml_encode_loop "\<lambda>c. [c]" xml_coded xml_decode_loop
proof unfold_locales
  fix buflen :: nat and out r :: string and u :: char
  show "xml_encode_loop buflen out ([u] @ r) =
      (if length out + length (xml_coded u) < buflen then xml_encode_loop buflen (out @ xml_coded u) r else out)"
    by (auto simp: xml_coded_def entity_def Let_def)
  assume "length out + length [u] < buflen"
  moreover have "xml_coded u \<noteq> []" by (simp add: xml_coded_def entity_def)
  then obtain c s where "xml_coded u @ r = c # s" by (cases "xml_coded u") auto
  ultimately show "xml_decode_loop buflen out (xml_coded u @ r) = xml_decode_loop buflen (out @ [u]) r"
    using xml_decode_step_coded [of "buflen - length out" u r] by simp
qed auto

section \<open>UTF-8 sequences\<close>

definition utf8 :: "nat \<Rightarrow> string" where
  "utf8 v = utf8_encode 4 v"

lemma or_add_nat:
  "(b :: nat) < 0x40 \<Longrightarrow> 0x80 OR b = 0x80 + b" "(b :: nat) < 0x20 \<Longrightarrow> 0xC0 OR b = 0xC0 + b"
  "(b :: nat) < 0x10 \<Longrightarrow> 0xE0 OR b = 0xE0 + b" "(b :: nat) < 0x08 \<Longrightarrow> 0xF0 OR b = 0xF0 + b"
  using push_bit_or_less [of b 6 2] push_bit_or_less [of b 5 6] push_bit_or_less [of b 4 14]
    push_bit_or_less [of b 3 30]
  by (simp_all add: push_bit_eq_mult)

lemma lead_bits: "(n :: nat) AND 0x80 = (n div 0x80 mod 2) * 0x80" "n < 256 \<Longrightarrow> n AND 0xC0 = (n div 0x40) * 0x40"
    "n < 256 \<Longrightarrow> n AND 0xE0 = (n div 0x20) * 0x20" "n < 256 \<Longrightarrow> n AND 0xF0 = (n div 0x10) * 0x10"
    "n < 256 \<Longrightarrow> n AND 0xF8 = (n div 0x08) * 0x08"
proof -
  have *: "n AND push_bit k (mask j) = push_bit k (take_bit j (drop_bit k n))" for j k
    by (rule bit_eqI) (auto simp: bit_simps)
  have "n AND 0x80 = push_bit 7 (take_bit 1 (drop_bit 7 n))" using * [of 7 1]
    by (simp add: push_bit_eq_mult mask_eq_exp_minus_1)
  then show "n AND 0x80 = (n div 0x80 mod 2) * 0x80" by (simp add: push_bit_eq_mult take_bit_eq_mod drop_bit_eq_div)
  assume n: "n < 256"
  have d: "n div 0x40 < 4" "n div 0x20 < 8" "n div 0x10 < 16" "n div 0x08 < 32" using n by auto
  show "n AND 0xC0 = (n div 0x40) * 0x40" using * [of 6 2] d
    by (simp add: push_bit_eq_mult mask_eq_exp_minus_1 take_bit_eq_mod drop_bit_eq_div)
  show "n AND 0xE0 = (n div 0x20) * 0x20" using * [of 5 3] d
    by (simp add: push_bit_eq_mult mask_eq_exp_minus_1 take_bit_eq_mod drop_bit_eq_div)
  show "n AND 0xF0 = (n div 0x10) * 0x10" using * [of 4 4] d
    by (simp add: push_bit_eq_mult mask_eq_exp_minus_1 take_bit_eq_mod drop_bit_eq_div)
  show "n AND 0xF8 = (n div 0x08) * 0x08" using * [of 3 5] d
    by (simp add: push_bit_eq_mult mask_eq_exp_minus_1 take_bit_eq_mod drop_bit_eq_div)
qed

lemma utf8_bytes:
  "v < 0x80 \<Longrightarrow> utf8 v = [char_of v]"
  "0x80 \<le> v \<Longrightarrow> v < 0x800 \<Longrightarrow> utf8 v = [char_of (0xC0 + v div 64), char_of (0x80 + v mod 64)]"
  "0x800 \<le> v \<Longrightarrow> v < 0x10000 \<Longrightarrow>
     utf8 v = [char_of (0xE0 + v div 64 div 64), char_of (0x80 + v div 64 mod 64), char_of (0x80 + v mod 64)]"
  "0x10000 \<le> v \<Longrightarrow> v < 0x200000 \<Longrightarrow>
     utf8 v = [char_of (0xF0 + v div 64 div 64 div 64), char_of (0x80 + v div 64 div 64 mod 64),
               char_of (0x80 + v div 64 mod 64), char_of (0x80 + v mod 64)]"
proof -
  have d: "v div 4096 = v div 64 div 64" "v div 262144 = v div 64 div 64 div 64"
    by (simp_all flip: div_mult2_eq)
  show "v < 0x80 \<Longrightarrow> utf8 v = [char_of v]" by (simp add: utf8_def utf8_encode_def)
  show "utf8 v = [char_of (0xC0 + v div 64), char_of (0x80 + v mod 64)]" if "0x80 \<le> v" "v < 0x800"
    using that by (simp add: utf8_def utf8_encode_def and_mask_nat drop_bit_eq_div or_add_nat)
  show "utf8 v = [char_of (0xE0 + v div 64 div 64), char_of (0x80 + v div 64 mod 64), char_of (0x80 + v mod 64)]"
    if "0x800 \<le> v" "v < 0x10000"
  proof -
    have "v div 64 div 64 < 16" using that by auto
    then show ?thesis using that by (simp add: utf8_def utf8_encode_def and_mask_nat drop_bit_eq_div or_add_nat d)
  qed
  show "utf8 v = [char_of (0xF0 + v div 64 div 64 div 64), char_of (0x80 + v div 64 div 64 mod 64),
      char_of (0x80 + v div 64 mod 64), char_of (0x80 + v mod 64)]" if "0x10000 \<le> v" "v < 0x200000"
  proof -
    have "v div 64 div 64 div 64 < 8" using that by auto
    then show ?thesis using that by (simp add: utf8_def utf8_encode_def and_mask_nat drop_bit_eq_div or_add_nat d)
  qed
qed

lemma mod_high: "b < m \<Longrightarrow> (q * m + b) mod m = (b :: nat)"
  by simp

lemma trail_byte: "b < 64 \<Longrightarrow> (of_char (char_of (0x80 + b :: nat)) :: nat) = 0x80 + b"
    "b < 64 \<Longrightarrow> (0x80 + b) AND 0xC0 = (0x80 :: nat)" "b < 64 \<Longrightarrow> (0x80 + b) AND 0x3F = (b :: nat)"
  using lead_bits(2) [of "0x80 + b"] by (simp_all add: and_mask_nat mod_high [of _ 64 2, simplified])

lemma lead_byte:
  "a < 32 \<Longrightarrow> (of_char (char_of (0xC0 + a :: nat)) :: nat) = 0xC0 + a"
  "a < 32 \<Longrightarrow> (0xC0 + a :: nat) AND 0x80 = 0x80"
  "a < 32 \<Longrightarrow> (0xC0 + a :: nat) AND 0xE0 = 0xC0"
  "a < 32 \<Longrightarrow> (0xC0 + a :: nat) AND 0x1F = a"
  using lead_bits [of "0xC0 + a"] by (simp_all add: and_mask_nat mod_high [of _ 32 6, simplified])

lemma utf8_decode_2: "a < 32 \<Longrightarrow> b < 64 \<Longrightarrow>
    utf8_decode (char_of (0xC0 + a :: nat) # char_of (0x80 + b :: nat) # r) = Some (2, a * 64 + b)"
  using push_bit_or_less [of b 6 a]
  by (simp add: utf8_decode_def Let_def trail_byte lead_byte del: of_char_of)

lemma lead_byte3:
  "a < 16 \<Longrightarrow> (of_char (char_of (0xE0 + a :: nat)) :: nat) = 0xE0 + a"
  "a < 16 \<Longrightarrow> (0xE0 + a :: nat) AND 0x80 = 0x80"
  "a < 16 \<Longrightarrow> (0xE0 + a :: nat) AND 0xE0 = 0xE0"
  "a < 16 \<Longrightarrow> (0xE0 + a :: nat) AND 0xF0 = 0xE0"
  "a < 16 \<Longrightarrow> (0xE0 + a :: nat) AND 0x0F = a"
  using lead_bits [of "0xE0 + a"] by (simp_all add: and_mask_nat mod_high [of _ 16 14, simplified])

lemma lead_byte4:
  "a < 8 \<Longrightarrow> (of_char (char_of (0xF0 + a :: nat)) :: nat) = 0xF0 + a"
  "a < 8 \<Longrightarrow> (0xF0 + a :: nat) AND 0x80 = 0x80"
  "a < 8 \<Longrightarrow> (0xF0 + a :: nat) AND 0xE0 = 0xE0"
  "a < 8 \<Longrightarrow> (0xF0 + a :: nat) AND 0xF0 = 0xF0"
  "a < 8 \<Longrightarrow> (0xF0 + a :: nat) AND 0xF8 = 0xF0"
  "a < 8 \<Longrightarrow> (0xF0 + a :: nat) AND 0x07 = a"
  using lead_bits [of "0xF0 + a"] by (simp_all add: and_mask_nat mod_high [of _ 8 30, simplified])

lemma utf8_decode_3: "a < 16 \<Longrightarrow> b < 64 \<Longrightarrow> c < 64 \<Longrightarrow>
    utf8_decode (char_of (0xE0 + a :: nat) # char_of (0x80 + b :: nat) # char_of (0x80 + c :: nat) # r)
      = Some (3, a * 4096 + (b * 64 + c))"
  using push_bit_or_less [of c 6 b] push_bit_or_less [of "b * 64 + c" 12 a]
  by (simp add: utf8_decode_def Let_def trail_byte lead_byte3 del: of_char_of)

lemma utf8_decode_4: "a < 8 \<Longrightarrow> b < 64 \<Longrightarrow> c < 64 \<Longrightarrow> d < 64 \<Longrightarrow>
    utf8_decode (char_of (0xF0 + a :: nat) # char_of (0x80 + b :: nat) # char_of (0x80 + c :: nat)
        # char_of (0x80 + d :: nat) # r)
      = Some (4, a * 262144 + ((b * 64 + c) * 64 + d))"
  using push_bit_or_less [of c 6 b] push_bit_or_less [of d 6 "b * 64 + c"]
    push_bit_or_less [of "(b * 64 + c) * 64 + d" 18 a]
  by (simp add: utf8_decode_def Let_def trail_byte lead_byte4 del: of_char_of push_bit_or)

lemma utf8_decode_utf8: "v < 0x200000 \<Longrightarrow> utf8_decode (utf8 v @ r) = Some (length (utf8 v), v)"
proof -
  assume v: "v < 0x200000"
  have e: "v div 64 * 64 + v mod 64 = v" "v div 64 div 64 * 64 + v div 64 mod 64 = v div 64"
      "v div 64 div 64 div 64 * 64 + v div 64 div 64 mod 64 = v div 64 div 64"
    by simp_all
  have lin: "q * 262144 + ((r * 64 + s) * 64 + t) = ((q * 64 + r) * 64 + s) * 64 + t" for q r s t :: nat
    by (simp add: algebra_simps)
  consider "v < 0x80" | "0x80 \<le> v" "v < 0x800" | "0x800 \<le> v" "v < 0x10000" | "0x10000 \<le> v"
    by linarith
  then show ?thesis
  proof cases
    case 1
    then show ?thesis by (simp add: utf8_bytes utf8_decode_def lead_bits)
  next
    case 2
    then have "v div 64 < 32" by auto
    then show ?thesis using 2 by (simp add: utf8_bytes utf8_decode_2)
  next
    case 3
    then have "v div 64 div 64 < 16" by auto
    moreover have "v div 64 div 64 * 4096 + (v div 64 mod 64 * 64 + v mod 64) = v" using e by linarith
    ultimately show ?thesis using 3 by (simp add: utf8_bytes utf8_decode_3)
  next
    case 4
    then have "v div 64 div 64 div 64 < 8" using v by auto
    moreover have "v div 64 div 64 div 64 * 262144 + ((v div 64 div 64 mod 64 * 64 + v div 64 mod 64) * 64 + v mod 64) = v"
      unfolding lin e by (rule refl)
    ultimately show ?thesis using 4 v by (simp add: utf8_bytes utf8_decode_4)
  qed
qed

lemma utf8_encode_room: "v < 0x200000 \<Longrightarrow> length (utf8 v) \<le> room \<Longrightarrow> utf8_encode room v = utf8 v"
  by (auto simp: utf8_def utf8_encode_def split: if_splits)

section \<open>Markup round trip\<close>

text \<open>A unit of text is a code point below \<open>0x200000\<close>, in its UTF-8 form.\<close>

definition html_raw :: "nat \<Rightarrow> string" where
  "html_raw u = utf8 (u mod 0x200000)"

definition html_coded :: "nat \<Rightarrow> string" where
  "html_coded u =
     (let v = u mod 0x200000 in
      if v < 0x80 then if class_has (char_of v) HTML_UNSAFE then entity (char_of v) ''&#39;'' else [char_of v]
      else numeric_entity v)"

lemma length_utf8_bounds: "v < 0x200000 \<Longrightarrow> 1 \<le> length (utf8 v) \<and> length (utf8 v) \<le> 4"
  by (simp add: utf8_def utf8_encode_def)

lemma hd_utf8_high: "0x80 \<le> v \<Longrightarrow> v < 0x200000 \<Longrightarrow> \<not> (of_char (hd (utf8 v)) :: nat) < 128"
proof -
  assume v: "0x80 \<le> v" "v < 0x200000"
  then have "v < 0x800 \<Longrightarrow> v div 64 < 32" "v < 0x10000 \<Longrightarrow> v div 64 div 64 < 16" "v div 64 div 64 div 64 < 8"
    by auto
  note bounds = this
  consider "v < 0x800" | "0x800 \<le> v" "v < 0x10000" | "0x10000 \<le> v" by linarith
  then show ?thesis
    using v bounds by cases (simp_all add: utf8_bytes lead_byte lead_byte3 lead_byte4 del: of_char_of)
qed

lemma digit_value_digit: "d < 10 \<Longrightarrow> digit_value (digit_char d) = d"
  by (simp add: digit_value_def tolower_def)

lemma strtoul_show_nat: "n < 2 ^ 64 \<Longrightarrow> strtoul 10 (show_nat n @ '';'' @ r) = (n, '';'' @ r)"
proof -
  assume n: "n < 2 ^ 64"
  have digits: "show_nat n = map digit_char (rev (digits_rev 10 n))" by (simp add: show_nat_def)
  have d: "d \<in> set (digits_rev 10 n) \<Longrightarrow> d < 10" for d using digits_rev_bound [of 10 d n] by simp
  have val: "map digit_value (show_nat n) = rev (digits_rev 10 n)"
    unfolding digits using d by (auto simp: digit_value_digit intro!: map_idI)
  have all: "\<forall>c\<in>set (show_nat n). digit_value c < 10" unfolding digits using d by (auto simp: digit_value_digit)
  have semi: "\<not> digit_value (CHR '';'') < 10" by code_simp
  have tk: "takeWhile (\<lambda>c. digit_value c < 10) (show_nat n @ '';'' @ r) = show_nat n"
    using all semi by (simp add: takeWhile_append)
  obtain c cs where cs: "show_nat n = c # cs" by (cases "show_nat n") auto
  then have c: "\<not> is_space c" "c \<noteq> CHR ''-''" "c \<noteq> CHR ''+''"
    using show_nat_digits [of c n] is_digit_plain [of c] by auto
  then have dw: "dropWhile is_space (show_nat n @ '';'' @ r) = show_nat n @ '';'' @ r" by (simp add: cs)
  have hd: "hd (show_nat n @ '';'' @ r) = c" by (simp add: cs)
  show ?thesis
    unfolding strtoul_def Let_def dw using c n by (simp add: hd tk val del: append_Cons append_Nil append_assoc)
qed

lemma xml_decode_step_numeric:
  "v < 0x200000 \<Longrightarrow> length (utf8 v) \<le> room \<Longrightarrow>
   xml_decode_step room (numeric_entity v @ r) = Some (utf8 v, r)"
proof -
  assume v: "v < 0x200000" "length (utf8 v) \<le> room"
  let ?s = "show_nat v @ '';'' @ r"
  obtain c cs where cs: "show_nat v = c # cs" by (cases "show_nat v") auto
  then have c: "is_digit c" using show_nat_digits [of c v] by simp
  then have "c \<noteq> CHR ''x''" by (auto simp: is_digit_def)
  then have hex: "\<not> (''#'' @ ?s) ! 1 = CHR ''x''" by (simp add: cs)
  have ne: "utf8 v \<noteq> []" using length_utf8_bounds [OF v(1)] by auto
  have "char_ref room (''#'' @ ?s) = Some (utf8 v, r)"
    using strtoul_show_nat [of v r] v ne hex by (simp add: char_ref_def utf8_encode_room)
  moreover have "xml_decode_step room (numeric_entity v @ r) = char_ref room (''#'' @ ?s)"
    by (simp add: xml_decode_step_def numeric_entity_def starts_with_def)
  ultimately show ?thesis by simp
qed

lemma apos_entity: "''&#39;'' = numeric_entity 39" "utf8 39 = [CHR 0x27]"
  by code_simp+

lemma xml_decode_step_html:
  "length (html_raw u) \<le> room \<Longrightarrow> xml_decode_step room (html_coded u @ r) = Some (html_raw u, r)"
proof -
  assume room: "length (html_raw u) \<le> room"
  define v where "v = u mod 0x200000"
  have v: "v < 0x200000" by (simp add: v_def)
  show ?thesis
  proof (cases "v < 0x80")
    case True
    let ?c = "char_of v :: char"
    have raw: "html_raw u = [?c]" using True by (simp add: html_raw_def utf8_bytes flip: v_def)
    show ?thesis
    proof (cases "?c = CHR 0x27")
      case c: True
      then have "html_coded u = numeric_entity 39"
        using True xml_unsafe_cases [of ?c]
        by (simp add: html_coded_def Let_def HTML_UNSAFE_def XML_UNSAFE_def entity_def apos_entity flip: v_def)
      then show ?thesis
        using xml_decode_step_numeric [of 39 room r] room apos_entity(2) c raw by simp
    next
      case c: False
      then have "html_coded u = xml_coded ?c"
        using True by (simp add: html_coded_def xml_coded_def Let_def HTML_UNSAFE_def XML_UNSAFE_def entity_def flip: v_def)
      then show ?thesis using xml_decode_step_coded raw by simp
    qed
  next
    case False
    then have "html_coded u = numeric_entity v" "html_raw u = utf8 v"
      by (simp_all add: html_coded_def html_raw_def Let_def flip: v_def)
    then show ?thesis using xml_decode_step_numeric [OF v] room by simp
  qed
qed

lemma html_encode_loop_unit:
  "html_encode_loop buflen out (html_raw u @ r) =
     (if length out + length (html_coded u) < buflen then html_encode_loop buflen (out @ html_coded u) r else out)"
proof -
  define v where "v = u mod 0x200000"
  have v: "v < 0x200000" by (simp add: v_def)
  have raw: "html_raw u = utf8 v" by (simp add: html_raw_def v_def)
  have ne: "utf8 v \<noteq> []" using length_utf8_bounds [OF v] by auto
  show ?thesis
  proof (cases "v < 0x80")
    case True
    then have "utf8 v = [char_of v]" "(of_char (char_of v :: char) :: nat) < 128" by (simp_all add: utf8_bytes)
    then show ?thesis
      using True unfolding raw html_coded_def Let_def v_def [symmetric]
      by (auto simp: html_encode_loop.simps [of buflen out "char_of v # r"] Let_def entity_def)
  next
    case False
    have hd: "\<not> (of_char (hd (utf8 v @ r)) :: nat) < 128" using hd_utf8_high [of v] False v ne by simp
    have len: "2 \<le> length (numeric_entity v)" by (simp add: numeric_entity_def)
    show ?thesis
      using False hd ne len unfolding raw html_coded_def Let_def v_def [symmetric]
      by (auto simp: html_encode_loop.simps [of buflen out "utf8 v @ r"] Let_def utf8_decode_utf8 [OF v])
  qed
qed

interpretation htmls: codec html_encode_loop html_raw html_coded xml_decode_loop
proof unfold_locales
  fix buflen :: nat and out r :: string and u :: nat
  show "html_encode_loop buflen out [] = out" by (simp add: html_encode_loop.simps)
  show "html_encode_loop buflen out (html_raw u @ r) =
     (if length out + length (html_coded u) < buflen then html_encode_loop buflen (out @ html_coded u) r else out)"
    by (rule html_encode_loop_unit)
  assume room: "length out + length (html_raw u) < buflen"
  have "1 \<le> length (html_raw u)" using length_utf8_bounds by (simp add: html_raw_def)
  moreover have "html_coded u \<noteq> []" by (simp add: html_coded_def Let_def entity_def numeric_entity_def)
  then obtain c s where "html_coded u @ r = c # s" by (cases "html_coded u") auto
  ultimately show "xml_decode_loop buflen out (html_coded u @ r) = xml_decode_loop buflen (out @ html_raw u) r"
    using xml_decode_step_html [of u "buflen - length out" r] room by simp
qed auto

section \<open>Decoding in place\<close>

lemma url_decode_loop_len: "length out < buflen \<Longrightarrow> length (url_decode_loop buflen out s) < buflen"
  by (induction buflen out s rule: url_decode_loop.induct) auto

lemma take_list_update_Suc: "i < length xs \<Longrightarrow> take (Suc i) (xs[i := x]) = take i xs @ [x]"
  by (simp add: take_Suc_conv_app_nth)

lemma url_decode_loop_step:
  "length out + 1 < buflen \<Longrightarrow> url_decode_loop buflen out (ch # s) =
     (if ch = CHR ''+'' then url_decode_loop buflen (out @ [CHR '' '']) s
      else if ch = CHR ''%'' \<and> 1 < length s then url_decode_loop buflen (out @ [unhex_pair (s ! 0) (s ! 1)]) (drop 2 s)
      else url_decode_loop buflen (out @ [ch]) s)"
  by (cases "(buflen, out, ch # s)" rule: url_decode_loop.cases) auto

lemma url_decode_loop_full: "\<not> length out + 1 < buflen \<Longrightarrow> url_decode_loop buflen out s = out"
  by (cases "(buflen, out, s)" rule: url_decode_loop.cases) auto

lemma url_decode_in_place_eq:
  "bufpos \<le> srcpos \<Longrightarrow> srcpos \<le> srclen \<Longrightarrow> srclen < length mem \<Longrightarrow>
   url_decode_in_place buflen srclen srcpos bufpos mem = (mem', n) \<Longrightarrow>
     take n mem' = url_decode_loop buflen (take bufpos mem) (drop srcpos (take srclen mem))
     \<and> mem' ! n = NUL \<and> n \<le> srclen"
proof (induction buflen srclen srcpos bufpos mem arbitrary: mem' n rule: url_decode_in_place.induct)
  case (1 buflen srclen srcpos bufpos mem)
  let ?out = "take bufpos mem"
  have out: "length ?out = bufpos" using "1.prems" by simp
  show ?case
  proof (cases "srcpos < srclen \<and> bufpos + 1 < buflen")
    case False
    then have "url_decode_in_place buflen srclen srcpos bufpos mem = (mem[bufpos := NUL], bufpos)"
      unfolding url_decode_in_place.simps [of buflen srclen srcpos bufpos mem] by (rule if_not_P)
    then have r: "mem' = mem[bufpos := NUL]" "n = bufpos" using "1.prems"(4) by simp_all
    have "url_decode_loop buflen ?out (drop srcpos (take srclen mem)) = ?out"
      using False out "1.prems" by (cases "srcpos < srclen") (simp_all add: url_decode_loop_full)
    then show ?thesis using r "1.prems" by simp
  next
    case True
    define s where "s = drop (Suc srcpos) (take srclen mem)"
    have src: "drop srcpos (take srclen mem) = mem ! srcpos # s"
      using True "1.prems" by (simp add: s_def Cons_nth_drop_Suc [symmetric])
    have len: "1 < length s \<longleftrightarrow> srcpos + 1 + 1 < srclen" using "1.prems" by (auto simp: s_def)
    have two: "1 < length s \<Longrightarrow> s ! 0 = mem ! (srcpos + 1)" "1 < length s \<Longrightarrow> s ! 1 = mem ! (srcpos + 1 + 1)"
      "drop 2 s = drop (srcpos + 1 + 2) (take srclen mem)"
      using "1.prems" by (auto simp: s_def)
    have upd: "take (Suc bufpos) (mem[bufpos := x]) = ?out @ [x]"
        "k > bufpos \<Longrightarrow> drop k (take srclen (mem[bufpos := x])) = drop k (take srclen mem)" for x k
      using "1.prems" take_list_update_Suc [of bufpos mem x] by (auto simp: take_update_swap)
    note step = url_decode_loop_step [of ?out buflen "mem ! srcpos" s, unfolded out, OF conjunct2 [OF True]]
    note unfold = url_decode_in_place.simps [of buflen srclen srcpos bufpos mem]
    show ?thesis
    proof (cases "mem ! srcpos = CHR ''+''")
      case c: True
      show ?thesis
        using "1.IH"(1) [OF True refl refl c, of mem' n] "1.prems" True c step
        by (simp add: unfold src upd s_def [symmetric])
    next
      case c: False
      show ?thesis
      proof (cases "mem ! srcpos = CHR ''%'' \<and> srcpos + 1 + 1 < srclen")
        case d: True
        show ?thesis
          using "1.IH"(2) [OF True refl refl c d, of mem' n] "1.prems" True c d two len step
          by (simp add: unfold src upd)
      next
        case d: False
        show ?thesis
          using "1.IH"(3) [OF True refl refl c d, of mem' n] "1.prems" True c d len step
          by (cases "mem ! srcpos = CHR ''%''") (simp_all add: unfold src upd Let_def s_def [symmetric])
      qed
    qed
  qed
qed

section \<open>Sizes\<close>

lemma length_url_coded: "length (url_coded c) \<le> 3"
  by (simp add: url_coded_def)

lemma length_concat_url_coded: "length (concat (map url_coded s)) \<le> length s * 3"
  using length_url_coded by (induction s) (auto intro: add_mono)

lemma url_encode_enough: "length s * 3 < n \<Longrightarrow> url_encode (Some n) s = (length (concat (map url_coded s)), concat (map url_coded s))"
  using urls.loop_complete [of "[]" s n] length_concat_url_coded [of s] by (simp add: Let_def)

lemma unescape_loop_len: "length out < buflen \<Longrightarrow> length (unescape_loop esc buflen out s) < buflen"
  by (induction esc buflen out s rule: unescape_loop.induct) auto

lemma decode_loop_len: "length out < buflen \<Longrightarrow> length (decode_loop esc buflen out s) < buflen"
  by (induction esc buflen out s rule: decode_loop.induct) auto

lemma hex_decode_loop_len: "length out < buflen \<Longrightarrow> length (hex_decode_loop buflen out s) < buflen"
  by (induction buflen out s rule: hex_decode_loop.induct) auto

lemma html_encode_loop_len: "length out < buflen \<Longrightarrow> length (html_encode_loop buflen out s) < buflen"
proof (induction buflen out s rule: html_encode_loop.induct)
  case (1 buflen out s)
  then show ?case
    by (subst html_encode_loop.simps) (auto simp: Let_def split: prod.split)
qed

lemma length_hex_encode_loop [simp]: "length (hex_encode_loop s) = 2 * length s"
  by (induction s) auto

lemma hex_decode_encode_loop:
  "length out + length s < m \<Longrightarrow> hex_decode_loop m out (hex_encode_loop s) = out @ s"
proof (induction s arbitrary: out)
  case (Cons c s)
  obtain a b where ab: "hex_pair c = [a, b]" "unhex_pair a b = c" using hex_pair_unfold by blast
  show ?case using Cons by (simp add: ab)
qed simp

section \<open>Properties\<close>

lemma length_concat_le: "(\<And>c. length (f c) \<le> k) \<Longrightarrow> length (concat (map f s)) \<le> k * length s"
  by (induction s) (auto intro: add_mono)

lemma s_url_encode_eq: "s_url_encode s = concat (map url_coded s)"
  using url_encode_enough [of s "length s * 3 + 1"] by (simp add: s_url_encode_def s_transform_def)

lemma url_coded_longer: "length s \<le> length (concat (map url_coded s))"
  by (induction s) (auto simp: url_coded_def)

lemma s_url_round_trip: "s_url_decode (s_url_encode s) = s"
  using urls.undo_coded [of "[]" s "length (concat (map url_coded s)) + 1"] url_coded_longer [of s]
  by (simp add: s_url_decode_def s_transform_def s_url_encode_eq Let_def)

text \<open>
  C20: decoding undoes encoding for every byte string once the buffers are large enough (\<open>j\<close> and \<open>k\<close> are
  spare room): escaping with any escape character and any set of illegal characters, hexadecimal
  escapes, percent encoding through \<open>s_transform\<close>, XML entities and hexadecimal dumps.
\<close>

theorem encodings_round_trip:
  "unescape esc (length s + Suc j) (escape illegal esc (2 * length s + Suc k) s) = s
   \<and> decode esc (length s + Suc j) (encode illegal esc (3 * length s + Suc k) s) = s
   \<and> s_url_decode (s_url_encode s) = s
   \<and> xml_decode (length s + Suc j) (xml_encode (6 * length s + Suc k) s) = s
   \<and> hex_decode (length s + Suc j) (hex_encode (2 * length s + Suc k) s) = s"
proof (intro conjI)
  have "length (concat (map (escaped illegal esc) s)) \<le> 2 * length s"
    by (rule length_concat_le) (simp add: escaped_def)
  then show "unescape esc (length s + Suc j) (escape illegal esc (2 * length s + Suc k) s) = s"
    using escaping.undo_loop [of illegal esc s] by (simp add: unescape_def escape_def)
  have "length (concat (map (encoded illegal esc) s)) \<le> 3 * length s"
    by (rule length_concat_le) (simp add: encoded_def)
  then show "decode esc (length s + Suc j) (encode illegal esc (3 * length s + Suc k) s) = s"
    using hexing.undo_loop [of illegal esc s] by (simp add: decode_def encode_def)
  show "s_url_decode (s_url_encode s) = s" by (rule s_url_round_trip)
  have "length (concat (map xml_coded s)) \<le> 6 * length s"
    by (rule length_concat_le) (simp add: xml_coded_def entity_def)
  then show "xml_decode (length s + Suc j) (xml_encode (6 * length s + Suc k) s) = s"
    using xmls.undo_loop [of s] by (simp add: xml_decode_def xml_encode_def)
  have "min (length s) ((2 * length s + k) div 2) = length s" by (simp add: min_def)
  then show "hex_decode (length s + Suc j) (hex_encode (2 * length s + Suc k) s) = s"
    using hex_decode_encode_loop [of "[]" s] by (simp add: hex_decode_def hex_encode_def Let_def)
qed

lemma length_numeric_entity: "v < 0x200000 \<Longrightarrow> length (numeric_entity v) \<le> 10"
  using length_digits_rev [of 10 v 6] by (simp add: numeric_entity_def show_nat_def)

text \<open>
  Text that is a sequence of UTF-8 forms of code points below \<open>0x200000\<close> survives
  \<open>html_encode\<close> followed by \<open>html_decode\<close>, with ten bytes of buffer for each code point.
\<close>

theorem html_round_trip:
  assumes "\<forall>u\<in>set us. u < 0x200000"
  defines "text \<equiv> concat (map (utf8_encode 4) us)"
  shows "html_decode (length text + Suc j) (html_encode (10 * length us + Suc k) text) = text"
proof -
  have raw: "concat (map html_raw us) = text"
    unfolding text_def using assms(1) by (induction us) (simp_all add: html_raw_def utf8_def)
  have "length (concat (map html_coded us)) \<le> 10 * length us"
    by (rule length_concat_le) (simp add: html_coded_def Let_def entity_def length_numeric_entity)
  then show ?thesis
    using htmls.undo_loop [of us "10 * length us + Suc k" "length text + Suc j"]
    by (simp add: html_decode_def xml_decode_def html_encode_def raw)
qed

theorem html_round_trip_witness:
  "html_decode (length (concat (map (utf8_encode 4) [60, 233, 0x4E2D, 39])) + Suc 2)
      (html_encode (10 * length [60, 233, 0x4E2D, 39 :: nat] + Suc 0) (concat (map (utf8_encode 4) [60, 233, 0x4E2D, 39])))
     = concat (map (utf8_encode 4) [60, 233, 0x4E2D, 39])"
  by (rule html_round_trip) simp

lemma url_decode_loop_enough:
  "length out + length s < m \<Longrightarrow> length out + length s < n \<Longrightarrow> url_decode_loop m out s = url_decode_loop n out s"
  by (induction m out s rule: url_decode_loop.induct) auto

lemma utf8_encode_fits: "length (utf8_encode room v) \<le> room"
  by (simp add: utf8_encode_def)

lemma xml_decode_step_fits:
  assumes "0 < room" "xml_decode_step room s = Some (bs, r)"
  shows "length bs \<le> room"
proof -
  have "char_ref room t = Some (bs, r) \<Longrightarrow> length bs \<le> room" for t
    using utf8_encode_fits by (auto simp: char_ref_def Let_def split: if_splits prod.splits)
  then show ?thesis using assms by (auto simp: xml_decode_step_def Let_def split: if_splits)
qed

lemma xml_decode_loop_len: "length out \<le> buflen \<Longrightarrow> length (xml_decode_loop buflen out s) \<le> buflen"
proof (induction buflen out s rule: xml_decode_loop.induct)
  case (2 buflen out ch s)
  then show ?case using xml_decode_step_fits [of "buflen - length out" "ch # s"] by (fastforce split: option.split)
qed simp

text \<open>
  C21: the bytes written and the terminating zero take at most \<open>buflen\<close> bytes, whatever the source, in every routine but
  \<open>xml_decode\<close> and \<open>html_decode\<close>, which is the same routine; there the bytes fit, but the zero may be stored in the
  byte behind the buffer. The estimate that \<open>url_encode\<close> returns for a null buffer holds the whole result, and with the one of
  \<open>url_decode\<close> the result is the same as with any larger buffer.
\<close>

theorem encodings_stay_in_buffer:
  "0 < n \<Longrightarrow> length (escape illegal esc n s) < n \<and> length (unescape esc n s) < n
     \<and> length (encode illegal esc n s) < n \<and> length (decode esc n s) < n
     \<and> fst (url_encode (Some n) s) < n \<and> fst (url_decode (Some n) s) < n
     \<and> length (html_encode n s) < n \<and> length (xml_encode n s) < n
     \<and> length (hex_encode n s) < n \<and> length (hex_decode n s) < n
     \<and> length (xml_decode n s) \<le> n \<and> length (html_decode n s) \<le> n
     \<and> snd (url_encode (Some (fst (url_encode None s))) s) = concat (map url_coded s)
     \<and> url_decode (Some (fst (url_decode None s) + n)) s = url_decode (Some (fst (url_decode None s))) s"
proof (intro conjI)
  assume n: "0 < n"
  show "length (escape illegal esc n s) < n" using n escaping.loop_fits [of "[]" n illegal esc s] by (simp add: escape_def)
  show "length (unescape esc n s) < n" using n unescape_loop_len [of "[]" n esc s] by (simp add: unescape_def)
  show "length (encode illegal esc n s) < n" using n hexing.loop_fits [of "[]" n illegal esc s] by (simp add: encode_def)
  show "length (decode esc n s) < n" using n decode_loop_len [of "[]" n esc s] by (simp add: decode_def)
  show "fst (url_encode (Some n) s) < n" using n urls.loop_fits [of "[]" n s] by (simp add: Let_def)
  show "fst (url_decode (Some n) s) < n" using n url_decode_loop_len [of "[]" n s] by (simp add: Let_def)
  show "length (html_encode n s) < n" using n html_encode_loop_len [of "[]" n s] by (simp add: html_encode_def)
  show "length (xml_encode n s) < n" using n xmls.loop_fits [of "[]" n s] by (simp add: xml_encode_def)
  have "2 * min (length s) ((n - 1) div 2) \<le> 2 * ((n - 1) div 2)" by simp
  also have "\<dots> \<le> n - 1" by simp
  finally show "length (hex_encode n s) < n" using n by (simp add: hex_encode_def Let_def)
  show "length (hex_decode n s) < n" using n hex_decode_loop_len [of "[]" n s] by (simp add: hex_decode_def)
  show "length (xml_decode n s) \<le> n" "length (html_decode n s) \<le> n"
    using xml_decode_loop_len [of "[]" n s] by (simp_all add: html_decode_def xml_decode_def)
  show "snd (url_encode (Some (fst (url_encode None s))) s) = concat (map url_coded s)"
    using url_encode_enough [of s "length s * 3 + 1"] by simp
  show "url_decode (Some (fst (url_decode None s) + n)) s = url_decode (Some (fst (url_decode None s))) s"
    using url_decode_loop_enough [of "[]" s "length s + 1 + n" "length s + 1"] by simp
qed

theorem encodings_stay_in_buffer_witness:
  "length (escape ''%'' (CHR ''^'') 4 ''a%b%c'') < 4 \<and> length (html_encode 4 ''<b>'') < 4"
  using encodings_stay_in_buffer [of 4 "''%''" "CHR ''^''" "''a%b%c''"]
    encodings_stay_in_buffer [of 4 "''%''" "CHR ''^''" "''<b>''"] by simp

text \<open>
  Decoding a URL in its own array gives the bytes that decoding into a separate buffer gives, ends them
  with a zero and stays inside the array, although the loop overwrites what it reads from.
\<close>

theorem url_decode_in_place_correct:
  assumes "srclen < length mem"
  shows "case url_decode_in_place buflen srclen 0 0 mem of
    (mem', n) \<Rightarrow> take n mem' = url_decode_loop buflen [] (take srclen mem) \<and> mem' ! n = NUL \<and> n < length mem"
  using url_decode_in_place_eq [of 0 0 srclen mem buflen] assms by (auto split: prod.split)

theorem url_decode_in_place_correct_witness:
  "case url_decode_in_place 8 7 0 0 (''a%20b+c'' @ [NUL]) of
    (mem', n) \<Rightarrow> take n mem' = url_decode_loop 8 [] (take 7 (''a%20b+c'' @ [NUL])) \<and> mem' ! n = NUL
      \<and> n < length (''a%20b+c'' @ [NUL])"
  by (rule url_decode_in_place_correct) simp

text \<open>
  \<open>xml_decode\<close>, and \<open>html_decode\<close> with it, can leave its buffer: a numeric character reference may fill the buffer to the last
  byte, and the terminating zero is then stored behind it. \<open>utf8_encode\<close> is documented to keep one byte
  free and does not.
\<close>

theorem xml_decode_overruns:
  "length (xml_decode 2 ''&#233;'') = 2 \<and> length (html_decode 2 ''&#233;'') = 2 \<and> length (utf8_encode 2 233) = 2"
proof -
  have u: "length (utf8 233) = 2" by (simp add: utf8_bytes)
  have e: "''&#233;'' = numeric_entity 233 @ []"
    by code_simp
  have "xml_decode 2 ''&#233;'' = utf8 233"
    using xml_decode_step_numeric [of 233 2 "[]"] u unfolding e [symmetric] by (simp add: xml_decode_def)
  then show ?thesis using u utf8_encode_room [of 233 2] by (simp add: html_decode_def)
qed

end
