(* ===== verification/StdMap.thy ===== *)
theory StdMap
  imports CString "HOL-Library.Char_ord" "HOL-Library.List_Lexorder"
begin

text \<open>
  \<open>std::map\<close> as the sources use it: an association list in the order of its keys, which is the order in
  which iterators visit it. Keys are strings, compared byte by byte as unsigned numbers
  (\<^theory_text>\<open>Char_ord\<close> and \<^theory_text>\<open>List_Lexorder\<close>). The locale states what the clients rely on.
\<close>

type_synonym ('k, 'v) std_map = "('k \<times> 'v) list"

text \<open>\<open>insert\<close> keeps an entry that is there; assignment through \<open>operator[]\<close> replaces it.\<close>

fun map_insert :: "'k :: linorder \<Rightarrow> 'v \<Rightarrow> ('k, 'v) std_map \<Rightarrow> ('k, 'v) std_map" where
  "map_insert k v [] = [(k, v)]"
| "map_insert k v ((k', v') # m) =
     (if k < k' then (k, v) # (k', v') # m
      else if k = k' then (k', v') # m
      else (k', v') # map_insert k v m)"

fun map_put :: "'k :: linorder \<Rightarrow> 'v \<Rightarrow> ('k, 'v) std_map \<Rightarrow> ('k, 'v) std_map" where
  "map_put k v [] = [(k, v)]"
| "map_put k v ((k', v') # m) =
     (if k < k' then (k, v) # (k', v') # m
      else if k = k' then (k, v) # m
      else (k', v') # map_put k v m)"

fun map_erase :: "'k :: linorder \<Rightarrow> ('k, 'v) std_map \<Rightarrow> ('k, 'v) std_map" where
  "map_erase k [] = []"
| "map_erase k ((k', v') # m) = (if k = k' then m else (k', v') # map_erase k m)"

definition map_find :: "('k, 'v) std_map \<Rightarrow> 'k \<Rightarrow> 'v option" where
  "map_find m k = map_of m k"

definition map_ok :: "('k :: linorder, 'v) std_map \<Rightarrow> bool" where
  "map_ok m \<longleftrightarrow> sorted_wrt (<) (map fst m)"

section \<open>Interface\<close>

locale ordered_map =
  fixes empty :: 'm
    and insert_new put :: "'k \<Rightarrow> 'v \<Rightarrow> 'm \<Rightarrow> 'm"
    and erase :: "'k \<Rightarrow> 'm \<Rightarrow> 'm"
    and find :: "'m \<Rightarrow> 'k \<Rightarrow> 'v option"
    and ok :: "'m \<Rightarrow> bool"
  assumes find_empty: "find empty k = None"
    and find_insert: "ok m \<Longrightarrow> find (insert_new k v m) = (case find m k of None \<Rightarrow> (find m)(k \<mapsto> v) | Some _ \<Rightarrow> find m)"
    and find_put: "ok m \<Longrightarrow> find (put k v m) = (find m)(k \<mapsto> v)"
    and find_erase: "ok m \<Longrightarrow> find (erase k m) = (find m)(k := None)"
    and ok_empty: "ok empty" and ok_insert: "ok m \<Longrightarrow> ok (insert_new k v m)"
    and ok_put: "ok m \<Longrightarrow> ok (put k v m)" and ok_erase: "ok m \<Longrightarrow> ok (erase k m)"
begin

text \<open>A loop of insertions keeps the first value of each key, a loop of assignments the last.\<close>

definition insert_all :: "('k \<times> 'v) list \<Rightarrow> 'm \<Rightarrow> 'm" where
  "insert_all kvs m = fold (\<lambda>(k, v). insert_new k v) kvs m"

definition put_all :: "('k \<times> 'v) list \<Rightarrow> 'm \<Rightarrow> 'm" where
  "put_all kvs m = fold (\<lambda>(k, v). put k v) kvs m"

lemma insert_all_ok: "ok m \<Longrightarrow> ok (insert_all kvs m)"
  by (induction kvs arbitrary: m) (auto simp: insert_all_def ok_insert)

lemma put_all_ok: "ok m \<Longrightarrow> ok (put_all kvs m)"
  by (induction kvs arbitrary: m) (auto simp: put_all_def ok_put)

lemma find_insert_all: "ok m \<Longrightarrow> find (insert_all kvs m) = map_of kvs ++ find m"
proof (induction kvs arbitrary: m)
  case (Cons kv kvs)
  obtain k v where kv: "kv = (k, v)" by (cases kv)
  have "find (insert_all (kv # kvs) m) = map_of kvs ++ find (insert_new k v m)"
    using Cons by (simp add: insert_all_def kv ok_insert)
  then show ?case
    using Cons.prems by (auto simp: find_insert kv fun_eq_iff map_add_def split: option.split)
qed (simp add: insert_all_def)

lemma find_put_all: "ok m \<Longrightarrow> find (put_all kvs m) = find m ++ map_of (rev kvs)"
proof (induction kvs arbitrary: m)
  case (Cons kv kvs)
  obtain k v where kv: "kv = (k, v)" by (cases kv)
  have "find (put_all (kv # kvs) m) = find (put k v m) ++ map_of (rev kvs)"
    using Cons by (simp add: put_all_def kv ok_put)
  then show ?case
    using Cons.prems by (auto simp: find_put kv fun_eq_iff map_add_def split: option.split)
qed (simp add: put_all_def)

lemma find_insert_all_empty: "find (insert_all kvs empty) k = map_of kvs k"
  by (simp add: find_insert_all ok_empty find_empty map_add_def split: option.split)

lemma find_put_all_empty: "find (put_all kvs empty) k = map_of (rev kvs) k"
  by (simp add: find_put_all ok_empty find_empty map_add_def split: option.split)

end

section \<open>Sorted association lists implement it\<close>

lemma map_ok_Cons: "map_ok ((k, v) # m) \<longleftrightarrow> map_ok m \<and> (\<forall>k' \<in> fst ` set m. k < k')"
  by (auto simp: map_ok_def)

lemma map_ok_Nil: "map_ok []"
  by (simp add: map_ok_def)

lemma keys_map_insert: "fst ` set (map_insert k v m) = insert k (fst ` set m)"
  by (induction k v m rule: map_insert.induct) (auto simp: rev_image_eqI)

lemma keys_map_put: "fst ` set (map_put k v m) = insert k (fst ` set m)"
  by (induction k v m rule: map_put.induct) (auto simp: rev_image_eqI)

lemma keys_map_erase: "fst ` set (map_erase k m) \<subseteq> fst ` set m"
  by (induction k m rule: map_erase.induct) auto

lemma map_ok_insert: "map_ok m \<Longrightarrow> map_ok (map_insert k v m)"
  by (induction k v m rule: map_insert.induct) (auto simp: map_ok_Cons keys_map_insert) 

lemma map_ok_put: "map_ok m \<Longrightarrow> map_ok (map_put k v m)"
  by (induction k v m rule: map_put.induct) (auto simp: map_ok_Cons keys_map_put)

lemma map_ok_erase: "map_ok m \<Longrightarrow> map_ok (map_erase k m)"
proof (induction k m rule: map_erase.induct)
  case (2 k k' v' m)
  have m: "map_ok m" "\<forall>x \<in> fst ` set m. k' < x" using "2.prems" unfolding map_ok_Cons by blast+
  show ?case
  proof (cases "k = k'")
    case True
    then show ?thesis using m by simp
  next
    case False
    have "\<forall>x \<in> fst ` set (map_erase k m). k' < x" using m(2) keys_map_erase [of k m] by (meson subsetD)
    then show ?thesis using 2(1) [OF False m(1)] False by (simp only: map_erase.simps if_False map_ok_Cons)
  qed
qed simp

lemma map_of_not_key: "k \<notin> fst ` set m \<Longrightarrow> map_of m k = None"
  by (simp add: map_of_eq_None_iff)

lemma map_of_insert:
  "map_ok m \<Longrightarrow> map_of (map_insert k v m) = (case map_of m k of None \<Rightarrow> (map_of m)(k \<mapsto> v) | Some _ \<Rightarrow> map_of m)"
proof (induction k v m rule: map_insert.induct)
  case (2 k v k' v' m)
  have "k < k' \<Longrightarrow> map_of ((k', v') # m) k = None"
    using "2.prems" by (intro map_of_not_key) (auto simp: map_ok_Cons)
  then show ?case using 2 by (auto simp: map_ok_Cons fun_eq_iff split: option.split)
qed auto

lemma map_of_put: "map_ok m \<Longrightarrow> map_of (map_put k v m) = (map_of m)(k \<mapsto> v)"
  by (induction k v m rule: map_put.induct) (auto simp: map_ok_Cons)

lemma map_of_erase: "map_ok m \<Longrightarrow> map_of (map_erase k m) = (map_of m)(k := None)"
proof (induction k m rule: map_erase.induct)
  case (2 k k' v' m)
  then show ?case
    using map_of_not_key [of k' m] by (auto simp: map_ok_Cons fun_eq_iff)
qed auto

interpretation std_map: ordered_map "[]" map_insert map_put map_erase map_find map_ok
  by unfold_locales
    (auto simp: map_find_def map_of_insert map_of_put map_of_erase map_ok_insert map_ok_put map_ok_erase map_ok_Nil
      split: option.splits)

end
