(* ===== verification/Cookie.thy ===== *)
theory Cookie
  imports StdMap
begin

text \<open>
  \<open>src/src/cwf/cookie.h\<close> and \<open>cookie.cc\<close>: the cookies of a request, a map from names to items, with the
  parser of the \<open>Cookie\<close> header.
\<close>

record Item =
  item_name :: string
  item_value :: string
  item_domain :: string
  item_path :: string
  item_expires :: string
  item_maxage :: nat
  item_secure :: nat
  item_version :: string

text \<open>\<open>Item()\<close>: value-initialised, so the bit fields are zero.\<close>

definition Item0 :: Item where
  "Item0 = \<lparr>item_name = [], item_value = [], item_domain = [], item_path = [], item_expires = [],
     item_maxage = 0, item_secure = 0, item_version = []\<rparr>"

definition Item_text :: "Item \<Rightarrow> string" where
  "Item_text i =
     item_name i @ ''='' @ item_value i
     @ (if item_domain i \<noteq> [] then '';Domain='' @ item_domain i else [])
     @ (if item_path i \<noteq> [] then '';Path='' @ item_path i else [])
     @ (if item_expires i \<noteq> [] then '';Expires='' @ item_expires i else [])"

type_synonym Cookie = "(string, Item) std_map"

text \<open>\<open>Add(name)\<close> inserts an empty item when there is none and hands out a reference to the item of the
  name; the update through that reference is the argument \<open>f\<close>.\<close>

definition Add_item :: "string \<Rightarrow> (Item \<Rightarrow> Item) \<Rightarrow> Cookie \<Rightarrow> Cookie" where
  "Add_item name f c =
     (let c = map_insert name Item0 c in
      case map_find c name of Some i \<Rightarrow> map_put name (f i) c | None \<Rightarrow> c)"

definition Add :: "string \<Rightarrow> string \<Rightarrow> Cookie \<Rightarrow> Cookie" where
  "Add name val c = Add_item name (item_value_update (\<lambda>_. val)) c"

definition Get :: "Cookie \<Rightarrow> string \<Rightarrow> string" where
  "Get c name = (case map_find c name of Some i \<Rightarrow> item_value i | None \<Rightarrow> [])"

fun parse_items :: "string list \<Rightarrow> Cookie \<Rightarrow> Cookie" where
  "parse_items [] c = c"
| "parse_items (t # ts) c =
     (let pos_equal = find_first_of t (CHR ''='') in
      if pos_equal \<noteq> npos
      then parse_items ts (Add (substr t 0 pos_equal) (substr t (pos_equal + 1) npos) c)
      else parse_items ts c)"

definition Parse :: "string \<Rightarrow> Cookie \<Rightarrow> bool \<times> Cookie" where
  "Parse text c =
     (let pre = ''Cookie: '';
          t = (if starts_with text pre then substr text (length pre) npos else text)
      in (True, parse_items (split_any (set ''; *'') t) c))"

definition Cookie_new :: "string \<Rightarrow> Cookie" where
  "Cookie_new text = snd (Parse text [])"

definition Cookie_text :: "Cookie \<Rightarrow> string" where
  "Cookie_text c = concat (map (\<lambda>(_, i). Item_text i) c)"

definition DateFormat :: "int \<Rightarrow> int \<Rightarrow> int \<Rightarrow> string" where
  "DateFormat hour day month = ''Tue, 03-Sep-2019 11:25:23 GMT''"

section \<open>Adding and getting\<close>

lemma Get_Nil: "Get [] k = []"
  by (simp add: Get_def map_find_def)

lemma Add_item_ok: "map_ok c \<Longrightarrow> map_ok (Add_item n f c)"
  by (auto simp: Add_item_def Let_def std_map.ok_insert std_map.ok_put split: option.split)

lemma find_Add_item:
  "map_ok c \<Longrightarrow> map_find (Add_item n f c) = (map_find c)(n \<mapsto> f (case map_find c n of Some i \<Rightarrow> i | None \<Rightarrow> Item0))"
  by (auto simp: Add_item_def Let_def std_map.find_insert std_map.find_put std_map.ok_insert fun_eq_iff
      split: option.split)

lemma Add_ok: "map_ok c \<Longrightarrow> map_ok (Add n v c)"
  by (simp add: Add_def Add_item_ok)

lemma Get_Add: "map_ok c \<Longrightarrow> Get (Add n v c) = (Get c)(n := v)"
  by (auto simp: Get_def Add_def find_Add_item fun_eq_iff)

lemma parse_items_ok: "map_ok c \<Longrightarrow> map_ok (parse_items ts c)"
  by (induction ts c rule: parse_items.induct) (auto simp: Let_def Add_ok)

section \<open>Parsing\<close>

declare parse_items.simps(2) [simp del]

text \<open>The header a client sends for a list of cookies.\<close>

fun show_cookies :: "(string \<times> string) list \<Rightarrow> string" where
  "show_cookies [] = []"
| "show_cookies ((n, v) # kvs) = n @ ''='' @ v @ (if kvs = [] then [] else ''; '' @ show_cookies kvs)"

definition cookie_word :: "string \<Rightarrow> bool" where
  "cookie_word s \<longleftrightarrow> set s \<inter> set ''; *'' = {}"

definition cookie_list :: "(string \<times> string) list \<Rightarrow> bool" where
  "cookie_list kvs \<longleftrightarrow> list_all (\<lambda>(n, v). cookie_word n \<and> cookie_word v \<and> CHR ''='' \<notin> set n \<and> length (n @ ''='' @ v) < npos) kvs"

lemma parse_item_pair:
  assumes "CHR ''='' \<notin> set n" "length (n @ ''='' @ v) < npos"
  shows "parse_items ((n @ ''='' @ v) # ts) c = parse_items ts (Add n v c)"
proof -
  have f: "find_first_of (n @ ''='' @ v) (CHR ''='') = length n"
    using assms(1) find_first_of_append [of "CHR ''=''" n v] by simp
  have "substr (n @ ''='' @ v) 0 (length n) = n" "substr (n @ ''='' @ v) (length n + 1) npos = v"
    using assms(2) by (simp_all add: substr_def)
  then show ?thesis using f assms(2) by (simp add: parse_items.simps(2) Let_def)
qed

lemma split_cookie_sep:
  "cookie_word w \<Longrightarrow> split_any (set ''; *'') (w @ ''; '' @ t) = w # [] # split_any (set ''; *'') t"
  using split_any_append [of w "set ''; *''" "CHR '';''" "'' '' @ t"]
  by (simp add: cookie_word_def)

lemma parse_items_empty [simp]: "parse_items ([] # ts) c = parse_items ts c"
  by (simp add: parse_items.simps(2) find_first_of_def Let_def)

lemma cookie_word_pair: "cookie_word n \<Longrightarrow> cookie_word v \<Longrightarrow> cookie_word (n @ ''='' @ v)"
  by (auto simp: cookie_word_def)

lemma parse_items_show:
  "cookie_list kvs \<Longrightarrow>
   parse_items (split_any (set ''; *'') (show_cookies kvs)) c = fold (\<lambda>(n, v). Add n v) kvs c"
proof (induction kvs arbitrary: c rule: show_cookies.induct)
  case 1
  then show ?case by (simp add: find_first_of_def)
next
  case (2 n v kvs)
  have w: "cookie_word (n @ ''='' @ v)" "CHR ''='' \<notin> set n" "length (n @ ''='' @ v) < npos" "cookie_list kvs"
    using "2.prems" cookie_word_pair by (auto simp: cookie_list_def)
  show ?case
  proof (cases "kvs = []")
    case True
    have "split_any (set ''; *'') (n @ ''='' @ v) = [n @ ''='' @ v]"
      using w(1) by (intro split_any_none) (simp add: cookie_word_def)
    then show ?thesis using parse_item_pair [OF w(2,3), of "[]" c] True by simp
  next
    case False
    have "split_any (set ''; *'') (show_cookies ((n, v) # kvs))
        = (n @ ''='' @ v) # [] # split_any (set ''; *'') (show_cookies kvs)"
      using split_cookie_sep [OF w(1), of "show_cookies kvs"] False by simp
    then show ?thesis
      using parse_item_pair [OF w(2,3)] "2.IH" [OF False] w(4) False by simp
  qed
qed

lemma Get_fold_Add:
  "map_ok c \<Longrightarrow> Get (fold (\<lambda>(n, v). Add n v) kvs c) k = (case map_of (rev kvs) k of Some v \<Rightarrow> v | None \<Rightarrow> Get c k)"
proof (induction kvs arbitrary: c)
  case (Cons kv kvs)
  obtain n v where kv: "kv = (n, v)" by (cases kv)
  show ?case
    using Cons by (simp add: kv Add_ok Get_Add map_add_def split: option.split)
qed simp

text \<open>A header without the prefix is not taken for one with it: a space only follows a semicolon.\<close>

lemma show_cookies_no_prefix: "cookie_list kvs \<Longrightarrow> \<not> starts_with (show_cookies kvs) ''Cookie: ''"
proof (cases kvs)
  case Nil
  then show ?thesis by (simp add: starts_with_def)
next
  case (Cons kv rest)
  assume "cookie_list kvs"
  then obtain n v where kv: "kv = (n, v)" and w: "cookie_word (n @ ''='' @ v)"
    using cookie_word_pair Cons by (cases kv) (auto simp: cookie_list_def)
  define t where "t = (if rest = [] then [] else ''; '' @ show_cookies rest)"
  define w' P where "w' = n @ ''='' @ v" and "P = ''Cookie: ''"
  have eq: "show_cookies kvs = w' @ t" by (simp add: Cons kv t_def w'_def)
  have P: "CHR '' '' \<in> set P" "CHR '';'' \<notin> set P" by (simp_all add: P_def)
  have "\<not> starts_with (w' @ t) P"
  proof
    assume "starts_with (w' @ t) P"
    then have pre: "take (length P) (w' @ t) = P" by (simp add: starts_with_def)
    show False
    proof (cases "length P \<le> length w'")
      case True
      then have "take (length P) w' = P" using pre by simp
      then have "CHR '' '' \<in> set w'" using P(1) by (metis in_set_takeD)
      then show False using w by (simp add: cookie_word_def w'_def)
    next
      case False
      have "t \<noteq> []" using arg_cong [OF pre, of length] False by auto
      then have "(w' @ t) ! length w' = CHR '';''" by (simp add: t_def split: if_splits)
      then have "P ! length w' = CHR '';''" using False pre by (metis linorder_not_le nth_take)
      then show False using False P(2) nth_mem [of "length w'" P] by simp
    qed
  qed
  then show ?thesis by (simp only: eq P_def not_False_eq_True)
qed

text \<open>
  C39: \<open>Parse\<close> reads a \<open>Cookie\<close> header back: \<open>Get\<close> of a name returns the last value the header gives it,
  and the empty string for a name it does not mention, with or without the \<open>Cookie: \<close> prefix. Names and
  values may not hold the separators.
\<close>

theorem cookie_round_trip:
  assumes "cookie_list kvs" and "pre \<in> {''Cookie: '', []}" and "length (show_cookies kvs) < npos"
  shows "Get (Cookie_new (pre @ show_cookies kvs)) k = (case map_of (rev kvs) k of Some v \<Rightarrow> v | None \<Rightarrow> [])"
proof -
  have "Cookie_new (pre @ show_cookies kvs) = parse_items (split_any (set ''; *'') (show_cookies kvs)) []"
    using assms show_cookies_no_prefix [OF assms(1)]
    by (auto simp: Cookie_new_def Parse_def Let_def substr_def starts_with_def)
  then show ?thesis
    using parse_items_show [OF assms(1)] Get_fold_Add [OF std_map.ok_empty] Get_Nil by (simp cong: option.case_cong)
qed

theorem cookie_round_trip_witness:
  "Get (Cookie_new (''Cookie: '' @ show_cookies [(''SID'', ''x=1''), (''lang'', ''en''), (''SID'', ''y'')])) ''SID''
     = (case map_of (rev [(''SID'', ''x=1''), (''lang'', ''en''), (''SID'', ''y'')]) ''SID'' of Some v \<Rightarrow> v | None \<Rightarrow> [])"
  by (rule cookie_round_trip) (simp_all add: cookie_list_def cookie_word_def npos_def)

text \<open>
  A cookie that was parsed or added by name and value is printed without its name: the name is the
  key of the map, and the field that \<open>text\<close> prints is never set.
\<close>

theorem cookie_text_has_no_name:
  "Cookie_text (Cookie_new ''a=b'') = ''=b'' \<and> Get (Cookie_new ''a=b'') ''a'' = ''b''"
proof -
  have l: "cookie_list [(''a'', ''b'')]" by (simp add: cookie_list_def cookie_word_def npos_def)
  have "Cookie_new ''a=b'' = Add ''a'' ''b'' []"
    using parse_items_show [OF l, of "[]"] by (simp add: Cookie_new_def Parse_def Let_def starts_with_def)
  then show ?thesis
    by (simp add: Add_def Add_item_def Cookie_text_def Item_text_def Get_def map_find_def Item0_def Let_def)
qed

end
