(* ===== verification/Fcgi.thy ===== *)
theory Fcgi
  imports Prelude
begin

text \<open>
  The two calls the framework makes on FastCGI streams, \<open>FCGX_GetStr\<close> and \<open>FCGX_PutStr\<close> of
  \<open>src/src/3rdparty/libfcgi/fcgiapp.c\<close>. A reader stream holds the bytes between \<open>rdNext\<close> and
  \<open>stop\<close>; \<open>fillBuffProc\<close> replaces them by the next record of the connection, or closes the stream when
  there is none. Records may be of any size, also empty.
\<close>

record in_stream =
  unread :: bytes
  records :: "bytes list"
  isClosed :: bool

definition fillBuffProc :: "in_stream \<Rightarrow> in_stream" where
  "fillBuffProc st =
     (case records st of
        [] \<Rightarrow> st\<lparr>unread := [], isClosed := True\<rparr>
      | r # rs \<Rightarrow> st\<lparr>unread := r, records := rs\<rparr>)"

text \<open>The \<open>for (;;)\<close> loop: \<open>n\<close> is what is still wanted, \<open>str\<close> what was moved.\<close>

function GetStr_loop :: "nat \<Rightarrow> bytes \<Rightarrow> in_stream \<Rightarrow> bytes \<times> in_stream" where
  "GetStr_loop n str st =
     (let m = min n (length (unread st));
          str' = str @ take m (unread st);
          st' = st\<lparr>unread := drop m (unread st)\<rparr>
      in if unread st \<noteq> [] \<and> m = n then (str', st')
         else if isClosed st' then (str', st')
         else let st'' = fillBuffProc st' in
           if isClosed st'' then (str', st'') else GetStr_loop (n - m) str' st'')"
  by pat_completeness auto
termination
  by (relation "measure (\<lambda>(_, _, st). length (records st))") (auto simp: fillBuffProc_def Let_def split: list.splits)

declare GetStr_loop.simps [simp del]

definition FCGX_GetStr :: "nat \<Rightarrow> in_stream \<Rightarrow> bytes \<times> in_stream" where
  "FCGX_GetStr n st =
     (if isClosed st \<or> n = 0 then ([], st)
      else if n \<le> length (unread st) then (take n (unread st), st\<lparr>unread := drop n (unread st)\<rparr>)
      else GetStr_loop n [] st)"

text \<open>A writer stream is the sequence of bytes that went to it.\<close>

definition FCGX_PutStr :: "bytes \<Rightarrow> bytes \<Rightarrow> bytes" where
  "FCGX_PutStr str out = out @ str"

section \<open>The bytes of a stream\<close>

definition pending :: "in_stream \<Rightarrow> bytes" where
  "pending st = (if isClosed st then [] else unread st @ concat (records st))"

text \<open>A closed stream has been read to the end of its buffer.\<close>

definition stream_ok :: "in_stream \<Rightarrow> bool" where
  "stream_ok st \<longleftrightarrow> (isClosed st \<longrightarrow> unread st = [])"

lemma GetStr_loop_pending:
  "stream_ok st \<Longrightarrow> \<not> isClosed st \<Longrightarrow> 0 < n \<Longrightarrow> GetStr_loop n str st = (str', st') \<Longrightarrow>
   str' = str @ take n (pending st) \<and> pending st' = drop n (pending st) \<and> stream_ok st'"
proof (induction n str st arbitrary: str' st' rule: GetStr_loop.induct)
  case (1 n str st)
  let ?m = "min n (length (unread st))"
  let ?st = "st\<lparr>unread := drop ?m (unread st)\<rparr>"
  show ?case
  proof (cases "unread st \<noteq> [] \<and> ?m = n")
    case True
    then have "str' = str @ take n (unread st)" "st' = ?st"
      using "1.prems" by (simp_all add: GetStr_loop.simps [of n str st] Let_def)
    then show ?thesis using True "1.prems" by (auto simp: pending_def stream_ok_def min_def split: if_splits)
  next
    case part: False
    have short: "length (unread st) < n"
    proof (rule ccontr)
      assume "\<not> length (unread st) < n"
      then show False using part "1.prems"(3) by (cases "unread st") (auto simp: min_def)
    qed
    then have short: "length (unread st) < n" "?m = length (unread st)" by simp_all
    show ?thesis
    proof (cases "records st")
      case Nil
      then have "str' = str @ unread st" "st' = fillBuffProc ?st"
        using "1.prems" part short by (auto simp: GetStr_loop.simps [of n str st] Let_def fillBuffProc_def)
      then show ?thesis using Nil short "1.prems" by (auto simp: pending_def stream_ok_def fillBuffProc_def)
    next
      case (Cons r rs)
      let ?st2 = "fillBuffProc ?st"
      have st2: "?st2 = st\<lparr>unread := r, records := rs\<rparr>" using Cons by (simp add: fillBuffProc_def)
      have run: "GetStr_loop (n - ?m) (str @ take ?m (unread st)) ?st2 = (str', st')"
        using "1.prems" part short Cons by (simp add: GetStr_loop.simps [of n str st] Let_def fillBuffProc_def)
      have "str' = (str @ take ?m (unread st)) @ take (n - ?m) (pending ?st2) \<and> pending st' = drop (n - ?m) (pending ?st2)
          \<and> stream_ok st'"
      proof (rule "1.IH")
        show "\<not> (unread st \<noteq> [] \<and> ?m = n)" "\<not> isClosed ?st" "\<not> isClosed ?st2" "\<not> isClosed ?st2" "stream_ok ?st2" "0 < n - ?m"
          using part "1.prems" short st2 by (auto simp: stream_ok_def)
        show "GetStr_loop (n - ?m) (str @ take ?m (unread st)) ?st2 = (str', st')" by (rule run)
      qed simp_all
      then show ?thesis using st2 short Cons "1.prems"(2) by (simp add: pending_def)
    qed
  qed
qed

lemma FCGX_GetStr_pending:
  "stream_ok st \<Longrightarrow> FCGX_GetStr n st = (str, st') \<Longrightarrow>
   str = take n (pending st) \<and> pending st' = drop n (pending st) \<and> stream_ok st'"
proof -
  assume ok: "stream_ok st" and get: "FCGX_GetStr n st = (str, st')"
  consider "isClosed st \<or> n = 0" | "\<not> isClosed st" "0 < n" "n \<le> length (unread st)"
    | "\<not> isClosed st" "0 < n" "length (unread st) < n" by linarith
  then show ?thesis
  proof cases
    case 1
    then show ?thesis using ok get by (auto simp: FCGX_GetStr_def pending_def)
  next
    case 2
    then show ?thesis using get by (auto simp: FCGX_GetStr_def pending_def stream_ok_def)
  next
    case 3
    then have "GetStr_loop n [] st = (str, st')" using get by (simp add: FCGX_GetStr_def)
    then show ?thesis using GetStr_loop_pending [OF ok 3(1,2), of "[]" str st'] by simp
  qed
qed

text \<open>
  \<open>FCGX_GetStr\<close> refines reading from a plain byte sequence: however the connection cuts its data into
  records, the call returns the next \<open>n\<close> bytes, fewer only at the end, and leaves the rest.
\<close>

theorem GetStr_refines:
  assumes "stream_ok st"
  shows "fst (FCGX_GetStr n st) = take n (pending st) \<and> pending (snd (FCGX_GetStr n st)) = drop n (pending st)"
  using FCGX_GetStr_pending [OF assms, of n "fst (FCGX_GetStr n st)" "snd (FCGX_GetStr n st)"] by simp

theorem GetStr_refines_witness:
  "fst (FCGX_GetStr 4 \<lparr>unread = ''a'', records = [[], ''bc'', ''def''], isClosed = False\<rparr>)
     = take 4 (pending \<lparr>unread = ''a'', records = [[], ''bc'', ''def''], isClosed = False\<rparr>)"
  using GetStr_refines [of "\<lparr>unread = ''a'', records = [[], ''bc'', ''def''], isClosed = False\<rparr>" 4]
  by (simp add: stream_ok_def)

end
