(* ===== verification/Stream.thy ===== *)
theory Stream
  imports Http StringEncode Cookie Fcgi "HOL-Library.Monad_Syntax"
begin

text \<open>
  \<open>src/src/cwf/stream.h\<close>, \<open>stream.cc\<close> and \<open>site.h\<close>: requests, built from the FastCGI environment and
  body, and responses. \<open>None\<close> as the result of a parser means that it does not return a value: it
  throws (\<open>substr\<close> behind the end of a string) or never ends.
\<close>

section \<open>Data\<close>

record User =
  user_name :: string
  user_id :: int

definition User_new :: "string \<Rightarrow> int \<Rightarrow> User" where
  "User_new name i = \<lparr>user_name = name, user_id = i\<rparr>"

definition set_name :: "string \<Rightarrow> User \<Rightarrow> User" where
  "set_name name u = u\<lparr>user_name := name\<rparr>"

type_synonym StringMap = "(string, string) std_map"

record FormDisposition =
  fd_name :: string
  fd_filename :: string
  fd_content_type :: string
  fd_data :: bytes

definition FormDisposition0 :: FormDisposition where
  "FormDisposition0 = \<lparr>fd_name = [], fd_filename = [], fd_content_type = [], fd_data = []\<rparr>"

record Request =
  req_host :: string
  req_url :: string
  req_user :: "User option"
  req_cookie :: Cookie
  req_query :: StringMap
  req_header :: StringMap
  req_query_string :: string
  req_form :: StringMap
  req_file_array :: "FormDisposition list"
  req_method :: HttpVerb

definition Request0 :: Request where
  "Request0 = \<lparr>req_host = [], req_url = [], req_user = None, req_cookie = [], req_query = [], req_header = [], req_query_string = [],
     req_form = [], req_file_array = [], req_method = HV_GET\<rparr>"

definition set_user :: "User option \<Rightarrow> Request \<Rightarrow> Request" where
  "set_user u r = r\<lparr>req_user := u\<rparr>"

text \<open>\<open>kEmptyString\<close> stands for a missing entry.\<close>

definition query :: "Request \<Rightarrow> string \<Rightarrow> string" where
  "query r key = (case map_find (req_query r) key of Some v \<Rightarrow> v | None \<Rightarrow> [])"

definition form :: "Request \<Rightarrow> string \<Rightarrow> string" where
  "form r key = (case map_find (req_form r) key of Some v \<Rightarrow> v | None \<Rightarrow> [])"

definition header_of :: "Request \<Rightarrow> string \<Rightarrow> string" where
  "header_of r key = (case map_find (req_header r) key of Some v \<Rightarrow> v | None \<Rightarrow> [])"

definition get :: "Request \<Rightarrow> string \<Rightarrow> string" where
  "get r key = (let ret = query r key in if ret = [] then form r key else ret)"

text \<open>The integer overloads; \<open>lexical_cast\<close> is \<open>boost::lexical_cast<int>\<close>, \<open>None\<close> when it throws.\<close>

definition query_int :: "(string \<Rightarrow> int option) \<Rightarrow> Request \<Rightarrow> string \<Rightarrow> int \<Rightarrow> int" where
  "query_int lexical_cast r key default_value =
     (let s = query r key in
      if s = [] then default_value
      else case lexical_cast s of Some i \<Rightarrow> i | None \<Rightarrow> default_value)"

definition form_int :: "(string \<Rightarrow> int option) \<Rightarrow> Request \<Rightarrow> string \<Rightarrow> int \<Rightarrow> int" where
  "form_int lexical_cast r key default_value =
     (let s = form r key in
      if s = [] then default_value
      else case lexical_cast s of Some i \<Rightarrow> i | None \<Rightarrow> default_value)"

definition get_int :: "(string \<Rightarrow> int option) \<Rightarrow> Request \<Rightarrow> string \<Rightarrow> int \<Rightarrow> int" where
  "get_int lexical_cast r key default_value =
     (let s = query r key; s = (if s = [] then form r key else s) in
      if s = [] then default_value
      else case lexical_cast s of Some i \<Rightarrow> i | None \<Rightarrow> default_value)"

section \<open>Query strings\<close>

definition url_decode_text :: "string \<Rightarrow> nat \<times> string" where
  "url_decode_text source =
     (let (ret, buf) = url_decode (Some (length source + 1)) source in (ret, c_str buf))"

fun query_items :: "string list \<Rightarrow> StringMap \<Rightarrow> StringMap" where
  "query_items [] ret = ret"
| "query_items (i # is) ret =
     (let pos_equal = find_first_of i (CHR ''='') in
      if pos_equal \<noteq> npos then
        let key = substr i 0 pos_equal;
            value = substr i (pos_equal + 1) npos;
            d = snd (url_decode_text value)
        in query_items is (map_insert key d ret)
      else query_items is ret)"

definition ParseQuery :: "string \<Rightarrow> StringMap" where
  "ParseQuery text = query_items (split_any {CHR ''&''} text) []"

section \<open>Multipart bodies\<close>

definition RemoveQuote :: "string \<Rightarrow> string" where
  "RemoveQuote text =
     (if 2 \<le> length text \<and> text ! 0 = CHR 0x22 \<and> text ! (length text - 1) = CHR 0x22
      then substr text 1 (length text - 2) else text)"

text \<open>\<open>std::string::substr\<close> throws when the position lies behind the end.\<close>

definition substr_at :: "string \<Rightarrow> nat \<Rightarrow> nat \<Rightarrow> string option" where
  "substr_at s pos n = (if length s < pos then None else Some (substr s pos n))"

definition CRLF :: string where
  "CRLF = [CHR 0x0D, CHR 0x0A]"

text \<open>The parameters of one \<open>Content-Disposition\<close> line, up to its end \<open>cr\<close>.\<close>

partial_function (option) par_loop :: "string \<Rightarrow> nat \<Rightarrow> nat \<Rightarrow> FormDisposition \<Rightarrow> FormDisposition option" where
  "par_loop text cr par_pos afd =
     (let par_start = str_find text ''; '' par_pos in
      if szsub cr 5 < par_start then Some afd
      else let par_end = str_find text ''='' par_start in
      if szsub cr 2 < par_end then Some afd
      else let value_end = str_find text ''; '' par_end;
               value_end = (if cr < value_end then cr else value_end) in
      do {
        par_name \<leftarrow> substr_at text (szadd par_start 2) (szsub par_end (szadd par_start 2));
        par_value \<leftarrow> substr_at text (szadd par_end 1) (szsub value_end (szadd par_end 1));
        let par_name = RemoveQuote par_name;
        let par_value = RemoveQuote par_value;
        let afd = (if par_name = ''name'' then afd\<lparr>fd_name := par_value\<rparr>
                   else if par_name = ''filename'' then afd\<lparr>fd_filename := par_value\<rparr>
                   else afd);
        let par_pos = value_end;
        if par_pos < cr then par_loop text cr par_pos afd else Some afd
      })"

text \<open>One header line \<open>[p, cr)\<close>; \<open>name_end\<close> is where its name ends.\<close>

definition header_line :: "string \<Rightarrow> nat \<Rightarrow> nat \<Rightarrow> nat \<Rightarrow> FormDisposition \<Rightarrow> FormDisposition option" where
  "header_line text p cr name_end afd =
     (if name_end \<noteq> npos \<and> name_end < cr then do {
        name \<leftarrow> substr_at text p (szsub name_end p);
        if name = ''Content-Type'' then do {
          t \<leftarrow> substr_at text (szadd name_end 2) (szsub cr (szadd name_end 2));
          Some (afd\<lparr>fd_content_type := t\<rparr>)
        }
        else if name = ''Content-Disposition'' then par_loop text cr name_end afd
        else Some afd
      } else Some afd)"

text \<open>The header lines of one part, up to \<open>header_end\<close>.\<close>

partial_function (option) line_loop :: "string \<Rightarrow> nat \<Rightarrow> nat \<Rightarrow> FormDisposition \<Rightarrow> FormDisposition option" where
  "line_loop text header_end p afd =
     (let cr = str_find text CRLF p;
          name_end = str_find text '': '' p in
      do {
        afd \<leftarrow> header_line text p cr name_end afd;
        let p = szadd cr 2;
        if p < header_end then line_loop text header_end p afd else Some afd
      })"

definition ParseDisposition :: "string \<Rightarrow> nat \<Rightarrow> nat \<Rightarrow> FormDisposition option" where
  "ParseDisposition text start stop =
     (let afd = FormDisposition0;
          header_start = str_find text ''Content-Disposition'' start in
      if header_start \<noteq> start then Some afd
      else let header_end = str_find text (CRLF @ CRLF) start in
      if header_end = npos \<or> stop < header_end then Some afd
      else do {
        afd \<leftarrow> line_loop text header_end header_start afd;
        d \<leftarrow> substr_at text (szadd header_end 4) (szsub (szsub stop (szadd header_end 4)) 2);
        Some (afd\<lparr>fd_data := d\<rparr>)
      })"

text \<open>\<open>text[i]\<close> of a constant string: the terminating zero at the end.\<close>

definition char_at :: "string \<Rightarrow> nat \<Rightarrow> char" where
  "char_at s i = (if i < length s then s ! i else NUL)"

partial_function (option) part_loop :: "string \<Rightarrow> string \<Rightarrow> nat \<Rightarrow> FormDisposition list \<Rightarrow> FormDisposition list option" where
  "part_loop boundary text pos result =
     (let boundary_start = str_find text boundary pos in
      if boundary_start = npos then Some result
      else let boundary_start = szadd boundary_start (length boundary) in
      if length text < szadd boundary_start 2
         \<and> (char_at text boundary_start \<noteq> CHR 0x0D \<or> char_at text (szadd boundary_start 1) \<noteq> CHR 0x0A)
      then Some result
      else let boundary_start = szadd boundary_start 2;
               boundary_end = str_find text boundary boundary_start in
      if boundary_end = npos then Some result
      else do {
        afd \<leftarrow> ParseDisposition text boundary_start boundary_end;
        part_loop boundary text boundary_end (result @ [afd])
      })"

definition boundary_of :: "string \<Rightarrow> string" where
  "boundary_of content_type =
     (let boundary = ''--''; pos = str_find content_type ''boundary='' 0 in
      if pos \<noteq> npos then
        if char_at content_type (szadd pos 1) = CHR 0x22 then boundary
        else boundary @ substr content_type (szadd pos (length ''boundary='')) npos
      else boundary)"

definition ParseMultipartForm :: "string \<Rightarrow> string \<Rightarrow> FormDisposition list option" where
  "ParseMultipartForm content_type text = part_loop (boundary_of content_type) text 0 []"

definition ParseOctetStream :: "string \<Rightarrow> FormDisposition" where
  "ParseOctetStream text = FormDisposition0"

section \<open>Building a request\<close>

text \<open>One entry of the environment. A method with an unknown name leaves the method unchanged.\<close>

definition env_entry :: "string \<Rightarrow> Request \<Rightarrow> Request" where
  "env_entry str r =
     (let pos_equal = find_first_of str (CHR ''='') in
      if pos_equal = npos then r
      else let key = substr str 0 pos_equal; value = substr str (pos_equal + 1) npos in
      if value = [] then r
      else if starts_with key ''HTTP_'' then
        r\<lparr>req_header := map_put (substr key (length ''HTTP_'') npos) value (req_header r)\<rparr>
      else if key = ''QUERY_STRING'' then r\<lparr>req_query_string := value\<rparr>
      else if key = ''REQUEST_METHOD'' then
        (case FromString_verb value of Some v \<Rightarrow> r\<lparr>req_method := v\<rparr> | None \<Rightarrow> r)
      else if key = ''REQUEST_URI'' then r\<lparr>req_url := value\<rparr>
      else r\<lparr>req_header := map_put key value (req_header r)\<rparr>)"

text \<open>The body is read in pieces of \<open>sizeof(buf)\<close> bytes until a piece is short.\<close>

definition sizeof_buf :: nat where
  "sizeof_buf = 2048"

partial_function (option) read_loop :: "in_stream \<Rightarrow> bytes \<Rightarrow> (bytes \<times> in_stream) option" where
  "read_loop st data =
     (let (buf, st) = FCGX_GetStr sizeof_buf st;
          data = data @ buf
      in if length buf = sizeof_buf then read_loop st data else Some (data, st))"

fun merge_parts :: "FormDisposition list \<Rightarrow> Request \<Rightarrow> Request" where
  "merge_parts [] r = r"
| "merge_parts (afd # arr) r =
     merge_parts arr
       (if fd_filename afd = [] then r\<lparr>req_form := map_insert (fd_name afd) (fd_data afd) (req_form r)\<rparr>
        else r\<lparr>req_file_array := req_file_array r @ [afd]\<rparr>)"

definition parse_body :: "bytes \<Rightarrow> Request \<Rightarrow> Request option" where
  "parse_body data r =
     (if data = [] then Some r
      else let type = header_of r ''CONTENT_TYPE'';
               pos = find_first_of type (CHR '';'');
               part_type = (if pos \<noteq> npos then substr type 0 pos else type) in
      if part_type = ''application/x-www-form-urlencoded'' then Some (r\<lparr>req_form := ParseQuery data\<rparr>)
      else if part_type = ''multipart/form-data'' then do {
        arr \<leftarrow> ParseMultipartForm type data;
        Some (merge_parts arr r)
      }
      else if part_type = ''application/octet-stream'' then
        let fd = ParseOctetStream data in
        Some (if fd_data fd \<noteq> [] then r\<lparr>req_file_array := req_file_array r @ [fd\<lparr>fd_name := ''noname''\<rparr>]\<rparr> else r)
      else Some r)"

definition Request_Init :: "in_stream \<Rightarrow> string list \<Rightarrow> Request \<Rightarrow> (bool \<times> Request \<times> in_stream) option" where
  "Request_Init st envp r =
     (let r = fold env_entry envp r;
          r = r\<lparr>req_host := header_of r ''HOST''\<rparr>;
          r = r\<lparr>req_cookie := snd (Parse (header_of r ''COOKIE'') (req_cookie r))\<rparr>;
          r = (if req_query_string r \<noteq> [] then r\<lparr>req_query := ParseQuery (req_query_string r)\<rparr> else r)
      in do {
        (r, st) \<leftarrow> (if req_method r = HV_POST then do {
                     (data, st) \<leftarrow> read_loop st [];
                     r \<leftarrow> parse_body data r;
                     Some (r, st)
                   } else Some (r, st));
        Some (\<not> (req_url r = [] \<or> req_host r = [] \<or> req_header r = []), r, st)
      })"

section \<open>Responses\<close>

text \<open>The status code of a fresh header is not initialised: it is an argument of \<open>Response_new\<close>.\<close>

record Header =
  hdr_list :: "(HttpHeader \<times> string) list"
  hdr_hc :: HttpStatusCode
  hdr_message :: string

definition Header_Add :: "HttpHeader \<Rightarrow> string \<Rightarrow> Header \<Rightarrow> Header" where
  "Header_Add hh value h = h\<lparr>hdr_list := hdr_list h @ [(hh, value)]\<rparr>"

definition set_status_code :: "HttpStatusCode \<Rightarrow> string \<Rightarrow> Header \<Rightarrow> Header" where
  "set_status_code hc message h = h\<lparr>hdr_hc := hc, hdr_message := message\<rparr>"

definition Header_Write :: "Header \<Rightarrow> string" where
  "Header_Write h =
     ''HTTP/'' @ ToString_version HVER_X @ '' '' @ show_nat (status_code (hdr_hc h)) @ '' '' @ hdr_message h @ CRLF
     @ concat (map (\<lambda>(hh, v). ToString_header hh @ '': '' @ v @ CRLF) (hdr_list h))
     @ CRLF"

record Response =
  res_stem :: string
  res_header :: Header
  res_out :: bytes

definition Response_new :: "HttpStatusCode \<Rightarrow> bytes \<Rightarrow> Response" where
  "Response_new hc out = \<lparr>res_stem = [], res_header = \<lparr>hdr_list = [], hdr_hc = hc, hdr_message = []\<rparr>, res_out = out\<rparr>"

definition Emit_char :: "char \<Rightarrow> Response \<Rightarrow> Response" where
  "Emit_char c p = p\<lparr>res_stem := res_stem p @ [c]\<rparr>"

definition Emit_string :: "string \<Rightarrow> Response \<Rightarrow> Response" where
  "Emit_string s p = p\<lparr>res_stem := res_stem p @ s\<rparr>"

definition Emit_cstr :: "string \<Rightarrow> Response \<Rightarrow> Response" where
  "Emit_cstr s p = p\<lparr>res_stem := res_stem p @ c_str s\<rparr>"

definition Emit_len :: "string \<Rightarrow> nat \<Rightarrow> Response \<Rightarrow> Response" where
  "Emit_len s slen p = p\<lparr>res_stem := res_stem p @ take slen s\<rparr>"

definition OutputHeader :: "Response \<Rightarrow> Response" where
  "OutputHeader p = p\<lparr>res_out := FCGX_PutStr (Header_Write (res_header p)) (res_out p)\<rparr>"

definition WriteRaw :: "bytes \<Rightarrow> Response \<Rightarrow> Response" where
  "WriteRaw text p = p\<lparr>res_out := FCGX_PutStr text (res_out p)\<rparr>"

definition WriteRawWithHeader :: "bytes \<Rightarrow> Response \<Rightarrow> Response" where
  "WriteRawWithHeader buf p = p\<lparr>res_out := FCGX_PutStr (Header_Write (res_header p) @ buf) (res_out p)\<rparr>"

abbreviation with_header :: "(Header \<Rightarrow> Header) \<Rightarrow> Response \<Rightarrow> Response" where
  "with_header f p \<equiv> p\<lparr>res_header := f (res_header p)\<rparr>"

end
