(* ===== verification/Frame.thy ===== *)
theory Frame
  imports Stream
begin

text \<open>
  The framework of \<open>src/src/cwf\<close>: URL patterns (\<open>pattern.h\<close>), actions (\<open>action.h\<close>, \<open>action.cc\<close>), the
  dispatcher and the request loop (\<open>frame.h\<close>, \<open>frame.cc\<close>). An action works on the request, the response and
  a world \<open>'w\<close> that stands for whatever else it changes.
\<close>

section \<open>Patterns\<close>

datatype Pattern = StringPattern string | AnyPattern

fun Pattern_Match :: "Pattern \<Rightarrow> string \<Rightarrow> bool" where
  "Pattern_Match (StringPattern text) url = starts_with url text"
| "Pattern_Match AnyPattern url = True"

section \<open>Actions\<close>

text \<open>
  How a call of \<open>Process\<close> ends: with a status code, with an exception, or not at all (undefined behaviour
  or an endless loop).
\<close>

datatype 'w handled = Done HttpStatusCode Response 'w | Thrown Response 'w | Lost

record 'w BaseAction =
  Match :: "string \<Rightarrow> bool"
  Process :: "Request \<Rightarrow> Response \<Rightarrow> 'w \<Rightarrow> 'w handled"

definition kDefaultContentType :: string where
  "kDefaultContentType = ''text/html; charset=utf-8''"

definition FooAction :: "'w BaseAction" where
  "FooAction =
     \<lparr>Match = (\<lambda>url. url = ''/foo''),
      Process = (\<lambda>_ res w.
        let res = with_header (set_status_code HC_OK ''OK'') res;
            res = with_header (Header_Add HH_CONTENT_TYPE kDefaultContentType) res;
            res = OutputHeader res;
            res = WriteRaw ''<h1>foo</h1>'' res
        in Done HC_OK res w)\<rparr>"

definition LF :: string where
  "LF = [CHR 0x0A]"

definition list_items :: "(string \<times> string) list \<Rightarrow> string" where
  "list_items m = concat (map (\<lambda>(k, v). ''<li>'' @ k @ '': '' @ v @ ''</li>'' @ LF) m)"

definition eat_text :: "Request \<Rightarrow> string" where
  "eat_text request =
     ''<ul>request:'' @ LF @ list_items (req_query request) @ ''</ul>'' @ LF
     @ ''<ul>form:'' @ LF @ list_items (req_form request) @ ''</ul>'' @ LF
     @ ''<ul>file:'' @ LF
     @ list_items (map (\<lambda>fd. (fd_filename fd, show_nat (length (fd_data fd)))) (req_file_array request)) @ ''</ul>'' @ LF"

definition EatAction :: "'w BaseAction" where
  "EatAction =
     \<lparr>Match = (\<lambda>url. str_find url ''eat'' 0 \<noteq> npos),
      Process = (\<lambda>request response w.
        let response = with_header (set_status_code HC_OK ''OK'') response;
            response = with_header (Header_Add HH_CONTENT_TYPE kDefaultContentType) response;
            response = OutputHeader response;
            response = WriteRaw ''<h1>yamm, taste good</h1>'' response;
            response = WriteRaw (eat_text request) response
        in Done HC_OK response w)\<rparr>"

section \<open>The framework\<close>

text \<open>\<open>default_actions_\<close> is a pointer, null until the first registration.\<close>

record 'w FrameWork =
  default_actions :: "'w BaseAction list option"
  host_action :: "'w BaseAction list"

definition RegisterAction :: "'w BaseAction \<Rightarrow> 'w FrameWork \<Rightarrow> 'w FrameWork" where
  "RegisterAction a fw =
     (let l = (case default_actions fw of None \<Rightarrow> [] | Some l \<Rightarrow> l)
      in fw\<lparr>default_actions := Some (l @ [a])\<rparr>)"

definition InstallDefaultAction :: "'w FrameWork \<Rightarrow> 'w FrameWork" where
  "InstallDefaultAction fw = RegisterAction FooAction (RegisterAction EatAction fw)"

definition AddAction :: "'w BaseAction \<Rightarrow> 'w FrameWork \<Rightarrow> 'w FrameWork" where
  "AddAction a fw = fw\<lparr>host_action := host_action fw @ [a]\<rparr>"

definition LoadConfig :: "string \<Rightarrow> 'w FrameWork \<Rightarrow> bool \<times> 'w FrameWork" where
  "LoadConfig filename fw = (True, fw)"

definition InitHost :: "bool \<Rightarrow> 'w FrameWork \<Rightarrow> bool \<times> 'w FrameWork" where
  "InitHost load_action fw =
     (True, case default_actions fw of Some l \<Rightarrow> fw\<lparr>host_action := l\<rparr> | None \<Rightarrow> fw)"

text \<open>\<open>type_name\<close> is \<open>typeid\<close>'s name of an action, which the compiler chooses.\<close>

definition ListAction :: "('w BaseAction \<Rightarrow> string) \<Rightarrow> 'w FrameWork \<Rightarrow> string" where
  "ListAction type_name fw =
     (case default_actions fw of None \<Rightarrow> [] | Some l \<Rightarrow> concat (map (\<lambda>a. type_name a @ LF) l))"

fun Find_in :: "'w BaseAction list \<Rightarrow> string \<Rightarrow> 'w BaseAction option" where
  "Find_in [] url = None"
| "Find_in (ha # l) url = (if Match ha url then Some ha else Find_in l url)"

definition Find :: "'w FrameWork \<Rightarrow> string \<Rightarrow> 'w BaseAction option" where
  "Find fw url = Find_in (host_action fw) url"

definition GenerateCommonHeader :: "HttpStatusCode \<Rightarrow> string \<Rightarrow> string \<Rightarrow> Header \<Rightarrow> Header" where
  "GenerateCommonHeader code message content_type h =
     (let h = set_status_code code message h
      in if content_type \<noteq> [] then Header_Add HH_CONTENT_TYPE content_type h else h)"

definition kDefaultMessage :: "(HttpStatusCode \<times> string) list" where
  "kDefaultMessage =
     [(HC_BAD_REQUEST, ''Bad Request''), (HC_UNAUTHORIZED, ''Unauthorized''),
      (HC_METHOD_NOT_ALLOWED, ''Method Not Allowed''), (HC_NOT_ACCEPTABLE, ''Not Acceptable''),
      (HC_PROXY_AUTHENTICATION_REQUIRED, ''Proxy Authentication Required''), (HC_OK, ''OK'')]"

definition ResponseError :: "HttpStatusCode \<Rightarrow> string option \<Rightarrow> Response \<Rightarrow> Response" where
  "ResponseError code message response =
     (let m = (case message of Some m \<Rightarrow> m
               | None \<Rightarrow> (case map_of kDefaultMessage code of Some m \<Rightarrow> m | None \<Rightarrow> ''TODO:''))
      in OutputHeader (with_header (set_status_code code m) response))"

definition FrameWork_Process :: "'w FrameWork \<Rightarrow> Request \<Rightarrow> Response \<Rightarrow> 'w \<Rightarrow> 'w handled" where
  "FrameWork_Process fw request response w =
     (case Find fw (req_url request) of
        None \<Rightarrow> Done HC_NOT_FOUND (ResponseError HC_NOT_FOUND None response) w
      | Some a \<Rightarrow>
          (case Process a request response w of
             Done rc response w \<Rightarrow>
               Done rc (if HC_OK \<noteq> rc then ResponseError rc None response else response) w
           | r \<Rightarrow> r))"

section \<open>The request loop\<close>

text \<open>
  One accepted connection: its input, its environment, what is on its output already, the indeterminate
  status code of the fresh response, and whether \<open>quit_\<close> has been set by the time the request is done.
\<close>

record connection =
  cn_in :: in_stream
  cn_envp :: "string list"
  cn_out :: bytes
  cn_hc :: HttpStatusCode
  cn_quit :: bool

record served =
  sv_rc :: HttpStatusCode
  sv_url :: string
  sv_out :: bytes

text \<open>
  \<open>FastcgiProc\<close> over the connections that \<open>FCGX_Accept_r\<close> delivers before it fails. A failed \<open>Init\<close> is only
  logged; an exception leaves the preset status in the log. \<open>None\<close> when a request never ends.
\<close>

fun FastcgiProc :: "'w FrameWork \<Rightarrow> connection list \<Rightarrow> 'w \<Rightarrow> (served list \<times> 'w) option" where
  "FastcgiProc fw [] w = Some ([], w)"
| "FastcgiProc fw (cn # cns) w =
     (case Request_Init (cn_in cn) (cn_envp cn) Request0 of
        None \<Rightarrow> None
      | Some (_, q, _) \<Rightarrow>
          (case (case FrameWork_Process fw q (Response_new (cn_hc cn) (cn_out cn)) w of
                   Done rc p w \<Rightarrow> Some (rc, p, w)
                 | Thrown p w \<Rightarrow> Some (HC_SERVICE_UNAVAILABLE, p, w)
                 | Lost \<Rightarrow> None) of
             None \<Rightarrow> None
           | Some (rc, p, w) \<Rightarrow>
               let sv = \<lparr>sv_rc = rc, sv_url = req_url q, sv_out = res_out p\<rparr> in
               if cn_quit cn then Some ([sv], w)
               else (case FastcgiProc fw cns w of None \<Rightarrow> None | Some (svs, w) \<Rightarrow> Some (sv # svs, w))))"

text \<open>\<open>FastcgiMain\<close> after the start-up list ran, for one thread: the result code and what was served.\<close>

definition FastcgiMain :: "'w FrameWork \<Rightarrow> connection list \<Rightarrow> 'w \<Rightarrow> (int \<times> served list \<times> 'w) option" where
  "FastcgiMain fw cns w =
     (let (ok, fw) = LoadConfig ''cwf.conf'' fw in
      if \<not> ok then Some (1, [], w)
      else let (ok, fw) = InitHost True fw in
      if \<not> ok then Some (1, [], w)
      else (case FastcgiProc fw cns w of None \<Rightarrow> None | Some (svs, w) \<Rightarrow> Some (0, svs, w)))"

section \<open>Dispatch\<close>

lemma Find_in_first:
  "Match a url \<Longrightarrow> \<forall>x\<in>set pre. \<not> Match x url \<Longrightarrow> Find_in (pre @ a # post) url = Some a"
  by (induction pre) auto

lemma Find_in_None: "Find_in l url = None \<longleftrightarrow> (\<forall>a\<in>set l. \<not> Match a url)"
  by (induction l) auto

lemma Find_in_append: "Find_in (l @ m) url = (case Find_in l url of None \<Rightarrow> Find_in m url | Some a \<Rightarrow> Some a)"
  by (induction l) auto

definition registered :: "'w BaseAction list \<Rightarrow> 'w FrameWork \<Rightarrow> 'w FrameWork" where
  "registered as fw = fold RegisterAction as fw"

lemma default_actions_registered:
  "default_actions fw = None \<Longrightarrow> as \<noteq> [] \<Longrightarrow> default_actions (registered as fw) = Some as"
proof (induction as rule: rev_induct)
  case (snoc a as)
  then show ?case by (cases "as = []") (simp_all add: registered_def RegisterAction_def)
qed simp

lemma host_registered:
  "default_actions fw = None \<Longrightarrow> as \<noteq> [] \<Longrightarrow> host_action (snd (InitHost ld (registered as fw))) = as"
  using default_actions_registered [of fw as] by (simp add: InitHost_def)

text \<open>
  C18: dispatch: after the actions were registered and \<open>InitHost\<close> copied them, a request is handled by the
  first registered action that matches its URL and by no other, an error code adds an error header to what
  the action wrote, and a URL that none matches gets a 404 header.
\<close>

theorem dispatch_first_match:
  assumes "default_actions fw = None" and "as \<noteq> []"
  defines "host \<equiv> snd (InitHost True (registered as fw))"
  shows "(\<forall>pre a post rc p' w'. as = pre @ a # post \<longrightarrow> Match a (req_url q) \<longrightarrow> (\<forall>x\<in>set pre. \<not> Match x (req_url q))
        \<longrightarrow> Process a q p w = Done rc p' w'
        \<longrightarrow> FrameWork_Process host q p w = Done rc (if rc = HC_OK then p' else ResponseError rc None p') w')
    \<and> ((\<forall>x\<in>set as. \<not> Match x (req_url q))
        \<longrightarrow> FrameWork_Process host q p w = Done HC_NOT_FOUND (ResponseError HC_NOT_FOUND None p) w)"
proof -
  have h: "host_action host = as" unfolding host_def by (rule host_registered [OF assms(1,2)])
  then show ?thesis
    using Find_in_None [of as "req_url q"] Find_in_first [of _ "req_url q"]
    by (auto simp: FrameWork_Process_def Find_def)
qed

definition sample_request :: "string \<Rightarrow> Request" where
  "sample_request u = Request0\<lparr>req_url := u\<rparr>"

definition empty_framework :: "'w FrameWork" where
  "empty_framework = \<lparr>default_actions = None, host_action = []\<rparr>"

theorem dispatch_first_match_witness:
  "FrameWork_Process (snd (InitHost True (registered [EatAction, FooAction] empty_framework)))
      (sample_request ''/foo'') (Response_new HC_OK []) (0 :: nat)
    = Done HC_OK (WriteRaw ''<h1>foo</h1>'' (OutputHeader (with_header (Header_Add HH_CONTENT_TYPE kDefaultContentType)
        (with_header (set_status_code HC_OK ''OK'') (Response_new HC_OK []))))) 0"
proof -
  let ?as = "[EatAction, FooAction] :: nat BaseAction list"
  let ?q = "sample_request ''/foo''"
  have "str_find ''/foo'' ''eat'' 0 = npos" by (simp add: str_find_def starts_with_def)
  then have m: "Match FooAction (req_url ?q)" "\<forall>x\<in>set [EatAction]. \<not> Match x (req_url ?q)"
    by (simp_all add: sample_request_def EatAction_def FooAction_def)
  have r: "Process FooAction ?q (Response_new HC_OK []) (0 :: nat)
    = Done HC_OK (WriteRaw ''<h1>foo</h1>'' (OutputHeader (with_header (Header_Add HH_CONTENT_TYPE kDefaultContentType)
        (with_header (set_status_code HC_OK ''OK'') (Response_new HC_OK []))))) 0"
    by (simp add: FooAction_def Let_def)
  have "default_actions (empty_framework :: nat FrameWork) = None" "?as \<noteq> []" "?as = [EatAction] @ FooAction # []"
    by (simp_all add: empty_framework_def)
  from dispatch_first_match [OF this(1,2), of ?q "Response_new HC_OK []" 0, THEN conjunct1, rule_format, OF this(3) m(1) bspec [OF m(2)] r]
  show ?thesis by simp
qed

end
