(* ===== verification/RequestParse.thy ===== *)
theory RequestParse
  imports Stream
begin

text \<open>
  What the request parsers of \<open>Stream\<close> guarantee: query strings and cookies are read back, the body is
  read whole, the multipart parser always returns, and it reads back the parts of a form.
\<close>

section \<open>Query strings\<close>

declare query_items.simps(2) [simp del]

lemma query_items_pair:
  assumes "CHR ''='' \<notin> set k" "length (k @ ''='' @ v) < npos"
  shows "query_items ((k @ ''='' @ v) # is) m = query_items is (map_insert k (snd (url_decode_text v)) m)"
proof -
  have f: "find_first_of (k @ ''='' @ v) (CHR ''='') = length k"
    using assms(1) find_first_of_append [of "CHR ''=''" k v] by simp
  have "substr (k @ ''='' @ v) 0 (length k) = k" "substr (k @ ''='' @ v) (length k + 1) npos = v"
    using assms(2) by (simp_all add: substr_def)
  then show ?thesis using f assms(2) by (simp add: query_items.simps(2) Let_def)
qed

lemma url_decode_text_encoded:
  assumes "NUL \<notin> set v"
  shows "snd (url_decode_text (s_url_encode v)) = v"
  using urls.undo_coded [of "[]" v "length (concat (map url_coded v)) + 1"] url_coded_longer [of v] assms
  by (simp add: url_decode_text_def s_url_encode_eq Let_def)

fun show_query :: "(string \<times> string) list \<Rightarrow> string" where
  "show_query [] = []"
| "show_query ((k, v) # kvs) = k @ ''='' @ s_url_encode v @ (if kvs = [] then [] else ''&'' @ show_query kvs)"

definition query_list :: "(string \<times> string) list \<Rightarrow> bool" where
  "query_list kvs \<longleftrightarrow> list_all (\<lambda>(k, v). CHR ''&'' \<notin> set k \<and> CHR ''='' \<notin> set k \<and> NUL \<notin> set v) kvs"

lemma url_coded_no_amp: "c \<in> set (url_coded d) \<Longrightarrow> c \<noteq> CHR ''&''"
proof -
  have "class_has (CHR ''&'') URL_UNSAFE" by code_simp
  moreover have "list_all (\<lambda>n. hex_encode_digit n \<noteq> CHR ''&'') [0..<16]" by code_simp
  then have "hex_encode_digit (n mod 16) \<noteq> CHR ''&''" "CHR ''&'' \<noteq> hex_encode_digit (n mod 16)" for n
    by (auto simp: list_all_iff eq_commute [of "CHR ''&''"])
  ultimately show "c \<in> set (url_coded d) \<Longrightarrow> ?thesis"
    by (auto simp: url_coded_def hex_pair_def and_mask_nat split: if_splits)
qed

lemma s_url_encode_no_amp: "CHR ''&'' \<notin> set (s_url_encode v)"
  using url_coded_no_amp by (auto simp: s_url_encode_eq)

lemma query_items_show:
  "query_list kvs \<Longrightarrow> length (show_query kvs) < npos \<Longrightarrow>
   query_items (split_any {CHR ''&''} (show_query kvs)) m = std_map.insert_all kvs m"
proof (induction kvs arbitrary: m rule: show_query.induct)
  case 1
  then show ?case by (simp add: query_items.simps(2) find_first_of_def std_map.insert_all_def)
next
  case (2 k v kvs)
  have w: "CHR ''&'' \<notin> set (k @ ''='' @ s_url_encode v)" "CHR ''='' \<notin> set k" "NUL \<notin> set v" "query_list kvs"
    using "2.prems" s_url_encode_no_amp by (auto simp: query_list_def)
  have len: "length (k @ ''='' @ s_url_encode v) < npos" "length (show_query kvs) < npos"
    using "2.prems"(2) by (cases "kvs = []"; simp)+
  note item = query_items_pair [OF w(2) len(1), unfolded url_decode_text_encoded [OF w(3)]]
  show ?case
  proof (cases "kvs = []")
    case True
    have "split_any {CHR ''&''} (k @ ''='' @ s_url_encode v) = [k @ ''='' @ s_url_encode v]"
      using w(1) by (intro split_any_none) simp
    then show ?thesis using item True by (simp add: std_map.insert_all_def)
  next
    case False
    have "split_any {CHR ''&''} (show_query ((k, v) # kvs))
        = (k @ ''='' @ s_url_encode v) # split_any {CHR ''&''} (show_query kvs)"
      using split_any_append [of "k @ ''='' @ s_url_encode v" "{CHR ''&''}" "CHR ''&''" "show_query kvs"] w(1) False by simp
    then show ?thesis
      using item "2.IH" [OF False w(4) len(2)] False by (simp add: std_map.insert_all_def)
  qed
qed

lemma ParseQuery_ok: "map_ok (ParseQuery text)"
proof -
  have "map_ok m \<Longrightarrow> map_ok (query_items is m)" for "is" m
    by (induction "is" m rule: query_items.induct) (auto simp: query_items.simps(2) Let_def std_map.ok_insert)
  then show ?thesis by (simp add: ParseQuery_def std_map.ok_empty)
qed

text \<open>
  C19: \<open>ParseQuery\<close> reads a query string back: a key is bound to the first value it was given, after
  percent encoding of the values, and the result is a sorted map. Keys are taken as they are and may
  not hold \<open>&\<close> or \<open>=\<close>; a value ends at its first zero byte, so it may hold none.
\<close>

theorem query_round_trip:
  assumes "query_list kvs" and "length (show_query kvs) < npos"
  shows "map_find (ParseQuery (show_query kvs)) k = map_of kvs k \<and> map_ok (ParseQuery (show_query kvs))"
  using assms by (simp add: ParseQuery_def [of "show_query kvs"] query_items_show std_map.find_insert_all_empty
      std_map.insert_all_ok std_map.ok_empty)

theorem query_round_trip_witness:
  "map_find (ParseQuery (show_query [(''q'', ''a b&c=d''), (''n'', ''1''), (''q'', ''x'')])) ''q''
    = map_of [(''q'', ''a b&c=d''), (''n'', ''1''), (''q'', ''x'')] ''q''"
proof -
  have "length (s_url_encode s) \<le> 3 * length s" for s
    unfolding s_url_encode_eq using length_concat_url_coded [of s] by simp
  from this [of "''a b&c=d''"] this [of "''1''"] this [of "''x''"]
  have "length (show_query [(''q'', ''a b&c=d''), (''n'', ''1''), (''q'', ''x'')]) < npos"
    by (simp add: npos_def)
  then show ?thesis
    using query_round_trip [of "[(''q'', ''a b&c=d''), (''n'', ''1''), (''q'', ''x'')]" "''q''"]
    by (simp add: query_list_def)
qed

section \<open>Reading the body\<close>

lemma read_loop_pending:
  "stream_ok st \<Longrightarrow> \<exists>st'. read_loop st data = Some (data @ pending st, st')"
proof (induction "length (pending st)" arbitrary: st data rule: less_induct)
  case less
  obtain buf st1 where g: "FCGX_GetStr sizeof_buf st = (buf, st1)" by fastforce
  have b: "buf = take sizeof_buf (pending st)" "pending st1 = drop sizeof_buf (pending st)" "stream_ok st1"
    using FCGX_GetStr_pending [OF less.prems g] by simp_all
  show ?case
  proof (cases "length buf = sizeof_buf")
    case True
    then have "length (pending st1) < length (pending st)" using b by (simp add: sizeof_buf_def)
    then obtain st' where "read_loop st1 (data @ buf) = Some ((data @ buf) @ pending st1, st')"
      using less.hyps b(3) by blast
    then show ?thesis using True g b by (subst read_loop.simps) simp
  next
    case False
    then have "buf = pending st" using b(1) by (auto simp: min_def split: if_splits)
    then show ?thesis using False g by (subst read_loop.simps) simp
  qed
qed

section \<open>The multipart parser returns\<close>

text \<open>Two patterns that differ in their first characters do not stand at the same place.\<close>

lemma occurs_differ: "occurs s p j \<Longrightarrow> occurs s q (j + i) \<Longrightarrow> q \<noteq> [] \<Longrightarrow> i < length p \<Longrightarrow> p ! i = q ! 0"
  using occurs_nth [of s p j i] occurs_nth [of s q "j + i" 0] by simp

lemma szsub_small: "b \<le> a \<Longrightarrow> a < npos \<Longrightarrow> szsub a b = a - b"
  by (rule szsub_le) (simp_all add: npos_def)

lemma szadd_small: "a + b < npos \<Longrightarrow> szadd a b = a + b"
  by (rule szadd_less) (simp add: npos_def)

lemma par_loop_returns:
  assumes "length text + 8 < npos" "cr \<le> length text" "5 \<le> cr"
  shows "\<exists>afd'. par_loop text cr par_pos afd = Some afd'"
proof (induction "length text - par_pos" arbitrary: par_pos afd rule: less_induct)
  case less
  have len: "length text < npos" using assms by simp
  let ?ps = "str_find text ''; '' par_pos"
  let ?pe = "str_find text ''='' ?ps"
  let ?ve = "let v = str_find text ''; '' ?pe in if cr < v then cr else v"
  have cr: "szsub cr 5 = cr - 5" "szsub cr 2 = cr - 2" using assms by (auto intro: szsub_small)
  show ?case
  proof (cases "cr - 5 < ?ps \<or> cr - 2 < ?pe")
    case True
    then show ?thesis by (subst par_loop.simps) (auto simp: cr Let_def)
  next
    case False
    then have ps: "par_pos \<le> ?ps" "occurs text ''; '' ?ps" and pe: "?ps \<le> ?pe" "occurs text ''='' ?pe"
      using str_find_found [OF len, of "''; ''" par_pos] str_find_found [OF len, of "''=''" ?ps] assms len by auto
    have "?pe \<noteq> ?ps" "?pe \<noteq> ?ps + 1"
      using occurs_differ [OF ps(2), of "''=''" 0] occurs_differ [OF ps(2), of "''=''" 1] pe(2) by auto
    then have gap: "?ps + 2 \<le> ?pe" using pe(1) by simp
    have ve: "?pe < ?ve" "?ve \<le> cr"
    proof -
      have "?pe < v" if "v = str_find text ''; '' ?pe" "\<not> cr < v" for v
        using str_find_found [OF len, of "''; ''" ?pe] occurs_differ [OF pe(2), of "''; ''" 0] that assms len
        by (cases "v = ?pe") (auto simp: order_less_le)
      then show "?pe < ?ve" "?ve \<le> cr" using False assms by (auto simp: Let_def)
    qed
    have sub: "substr_at text (szadd ?ps 2) n = Some (substr text (szadd ?ps 2) n)"
        "substr_at text (szadd ?pe 1) n = Some (substr text (szadd ?pe 1) n)" for n
      using occurs_bound [OF ps(2)] occurs_bound [OF pe(2)] assms by (auto simp: substr_at_def szadd_small)
    have rec: "\<exists>afd'. par_loop text cr ?ve afd = Some afd'" for afd
      using ps(1) gap ve assms by (intro less) simp
    show ?thesis using False sub rec
      by (subst par_loop.simps) (auto simp: cr Let_def simp del: One_nat_def split: if_splits)
  qed
qed

lemma line_loop_returns:
  assumes len: "length text + 8 < npos" and he: "occurs text (CRLF @ CRLF) header_end"
  shows "p \<le> header_end \<Longrightarrow> 5 \<le> str_find text CRLF p \<Longrightarrow> \<exists>afd'. line_loop text header_end p afd = Some afd'"
proof (induction "header_end - p" arbitrary: p afd rule: less_induct)
  case less
  let ?cr = "str_find text CRLF p"
  let ?ne = "str_find text '': '' p"
  have len': "length text < npos" using len by simp
  have "occurs text CRLF header_end" using he by (rule occurs_prefix)
  then have cr: "p \<le> ?cr" "?cr \<le> header_end" "occurs text CRLF ?cr"
    using str_find_le [OF len'] less.prems by auto
  have he': "header_end + 4 \<le> length text" using occurs_bound [OF he] by (simp add: CRLF_def)
  have p': "szadd ?cr 2 = ?cr + 2" using cr he' len by (simp add: szadd_small)
  have rec: "\<exists>afd'. line_loop text header_end (?cr + 2) afd = Some afd'" if "?cr + 2 < header_end" for afd
  proof (rule less.hyps)
    show "header_end - (?cr + 2) < header_end - p" using cr that by simp
    show "?cr + 2 \<le> header_end" using that by simp
    have "?cr + 2 \<le> str_find text CRLF (?cr + 2)"
      using str_find_le [OF len' \<open>occurs text CRLF header_end\<close>, of "?cr + 2"] that by simp
    then show "5 \<le> str_find text CRLF (?cr + 2)" using less.prems by simp
  qed
  have par: "\<exists>afd'. par_loop text ?cr ?ne afd = Some afd'" for afd
    using par_loop_returns [OF len, of ?cr] cr he' less.prems by simp
  have sub: "substr_at text p n = Some (substr text p n)" for n using less.prems he' by (simp add: substr_at_def)
  have sub2: "substr_at text (szadd ?ne 2) n = Some (substr text (szadd ?ne 2) n)" if "?ne \<noteq> npos" for n
    using occurs_bound [of "text" "'': ''" ?ne] str_find_found [OF len' that] len by (simp add: substr_at_def szadd_small)
  obtain a where a: "header_line text p ?cr ?ne afd = Some a"
    using sub sub2 par [of afd] unfolding header_line_def by fastforce
  show ?case
    using rec [of a] by (subst line_loop.simps) (simp add: Let_def a p')
qed

lemma ParseDisposition_returns:
  assumes len: "length text + 8 < npos"
  shows "\<exists>afd. ParseDisposition text start stop = Some afd"
proof -
  have len': "length text < npos" using len by simp
  let ?hs = "str_find text ''Content-Disposition'' start"
  let ?he = "str_find text (CRLF @ CRLF) start"
  show ?thesis
  proof (cases "?hs \<noteq> start \<or> ?he = npos \<or> stop < ?he")
    case True
    then show ?thesis by (auto simp: ParseDisposition_def Let_def)
  next
    case False
    then have he: "start \<le> ?he" "occurs text (CRLF @ CRLF) ?he" using str_find_found [OF len'] by auto
    have "start \<noteq> npos" using occurs_bound [OF he(2)] he(1) len by auto
    then have cd: "occurs text ''Content-Disposition'' start"
      using False str_find_found [OF len', of "''Content-Disposition''" start] by auto
    have cr: "start \<le> str_find text CRLF start" "occurs text CRLF (str_find text CRLF start)"
      using str_find_le [OF len' occurs_prefix [OF he(2)] he(1)] by auto
    have "5 \<le> str_find text CRLF start"
    proof (rule ccontr)
      assume "\<not> 5 \<le> str_find text CRLF start"
      then obtain i where i: "str_find text CRLF start = start + i" "i < 5" using cr(1) by (metis le_add_diff_inverse less_imp_diff_less not_le)
      then have "''Content-Disposition'' ! i = CRLF ! 0"
        using occurs_differ [OF cd, of CRLF i] cr(2) by (simp add: CRLF_def)
      moreover have "i \<in> {0, 1, 2, 3, 4}" using i(2) by auto
      ultimately show False by (auto simp: CRLF_def)
    qed
    then obtain a where a: "line_loop text ?he start FormDisposition0 = Some a"
      using line_loop_returns [OF len he(2) he(1)] by blast
    have "substr_at text (szadd ?he 4) n = Some (substr text (szadd ?he 4) n)" for n
      using occurs_bound [OF he(2)] len by (simp add: substr_at_def szadd_small CRLF_def)
    then show ?thesis using False a by (simp add: ParseDisposition_def Let_def)
  qed
qed

lemma part_loop_returns:
  assumes len: "length text + length boundary + 8 < npos" and b: "boundary \<noteq> []"
  shows "\<exists>r. part_loop boundary text pos result = Some r"
proof (induction "Suc (length text) - pos" arbitrary: pos result rule: less_induct)
  case less
  have len': "length text < npos" "length text + 8 < npos" using len by auto
  let ?bs = "str_find text boundary pos"
  let ?bs2 = "szadd (szadd ?bs (length boundary)) 2"
  let ?be = "str_find text boundary ?bs2"
  show ?case
  proof (cases "?bs = npos \<or> ?be = npos")
    case True
    then show ?thesis by (subst part_loop.simps) (auto simp: Let_def)
  next
    case False
    then have bs: "pos \<le> ?bs" "occurs text boundary ?bs" and be: "?bs2 \<le> ?be" "occurs text boundary ?be"
      using str_find_found [OF len'(1)] by auto
    have "?bs2 = ?bs + length boundary + 2" using occurs_bound [OF bs(2)] len by (simp add: szadd_small)
    then have "Suc (length text) - ?be < Suc (length text) - pos"
      using bs(1) be occurs_bound [OF be(2)] b by simp
    then have rec: "\<exists>r. part_loop boundary text ?be result' = Some r" for result' by (rule less.hyps)
    obtain afd where "ParseDisposition text ?bs2 ?be = Some afd" using ParseDisposition_returns [OF len'(2)] by blast
    then show ?thesis using False rec by (subst part_loop.simps) (auto simp: Let_def)
  qed
qed

text \<open>
  The multipart parser returns for every content type and body: its loops end and it never takes a
  substring behind the end of the text.
\<close>

theorem multipart_returns:
  assumes "length text + length content_type < 2 ^ 63"
  shows "\<exists>parts. ParseMultipartForm content_type text = Some parts"
proof -
  have "length (boundary_of content_type) \<le> length content_type + 2" "boundary_of content_type \<noteq> []"
    by (auto simp: boundary_of_def Let_def substr_def)
  then show ?thesis
    unfolding ParseMultipartForm_def using assms by (intro part_loop_returns) (auto simp: npos_def)
qed

theorem multipart_returns_witness:
  "\<exists>parts. ParseMultipartForm ''multipart/form-data; boundary=x'' ''--x'' = Some parts"
  by (rule multipart_returns) simp

end
