(* ===== verification/Multipart.thy ===== *)
theory Multipart
  imports RequestParse
begin

text \<open>
  The multipart parser of \<open>stream.cc\<close> reads back the forms a browser sends: the printed form of a list of
  parts, and the proof that \<open>ParseMultipartForm\<close> returns exactly those parts.
\<close>

section \<open>Printing a form\<close>

definition quoted :: "string \<Rightarrow> string" where
  "quoted s = [CHR 0x22] @ s @ [CHR 0x22]"

definition disposition_line :: "FormDisposition \<Rightarrow> string" where
  "disposition_line fd =
     ''Content-Disposition'' @ '': form-data'' @ ''; '' @ ''name'' @ ''='' @ quoted (fd_name fd)
     @ (if fd_filename fd = [] then [] else ''; '' @ ''filename'' @ ''='' @ quoted (fd_filename fd))"

definition type_line :: "FormDisposition \<Rightarrow> string" where
  "type_line fd = (if fd_content_type fd = [] then [] else CRLF @ ''Content-Type'' @ '': '' @ fd_content_type fd)"

definition show_part :: "FormDisposition \<Rightarrow> string" where
  "show_part fd = disposition_line fd @ type_line fd @ CRLF @ CRLF @ fd_data fd @ CRLF"

fun show_parts :: "string \<Rightarrow> FormDisposition list \<Rightarrow> string" where
  "show_parts b [] = b @ ''--'' @ CRLF"
| "show_parts b (fd # fds) = b @ CRLF @ show_part fd @ show_parts b fds"

text \<open>
  What a part may hold: names without semicolon and carriage return, and no occurrence of the boundary
  \<open>b\<close> before the next boundary. The data is otherwise free.
\<close>

definition header_word :: "string \<Rightarrow> bool" where
  "header_word s \<longleftrightarrow> CHR '';'' \<notin> set s \<and> CHR 0x0D \<notin> set s"

definition part_ok :: "string \<Rightarrow> FormDisposition \<Rightarrow> bool" where
  "part_ok b fd \<longleftrightarrow> header_word (fd_name fd) \<and> header_word (fd_filename fd) \<and> CHR 0x0D \<notin> set (fd_content_type fd)
     \<and> list_all (\<lambda>j. \<not> occurs (show_part fd @ b) b j) [0..<length (show_part fd)]"

section \<open>Searching in a known text\<close>

lemma occurs_mid: "occurs (a @ p @ c) p (length a)"
  by (simp add: occurs_def)

lemma str_find_at:
  assumes "length s < npos" "occurs s pat r" "pos \<le> r" "\<And>j. pos \<le> j \<Longrightarrow> j < r \<Longrightarrow> \<not> occurs s pat j"
  shows "str_find s pat pos = r"
  using str_find_le [OF assms(1,2,3)] assms(4) by (metis le_neq_implies_less)

lemma occurs_hd: "occurs s pat j \<Longrightarrow> pat \<noteq> [] \<Longrightarrow> s ! j = hd pat"
  using occurs_nth [of s pat j 0] by (simp add: hd_conv_nth)

lemma str_find_hd:
  assumes "length (pre @ mid @ pat @ post) < npos" "pat \<noteq> []" "hd pat \<notin> set mid"
  shows "str_find (pre @ mid @ pat @ post) pat (length pre) = length pre + length mid"
proof (rule str_find_at [OF assms(1)])
  show "occurs (pre @ mid @ pat @ post) pat (length pre + length mid)"
    using occurs_mid [of "pre @ mid" pat post] by simp
  fix j
  assume j: "length pre \<le> j" "j < length pre + length mid"
  then have "(pre @ mid @ pat @ post) ! j = mid ! (j - length pre)" "j - length pre < length mid"
    by (auto simp: nth_append)
  then show "\<not> occurs (pre @ mid @ pat @ post) pat j"
    using occurs_hd [of "pre @ mid @ pat @ post" pat j] assms(2,3) nth_mem by metis
qed simp

lemma str_find_ge:
  assumes "length (pre @ mid @ post) < npos" "pat \<noteq> []" "hd pat \<notin> set mid"
  shows "length pre + length mid \<le> str_find (pre @ mid @ post) pat (length pre)"
proof (rule str_find_cases [OF assms(1), of pat "length pre"])
  assume "str_find (pre @ mid @ post) pat (length pre) = npos"
  then show ?thesis using assms(1) by simp
next
  let ?r = "str_find (pre @ mid @ post) pat (length pre)"
  assume r: "length pre \<le> ?r" "occurs (pre @ mid @ post) pat ?r"
  show ?thesis
  proof (rule ccontr)
    assume "\<not> ?thesis"
    then have "(pre @ mid @ post) ! ?r = mid ! (?r - length pre)" "?r - length pre < length mid"
      using r(1) by (auto simp: nth_append)
    then show False using occurs_hd [OF r(2) assms(2)] assms(3) nth_mem by metis
  qed
qed

section \<open>One parameter\<close>

lemma RemoveQuote_quoted: "RemoveQuote (quoted s) = s"
  by (simp add: RemoveQuote_def quoted_def substr_def nth_append)

lemma RemoveQuote_plain: "s = [] \<or> hd s \<noteq> CHR 0x22 \<Longrightarrow> RemoveQuote s = s"
  by (cases s) (auto simp: RemoveQuote_def)

definition set_par :: "string \<Rightarrow> string \<Rightarrow> FormDisposition \<Rightarrow> FormDisposition" where
  "set_par k v afd =
     (if k = ''name'' then afd\<lparr>fd_name := v\<rparr> else if k = ''filename'' then afd\<lparr>fd_filename := v\<rparr> else afd)"

lemma par_step:
  assumes s: "s = A @ B @ ''; '' @ k @ ''='' @ quoted v @ R" and len: "length s + 8 < npos"
    and B: "CHR '';'' \<notin> set B" and k: "k \<in> {''name'', ''filename''}" and v: "CHR '';'' \<notin> set v"
    and ve: "ve = length (A @ B @ ''; '' @ k @ ''='' @ quoted v)"
    and cr: "ve = cr \<or> ve < cr \<and> (\<exists>R'. R = ''; '' @ R')" "cr \<le> length s"
  shows "par_loop s cr (length A) afd = (if ve < cr then par_loop s cr ve (set_par k v afd) else Some (set_par k v afd))"
proof -
  have len': "length s < npos" using len by simp
  let ?ps = "length A + length B"
  let ?pe = "?ps + 2 + length k"
  have ps: "str_find s ''; '' (length A) = ?ps"
    using str_find_hd [of A B "''; ''" "k @ ''='' @ quoted v @ R"] len' B unfolding s by simp
  have k': "CHR ''='' \<notin> set (''; '' @ k)" "3 < length k" "k = [] \<or> hd k \<noteq> CHR 0x22" using k by auto
  have pe: "str_find s ''='' ?ps = ?pe"
    using str_find_hd [of "A @ B" "''; '' @ k" "''=''" "quoted v @ R"] len' k'(1) unfolding s by simp
  have ve': "ve = ?pe + 1 + length (quoted v)" by (simp add: ve)
  have q: "CHR '';'' \<notin> set (''='' @ quoted v)" using v by (auto simp: quoted_def)
  have e: "(let x = str_find s ''; '' ?pe in if cr < x then cr else x) = ve"
    using cr(1)
  proof (elim disjE conjE exE)
    assume "ve = cr"
    moreover have "ve \<le> str_find s ''; '' ?pe"
      using str_find_ge [of "A @ B @ ''; '' @ k" "''='' @ quoted v" R "''; ''"] len' q unfolding s by (simp add: ve add.assoc)
    ultimately show ?thesis by (simp add: Let_def)
  next
    fix R'
    assume "ve < cr" "R = ''; '' @ R'"
    moreover have "str_find s ''; '' ?pe = ve" if "R = ''; '' @ R'"
      using str_find_hd [of "A @ B @ ''; '' @ k" "''='' @ quoted v" "''; ''" R'] len' q that unfolding s by (simp add: ve add.assoc)
    ultimately show ?thesis by (simp add: Let_def)
  qed
  have lq: "length (quoted v) = length v + 2" by (simp add: quoted_def)
  have sz: "szsub cr 5 = cr - 5" "szsub cr 2 = cr - 2" "szadd ?ps 2 = ?ps + 2" "szadd ?pe 1 = ?pe + 1"
      "szsub ?pe (?ps + 2) = length k" "szsub ve (?pe + 1) = length (quoted v)"
  proof -
    have "ve \<le> cr" "cr < npos" using cr len by auto
    then have n: "?pe + 3 \<le> cr" "cr < npos" using ve' lq by auto
    then show "szsub cr 5 = cr - 5" "szsub cr 2 = cr - 2" "szadd ?ps 2 = ?ps + 2" "szadd ?pe 1 = ?pe + 1"
        "szsub ?pe (?ps + 2) = length k" "szsub ve (?pe + 1) = length (quoted v)"
      using ve' k'(2) \<open>ve \<le> cr\<close> by (auto simp: szsub_small szadd_small)
  qed
  have le: "\<not> cr - 5 < ?ps" "\<not> cr - 2 < ?pe" using cr(1) ve' lq k'(2) by auto
  have sub: "substr_at s (?ps + 2) (length k) = Some k" "substr_at s (?pe + 1) (length (quoted v)) = Some (quoted v)"
    using substr_middle [of "A @ B @ ''; ''" k "''='' @ quoted v @ R"]
      substr_middle [of "A @ B @ ''; '' @ k @ ''=''" "quoted v" R]
    unfolding s by (simp_all add: substr_at_def add.assoc)
  show ?thesis
    using le unfolding par_loop.simps [of s cr "length A" afd] Let_def ps pe e [unfolded Let_def] sz sub
    by (simp add: RemoveQuote_quoted RemoveQuote_plain [OF k'(3)] set_par_def)
qed

section \<open>The header of a part\<close>

definition named :: "FormDisposition \<Rightarrow> FormDisposition" where
  "named fd = FormDisposition0\<lparr>fd_name := fd_name fd, fd_filename := fd_filename fd\<rparr>"

lemma par_loop_line:
  assumes s: "s = A @ disposition_line fd @ R" and len: "length s + 8 < npos"
    and w: "header_word (fd_name fd)" "header_word (fd_filename fd)"
  shows "par_loop s (length (A @ disposition_line fd)) (length A + 19) FormDisposition0 = Some (named fd)"
proof -
  let ?cr = "length (A @ disposition_line fd)"
  let ?A = "A @ ''Content-Disposition''"
  have cr: "?cr \<le> length s" by (simp add: s)
  have lA: "length ?A = length A + 19" by simp
  show ?thesis
  proof (cases "fd_filename fd = []")
    case True
    have eq: "s = ?A @ '': form-data'' @ ''; '' @ ''name'' @ ''='' @ quoted (fd_name fd) @ R"
      using True by (simp add: s disposition_line_def)
    have ve: "?cr = length (?A @ '': form-data'' @ ''; '' @ ''name'' @ ''='' @ quoted (fd_name fd))"
      using True by (simp add: disposition_line_def)
    show ?thesis
      using par_step [OF eq len _ _ _ ve disjI1 [OF refl] cr, of FormDisposition0] w True lA
      by (simp add: header_word_def set_par_def named_def FormDisposition0_def numeral_eq_Suc)
  next
    case False
    let ?R = "''; '' @ ''filename'' @ ''='' @ quoted (fd_filename fd) @ R"
    have eq: "s = ?A @ '': form-data'' @ ''; '' @ ''name'' @ ''='' @ quoted (fd_name fd) @ ?R"
      using False by (simp add: s disposition_line_def)
    define C where "C = ?A @ '': form-data'' @ ''; '' @ ''name'' @ ''='' @ quoted (fd_name fd)"
    have lt: "length C < ?cr" using False by (simp add: disposition_line_def C_def)
    have 1: "par_loop s ?cr (length ?A) FormDisposition0
        = par_loop s ?cr (length C) (set_par ''name'' (fd_name fd) FormDisposition0)"
      using par_step [OF eq len _ _ _ C_def [THEN arg_cong, of length] _ cr, of FormDisposition0] w lt
      by (simp add: header_word_def)
    have eq2: "s = C @ [] @ ?R" using eq by (simp add: C_def)
    have ve2: "?cr = length (C @ [] @ ''; '' @ ''filename'' @ ''='' @ quoted (fd_filename fd))"
      using False by (simp add: disposition_line_def C_def)
    have 2: "par_loop s ?cr (length C) afd = Some (set_par ''filename'' (fd_filename fd) afd)" for afd
      using par_step [OF eq2 len _ _ _ ve2 disjI1 [OF refl] cr, of afd] w by (simp add: header_word_def)
    show ?thesis using 1 2 by (simp add: set_par_def named_def FormDisposition0_def numeral_eq_Suc)
  qed
qed

lemma no_CR_disposition: "header_word (fd_name fd) \<Longrightarrow> header_word (fd_filename fd) \<Longrightarrow> CHR 0x0D \<notin> set (disposition_line fd)"
  by (auto simp: disposition_line_def header_word_def quoted_def)

lemma hd_CRLF [simp]: "hd CRLF = CHR 0x0D" "CRLF \<noteq> []" "length CRLF = 2"
  by (simp_all add: CRLF_def)

text \<open>The first line and, when there is one, the content type.\<close>

lemma header_line_disposition:
  assumes s: "s = A @ disposition_line fd @ CRLF @ R" and len: "length s + 8 < npos"
    and w: "header_word (fd_name fd)" "header_word (fd_filename fd)"
  shows "str_find s CRLF (length A) = length A + length (disposition_line fd)"
    "header_line s (length A) (length A + length (disposition_line fd)) (str_find s '': '' (length A)) FormDisposition0
      = Some (named fd)"
proof -
  have len': "length s < npos" using len by simp
  show "str_find s CRLF (length A) = length A + length (disposition_line fd)"
    using str_find_hd [of A "disposition_line fd" CRLF R] len' no_CR_disposition [OF w] unfolding s by simp
  obtain t where d: "disposition_line fd = ''Content-Disposition'' @ '': '' @ t" and t: "1 < length t"
    by (simp add: disposition_line_def)
  have ne: "str_find s '': '' (length A) = length A + 19"
    using str_find_hd [of A "''Content-Disposition''" "'': ''" "t @ CRLF @ R"] len' unfolding s d by simp
  have "substr_at s (length A) 19 = Some ''Content-Disposition''"
    using substr_middle [of A "''Content-Disposition''" "'': '' @ t @ CRLF @ R"] unfolding s d
    by (simp add: substr_at_def numeral_eq_Suc)
  moreover have "szsub (length A + 19) (length A) = 19" using len by (simp add: s d szsub_small)
  moreover have "length A + 19 \<noteq> npos" using len' by (simp add: s d)
  ultimately show "header_line s (length A) (length A + length (disposition_line fd)) (str_find s '': '' (length A)) FormDisposition0
      = Some (named fd)"
    unfolding ne header_line_def using par_loop_line [OF s len w] t by (simp add: d)
qed

lemma header_line_type:
  assumes s: "s = A @ ''Content-Type'' @ '': '' @ t @ CRLF @ R" and len: "length s + 8 < npos"
    and t: "CHR 0x0D \<notin> set t"
  shows "str_find s CRLF (length A) = length A + (14 + length t)"
    "header_line s (length A) (length A + (14 + length t)) (str_find s '': '' (length A)) afd = Some (afd\<lparr>fd_content_type := t\<rparr>)"
proof -
  have len': "length s < npos" using len by simp
  show "str_find s CRLF (length A) = length A + (14 + length t)"
    using str_find_hd [of A "''Content-Type'' @ '': '' @ t" CRLF R] len' t unfolding s by simp
  have ne: "str_find s '': '' (length A) = length A + 12"
    using str_find_hd [of A "''Content-Type''" "'': ''" "t @ CRLF @ R"] len' unfolding s by simp
  have "substr_at s (length A) 12 = Some ''Content-Type''"
    using substr_middle [of A "''Content-Type''" "'': '' @ t @ CRLF @ R"] unfolding s by (simp add: substr_at_def numeral_eq_Suc)
  moreover have "substr_at s (length A + 14) (length t) = Some t"
    using substr_middle [of "A @ ''Content-Type'' @ '': ''" t "CRLF @ R"] unfolding s by (simp add: substr_at_def numeral_eq_Suc)
  moreover have "szsub (length A + 12) (length A) = 12" "szadd (length A + 12) 2 = length A + 14"
      "szsub (length A + (14 + length t)) (length A + 14) = length t" "length A + 12 \<noteq> npos"
    using len by (simp_all add: s szsub_small szadd_small)
  ultimately show "header_line s (length A) (length A + (14 + length t)) (str_find s '': '' (length A)) afd
      = Some (afd\<lparr>fd_content_type := t\<rparr>)"
    unfolding ne header_line_def by simp
qed

lemma find_header_end:
  assumes s: "s = A @ D @ T @ CRLF @ CRLF @ R" and len: "length s < npos" and D: "CHR 0x0D \<notin> set D"
    and T: "T = [] \<or> (\<exists>c T'. T = CRLF @ c # T' \<and> CHR 0x0D \<notin> set (c # T'))"
  shows "str_find s (CRLF @ CRLF) (length A) = length A + length (D @ T)"
proof (rule str_find_at [OF len])
  show "occurs s (CRLF @ CRLF) (length A + length (D @ T))"
    using occurs_mid [of "A @ D @ T" "CRLF @ CRLF" R] by (simp add: s)
  fix j
  assume j: "length A \<le> j" "j < length A + length (D @ T)"
  show "\<not> occurs s (CRLF @ CRLF) j"
  proof
    assume occ: "occurs s (CRLF @ CRLF) j"
    define i where "i = j - length A"
    have i: "j = length A + i" "i < length (D @ T)" using j by (auto simp: i_def)
    have a: "s ! j = CHR 0x0D" using occurs_nth [OF occ, of 0] by (simp add: CRLF_def)
    have b: "s ! (j + 2) = CHR 0x0D" using occurs_nth [OF occ, of 2] by (simp add: CRLF_def)
    have "(D @ T) ! i = CHR 0x0D" using a i by (auto simp: s nth_append split: if_splits)
    then have iT: "length D \<le> i" using D i(2) by (metis leI nth_append nth_mem)
    then obtain c T' where T': "T = CRLF @ c # T'" "CHR 0x0D \<notin> set (c # T')" using T i(2) by auto
    define k where "k = i - length D"
    have k: "i = length D + k" "k < length T" using iT i(2) by (auto simp: k_def)
    have "T ! k = CHR 0x0D" using \<open>(D @ T) ! i = CHR 0x0D\<close> k by simp
    moreover have "k = 0 \<or> k = 1 \<or> (\<exists>m. k = m + 2 \<and> m < length (c # T'))"
      using k(2) T'(1) by (cases k; cases "k - 1") (auto simp: CRLF_def)
    moreover have "(c # T') ! m \<noteq> CHR 0x0D" if "m < length (c # T')" for m using T'(2) that by (metis nth_mem)
    ultimately have "k = 0" by (auto simp: T'(1) CRLF_def)
    then have "s ! (j + 2) = c" using i(1) k(1) by (simp add: s T'(1) CRLF_def nth_append)
    then show False using b T'(2) by simp
  qed
qed simp

section \<open>A whole part\<close>

lemma line_loop_part:
  assumes s: "s = A @ disposition_line fd @ type_line fd @ CRLF @ CRLF @ R" and len: "length s + 8 < npos"
    and w: "header_word (fd_name fd)" "header_word (fd_filename fd)" "CHR 0x0D \<notin> set (fd_content_type fd)"
  shows "line_loop s (length A + length (disposition_line fd @ type_line fd)) (length A) FormDisposition0
    = Some (named fd\<lparr>fd_content_type := fd_content_type fd\<rparr>)"
proof -
  let ?he = "length A + length (disposition_line fd @ type_line fd)"
  let ?cr = "length A + length (disposition_line fd)"
  obtain R1 where R1: "s = A @ disposition_line fd @ CRLF @ R1"
    by (cases "fd_content_type fd = []") (auto simp: s type_line_def)
  note first = header_line_disposition [OF R1 len w(1,2)]
  have p1: "szadd ?cr 2 = ?cr + 2" using len by (simp add: R1 szadd_small)
  have step: "line_loop s ?he (length A) FormDisposition0
      = (if ?cr + 2 < ?he then line_loop s ?he (?cr + 2) (named fd) else Some (named fd))"
    by (subst line_loop.simps) (simp only: first Let_def p1 Option.bind_lunit)
  show ?thesis
  proof (cases "fd_content_type fd = []")
    case True
    then show ?thesis using step by (simp add: type_line_def named_def FormDisposition0_def)
  next
    case False
    let ?A = "A @ disposition_line fd @ CRLF"
    have s2: "s = ?A @ ''Content-Type'' @ '': '' @ fd_content_type fd @ CRLF @ CRLF @ R"
      using False by (simp add: s type_line_def)
    note second = header_line_type [OF s2 len w(3)]
    have lA: "length ?A = ?cr + 2" by simp
    have he: "?he = length ?A + (14 + length (fd_content_type fd))" using False by (simp add: type_line_def)
    have "szadd ?he 2 = ?he + 2" using len by (simp add: s szadd_small)
    then have "line_loop s ?he (length ?A) (named fd) = Some (named fd\<lparr>fd_content_type := fd_content_type fd\<rparr>)"
      unfolding he by (subst line_loop.simps) (simp only: second Let_def Option.bind_lunit, simp)
    moreover have "?cr + 2 < ?he" using he lA by simp
    ultimately show ?thesis using step lA by simp
  qed
qed

lemma ParseDisposition_part:
  assumes s: "s = A @ show_part fd @ R" and len: "length s + 8 < npos"
    and w: "header_word (fd_name fd)" "header_word (fd_filename fd)" "CHR 0x0D \<notin> set (fd_content_type fd)"
  shows "ParseDisposition s (length A) (length A + length (show_part fd)) = Some fd"
proof -
  let ?D = "disposition_line fd" let ?T = "type_line fd"
  let ?he = "length A + length (?D @ ?T)"
  have len': "length s < npos" using len by simp
  have s': "s = A @ ?D @ ?T @ CRLF @ CRLF @ (fd_data fd @ CRLF @ R)" by (simp add: s show_part_def)
  have T: "?T = [] \<or> (\<exists>c T'. ?T = CRLF @ c # T' \<and> CHR 0x0D \<notin> set (c # T'))"
    using w(3) by (auto simp: type_line_def)
  note he = find_header_end [OF s' len' no_CR_disposition [OF w(1,2)] T]
  obtain t where d: "?D = ''Content-Disposition'' @ t" by (simp add: disposition_line_def)
  have hs: "str_find s ''Content-Disposition'' (length A) = length A"
    using str_find_hd [of A "[]" "''Content-Disposition''" "t @ ?T @ CRLF @ CRLF @ (fd_data fd @ CRLF @ R)"] len'
    unfolding s' d by simp
  have sp: "length (show_part fd) = length (?D @ ?T) + 4 + length (fd_data fd) + 2" by (simp add: show_part_def)
  have sz: "szadd ?he 4 = ?he + 4" "szsub (szsub (length A + length (show_part fd)) (?he + 4)) 2 = length (fd_data fd)"
    using len by (simp_all add: sp s szadd_small szsub_small)
  have "substr_at s (?he + 4) (length (fd_data fd)) = Some (fd_data fd)"
    using substr_middle [of "A @ ?D @ ?T @ CRLF @ CRLF" "fd_data fd" "CRLF @ R"] unfolding s'
    by (simp add: substr_at_def add.assoc)
  moreover have "?he \<noteq> npos" "\<not> length A + length (show_part fd) < ?he" using len by (auto simp: s sp)
  ultimately show ?thesis
    using line_loop_part [OF s' len w]
    by (simp add: ParseDisposition_def hs he sz Let_def named_def FormDisposition0_def del: length_append)
qed

section \<open>The whole form\<close>

lemma no_occurrence_append:
  "length pat \<le> length t \<Longrightarrow> \<not> occurs (m @ pat) pat j \<Longrightarrow> take (length pat) t = pat \<Longrightarrow> j < length m \<Longrightarrow> \<not> occurs (m @ t) pat j"
proof -
  assume a: "length pat \<le> length t" "\<not> occurs (m @ pat) pat j" "take (length pat) t = pat" "j < length m"
  have "take n t = take n pat" if "n \<le> length pat" for n
    using a(3) that by (metis min.absorb1 take_take)
  then have "take (length pat) (drop j (m @ t)) = take (length pat) (drop j (m @ pat))"
    using a(4) by simp
  then show ?thesis using a by (auto simp: occurs_def)
qed

lemma take_show_parts: "take (length b) (show_parts b fds) = b" "length b \<le> length (show_parts b fds)"
  by (cases fds; simp)+

lemma part_loop_show:
  assumes b: "b \<noteq> []" "hd b = CHR ''-''"
  shows "length (A @ show_parts b fds) + length b + 16 < npos \<Longrightarrow> list_all (part_ok b) fds
    \<Longrightarrow> part_loop b (A @ show_parts b fds) (length A) result = Some (result @ fds)"
proof (induction fds arbitrary: A result)
  case Nil
  let ?s = "A @ show_parts b []"
  have len: "length ?s < npos" using Nil by simp
  have bs: "str_find ?s b (length A) = length A"
    using str_find_hd [of A "[]" b "''--'' @ CRLF"] len b by simp
  have sz: "szadd (length A) (length b) = length A + length b" "szadd (length A + length b) 2 = length A + length b + 2"
    using Nil by (simp_all add: szadd_small)
  have be: "str_find ?s b (length A + length b + 2) = npos"
  proof (rule str_find_cases [OF len, of b "length A + length b + 2"])
    let ?r = "str_find ?s b (length A + length b + 2)"
    assume r: "length A + length b + 2 \<le> ?r" "occurs ?s b ?r"
    define i where "i = ?r - (length A + length b + 2)"
    have i: "?r = length (A @ b @ ''--'') + i" using r(1) by (simp add: i_def)
    have "i < 2" using occurs_bound [OF r(2)] b(1) i by (cases b) auto
    have "?s ! ?r = CRLF ! i" unfolding i using nth_append_length_plus [of "A @ b @ ''--''" CRLF i] by simp
    then show ?thesis using occurs_hd [OF r(2) b(1)] b(2) \<open>i < 2\<close> by (auto simp: CRLF_def less_2_cases_iff)
  qed
  have "length A \<noteq> npos" using len by simp
  then show ?case
    by (subst part_loop.simps) (simp only: bs sz be Let_def, simp)
next
  case (Cons fd fds)
  let ?s = "A @ show_parts b (fd # fds)"
  let ?A = "A @ b @ CRLF"
  have len: "length ?s < npos" "length ?s + 8 < npos" using Cons.prems by auto
  have s: "?s = ?A @ show_part fd @ show_parts b fds" by simp
  have bs: "str_find ?s b (length A) = length A"
    using str_find_hd [of A "[]" b "CRLF @ show_part fd @ show_parts b fds"] len b by simp
  have sz: "szadd (length A) (length b) = length A + length b" "szadd (length A + length b) 2 = length ?A"
    using Cons.prems by (simp_all add: szadd_small)
  have ok: "header_word (fd_name fd)" "header_word (fd_filename fd)" "CHR 0x0D \<notin> set (fd_content_type fd)"
      "j < length (show_part fd) \<Longrightarrow> \<not> occurs (show_part fd @ b) b j" for j
    using Cons.prems(2) by (auto simp: part_ok_def list_all_iff)
  have be: "str_find ?s b (length ?A) = length ?A + length (show_part fd)"
  proof (rule str_find_at [OF len(1)])
    have t: "show_parts b fds = b @ drop (length b) (show_parts b fds)"
      using take_show_parts(1) [of b fds] append_take_drop_id by metis
    show "occurs ?s b (length ?A + length (show_part fd))"
      using occurs_mid [of "?A @ show_part fd" b "drop (length b) (show_parts b fds)"]
      unfolding t [symmetric] by (simp add: add.assoc)
    fix j
    assume j: "length ?A \<le> j" "j < length ?A + length (show_part fd)"
    have "\<not> occurs (show_part fd @ show_parts b fds) b (j - length ?A)"
    proof (rule no_occurrence_append [OF take_show_parts(2) ok(4) take_show_parts(1)])
      show "j - length ?A < length (show_part fd)" "j - length ?A < length (show_part fd)" using j by linarith+
    qed
    moreover have "drop (length ?A) ?s = show_part fd @ show_parts b fds" "length ?A \<le> length ?s" by simp_all
    ultimately show "\<not> occurs ?s b j"
      using occurs_drop [of "length ?A" ?s b "j - length ?A"] le_add_diff_inverse [OF j(1)] by metis
  qed simp
  have n: "length A \<noteq> npos" "length ?A + length (show_part fd) \<noteq> npos" "\<not> length ?s < length ?A" using len by auto
  have part: "ParseDisposition ?s (length ?A) (length ?A + length (show_part fd)) = Some fd"
    by (rule ParseDisposition_part [OF s len(2) ok(1,2,3)])
  have rec: "part_loop b ?s (length ?A + length (show_part fd)) (result @ [fd]) = Some ((result @ [fd]) @ fds)"
    using Cons.IH [of "?A @ show_part fd" "result @ [fd]"] Cons.prems by (simp add: s add.assoc)
  show ?case
    using n unfolding part_loop.simps [of b ?s "length A" result] Let_def bs sz be part
    by (simp add: rec [simplified])
qed

lemma ParseMultipartForm_show:
  assumes "list_all (part_ok (''--'' @ b)) fds" and "length (show_parts (''--'' @ b) fds) + length b < 2 ^ 63"
  shows "ParseMultipartForm (''multipart/form-data; boundary='' @ b) (show_parts (''--'' @ b) fds) = Some fds"
proof -
  let ?ct = "''multipart/form-data; boundary='' @ b"
  have "length ?ct < npos" using assms(2) by (simp add: npos_def)
  then have pos: "str_find ?ct ''boundary='' 0 = 21"
    using str_find_hd [of "[]" "''multipart/form-data; ''" "''boundary=''" b] by simp
  have "szadd 21 1 = 22" "szadd 21 (length ''boundary='') = 30" by (simp_all add: szadd_def)
  moreover have "char_at ?ct 22 = CHR ''o''" by (simp add: char_at_def)
  moreover have "substr ?ct 30 npos = b" using assms(2) by (simp add: substr_def npos_def)
  moreover have "(21 :: nat) \<noteq> npos" by (simp add: npos_def)
  ultimately have "boundary_of ?ct = ''--'' @ b" by (simp only: boundary_of_def pos Let_def) simp
  then show ?thesis
    using part_loop_show [of "''--'' @ b" "[]" fds "[]"] assms by (simp add: ParseMultipartForm_def npos_def)
qed

text \<open>
  C15: \<open>ParseMultipartForm\<close> reads back a form printed with a boundary: the same parts in the same order, with names, file
  names, content types and data, for data of any bytes. Every part must be \<open>part_ok\<close>: its name and its file name contain
  no semicolon and no carriage return, which the parser would take for the end of the value even inside the quotes; its content type
  contains no carriage return; and the boundary does not occur in it.
\<close>

theorem multipart_round_trip:
  assumes "list_all (part_ok (''--'' @ b)) fds" and "length (show_parts (''--'' @ b) fds) + length b < 2 ^ 63"
  shows "ParseMultipartForm (''multipart/form-data; boundary='' @ b) (show_parts (''--'' @ b) fds) = Some fds"
  using assms by (rule ParseMultipartForm_show)

definition sample_form :: "FormDisposition list" where
  "sample_form =
     [\<lparr>fd_name = ''t'', fd_filename = [], fd_content_type = [], fd_data = ''hi''\<rparr>,
      \<lparr>fd_name = ''f'', fd_filename = ''a.b'', fd_content_type = ''x'', fd_data = [CHR 0x0D, CHR 0x0A, CHR ''-'', CHR ''-'', NUL]\<rparr>]"

theorem multipart_round_trip_witness:
  "ParseMultipartForm (''multipart/form-data; boundary='' @ ''Q'') (show_parts (''--'' @ ''Q'') sample_form) = Some sample_form"
proof (rule multipart_round_trip)
  show "list_all (part_ok (''--'' @ ''Q'')) sample_form" by code_simp
  have "length (show_parts (''--'' @ ''Q'') sample_form) < 1000" by code_simp
  then show "length (show_parts (''--'' @ ''Q'') sample_form) + length ''Q'' < 2 ^ 63" by simp
qed

text \<open>
  When a boundary follows the header of a part at once, without the line break the parser takes off,
  the length of the data wraps around: the part then holds the rest of the body, with the boundary and
  every later part.
\<close>

theorem empty_part_takes_rest:
  assumes "header_word (fd_name fd)" "header_word (fd_filename fd)" "fd_content_type fd = []"
    and "length (A @ disposition_line fd @ CRLF @ CRLF @ R) < 2 ^ 63"
  shows "ParseDisposition (A @ disposition_line fd @ CRLF @ CRLF @ R) (length A)
      (length (A @ disposition_line fd @ CRLF @ CRLF)) = Some (fd\<lparr>fd_data := R\<rparr>)"
proof -
  let ?D = "disposition_line fd"
  define s where "s = A @ ?D @ CRLF @ CRLF @ R"
  have s': "s = A @ ?D @ type_line fd @ CRLF @ CRLF @ R" using assms(3) by (simp add: s_def type_line_def)
  have len: "length s < npos" "length s + 8 < npos" using assms(4) by (auto simp: s_def npos_def)
  have he: "str_find s (CRLF @ CRLF) (length A) = length A + length ?D"
    using find_header_end [OF s' len(1) no_CR_disposition [OF assms(1,2)]] assms(3) by (simp add: type_line_def)
  obtain t where d: "?D = ''Content-Disposition'' @ t" by (simp add: disposition_line_def)
  have hs: "str_find s ''Content-Disposition'' (length A) = length A"
    using str_find_hd [of A "[]" "''Content-Disposition''" "t @ CRLF @ CRLF @ R"] len unfolding s_def d by simp
  have ll: "line_loop s (length A + length ?D) (length A) FormDisposition0 = Some (named fd)"
    using line_loop_part [OF s' len(2) assms(1,2)] assms(3) by (simp add: type_line_def named_def FormDisposition0_def)
  have l4: "length (A @ ?D @ CRLF @ CRLF) = length A + length ?D + 4" by simp
  have sz: "szadd (length A + length ?D) 4 = length A + length ?D + 4" using len by (simp add: s_def szadd_small)
  have wrap: "szsub (szsub (length A + length ?D + 4) (length A + length ?D + 4)) 2 = 2 ^ 64 - 2"
    using len by (simp add: szsub_small s_def) (simp add: szsub_def)
  have sub: "substr_at s (length A + length ?D + 4) (2 ^ 64 - 2) = Some R"
  proof -
    have "drop (length (A @ ?D @ CRLF @ CRLF)) ((A @ ?D @ CRLF @ CRLF) @ R) = R" by (rule append_eq_conv_conj [THEN iffD1, OF refl, THEN conjunct2, symmetric])
    then show ?thesis unfolding l4 using assms(4) by (simp add: s_def substr_at_def substr_def)
  qed
  have n: "length A + length ?D \<noteq> npos" "\<not> length A + length ?D + 4 < length A + length ?D" using len by (auto simp: s_def)
  have "ParseDisposition s (length A) (length A + length ?D + 4) = Some (named fd\<lparr>fd_data := R\<rparr>)"
    using n unfolding ParseDisposition_def Let_def hs he ll sz wrap sub by simp
  then show ?thesis unfolding l4 s_def [symmetric] using assms(3) by (simp add: named_def FormDisposition0_def)
qed

theorem empty_part_takes_rest_witness:
  "ParseDisposition (''--Q'' @ disposition_line (hd sample_form) @ CRLF @ CRLF @ ''--Q--'') (length ''--Q'')
      (length (''--Q'' @ disposition_line (hd sample_form) @ CRLF @ CRLF)) = Some (hd sample_form\<lparr>fd_data := ''--Q--''\<rparr>)"
  by (rule empty_part_takes_rest) (simp_all add: sample_form_def header_word_def disposition_line_def quoted_def CRLF_def)

section \<open>Upload requests\<close>

lemma merge_parts_files: "req_file_array (merge_parts fds r) = req_file_array r @ filter (\<lambda>fd. fd_filename fd \<noteq> []) fds"
  by (induction fds r rule: merge_parts.induct) auto

lemma merge_parts_other:
  "req_method (merge_parts fds r) = req_method r \<and> req_url (merge_parts fds r) = req_url r
   \<and> req_host (merge_parts fds r) = req_host r \<and> req_header (merge_parts fds r) = req_header r"
  by (induction fds r rule: merge_parts.induct) auto

lemma read_loop_returns:
  "stream_ok st \<Longrightarrow> \<exists>st'. read_loop st [] = Some (pending st, st')"
  using read_loop_pending [of st "[]"] by simp

lemma parse_body_returns:
  assumes "length data + length (header_of r ''CONTENT_TYPE'') < 2 ^ 63"
  shows "\<exists>r'. parse_body data r = Some r'"
proof -
  have "\<exists>parts. ParseMultipartForm (header_of r ''CONTENT_TYPE'') data = Some parts"
    unfolding ParseMultipartForm_def using assms
    by (intro part_loop_returns) (auto simp: npos_def boundary_of_def Let_def substr_def)
  then show ?thesis by (auto simp: parse_body_def Let_def)
qed

text \<open>
  C16: a request is always built: for every environment and every body, however the connection cuts it,
  \<open>Init\<close> returns, and its answer says whether URL, host and headers are present.
\<close>

theorem Init_returns:
  assumes "stream_ok st"
    and "length (pending st) + length (header_of (fold env_entry envp Request0) ''CONTENT_TYPE'') < 2 ^ 63"
  shows "\<exists>r st'. Request_Init st envp Request0
    = Some (req_url r \<noteq> [] \<and> req_host r \<noteq> [] \<and> req_header r \<noteq> [], r, st')"
proof -
  obtain st' where rd: "read_loop st [] = Some (pending st, st')" using read_loop_returns [OF assms(1)] by blast
  define r1 where "r1 = fold env_entry envp Request0"
  define r2 where "r2 = r1\<lparr>req_host := header_of r1 ''HOST''\<rparr>"
  define r3 where "r3 = r2\<lparr>req_cookie := snd (Parse (header_of r2 ''COOKIE'') (req_cookie r2))\<rparr>"
  define r4 where "r4 = (if req_query_string r3 \<noteq> [] then r3\<lparr>req_query := ParseQuery (req_query_string r3)\<rparr> else r3)"
  have "header_of r4 ''CONTENT_TYPE'' = header_of r1 ''CONTENT_TYPE''"
    by (simp add: r4_def r3_def r2_def header_of_def)
  then obtain r5 where "parse_body (pending st) r4 = Some r5"
    using parse_body_returns [of "pending st" r4] assms(2) by (auto simp: r1_def)
  then show ?thesis
    unfolding Request_Init_def Let_def r1_def [symmetric] r2_def [symmetric] r3_def [symmetric] r4_def [symmetric]
    using rd by (cases "req_method r4 = HV_POST") auto
qed

lemma env_entry_keeps: "req_file_array (env_entry e r) = req_file_array r \<and> req_form (env_entry e r) = req_form r"
  by (simp add: env_entry_def Let_def split: option.split)

lemma env_entries_keep: "req_file_array (fold env_entry envp r) = req_file_array r \<and> req_form (fold env_entry envp r) = req_form r"
  using env_entry_keeps by (induction envp arbitrary: r) simp_all

lemma multipart_type:
  "length b < 2 ^ 63 \<Longrightarrow>
   (let type = ''multipart/form-data; boundary='' @ b; pos = find_first_of type (CHR '';'')
    in if pos \<noteq> npos then substr type 0 pos else type) = ''multipart/form-data''"
  using find_first_of_append [of "CHR '';''" "''multipart/form-data''" "'' boundary='' @ b"]
  by (simp add: substr_def npos_def)

text \<open>A form upload arrives as the list of its files.\<close>

lemma Init_upload:
  assumes st: "stream_ok st" "pending st = show_parts (''--'' @ b) fds"
    and fds: "list_all (part_ok (''--'' @ b)) fds" "length (show_parts (''--'' @ b) fds) + length b < 2 ^ 63"
    and env: "fold env_entry envp Request0 = r0" "req_method r0 = HV_POST" "req_url r0 \<noteq> []" "header_of r0 ''HOST'' \<noteq> []"
      "header_of r0 ''CONTENT_TYPE'' = ''multipart/form-data; boundary='' @ b"
  shows "\<exists>r st'. Request_Init st envp Request0 = Some (True, r, st') \<and> req_method r = HV_POST \<and> req_url r = req_url r0
    \<and> req_file_array r = filter (\<lambda>fd. fd_filename fd \<noteq> []) fds"
proof -
  obtain st' where rd: "read_loop st [] = Some (pending st, st')" using read_loop_returns [OF st(1)] by blast
  define r2 where "r2 = r0\<lparr>req_host := header_of r0 ''HOST''\<rparr>"
  define r3 where "r3 = r2\<lparr>req_cookie := snd (Parse (header_of r2 ''COOKIE'') (req_cookie r2))\<rparr>"
  define r4 where "r4 = (if req_query_string r3 \<noteq> [] then r3\<lparr>req_query := ParseQuery (req_query_string r3)\<rparr> else r3)"
  have r4: "header_of r4 ''CONTENT_TYPE'' = ''multipart/form-data; boundary='' @ b" "req_method r4 = HV_POST"
      "req_url r4 = req_url r0" "req_host r4 = header_of r0 ''HOST''" "req_header r4 = req_header r0"
      "req_file_array r4 = []"
    using env env_entries_keep [of envp Request0] by (simp_all add: r4_def r3_def r2_def header_of_def Request0_def)
  have h: "req_header r0 \<noteq> []" using env(4) by (auto simp: header_of_def map_find_def)
  have ne: "show_parts (''--'' @ b) fds \<noteq> []" by (cases fds) simp_all
  have "length b < 2 ^ 63" using fds(2) by simp
  note type = multipart_type [OF this, unfolded Let_def]
  have "parse_body (pending st) r4 = Some (merge_parts fds r4)"
    using ne unfolding parse_body_def Let_def r4(1) type st(2) ParseMultipartForm_show [OF fds] by simp
  then have "Request_Init st envp Request0 = Some (True, merge_parts fds r4, st')"
    unfolding Request_Init_def Let_def env(1) r2_def [symmetric] r3_def [symmetric] r4_def [symmetric]
    using rd r4 h env(3,4) merge_parts_other [of fds r4] by simp
  then show ?thesis using merge_parts_files [of fds r4] merge_parts_other [of fds r4] r4 by auto
qed

section \<open>The invariant of a request\<close>

text \<open>
  The maps of a request are ordered and hold each key once, and its uploaded files have names: fields
  without a file name went to the form.
\<close>

definition request_wf :: "Request \<Rightarrow> bool" where
  "request_wf r \<longleftrightarrow> map_ok (req_header r) \<and> map_ok (req_query r) \<and> map_ok (req_form r) \<and> map_ok (req_cookie r)
     \<and> (\<forall>fd \<in> set (req_file_array r). fd_filename fd \<noteq> [])"

lemma request_wf_new: "request_wf Request0"
  by (simp add: request_wf_def Request0_def map_ok_Nil)

lemma request_wf_env: "request_wf r \<Longrightarrow> request_wf (fold env_entry envp r)"
proof (induction envp arbitrary: r)
  case (Cons e envp)
  then have "request_wf (env_entry e r)"
    by (auto simp: env_entry_def request_wf_def map_ok_put Let_def split: option.split)
  then show ?case using Cons.IH by simp
qed simp

lemma map_ok_query_items: "map_ok m \<Longrightarrow> map_ok (query_items ts m)"
  by (induction ts arbitrary: m) (simp_all add: query_items.simps Let_def map_ok_insert)

lemma map_ok_Add: "map_ok c \<Longrightarrow> map_ok (Add k v c)"
  by (simp add: Add_def Add_item_def map_ok_insert map_ok_put Let_def split: option.split)

lemma map_ok_parse_items: "map_ok c \<Longrightarrow> map_ok (parse_items ts c)"
  by (induction ts arbitrary: c) (simp_all add: parse_items.simps Let_def map_ok_Add)

lemma request_wf_parts: "request_wf r \<Longrightarrow> request_wf (merge_parts fds r)"
proof (induction fds arbitrary: r)
  case (Cons fd fds)
  have "request_wf (if fd_filename fd = [] then r\<lparr>req_form := map_insert (fd_name fd) (fd_data fd) (req_form r)\<rparr>
        else r\<lparr>req_file_array := req_file_array r @ [fd]\<rparr>)"
    using Cons.prems by (simp add: request_wf_def map_ok_insert)
  then show ?case unfolding merge_parts.simps(2) by (rule Cons.IH)
qed simp

lemma request_wf_body: "request_wf r \<Longrightarrow> parse_body data r = Some r' \<Longrightarrow> request_wf r'"
  by (auto simp: parse_body_def ParseOctetStream_def FormDisposition0_def request_wf_parts Let_def
      split: if_splits bind_splits)
    (simp_all add: request_wf_def ParseQuery_def map_ok_query_items map_ok_Nil)

text \<open>Whatever environment and body arrive, the request that \<open>Init\<close> builds is well formed.\<close>

lemma Init_well_formed:
  assumes "Request_Init st envp Request0 = Some (ok, r, st')"
  shows "request_wf r \<and> (ok \<longrightarrow> req_url r \<noteq> [] \<and> req_host r \<noteq> [] \<and> req_header r \<noteq> [])"
proof -
  define r3 where "r3 = (let r = fold env_entry envp Request0; r = r\<lparr>req_host := header_of r ''HOST''\<rparr>
    in r\<lparr>req_cookie := snd (Parse (header_of r ''COOKIE'') (req_cookie r))\<rparr>)"
  define r4 where "r4 = (if req_query_string r3 \<noteq> [] then r3\<lparr>req_query := ParseQuery (req_query_string r3)\<rparr> else r3)"
  have "request_wf (fold env_entry envp Request0)" by (intro request_wf_env request_wf_new)
  then have "request_wf r4"
    by (simp add: request_wf_def r4_def r3_def ParseQuery_def Parse_def map_ok_query_items map_ok_parse_items map_ok_Nil Let_def)
  then show ?thesis
    using assms request_wf_body [of r4] unfolding Request_Init_def Let_def r3_def [unfolded Let_def, symmetric] r4_def [symmetric]
    by (auto split: if_splits bind_splits)
qed

text \<open>The body of an \<open>application/octet-stream\<close> request is dropped: it never becomes a file.\<close>

lemma octet_stream_dropped:
  assumes "header_of r ''CONTENT_TYPE'' = ''application/octet-stream''"
  shows "parse_body data r = Some r"
proof -
  have "find_first_of ''application/octet-stream'' (CHR '';'') = npos" by (rule find_first_of_npos) simp
  then show ?thesis by (simp add: parse_body_def assms ParseOctetStream_def FormDisposition0_def)
qed

section \<open>What a request holds\<close>

text \<open>
  The environment is a list of variables; what counts is the last entry that says something: \<open>last_of f vars\<close> is the last value
  that \<open>f\<close> finds. The names of headers are those of the variables without \<open>HTTP_\<close>; three variables are not headers.
\<close>

fun last_of :: "('a \<Rightarrow> 'b option) \<Rightarrow> 'a list \<Rightarrow> 'b option" where
  "last_of f [] = None"
| "last_of f (x # xs) = (case last_of f xs of Some y \<Rightarrow> Some y | None \<Rightarrow> f x)"

lemma last_of_snoc: "last_of f (xs @ [x]) = (case f x of Some y \<Rightarrow> Some y | None \<Rightarrow> last_of f xs)"
  by (induction xs) (auto split: option.split)

definition header_key :: "string \<Rightarrow> string option" where
  "header_key n = (if starts_with n ''HTTP_'' then Some (drop 5 n)
     else if n \<in> {''QUERY_STRING'', ''REQUEST_METHOD'', ''REQUEST_URI''} then None else Some n)"

definition env_header :: "(string \<times> string) list \<Rightarrow> string \<Rightarrow> string option" where
  "env_header vars k = last_of (\<lambda>(n, v). if v \<noteq> [] \<and> header_key n = Some k then Some v else None) vars"

definition env_value :: "(string \<times> string) list \<Rightarrow> string \<Rightarrow> string" where
  "env_value vars m = (case last_of (\<lambda>(n, v). if v \<noteq> [] \<and> n = m then Some v else None) vars of Some v \<Rightarrow> v | None \<Rightarrow> [])"

definition env_verb :: "(string \<times> string) list \<Rightarrow> HttpVerb" where
  "env_verb vars =
     (case last_of (\<lambda>(n, v). if v \<noteq> [] \<and> n = ''REQUEST_METHOD'' then FromString_verb v else None) vars of Some m \<Rightarrow> m | None \<Rightarrow> HV_GET)"

definition env_text :: "(string \<times> string) list \<Rightarrow> string list" where
  "env_text vars = map (\<lambda>(n, v). n @ CHR ''='' # v) vars"

definition env_ok :: "(string \<times> string) list \<Rightarrow> bool" where
  "env_ok vars \<longleftrightarrow> list_all (\<lambda>(n, v). CHR ''='' \<notin> set n \<and> length (n @ v) < npos) vars"

lemma env_entry_pair:
  assumes "CHR ''='' \<notin> set key" "value \<noteq> []" "length (key @ value) < npos"
  shows "env_entry (key @ CHR ''='' # value) r =
    (if starts_with key ''HTTP_'' then
        r\<lparr>req_header := map_put (substr key 5 npos) value (req_header r)\<rparr>
      else if key = ''QUERY_STRING'' then r\<lparr>req_query_string := value\<rparr>
      else if key = ''REQUEST_METHOD'' then
        (case FromString_verb value of Some v \<Rightarrow> r\<lparr>req_method := v\<rparr> | None \<Rightarrow> r)
      else if key = ''REQUEST_URI'' then r\<lparr>req_url := value\<rparr>
      else r\<lparr>req_header := map_put key value (req_header r)\<rparr>)"
proof -
  have f: "find_first_of (key @ CHR ''='' # value) (CHR ''='') = length key" using assms(1) by (rule find_first_of_append)
  have k: "substr (key @ CHR ''='' # value) 0 (length key) = key" by (simp add: substr_def)
  have v: "substr (key @ CHR ''='' # value) (length key + 1) npos = value" using assms(3) by (simp add: substr_def)
  have n: "(length key = npos) = False" "(value = []) = False" using assms(2,3) by simp_all
  show ?thesis unfolding env_entry_def Let_def f k v n by (simp add: eval_nat_numeral)
qed

lemma env_entry_empty:
  assumes "CHR ''='' \<notin> set key" "length key < npos"
  shows "env_entry (key @ CHR ''='' # []) r = r"
proof -
  have f: "find_first_of (key @ CHR ''='' # []) (CHR ''='') = length key" using assms(1) by (rule find_first_of_append)
  have v: "substr (key @ CHR ''='' # []) (length key + 1) npos = []" by (simp add: substr_def)
  show ?thesis unfolding env_entry_def Let_def f v by simp
qed

text \<open>The request after the environment was read.\<close>

lemma env_read:
  assumes "env_ok vars"
  defines "r \<equiv> fold env_entry (env_text vars) Request0"
  shows "map_find (req_header r) k = env_header vars k \<and> req_url r = env_value vars ''REQUEST_URI''
    \<and> req_query_string r = env_value vars ''QUERY_STRING'' \<and> req_method r = env_verb vars \<and> map_ok (req_header r)
    \<and> req_form r = [] \<and> req_file_array r = [] \<and> req_query r = [] \<and> req_cookie r = [] \<and> req_host r = []"
  using assms(1) unfolding r_def
proof (induction vars arbitrary: k rule: rev_induct)
  case Nil
  then show ?case
    by (simp add: env_text_def env_header_def env_value_def env_verb_def Request0_def map_find_def map_ok_Nil)
next
  case (snoc x vars)
  obtain n v where x: "x = (n, v)" by (cases x)
  let ?r = "fold env_entry (env_text vars) Request0"
  have nv: "CHR ''='' \<notin> set n" "length (n @ v) < npos" and vs: "env_ok vars" using snoc.prems by (auto simp: x env_ok_def)
  note ih = snoc.IH [OF vs]
  have st: "fold env_entry (env_text (vars @ [x])) Request0 = env_entry (n @ CHR ''='' # v) ?r" by (simp add: env_text_def x)
  show ?case
  proof (cases "v = []")
    case True
    then have "env_entry (n @ CHR ''='' # v) ?r = ?r" using env_entry_empty [of n ?r] nv by simp
    then show ?thesis
      unfolding st using ih [of k] True by (simp add: x env_header_def env_value_def env_verb_def last_of_snoc)
  next
    case False
    have d: "substr n 5 npos = drop 5 n" using nv(2) by (simp add: substr_def)
    have http: "starts_with n ''HTTP_'' \<Longrightarrow> n \<noteq> ''QUERY_STRING'' \<and> n \<noteq> ''REQUEST_METHOD'' \<and> n \<noteq> ''REQUEST_URI''"
      by (auto simp: starts_with_def)
    note e = env_entry_pair [OF nv(1) False nv(2), of ?r, unfolded d]
    show ?thesis
      unfolding st e using ih [of k] False http
      by (auto simp: x env_header_def env_value_def env_verb_def last_of_snoc header_key_def std_map.find_put map_ok_put
          split: option.split)
  qed
qed

lemma merge_parts_form: "map_ok (req_form r) \<Longrightarrow> map_find (req_form (merge_parts fds r)) k =
   (case map_find (req_form r) k of Some d \<Rightarrow> Some d
    | None \<Rightarrow> map_of (map (\<lambda>fd. (fd_name fd, fd_data fd)) (filter (\<lambda>fd. fd_filename fd = []) fds)) k)"
proof (induction fds arbitrary: r)
  case (Cons fd fds)
  then show ?case
    by (cases "fd_filename fd = []") (auto simp: std_map.find_insert map_ok_insert split: option.split)
qed (simp split: option.split)

lemma merge_parts_keep:
  "req_query (merge_parts fds r) = req_query r \<and> req_cookie (merge_parts fds r) = req_cookie r"
  by (induction fds r rule: merge_parts.induct) auto

text \<open>
  C17: what \<open>Init\<close> makes of a form upload. The environment is given by its variables (names without \<open>=\<close>), the
  method is POST and the body shows the parts of a form (under the conditions of \<open>multipart_round_trip\<close>). Then every header is
  the last value that is not empty of the variables that stand for it, with \<open>HTTP_\<close> taken off their names; the URL is that of
  the variable \<open>REQUEST_URI\<close>, the host the header \<open>HOST\<close>; the cookies and the query are those of
  \<open>Cookie::Parse\<close> and \<open>ParseQuery\<close>; every field without a file name is in the form, under its first value; the
  files are the other parts, in order; and the answer says whether URL, host and headers are there.
\<close>

theorem Init_assembles:
  assumes "stream_ok st" "pending st = show_parts (''--'' @ b) fds" "list_all (part_ok (''--'' @ b)) fds"
    and "length (show_parts (''--'' @ b) fds) + length b < 2 ^ 63" "env_ok vars" "env_verb vars = HV_POST"
    and "env_header vars ''CONTENT_TYPE'' = Some (''multipart/form-data; boundary='' @ b)"
  shows "\<exists>ok r st'. Request_Init st (env_text vars) Request0 = Some (ok, r, st')
    \<and> (\<forall>k. map_find (req_header r) k = env_header vars k)
    \<and> req_method r = HV_POST \<and> req_url r = env_value vars ''REQUEST_URI''
    \<and> req_host r = (case env_header vars ''HOST'' of Some v \<Rightarrow> v | None \<Rightarrow> [])
    \<and> req_cookie r = snd (Parse (case env_header vars ''COOKIE'' of Some v \<Rightarrow> v | None \<Rightarrow> []) [])
    \<and> req_query r = (if env_value vars ''QUERY_STRING'' = [] then [] else ParseQuery (env_value vars ''QUERY_STRING''))
    \<and> (\<forall>n. map_find (req_form r) n = map_of (map (\<lambda>fd. (fd_name fd, fd_data fd)) (filter (\<lambda>fd. fd_filename fd = []) fds)) n)
    \<and> req_file_array r = filter (\<lambda>fd. fd_filename fd \<noteq> []) fds
    \<and> (ok \<longleftrightarrow> req_url r \<noteq> [] \<and> req_host r \<noteq> [])"
proof -
  obtain st' where rd: "read_loop st [] = Some (pending st, st')" using read_loop_returns [OF assms(1)] by blast
  define r1 where "r1 = fold env_entry (env_text vars) Request0"
  define r2 where "r2 = r1\<lparr>req_host := header_of r1 ''HOST''\<rparr>"
  define r3 where "r3 = r2\<lparr>req_cookie := snd (Parse (header_of r2 ''COOKIE'') (req_cookie r2))\<rparr>"
  define r4 where "r4 = (if req_query_string r3 \<noteq> [] then r3\<lparr>req_query := ParseQuery (req_query_string r3)\<rparr> else r3)"
  note r1 = env_read [OF assms(5), folded r1_def]
  have type: "header_of r4 ''CONTENT_TYPE'' = ''multipart/form-data; boundary='' @ b"
    using r1 [of "''CONTENT_TYPE''"] assms(7) by (simp add: r4_def r3_def r2_def header_of_def)
  have r4: "req_method r4 = HV_POST" "req_header r4 = req_header r1" "req_url r4 = req_url r1" "req_form r4 = []"
      "req_file_array r4 = []" "req_host r4 = (case env_header vars ''HOST'' of Some v \<Rightarrow> v | None \<Rightarrow> [])"
      "req_cookie r4 = snd (Parse (case env_header vars ''COOKIE'' of Some v \<Rightarrow> v | None \<Rightarrow> []) [])"
      "req_query r4 = (if env_value vars ''QUERY_STRING'' = [] then [] else ParseQuery (env_value vars ''QUERY_STRING''))"
    using r1 assms(6) by (simp_all add: r4_def r3_def r2_def header_of_def)
  have header: "req_header r1 \<noteq> []" using r1 [of "''CONTENT_TYPE''"] assms(7) by (auto simp: map_find_def)
  have ne: "show_parts (''--'' @ b) fds \<noteq> []" by (cases fds) simp_all
  have "length b < 2 ^ 63" using assms(4) by simp
  note mt = multipart_type [OF this, unfolded Let_def]
  have "parse_body (pending st) r4 = Some (merge_parts fds r4)"
    using ne unfolding parse_body_def Let_def type mt assms(2) ParseMultipartForm_show [OF assms(3,4)] by simp
  then have "Request_Init st (env_text vars) Request0
      = Some (\<not> (req_url r4 = [] \<or> req_host r4 = []), merge_parts fds r4, st')"
    unfolding Request_Init_def Let_def r1_def [symmetric] r2_def [symmetric] r3_def [symmetric] r4_def [symmetric]
    using rd r4(1,2) header merge_parts_other [of fds r4] by simp
  moreover have "map_find (req_form (merge_parts fds r4)) n
      = map_of (map (\<lambda>fd. (fd_name fd, fd_data fd)) (filter (\<lambda>fd. fd_filename fd = []) fds)) n" for n
    using merge_parts_form [of r4 fds n] r4(4) by (simp add: map_ok_Nil map_find_def)
  ultimately show ?thesis
    using merge_parts_other [of fds r4] merge_parts_files [of fds r4] merge_parts_keep [of fds r4] r1 r4 assms(6)
    by (intro exI [of _ "\<not> (req_url r4 = [] \<or> req_host r4 = [])"] exI [of _ "merge_parts fds r4"] exI [of _ st']) simp
qed

text \<open>An upload with an empty variable, a header given twice, a query, a field and a file.\<close>

definition sample_vars :: "(string \<times> string) list" where
  "sample_vars = [(''REQUEST_METHOD'', ''POST''), (''REQUEST_URI'', ''/u?a=1''), (''QUERY_STRING'', ''a=1''), (''HTTP_HOST'', ''g''),
     (''HTTP_HOST'', ''h''), (''HTTP_HOST'', []), (''CONTENT_TYPE'', ''multipart/form-data; boundary=Q'')]"

theorem Init_assembles_witness:
  "\<exists>r st'. Request_Init \<lparr>unread = show_parts ''--Q'' sample_form, records = [], isClosed = False\<rparr> (env_text sample_vars) Request0
      = Some (True, r, st')
    \<and> req_host r = ''h'' \<and> req_url r = ''/u?a=1'' \<and> map_find (req_form r) ''t'' = Some ''hi'' \<and> map (fd_name) (req_file_array r) = [''f'']"
proof -
  let ?st = "\<lparr>unread = show_parts ''--Q'' sample_form, records = [], isClosed = False\<rparr>"
  have verb: "FromString_verb ''POST'' = Some HV_POST" by code_simp
  have v: "env_verb sample_vars = HV_POST" "env_header sample_vars ''HOST'' = Some ''h''" "env_value sample_vars ''REQUEST_URI'' = ''/u?a=1''"
    "env_header sample_vars ''CONTENT_TYPE'' = Some (''multipart/form-data; boundary='' @ ''Q'')" "env_ok sample_vars"
    by (simp_all add: sample_vars_def env_verb_def env_header_def env_value_def env_ok_def header_key_def starts_with_def verb npos_def)
  have p: "list_all (part_ok (''--'' @ ''Q'')) sample_form" by code_simp
  have "length (show_parts (''--'' @ ''Q'') sample_form) < 1000" by code_simp
  then have l: "length (show_parts (''--'' @ ''Q'') sample_form) + length ''Q'' < 2 ^ 63" by simp
  have s: "stream_ok ?st" "pending ?st = show_parts (''--'' @ ''Q'') sample_form" by (simp_all add: stream_ok_def pending_def)
  note i = Init_assembles [OF s p l v(5,1,4), unfolded v]
  have f: "map_of (map (\<lambda>fd. (fd_name fd, fd_data fd)) (filter (\<lambda>fd. fd_filename fd = []) sample_form)) ''t'' = Some ''hi''"
    "map fd_name (filter (\<lambda>fd. fd_filename fd \<noteq> []) sample_form) = [''f'']"
    by (simp_all add: sample_form_def)
  from i obtain r st' where r: "Request_Init ?st (env_text sample_vars) Request0
      = Some (req_url r \<noteq> [] \<and> req_host r \<noteq> [], r, st')" "req_url r = ''/u?a=1''" "req_host r = ''h''"
    "map_find (req_form r) ''t'' = Some ''hi''" "req_file_array r = filter (\<lambda>fd. fd_filename fd \<noteq> []) sample_form"
    using f(1) by auto
  then show ?thesis using f(2) by (intro exI [of _ r] exI [of _ st']) simp
qed

text \<open>A form upload that breaks off in the middle of a part is answered all the same.\<close>

theorem Init_returns_witness:
  "\<exists>r st'. Request_Init \<lparr>unread = ''--Q'' @ CRLF @ ''Content-Disposition: form-data; name='', records = [''t--Q''], isClosed = False\<rparr>
      (env_text sample_vars) Request0
    = Some (req_url r \<noteq> [] \<and> req_host r \<noteq> [] \<and> req_header r \<noteq> [], r, st')"
proof (rule Init_returns)
  have v: "env_ok sample_vars" "env_header sample_vars ''CONTENT_TYPE'' = Some ''multipart/form-data; boundary=Q''"
    by (simp_all add: sample_vars_def env_header_def env_ok_def header_key_def starts_with_def npos_def)
  show "length (pending \<lparr>unread = ''--Q'' @ CRLF @ ''Content-Disposition: form-data; name='', records = [''t--Q''], isClosed = False\<rparr>)
      + length (header_of (fold env_entry (env_text sample_vars) Request0) ''CONTENT_TYPE'') < 2 ^ 63"
    using env_read [OF v(1), of "''CONTENT_TYPE''"] v(2) by (simp add: header_of_def pending_def CRLF_def)
qed (simp add: stream_ok_def)

end
