(* ===== verification/BundleAction.thy ===== *)
theory BundleAction
  imports Multipart Frame StoreLoad
begin

text \<open>
  \<open>src/src/bundle/bundleaction.cc\<close> and \<open>bundlewrite.cc\<close>: the web front end of the bundle store (upload,
  upload with redirect, download) and the command-line writer. The world of an action is the file system
  and the state of the process; the settings, the process id and the date are in \<open>server\<close>.
\<close>

record world =
  wd_os :: os
  wd_proc :: proc

record server =
  sv_setting :: Setting
  sv_pid :: int
  sv_now :: string
  sv_year :: nat
  sv_month :: nat
  sv_day :: nat

definition the_storage :: string where
  "the_storage = ''test''"

text \<open>\<open>snprintf (tm_buf, 32, "p/%04d%02d%02d", \<dots>)\<close>.\<close>

definition pad0 :: "nat \<Rightarrow> string \<Rightarrow> string" where
  "pad0 k s = replicate (k - length s) (CHR ''0'') @ s"

definition tm_buf :: "char \<Rightarrow> server \<Rightarrow> string" where
  "tm_buf c sv = take 31 (c # ''/'' @ pad0 4 (show_nat (sv_year sv)) @ pad0 2 (show_nat (sv_month sv))
     @ pad0 2 (show_nat (sv_day sv)))"

definition plain_type :: string where
  "plain_type = ''text/plain; charset=utf-8''"

section \<open>Upload\<close>

text \<open>
  The loop over the uploaded files. A null writer is dereferenced and an allocation that spins does not
  return: both lose the request. A write that throws leaves the writer, and its lock, behind.
\<close>

fun write_files :: "server \<Rightarrow> FormDisposition list \<Rightarrow> Response \<Rightarrow> world \<Rightarrow> world handled" where
  "write_files sv [] response w = Done HC_OK response w"
| "write_files sv (fd # fds) response w =
     (case Allocate (sv_setting sv) (sv_pid sv) (sv_now sv) (tm_buf (CHR ''p'') sv) ''.jpg'' (length (fd_data fd)) the_storage
             None None (wd_proc w) (wd_os w) of
        None \<Rightarrow> Lost
      | Some (None, _, _) \<Rightarrow> Lost
      | Some (Some aw, p, s) \<Rightarrow>
          (case Writer_Write aw (fd_data fd) None s of
             Undefined \<Rightarrow> Lost
           | Throw \<Rightarrow> Thrown response \<lparr>wd_os = s, wd_proc = p\<rparr>
           | Ret ((ret, _), s) \<Rightarrow>
               let response = (if 0 = ret then WriteRaw (EnsureUrl aw @ LF) response
                               else WriteRaw (''failed '' @ show_int ret) response);
                   s = snd (Release aw s)
               in write_files sv fds response \<lparr>wd_os = s, wd_proc = p\<rparr>))"

definition WriteAction :: "server \<Rightarrow> world BaseAction" where
  "WriteAction sv =
     \<lparr>Match = (\<lambda>url. str_find url ''bundle'' 0 \<noteq> npos),
      Process = (\<lambda>request response w.
        if req_method request \<noteq> HV_POST then Done HC_METHOD_NOT_ALLOWED response w
        else
          let response = with_header (set_status_code HC_OK ''OK'') response;
              response = with_header (Header_Add HH_CONTENT_TYPE plain_type) response;
              response = OutputHeader response
          in write_files sv (req_file_array request) response w)\<rparr>"

text \<open>The redirecting variant answers for the first file that is stored and does not delete its writer.\<close>

fun write_redirect :: "server \<Rightarrow> FormDisposition list \<Rightarrow> Response \<Rightarrow> world \<Rightarrow> world handled" where
  "write_redirect sv [] response w = Done HC_OK response w"
| "write_redirect sv (fd # fds) response w =
     (case Allocate (sv_setting sv) (sv_pid sv) (sv_now sv) (tm_buf (CHR ''p'') sv) ''.jpg'' (length (fd_data fd)) the_storage
             None None (wd_proc w) (wd_os w) of
        None \<Rightarrow> Lost
      | Some (None, _, _) \<Rightarrow> Lost
      | Some (Some aw, p, s) \<Rightarrow>
          (case Writer_Write aw (fd_data fd) None s of
             Undefined \<Rightarrow> Lost
           | Throw \<Rightarrow> Thrown response \<lparr>wd_os = s, wd_proc = p\<rparr>
           | Ret ((ret, _), s) \<Rightarrow>
               if 0 = ret then
                 let response = with_header (set_status_code HC_FOUND ''Found'') response;
                     response = with_header (Header_Add HH_CONTENT_TYPE plain_type) response;
                     response = with_header (Header_Add HH_CONTENT_LENGTH ''0'') response;
                     sz = take 255 (''/'' @ c_str (EnsureUrl aw));
                     response = with_header (Header_Add HH_LOCATION sz) response;
                     response = OutputHeader response
                 in Done HC_OK response \<lparr>wd_os = s, wd_proc = p\<rparr>
               else
                 let response = WriteRaw (''failed '' @ show_int ret) response;
                     s = snd (Release aw s)
                 in write_redirect sv fds response \<lparr>wd_os = s, wd_proc = p\<rparr>))"

definition WriteRedirectAction :: "server \<Rightarrow> world BaseAction" where
  "WriteRedirectAction sv =
     \<lparr>Match = (\<lambda>url. str_find url ''/upload'' 0 \<noteq> npos),
      Process = (\<lambda>request response w.
        if req_method request \<noteq> HV_POST then Done HC_METHOD_NOT_ALLOWED response w
        else write_redirect sv (req_file_array request) response w)\<rparr>"

section \<open>Download\<close>

definition ReadAction :: "server \<Rightarrow> world BaseAction" where
  "ReadAction sv =
     \<lparr>Match = (\<lambda>url. str_find url ''/p/'' 0 = 0),
      Process = (\<lambda>request response w.
        case substr_at (req_url request) 1 npos of
          None \<Rightarrow> Thrown response w
        | Some u \<Rightarrow>
            (case Reader_Read (sv_setting sv) u the_storage None (wd_os w) of
               Undefined \<Rightarrow> Lost
             | Throw \<Rightarrow> Thrown response w
             | Ret ((ret, buf, _), s) \<Rightarrow>
                 let w = w\<lparr>wd_os := s\<rparr> in
                 if ret = 0 then
                   let response = with_header (set_status_code HC_OK ''OK'') response;
                       response = with_header (Header_Add HH_CONTENT_TYPE ''image/jpeg'') response;
                       sz = take 15 (show_int (wrap32 (int (length buf))));
                       response = with_header (Header_Add HH_CONTENT_LENGTH sz) response;
                       response = WriteRawWithHeader buf response
                   in Done HC_OK response w
                 else
                   let response = with_header (set_status_code HC_NOT_FOUND ''Not Found'') response;
                       response = OutputHeader response
                   in Done HC_NOT_FOUND response w))\<rparr>"

text \<open>The start-up function registers the three actions.\<close>

definition BundleAction_Init :: "server \<Rightarrow> world FrameWork \<Rightarrow> world FrameWork" where
  "BundleAction_Init sv fw =
     RegisterAction (WriteRedirectAction sv) (RegisterAction (ReadAction sv) (RegisterAction (WriteAction sv) fw))"

section \<open>The command-line writer\<close>

text \<open>
  \<open>Write\<close> of \<open>bundlewrite.cc\<close>: stores standard input and returns its URL, whether or not the write
  succeeded. The clock readings are left out. From 2 GiB on, the size is a
  negative \<open>int\<close> and the write reads outside its buffer. The outer option is \<open>None\<close> when the allocation never ends.
\<close>

definition bundlewrite_Write ::
  "server \<Rightarrow> string \<Rightarrow> string \<Rightarrow> string \<Rightarrow> bytes \<Rightarrow> world \<Rightarrow> (string \<times> world) outcome option" where
  "bundlewrite_Write sv prefix postfix storage input w =
     (let file_size = wrap32 (int (length input)) in
      case Allocate (sv_setting sv) (sv_pid sv) (sv_now sv) prefix postfix (to_size file_size) storage None None
             (wd_proc w) (wd_os w) of
        None \<Rightarrow> None
      | Some (None, p, s) \<Rightarrow> Some (Ret ([], \<lparr>wd_os = s, wd_proc = p\<rparr>))
      | Some (Some writer, p, s) \<Rightarrow>
          Some (if file_size < 0 then Undefined else
           case Writer_Write writer input None s of
             Undefined \<Rightarrow> Undefined
           | Throw \<Rightarrow> Throw
           | Ret (_, s) \<Rightarrow> Ret (EnsureUrl writer, \<lparr>wd_os = snd (Release writer s), wd_proc = p\<rparr>)))"

section \<open>Uploading and downloading\<close>

definition bundle_host :: "server \<Rightarrow> world FrameWork" where
  "bundle_host sv = snd (InitHost True (BundleAction_Init sv empty_framework))"

lemma host_bundle: "host_action (bundle_host sv) = [WriteAction sv, ReadAction sv, WriteRedirectAction sv]"
  by (simp add: bundle_host_def BundleAction_Init_def RegisterAction_def InitHost_def empty_framework_def)

text \<open>The headers of the two answers.\<close>

definition upload_header :: string where
  "upload_header = Header_Write \<lparr>hdr_list = [(HH_CONTENT_TYPE, plain_type)], hdr_hc = HC_OK, hdr_message = ''OK''\<rparr>"

definition image_header :: "nat \<Rightarrow> string" where
  "image_header n = Header_Write
     \<lparr>hdr_list = [(HH_CONTENT_TYPE, ''image/jpeg''), (HH_CONTENT_LENGTH, take 15 (show_int (wrap32 (int n))))],
      hdr_hc = HC_OK, hdr_message = ''OK''\<rparr>"

lemma upload_one:
  assumes "str_find (req_url q) ''bundle'' 0 \<noteq> npos" "req_method q = HV_POST" "req_file_array q = [fd]"
    and "Allocate (sv_setting sv) (sv_pid sv) (sv_now sv) (tm_buf (CHR ''p'') sv) ''.jpg'' (length (fd_data fd)) the_storage
      None None (wd_proc w) (wd_os w) = Some (Some aw, p', s1)"
    and "Writer_Write aw (fd_data fd) None s1 = Ret ((0, n), s2)"
  shows "\<exists>p. FrameWork_Process (bundle_host sv) q (Response_new hc out) w
      = Done HC_OK p \<lparr>wd_os = snd (Release aw s2), wd_proc = p'\<rparr> \<and> res_out p = out @ upload_header @ EnsureUrl aw @ LF"
  using assms
  by (simp add: FrameWork_Process_def Find_def host_bundle WriteAction_def Response_new_def set_status_code_def
      Header_Add_def OutputHeader_def WriteRaw_def FCGX_PutStr_def upload_header_def)

lemma download_one:
  assumes "req_url q = ''/'' @ u" "str_find (''/'' @ u) ''bundle'' 0 = npos" "starts_with u ''p/''" "length u < npos"
    and "Reader_Read (sv_setting sv) u the_storage None (wd_os w) = Ret ((0, buf, d), s)"
  shows "\<exists>p. FrameWork_Process (bundle_host sv) q (Response_new hc out) w = Done HC_OK p (w\<lparr>wd_os := s\<rparr>)
      \<and> res_out p = out @ image_header (length buf) @ buf"
proof -
  have "str_find (''/'' @ u) ''/p/'' 0 = 0" using assms(3) by (auto simp: str_find_def starts_with_def)
  moreover have "substr_at (''/'' @ u) 1 npos = Some u" using assms(4) by (simp add: substr_at_def substr_def)
  ultimately show ?thesis
    using assms(1,2,5)
    by (simp add: FrameWork_Process_def Find_def host_bundle WriteAction_def ReadAction_def Response_new_def set_status_code_def
        Header_Add_def WriteRawWithHeader_def FCGX_PutStr_def image_header_def Let_def)
qed

section \<open>An empty store\<close>

definition sample_server :: server where
  "sample_server = \<lparr>sv_setting = g_default_setting, sv_pid = 1, sv_now = ''now'', sv_year = 2012, sv_month = 5, sv_day = 12\<rparr>"

definition web_os :: os where
  "web_os = \<lparr>files = (\<lambda>_. None), dirs = (\<lambda>q. q \<in> {(False, [''test'']), (False, [''test'', ''.lock''])}),
     errno = 0, faults = (\<lambda>_ _. None), room = (\<lambda>_. None), dir_size = 4096, heap = (\<lambda>_. CHR ''#'')\<rparr>"

definition web_world :: world where
  "web_world = \<lparr>wd_os = web_os, wd_proc = proc3\<rparr>"

definition web_rq :: request where
  "web_rq = request_of ''now'' ''p/20120512'' ''.jpg'' 5 ''test'' None None"

lemma web_tm_buf: "tm_buf (CHR ''p'') sample_server = ''p/20120512''"
  by (simp add: tm_buf_def pad0_def sample_server_def print_eval)

lemma web_rq_parts:
  "rq_prefix web_rq = ''p/20120512''" "rq_storage web_rq = ''test''" "rq_lock_dir web_rq = PathJoin ''test'' ''.lock''"
  "rq_size web_rq = 5" "rq_postfix web_rq = ''.jpg''" "rq_builder web_rq = None"
  by (simp_all add: web_rq_def request_of_def)

lemma web_lock_dir: "PathJoin ''test'' ''.lock'' = ''test/.lock''" "components ''test/.lock'' = [''test'', ''.lock'']"
  "\<not> IsAbspath ''test/.lock''" "\<not> IsAbspath ''p/20120512''"
  "components (PathJoin ''test'' ''p/20120512'') = [''test'', ''p'', ''20120512'']"
  "\<not> IsAbspath (PathJoin ''test'' ''p/20120512'')"
  by code_simp+

lemma web_apart: "apart g_default_setting web_rq"
  by (rule apart_default)
    (simp_all add: levels_ok_default web_rq_parts web_lock_dir PATH_LENGTH_MAX_def)

lemma web_bundle_of: "bundle_of g_default_setting web_rq bid =
    (False, [''test'', ''p'', ''20120512'', show_hex8 (to_u32 bid div 50), show_hex8 (to_u32 bid mod 400)])"
  using resolve_bundle_path [OF levels_ok_default, of "''test''" "''p/20120512''" bid]
  by (simp add: bundle_of_def web_rq_parts web_lock_dir) (simp add: g_default_setting_def)

lemma web_lock_path: "resolve (lock_path web_rq bid) = (False, [''test'', ''.lock'', show_int bid])"
  by (simp add: resolve_lock_path web_rq_parts web_lock_dir)

lemma web_dirname:
  "resolve (Dirname (bundle_path g_default_setting ''test'' ''p/20120512'' bid))
     = (False, [''test'', ''p'', ''20120512'', show_hex8 (to_u32 bid div 50)])"
  "length (Dirname (bundle_path g_default_setting ''test'' ''p/20120512'' bid)) < PATH_LENGTH_MAX"
proof -
  let ?b = "bundle_path g_default_setting ''test'' ''p/20120512'' bid"
  show "resolve (Dirname ?b) = (False, [''test'', ''p'', ''20120512'', show_hex8 (to_u32 bid div 50)])"
    using Dirname_bundle_path(1) [OF levels_ok_default, of "''test''" "''p/20120512''" bid] web_bundle_of [of bid]
    by (simp add: bundle_of_def web_rq_parts parent_def)
  let ?h = "show_hex8 (to_u32 bid div 50)" and ?t = "show_hex8 (to_u32 bid mod 400)"
  have parts: "Bid2Filename g_default_setting bid = ?h @ ''/'' @ ?t" "length ?h = 8"
    using Bid2Filename_parts [OF levels_ok_default, of bid] by (simp_all add: g_default_setting_def)
  have j: "PathJoin ''test'' ''p/20120512'' = ''test/p/20120512''" by code_simp
  have "?b = (''test/p/20120512/'' @ ?h) @ CHR ''/'' # ?t"
    using Bid2Filename_relative [OF levels_ok_default, of bid] parts
    unfolding bundle_path_def j by (simp add: PathJoin_def IsDirectory_def IsPathSep_def)
  moreover have "CHR ''/'' \<notin> set ?t" using show_hex8_chars by blast
  ultimately have "Dirname ?b = ''test/p/20120512/'' @ ?h" using Dirname_append by metis
  then show "length (Dirname ?b) < PATH_LENGTH_MAX" using parts(2) by (simp add: PATH_LENGTH_MAX_def)
qed

lemma web_usable: "usable g_default_setting web_rq web_os"
proof -
  let ?d = "\<lambda>bid. Dirname (bundle_path g_default_setting ''test'' ''p/20120512'' bid)"
  have l: "resolve ''test/.lock'' = (False, [''test'', ''.lock''])" by (simp add: resolve_def web_lock_dir)
  have free: "\<not> is_file web_os p \<and> \<not> is_lock web_rq p" if "ancestor (?d bid) p" for bid p
    using that unfolding ancestor_resolve web_dirname(1)
    by (auto simp: is_file_def web_os_def is_lock_def web_lock_path take_Cons' split: if_splits)
  show ?thesis
    unfolding usable_def Let_def web_rq_parts web_lock_dir(1)
    using free web_dirname(2)
    by (auto simp: web_lock_dir ancestor_resolve l web_bundle_of web_lock_path)
      (auto simp: web_os_def is_file_def is_dir_def take_Cons' split: if_splits)
qed

lemma web_has_room: "has_room g_default_setting web_rq web_os 3"
  by (simp add: has_room_def web_bundle_of is_file_def web_os_def)

text \<open>The first allocation takes bundle 3, which is new, and its URL can be encoded.\<close>

lemma web_allocates:
  "\<exists>w p' s'. Allocate g_default_setting 1 ''now'' ''p/20120512'' ''.jpg'' 5 ''test'' None None proc3 web_os = Some (Some w, p', s')
     \<and> w_info w = Info0\<lparr>info_id := 3, info_offset := 1024, info_size := 5, info_prefix := ''p/20120512'', info_postfix := ''.jpg''\<rparr>"
proof -
  have f: "first_id 1 proc3 = proc3" "last_id proc3 = 3" by (simp_all add: first_id_def proc3_def)
  have c: "choose_id g_default_setting 1 proc3 = proc3" by (simp add: choose_id_def g_default_setting_def bundle_consts)
  obtain w s' where st: "allocate_step g_default_setting web_rq 3 web_os = (Got w, s')"
    using allocate_step_usable [OF web_usable web_apart, of 3] web_has_room by auto
  then have run: "Allocate g_default_setting 1 ''now'' ''p/20120512'' ''.jpg'' 5 ''test'' None None proc3 web_os
      = Some (Some w, proc3, s')"
    by (simp add: Allocate_loop f web_rq_def [symmetric] allocate_loop.simps [of _ _ 0] c Let_def)
  have nd: "\<not> is_dir web_os (bundle_of g_default_setting web_rq bid)" "faults web_os x q = None" for bid x q
    using web_usable by (auto simp: usable_def Let_def web_os_def)
  obtain s0 where k: "kept (is_lock web_rq) web_os s0" and al: "allocated g_default_setting web_rq 3 s0 w s'"
    using allocate_loop_Some [OF run [unfolded Allocate_loop, folded web_rq_def] web_apart nd] f(2) by auto
  have nl: "\<not> is_lock web_rq (bundle_of g_default_setting web_rq 3)"
    by (auto simp: is_lock_def web_lock_path web_bundle_of)
  have "files s0 (bundle_of g_default_setting web_rq 3) = None" using keptD(1) [OF k nl] by (simp add: web_os_def)
  then show ?thesis
    using run al unfolding allocated_def
    by (auto simp: new_writer_def length_bundle_header kBundleHeaderSize_def web_rq_parts)
qed

text \<open>The upload request of the example: one file, with the environment the server passes.\<close>

definition web_part :: FormDisposition where
  "web_part = \<lparr>fd_name = ''f'', fd_filename = ''a.b'', fd_content_type = ''x'', fd_data = ''hello''\<rparr>"

definition web_env :: "string list" where
  "web_env = [''REQUEST_METHOD=POST'', ''REQUEST_URI=/bundle'', ''HTTP_HOST=h'', ''CONTENT_TYPE=multipart/form-data; boundary=Q'']"

definition web_stream :: in_stream where
  "web_stream = \<lparr>unread = show_parts ''--Q'' [web_part], records = [], isClosed = False\<rparr>"

definition web_info :: Info where
  "web_info = Info0\<lparr>info_id := 3, info_offset := 1024, info_size := 5, info_prefix := ''p/20120512'', info_postfix := ''.jpg''\<rparr>"

lemma web_encode_ok: "encode_ok web_info"
proof -
  have "url_hash web_info = 4118000060"
    by (simp add: url_hash_def web_info_def Info0_def hash_eval)
  then show ?thesis by (auto simp: encode_ok_def address_ok_def web_info_def Info0_def to_u32_def)
qed

lemma web_url: "str_find (''/'' @ BuildWithEncode web_info) ''bundle'' 0 = npos"
  "length (BuildWithEncode web_info) < npos"
proof -
  have h: "url_hash web_info = 4118000060"
    by (simp add: url_hash_def web_info_def Info0_def hash_eval)
  have u: "BuildWithEncode web_info = ''p/20120512/D_SE_F_FSuy4V.jpg''"
    unfolding BuildWithEncode_def Let_def url_hash_def [symmetric] h
    by (simp add: web_info_def Info0_def wrap64_id ToSixty_def sixty_loop.simps SixtyChar_def Let_def)
  show "str_find (''/'' @ BuildWithEncode web_info) ''bundle'' 0 = npos"
    unfolding u by (simp add: str_find_def starts_with_def)
  show "length (BuildWithEncode web_info) < npos" unfolding u by (simp add: npos_def)
qed

lemma web_env_request:
  "fold env_entry web_env Request0
     = Request0\<lparr>req_method := HV_POST, req_url := ''/bundle'',
         req_header := map_put ''CONTENT_TYPE'' ''multipart/form-data; boundary=Q'' (map_put ''HOST'' ''h'' [])\<rparr>"
proof -
  have verb: "FromString_verb ''POST'' = Some HV_POST" by code_simp
  show ?thesis
    using env_entry_pair [of "''REQUEST_METHOD''" "''POST''"] env_entry_pair [of "''REQUEST_URI''" "''/bundle''"]
      env_entry_pair [of "''HTTP_HOST''" "''h''"] env_entry_pair [of "''CONTENT_TYPE''" "''multipart/form-data; boundary=Q''"]
    by (simp add: web_env_def npos_def starts_with_def substr_def verb Request0_def)
qed

section \<open>Properties\<close>

text \<open>
  A file that is not there is answered with two status lines: \<open>ReadAction\<close> writes the header of the 404
  answer itself and returns the code, for which the framework writes an error header of its own.
\<close>

theorem missing_file_two_headers:
  assumes "req_url q = ''/'' @ u" "str_find (''/'' @ u) ''bundle'' 0 = npos" "starts_with u ''p/''" "length u < npos"
    and "Reader_Read (sv_setting sv) u the_storage None (wd_os w) = Ret ((ret, buf, d), s)" "ret \<noteq> 0"
  shows "\<exists>p. FrameWork_Process (bundle_host sv) q (Response_new hc []) w = Done HC_NOT_FOUND p (w\<lparr>wd_os := s\<rparr>)
      \<and> res_out p = Header_Write \<lparr>hdr_list = [], hdr_hc = HC_NOT_FOUND, hdr_message = ''Not Found''\<rparr>
        @ Header_Write \<lparr>hdr_list = [], hdr_hc = HC_NOT_FOUND, hdr_message = ''TODO:''\<rparr>"
proof -
  have "str_find (''/'' @ u) ''/p/'' 0 = 0" using assms(3) by (auto simp: str_find_def starts_with_def)
  moreover have "substr_at (''/'' @ u) 1 npos = Some u" using assms(4) by (simp add: substr_at_def substr_def)
  ultimately show ?thesis
    using assms(1,2,5,6)
    by (simp add: FrameWork_Process_def Find_def host_bundle WriteAction_def ReadAction_def Response_new_def set_status_code_def
        OutputHeader_def FCGX_PutStr_def ResponseError_def kDefaultMessage_def Let_def)
qed

theorem missing_file_two_headers_witness:
  "\<exists>p. FrameWork_Process (bundle_host sample_server) (sample_request (''/'' @ ''p/x'')) (Response_new HC_OK []) web_world
      = Done HC_NOT_FOUND p (web_world\<lparr>wd_os := web_os\<rparr>)
    \<and> res_out p = Header_Write \<lparr>hdr_list = [], hdr_hc = HC_NOT_FOUND, hdr_message = ''Not Found''\<rparr>
        @ Header_Write \<lparr>hdr_list = [], hdr_hc = HC_NOT_FOUND, hdr_message = ''TODO:''\<rparr>"
proof (rule missing_file_two_headers)
  show "str_find (''/'' @ ''p/x'') ''bundle'' 0 = npos" by (simp add: str_find_def starts_with_def)
  have "Reader_Read g_default_setting ''p/x'' the_storage None web_os = Ret ((-1, [], []), web_os)"
    by (simp add: Reader_Read_def g_default_setting_def ExtractWithEncode_def rfind_npos Let_def)
  then show "Reader_Read (sv_setting sample_server) ''p/x'' the_storage None (wd_os web_world) = Ret ((-1, [], []), web_os)"
    by (simp add: sample_server_def web_world_def)
qed (simp_all add: sample_request_def starts_with_def npos_def)

end
