(* ===== verification/DataPack.thy ===== *)
theory DataPack
  imports Prelude "HOL-Library.Monad_Syntax"
begin

text \<open>
  \<open>src/src/moosefs/datapack.h\<close>: integers in network order. A \<open>put\<close> routine yields the bytes it stores at
  the write pointer; a \<open>get\<close> routine takes the memory from the read pointer on and returns the value with the memory
  behind it, or \<open>None\<close> when it would read past the end. The sums of promoted bytes in the source
  are read as wrapping.
\<close>

section \<open>Definitions\<close>

definition put8bit :: "nat \<Rightarrow> bytes" where
  "put8bit val = [char_of val]"

definition put16bit :: "nat \<Rightarrow> bytes" where
  "put16bit val = [char_of (val div 2 ^ 8), char_of val]"

definition put32bit :: "nat \<Rightarrow> bytes" where
  "put32bit val = [char_of (val div 2 ^ 24), char_of (val div 2 ^ 16), char_of (val div 2 ^ 8), char_of val]"

definition put64bit :: "nat \<Rightarrow> bytes" where
  "put64bit val =
     [char_of (val div 2 ^ 56), char_of (val div 2 ^ 48), char_of (val div 2 ^ 40), char_of (val div 2 ^ 32),
      char_of (val div 2 ^ 24), char_of (val div 2 ^ 16), char_of (val div 2 ^ 8), char_of val]"

fun get8bit :: "bytes \<Rightarrow> (nat \<times> bytes) option" where
  "get8bit (a # r) = Some (of_char a, r)"
| "get8bit _ = None"

fun get16bit :: "bytes \<Rightarrow> (nat \<times> bytes) option" where
  "get16bit (a # b # r) = Some (of_char b + 256 * of_char a, r)"
| "get16bit _ = None"

fun get32bit :: "bytes \<Rightarrow> (nat \<times> bytes) option" where
  "get32bit (a # b # c # d # r) =
     Some (of_char d + 256 * (of_char c + 256 * (of_char b + 256 * of_char a)), r)"
| "get32bit _ = None"

definition get64bit :: "bytes \<Rightarrow> (nat \<times> bytes) option" where
  "get64bit p = do {
     (hi, p) \<leftarrow> get32bit p;
     (lo, p) \<leftarrow> get32bit p;
     Some (hi * 2 ^ 32 + lo, p)
   }"

section \<open>Interface\<close>

text \<open>
  A fixed-width field: what was put is got back modulo the width, it takes a fixed number of bytes, and it is
  got from any memory that holds that many.
\<close>

locale field =
  fixes put :: "nat \<Rightarrow> bytes" and get :: "bytes \<Rightarrow> (nat \<times> bytes) option" and width :: nat
  assumes get_put: "get (put v @ r) = Some (v mod 256 ^ width, r)"
    and length_put: "length (put v) = width"
    and get_Some: "width \<le> length p \<Longrightarrow> \<exists>v. get p = Some (v, drop width p) \<and> v < 256 ^ width"
    and get_None: "length p < width \<Longrightarrow> get p = None"
    and put_get: "get p = Some (v, r) \<Longrightarrow> p = put v @ r"
begin

lemma get_put_small: "v < 256 ^ width \<Longrightarrow> get (put v @ r) = Some (v, r)"
  by (simp add: get_put)

lemma put_inj: "v < 256 ^ width \<Longrightarrow> v' < 256 ^ width \<Longrightarrow> put v = put v' \<Longrightarrow> v = v'"
  using get_put_small [of v "[]"] get_put_small [of v' "[]"] by simp

lemma get_iff: "get p = Some (v, r) \<Longrightarrow> r = drop width p \<and> width \<le> length p \<and> v < 256 ^ width"
  using get_Some [of p] get_None [of p] by (cases "width \<le> length p") auto

end

section \<open>The four widths\<close>

lemma of_char_char_of: "of_char (char_of n :: char) = (n mod 256 :: nat)"
  by simp

lemma get16_put16: "get16bit (put16bit v @ r) = Some (v mod 2 ^ 16, r)"
  using mod_mult2_eq [of v 256 256] by (simp add: put16bit_def)

lemma get32_put32: "get32bit (put32bit v @ r) = Some (v mod 2 ^ 32, r)"
  using mod_mult2_eq [of v 256 16777216] mod_mult2_eq [of "v div 256" 256 65536] mod_mult2_eq [of "v div 65536" 256 256]
  by (simp add: put32bit_def div_mult2_eq [symmetric])

lemma put64_split: "put64bit v = put32bit (v div 2 ^ 32) @ put32bit v"
  by (simp add: put64bit_def put32bit_def div_mult2_eq [symmetric])

lemma get64_put64: "get64bit (put64bit v @ r) = Some (v mod 2 ^ 64, r)"
  using get32_put32 [of "v div 2 ^ 32" "put32bit v @ r"] get32_put32 [of v r] mod_mult2_eq [of v "2 ^ 32" "2 ^ 32"]
  by (simp add: get64bit_def put64_split)

lemma of_char_less: "(of_char c :: nat) < 256"
  by simp

text \<open>What was got is what would be put.\<close>

lemma char_of_sum: "char_of (of_char d + 256 * x :: nat) = (d :: char)" "(of_char d + 256 * x) div 256 = (x :: nat)"
proof -
  have d: "of_char d < (256 :: nat)" by (rule of_char_less)
  then show "(of_char d + 256 * x) div 256 = x" by simp
  have "of_char (char_of (of_char d + 256 * x :: nat) :: char) = (of_char d :: nat)" by simp
  then show "char_of (of_char d + 256 * x :: nat) = d" by (simp only: of_char_eq_iff)
qed

lemma put8_get8: "get8bit p = Some (v, r) \<Longrightarrow> p = put8bit v @ r"
  by (cases p rule: get8bit.cases) (auto simp: put8bit_def)

lemma put16_get16: "get16bit p = Some (v, r) \<Longrightarrow> p = put16bit v @ r"
  using char_of_sum [of _ "of_char _"] by (cases p rule: get16bit.cases) (auto simp: put16bit_def)

lemma put32_get32: "get32bit p = Some (v, r) \<Longrightarrow> p = put32bit v @ r"
proof (cases p rule: get32bit.cases)
  case (1 a b c d r')
  let ?a = "of_char a :: nat" let ?b = "of_char b + 256 * ?a" let ?c = "of_char c + 256 * ?b" let ?d = "of_char d + 256 * ?c"
  have v: "?d div 2 ^ 8 = ?c" "?d div 2 ^ 16 = ?b" "?d div 2 ^ 24 = ?a"
    using char_of_sum(2) [of d ?c] char_of_sum(2) [of c ?b] char_of_sum(2) [of b ?a]
      div_mult2_eq [of ?d 256 256] div_mult2_eq [of ?d 65536 256] by simp_all
  assume "get32bit p = Some (v, r)"
  then have "v = ?d" "r = r'" using 1 by simp_all
  then show ?thesis
    unfolding put32bit_def \<open>v = ?d\<close> v using 1 by (simp only: char_of_sum(1) char_of_char append.simps)
qed simp_all

lemma put64_get64: "get64bit p = Some (v, r) \<Longrightarrow> p = put64bit v @ r"
proof -
  assume "get64bit p = Some (v, r)"
  then obtain hi q lo where g: "get32bit p = Some (hi, q)" "get32bit q = Some (lo, r)" "v = hi * 2 ^ 32 + lo"
    by (auto simp: get64bit_def split: bind_splits)
  have "lo < 2 ^ 32"
  proof (cases q rule: get32bit.cases)
    case (1 a b c d r)
    have "of_char d + (256 * of_char c + (65536 * of_char b + 16777216 * of_char a)) < (4294967296 :: nat)"
      using of_char_less [of a] of_char_less [of b] of_char_less [of c] of_char_less [of d] by linarith
    then show ?thesis using 1 g(2) by auto
  qed (use g(2) in simp_all)
  then have "v div 2 ^ 32 = hi" "v mod 2 ^ 32 = lo" using g(3) by simp_all
  moreover have "put32bit v = put32bit (v mod 2 ^ 32)"
    using put32_get32 [OF get32_put32 [of v "[]"]] unfolding append_Nil2 .
  ultimately show ?thesis using put32_get32 [OF g(1)] put32_get32 [OF g(2)] by (simp add: put64_split)
qed

interpretation f8: field put8bit get8bit 1
proof
  fix p :: bytes
  show "1 \<le> length p \<Longrightarrow> \<exists>v. get8bit p = Some (v, drop 1 p) \<and> v < 256 ^ 1"
    by (cases p rule: get8bit.cases) (simp_all add: of_char_less)
  show "length p < 1 \<Longrightarrow> get8bit p = None" by simp
qed (simp_all add: put8_get8, simp_all add: put8bit_def)

interpretation f16: field put16bit get16bit 2
proof
  fix p :: bytes
  show "2 \<le> length p \<Longrightarrow> \<exists>v. get16bit p = Some (v, drop 2 p) \<and> v < 256 ^ 2"
  proof (cases p rule: get16bit.cases)
    case (1 a b r)
    have "of_char b + 256 * of_char a < (65536 :: nat)" using of_char_less [of a] of_char_less [of b] by linarith
    then show ?thesis using 1 by simp
  qed simp_all
  show "length p < 2 \<Longrightarrow> get16bit p = None" by (cases p rule: get16bit.cases) simp_all
qed (simp_all add: get16_put16 put16_get16, simp add: put16bit_def)

interpretation f32: field put32bit get32bit 4
proof
  fix p :: bytes
  show "4 \<le> length p \<Longrightarrow> \<exists>v. get32bit p = Some (v, drop 4 p) \<and> v < 256 ^ 4"
  proof (cases p rule: get32bit.cases)
    case (1 a b c d r)
    have "of_char d + (256 * of_char c + (65536 * of_char b + 16777216 * of_char a)) < (4294967296 :: nat)"
      using of_char_less [of a] of_char_less [of b] of_char_less [of c] of_char_less [of d] by linarith
    then show ?thesis using 1 by simp
  qed simp_all
  show "length p < 4 \<Longrightarrow> get32bit p = None" by (cases p rule: get32bit.cases) simp_all
qed (simp_all add: get32_put32 put32_get32, simp add: put32bit_def)

interpretation f64: field put64bit get64bit 8
proof
  fix p :: bytes
  show "8 \<le> length p \<Longrightarrow> \<exists>v. get64bit p = Some (v, drop 8 p) \<and> v < 256 ^ 8"
  proof -
    assume "8 \<le> length p"
    then obtain hi where "get32bit p = Some (hi, drop 4 p)" "hi < 256 ^ 4" using f32.get_Some [of p] by auto
    moreover obtain lo where "get32bit (drop 4 p) = Some (lo, drop 4 (drop 4 p))" "lo < 256 ^ 4"
      using f32.get_Some [of "drop 4 p"] \<open>8 \<le> length p\<close> by fastforce
    ultimately show ?thesis by (simp add: get64bit_def)
  qed
  show "length p < 8 \<Longrightarrow> get64bit p = None"
  proof -
    assume "length p < 8"
    then show ?thesis
      using f32.get_None [of p] f32.get_None [of "drop 4 p"] f32.get_Some [of p]
      by (cases "length p < 4") (auto simp: get64bit_def)
  qed
qed (simp_all add: get64_put64 put64_get64, simp add: put64bit_def)

lemmas length_put = f8.length_put f16.length_put f32.length_put f64.length_put

end
