(* ===== verification/Net.thy ===== *)
theory Net
  imports DataPack
begin

text \<open>
  The socket calls of the MooseFS client. The servers are a parameter: whether they accept a connection, and what
  they answer to what is written on one. An answer arrives in segments that a \<open>read\<close> takes one at
  a time, in whole or in part; an empty segment, or none, reads as end of file.
\<close>

type_synonym addr = "nat \<times> nat"
  \<comment> \<open>IPv4 address and port\<close>

record conn =
  cn_addr :: addr
  cn_segs :: "bytes list"

record 'w peers =
  accepts :: "addr \<Rightarrow> 'w \<Rightarrow> bool \<times> 'w"
  hears :: "int \<Rightarrow> addr \<Rightarrow> bytes \<Rightarrow> 'w \<Rightarrow> int \<times> bytes list \<times> 'w"

text \<open>The state: the servers, the open sockets, the descriptors \<open>socket\<close> will return, the clock and the
  contents of fresh memory.\<close>

record 'w net =
  nt_world :: 'w
  nt_conn :: "int \<Rightarrow> conn option"
  nt_fds :: "int list"
  nt_time :: int
  nt_heap :: "nat \<Rightarrow> char"

definition sys_socket :: "'w net \<Rightarrow> int \<times> 'w net" where
  "sys_socket n = (case nt_fds n of [] \<Rightarrow> (-1, n) | fd # fds \<Rightarrow> (fd, n\<lparr>nt_fds := fds\<rparr>))"

definition sys_connect :: "'w peers \<Rightarrow> int \<Rightarrow> addr \<Rightarrow> 'w net \<Rightarrow> int \<times> 'w net" where
  "sys_connect P fd a n =
     (let (ok, w) = accepts P a (nt_world n); n = n\<lparr>nt_world := w\<rparr>
      in if ok then (0, n\<lparr>nt_conn := (nt_conn n)(fd := Some \<lparr>cn_addr = a, cn_segs = []\<rparr>)\<rparr>) else (-1, n))"

definition sys_write :: "'w peers \<Rightarrow> int \<Rightarrow> bytes \<Rightarrow> 'w net \<Rightarrow> int \<times> 'w net" where
  "sys_write P fd b n =
     (case nt_conn n fd of
        None \<Rightarrow> (-1, n)
      | Some c \<Rightarrow>
          let (ret, segs, w) = hears P fd (cn_addr c) b (nt_world n)
          in (ret, n\<lparr>nt_world := w, nt_conn := (nt_conn n)(fd := Some (c\<lparr>cn_segs := cn_segs c @ segs\<rparr>))\<rparr>))"

definition sys_read :: "int \<Rightarrow> nat \<Rightarrow> 'w net \<Rightarrow> int \<times> bytes \<times> 'w net" where
  "sys_read fd k n =
     (case nt_conn n fd of
        None \<Rightarrow> (-1, [], n)
      | Some c \<Rightarrow>
          (case cn_segs c of
             [] \<Rightarrow> (0, [], n)
           | s # ss \<Rightarrow>
               (int (min k (length s)), take k s,
                n\<lparr>nt_conn := (nt_conn n)(fd := Some (c\<lparr>cn_segs := (if length s \<le> k then ss else drop k s # ss)\<rparr>))\<rparr>)))"

definition sys_close :: "int \<Rightarrow> 'w net \<Rightarrow> 'w net" where
  "sys_close fd n = n\<lparr>nt_conn := (nt_conn n)(fd := None)\<rparr>"

definition sys_sleep :: "int \<Rightarrow> 'w net \<Rightarrow> 'w net" where
  "sys_sleep t n = n\<lparr>nt_time := nt_time n + t\<rparr>"

section \<open>What is still to be read\<close>

text \<open>Only the order of the bytes on a connection matters to its reader, as long as no segment is empty.\<close>

definition inbox :: "int \<Rightarrow> 'w net \<Rightarrow> bytes" where
  "inbox fd n = (case nt_conn n fd of None \<Rightarrow> [] | Some c \<Rightarrow> concat (cn_segs c))"

definition live :: "int \<Rightarrow> 'w net \<Rightarrow> bool" where
  "live fd n \<longleftrightarrow> (case nt_conn n fd of None \<Rightarrow> False | Some c \<Rightarrow> [] \<notin> set (cn_segs c))"

text \<open>Two states of the network that differ only in what is still to be read on one connection.\<close>

definition same_but :: "int \<Rightarrow> 'w net \<Rightarrow> 'w net \<Rightarrow> bool" where
  "same_but fd n n' \<longleftrightarrow>
     (\<forall>fd'. fd' \<noteq> fd \<longrightarrow> nt_conn n' fd' = nt_conn n fd')
     \<and> map_option cn_addr (nt_conn n' fd) = map_option cn_addr (nt_conn n fd)
     \<and> nt_world n' = nt_world n \<and> nt_fds n' = nt_fds n \<and> nt_time n' = nt_time n \<and> nt_heap n' = nt_heap n"

lemma same_but_refl: "same_but fd n n"
  by (simp add: same_but_def)

lemma same_but_trans: "same_but fd n n' \<Longrightarrow> same_but fd n' n'' \<Longrightarrow> same_but fd n n''"
  by (simp add: same_but_def)

lemma sys_read_pos: "sys_read fd k n = (i, d, n') \<Longrightarrow> 0 < i \<Longrightarrow> d \<noteq> []"
  by (auto simp: sys_read_def split: option.splits list.splits)

lemma sys_read_live:
  assumes "live fd n" "0 < k" "sys_read fd k n = (i, d, n')"
  shows "i = int (length d) \<and> length d \<le> k \<and> inbox fd n = d @ inbox fd n' \<and> live fd n' \<and> same_but fd n n'
    \<and> (d = [] \<longrightarrow> inbox fd n = [])"
proof (cases "nt_conn n fd")
  case (Some c)
  then show ?thesis
    using assms by (cases "cn_segs c") (auto simp: sys_read_def live_def inbox_def same_but_def split: if_splits)
qed (use assms in \<open>simp add: live_def\<close>)

end
