(* ===== verification/Moose.thy ===== *)
theory Moose
  imports Net CString
begin

text \<open>
  The metadata half of \<open>src/src/mooseclient/moose.cc\<close>: framing of the MooseFS protocol and the operations of
  \<open>MasterServer\<close>. Results are options: \<open>None\<close> when a call does not return, touches memory outside a
  buffer or fails an assertion, whose macro stops the program with a trap (\<open>NDEBUG\<close> is not set in the build files). Output parameters are part of the result, and the caller that passed a
  null pointer ignores them.
\<close>

definition ASSERT :: "bool \<Rightarrow> unit option" where
  "ASSERT x = (if x then Some () else None)"

lemma ASSERT_bind [simp]: "ASSERT x \<bind> f = (if x then f () else None)"
  by (simp add: ASSERT_def)

section \<open>Constants of the protocol\<close>

definition STATUS_OK :: int where "STATUS_OK = 0"
definition ERROR_ENOENT :: int where "ERROR_ENOENT = 3"
definition ERROR_EEXIST :: int where "ERROR_EEXIST = 5"
definition ERROR_IO :: int where "ERROR_IO = 22"
definition MFS_ROOT_ID :: nat where "MFS_ROOT_ID = 1"
definition ANTOAN_NOP :: nat where "ANTOAN_NOP = 0"
definition CUTOMA_FUSE_REGISTER :: nat where "CUTOMA_FUSE_REGISTER = 400"
definition MATOCU_FUSE_REGISTER :: nat where "MATOCU_FUSE_REGISTER = 401"
definition CUTOMA_FUSE_ACCESS :: nat where "CUTOMA_FUSE_ACCESS = 404"
definition MATOCU_FUSE_ACCESS :: nat where "MATOCU_FUSE_ACCESS = 405"
definition CUTOMA_FUSE_LOOKUP :: nat where "CUTOMA_FUSE_LOOKUP = 406"
definition MATOCU_FUSE_LOOKUP :: nat where "MATOCU_FUSE_LOOKUP = 407"
definition CUTOMA_FUSE_GETATTR :: nat where "CUTOMA_FUSE_GETATTR = 408"
definition MATOCU_FUSE_GETATTR :: nat where "MATOCU_FUSE_GETATTR = 409"
definition CUTOMA_FUSE_MKNOD :: nat where "CUTOMA_FUSE_MKNOD = 416"
definition MATOCU_FUSE_MKNOD :: nat where "MATOCU_FUSE_MKNOD = 417"
definition CUTOMA_FUSE_MKDIR :: nat where "CUTOMA_FUSE_MKDIR = 418"
definition MATOCU_FUSE_MKDIR :: nat where "MATOCU_FUSE_MKDIR = 419"
definition CUTOMA_FUSE_UNLINK :: nat where "CUTOMA_FUSE_UNLINK = 420"
definition MATOCU_FUSE_UNLINK :: nat where "MATOCU_FUSE_UNLINK = 421"
definition CUTOMA_FUSE_RMDIR :: nat where "CUTOMA_FUSE_RMDIR = 422"
definition MATOCU_FUSE_RMDIR :: nat where "MATOCU_FUSE_RMDIR = 423"
definition CUTOMA_FUSE_OPEN :: nat where "CUTOMA_FUSE_OPEN = 430"
definition MATOCU_FUSE_OPEN :: nat where "MATOCU_FUSE_OPEN = 431"
definition CUTOMA_FUSE_READ_CHUNK :: nat where "CUTOMA_FUSE_READ_CHUNK = 432"
definition MATOCU_FUSE_READ_CHUNK :: nat where "MATOCU_FUSE_READ_CHUNK = 433"
definition CUTOMA_FUSE_WRITE_CHUNK :: nat where "CUTOMA_FUSE_WRITE_CHUNK = 434"
definition MATOCU_FUSE_WRITE_CHUNK :: nat where "MATOCU_FUSE_WRITE_CHUNK = 435"
definition CUTOMA_FUSE_WRITE_CHUNK_END :: nat where "CUTOMA_FUSE_WRITE_CHUNK_END = 436"
definition MATOCU_FUSE_WRITE_CHUNK_END :: nat where "MATOCU_FUSE_WRITE_CHUNK_END = 437"
definition CUTOMA_FUSE_TRUNCATE :: nat where "CUTOMA_FUSE_TRUNCATE = 464"
definition MATOCU_FUSE_TRUNCATE :: nat where "MATOCU_FUSE_TRUNCATE = 465"
definition CUTOMA_INFO :: nat where "CUTOMA_INFO = 510"
definition TYPE_FILE :: char where "TYPE_FILE = CHR ''f''"
definition REGISTER_NEWSESSION :: nat where "REGISTER_NEWSESSION = 2"
definition REGISTER_RECONNECT :: nat where "REGISTER_RECONNECT = 3"

definition FUSE_REGISTER_BLOB_ACL :: bytes where
  "FUSE_REGISTER_BLOB_ACL = ''DjI1GAQDULI5d2YjA26ypc3ovkhjvhciTQVx3CS4nYgtBoUcsljiVpsErJENHaw0''"

section \<open>Buffers and frames\<close>

text \<open>The allocated memory and the part of it that holds a message.\<close>

record Buffer =
  bf_mem :: bytes
  bf_used :: nat

definition Buffer0 :: Buffer where
  "Buffer0 = \<lparr>bf_mem = [], bf_used = 0\<rparr>"

definition Alloca :: "(nat \<Rightarrow> char) \<Rightarrow> nat \<Rightarrow> Buffer \<Rightarrow> Buffer" where
  "Alloca h len b = (if length (bf_mem b) < len then b\<lparr>bf_mem := map h [0..<len]\<rparr> else b)"

text \<open>Bytes stored at a position inside the memory, and a message written from its start.\<close>

definition store_at :: "nat \<Rightarrow> bytes \<Rightarrow> Buffer \<Rightarrow> Buffer" where
  "store_at off d b = b\<lparr>bf_mem := take off (bf_mem b) @ d @ drop (off + length d) (bf_mem b)\<rparr>"

definition put_all_fields :: "bytes \<Rightarrow> Buffer \<Rightarrow> Buffer option" where
  "put_all_fields d b = (if length d \<le> length (bf_mem b) then Some (store_at 0 d b) else None)"

definition set_used :: "nat \<Rightarrow> Buffer \<Rightarrow> Buffer" where
  "set_used k b = b\<lparr>bf_used := k\<rparr>"

function tcptoread :: "int \<Rightarrow> nat \<Rightarrow> bytes \<Rightarrow> 'w net \<Rightarrow> int \<times> bytes \<times> 'w net" where
  "tcptoread sock leng rcvd n =
     (if length rcvd < leng then
        let (i, d, n') = sys_read sock (leng - length rcvd) n in
        if i \<le> 0 then (i, rcvd, n') else tcptoread sock leng (rcvd @ d) n'
      else (int (length rcvd), rcvd, n))"
  by pat_completeness auto
termination
proof (relation "measure (\<lambda>(_, leng, rcvd, _). leng - length rcvd)", simp)
  fix sock leng and rcvd :: bytes and n n' :: "'w net" and x i y d
  assume "length rcvd < leng" "x = sys_read sock (leng - length rcvd) n" "(i, y) = x" "(d, n') = y" "\<not> i \<le> 0"
  then have "d \<noteq> []" using sys_read_pos [of sock "leng - length rcvd" n i d n'] by auto
  then show "((sock, leng, rcvd @ d, n'), sock, leng, rcvd, n) \<in> measure (\<lambda>(_, leng, rcvd, _). leng - length rcvd)"
    using \<open>length rcvd < leng\<close> by (cases d) auto
qed

declare tcptoread.simps [simp del]

text \<open>
  \<open>ReadCommand\<close>: the loop skips idle messages; a server that sends nothing else keeps it from returning.
  The result is the return value, command and length, and the buffer.
\<close>

partial_function (option) read_header ::
  "int \<Rightarrow> Buffer \<Rightarrow> 'w net \<Rightarrow> ((nat \<times> nat) option \<times> Buffer \<times> 'w net) option" where
  "read_header fd input n =
     (let (ret, d, n) = tcptoread fd 8 [] n; input = store_at 0 d input in
      if ret \<le> 0 then Some (None, input, n)
      else if 8 \<noteq> ret then Some (None, input, n)
      else do {
        (cmd, mem) \<leftarrow> get32bit (bf_mem input);
        (len, _) \<leftarrow> get32bit mem;
        if cmd = ANTOAN_NOP then do {
          ASSERT (len = 4);
          let (ret, d, n) = tcptoread fd 4 [] n;
          ASSERT (ret = 4);
          read_header fd (store_at 0 d input) n
        }
        else Some (Some (cmd, len), input, n)
      })"

definition ReadCommand :: "int \<Rightarrow> Buffer \<Rightarrow> 'w net \<Rightarrow> ((nat \<times> nat) option \<times> Buffer \<times> 'w net) option" where
  "ReadCommand fd input n = do {
     (hd, input, n) \<leftarrow> read_header fd (Alloca (nt_heap n) 8 input) n;
     case hd of
       None \<Rightarrow> Some (None, input, n)
     | Some (cmd, len) \<Rightarrow>
         if 64 * 1024 * 1024 < len then Some (None, input, n)
         else
           let input = Alloca (nt_heap n) (8 + len) input;
               (ret, d, n) = tcptoread fd len [] n;
               input = store_at 8 d input
           in Some (if ret = int len then Some (cmd, len) else None, input, n)
   }"

definition BuildCommand :: "(nat \<Rightarrow> char) \<Rightarrow> nat \<Rightarrow> nat \<Rightarrow> nat \<Rightarrow> Buffer \<times> bytes" where
  "BuildCommand h cmd len session =
     (Alloca h (8 + 4 + len) Buffer0, put32bit cmd @ put32bit (4 + len) @ put32bit session)"

text \<open>The rest of a request: the fields after the frame header, and \<open>used\<close> set to the end.\<close>

definition finish :: "Buffer \<times> bytes \<Rightarrow> bytes \<Rightarrow> Buffer option" where
  "finish bw body = (case bw of (b, w) \<Rightarrow> do {
     b \<leftarrow> put_all_fields (w @ body) b;
     Some (set_used (length (w @ body)) b)
   })"

section \<open>The connection to the master\<close>

record MasterServer =
  ms_socket :: int
  ms_session :: nat
  ms_uid :: int
  ms_gid :: int
  ms_auto :: bool
  ms_host :: "addr option"

definition MasterServer_new :: MasterServer where
  "MasterServer_new = \<lparr>ms_socket = 0, ms_session = 0, ms_uid = 0, ms_gid = 0, ms_auto = True, ms_host = None\<rparr>"

text \<open>A connection to a chunk server.\<close>

record ChunkServer =
  cs_socket :: int
  cs_ip :: nat
  cs_port :: nat

text \<open>The client: the master, the network, \<open>last_registered_\<close> and the cached connections.\<close>

record 'w client =
  cl_master :: MasterServer
  cl_net :: "'w net"
  cl_registered :: int
  cl_cache :: "nat \<Rightarrow> ChunkServer option"

definition set_net :: "'w net \<Rightarrow> 'w client \<Rightarrow> 'w client" where
  "set_net n c = c\<lparr>cl_net := n\<rparr>"

definition register_fields :: "nat \<Rightarrow> bytes" where
  "register_fields session =
     (let info = ''/libmoose/mount'' @ [NUL]; subfolder = ''/'' @ [NUL];
          ileng = length info; pleng = length subfolder
      in put32bit CUTOMA_FUSE_REGISTER
         @ (if session = 0 then put32bit (64 + 13 + ileng + pleng) else put32bit (64 + 1 + 4 + 4))
         @ FUSE_REGISTER_BLOB_ACL
         @ (if session = 0 then put8bit REGISTER_NEWSESSION else put8bit REGISTER_RECONNECT @ put32bit session)
         @ put16bit 1 @ put8bit 1 @ put8bit 1
         @ (if session = 0 then put32bit ileng @ info @ put32bit pleng @ subfolder else []))"

definition BuildRegister :: "(nat \<Rightarrow> char) \<Rightarrow> nat \<Rightarrow> Buffer option" where
  "BuildRegister h session = do {
     b \<leftarrow> put_all_fields (register_fields session) (Alloca h (8 + 64 + 13 + 16 + 2) Buffer0);
     Some (set_used (length (register_fields session)) b)
   }"

definition BuildQueryInfo :: "(nat \<Rightarrow> char) \<Rightarrow> Buffer option" where
  "BuildQueryInfo h = do {
     b \<leftarrow> put_all_fields (put32bit CUTOMA_INFO @ put32bit 0) (Alloca h 8 Buffer0);
     Some (set_used 8 b)
   }"

definition GotRegister :: "bytes \<Rightarrow> MasterServer \<Rightarrow> MasterServer option" where
  "GotRegister payload m = do {
     (sid, _) \<leftarrow> get32bit payload;
     if ms_session m = 0 then Some (m\<lparr>ms_session := sid\<rparr>) else do { ASSERT (sid = ms_session m); Some m }
   }"

definition Connect :: "'w peers \<Rightarrow> addr \<Rightarrow> bool \<Rightarrow> 'w client \<Rightarrow> (bool \<times> 'w client) option" where
  "Connect P a remember c = do {
     ASSERT (0 = ms_socket (cl_master c));
     let (sock, n) = sys_socket (cl_net c);
     ASSERT (0 < sock);
     if sock < 0 then Some (False, set_net n c)
     else do {
       let (ret, n) = sys_connect P sock a n;
       ASSERT (ret = 0);
       if ret < 0 then Some (False, set_net (sys_close sock n) c)
       else do {
         buf \<leftarrow> BuildRegister (nt_heap n) (ms_session (cl_master c));
         let (ret, n) = sys_write P sock (take (bf_used buf) (bf_mem buf)) n;
         ASSERT (ret = int (bf_used buf));
         if ret = 0 then Some (False, set_net (sys_close sock n) c)
         else do {
           (ok, buf, n) \<leftarrow> ReadCommand sock buf n;
           case ok of
             None \<Rightarrow> Some (False, set_net (sys_close sock n) c)
           | Some (cmd, _) \<Rightarrow> do {
               ASSERT (cmd = MATOCU_FUSE_REGISTER);
               m \<leftarrow> GotRegister (drop 8 (bf_mem buf)) (cl_master c);
               ASSERT (ms_session m \<noteq> 0);
               Some (True, set_net n c\<lparr>cl_master := m\<lparr>ms_host := (if remember then Some a else ms_host m), ms_socket := sock\<rparr>\<rparr>)
             }
         }
       }
     }
   }"

text \<open>\<open>EnsureConnect\<close>: the loop starts with \<open>retry\<close> at 10 and returns its final value.\<close>

fun reconnect :: "'w peers \<Rightarrow> addr \<Rightarrow> nat \<Rightarrow> 'w client \<Rightarrow> (int \<times> 'w client) option" where
  "reconnect P a retry c = do {
     (f, c) \<leftarrow> Connect P a False c;
     if f then Some (int retry, c)
     else let c = set_net (sys_sleep 1 (cl_net c)) c in
       case retry of 0 \<Rightarrow> Some (-1, c) | Suc retry \<Rightarrow> reconnect P a retry c
   }"

declare reconnect.simps [simp del]

definition EnsureConnect :: "'w peers \<Rightarrow> 'w client \<Rightarrow> 'w client option" where
  "EnsureConnect P c =
     (if ms_socket (cl_master c) \<noteq> 0 then Some c
      else case ms_host (cl_master c) of
        None \<Rightarrow> Some c
      | Some a \<Rightarrow>
          if \<not> ms_auto (cl_master c) then Some c
          else do {
            (retry, c) \<leftarrow> reconnect P a 10 c;
            Some (if retry \<noteq> 10 then c\<lparr>cl_registered := nt_time (cl_net c)\<rparr> else c)
          })"

definition Disconnect :: "'w client \<Rightarrow> 'w client" where
  "Disconnect c =
     (if ms_socket (cl_master c) \<noteq> 0
      then set_net (sys_close (ms_socket (cl_master c)) (cl_net c)) c\<lparr>cl_master := (cl_master c)\<lparr>ms_socket := 0\<rparr>\<rparr>
      else c)"

text \<open>
  The retry loop of \<open>SendAndReceive\<close>. A retry sends the buffer again, into which the failed
  \<open>ReadCommand\<close> may have read.
\<close>

fun exchange ::
  "'w peers \<Rightarrow> nat \<Rightarrow> Buffer \<Rightarrow> 'w client \<Rightarrow> ((nat \<times> nat) option \<times> Buffer \<times> 'w client) option" where
  "exchange P retry buf c =
     (let (ret, n) = sys_write P (ms_socket (cl_master c)) (take (bf_used buf) (bf_mem buf)) (cl_net c);
          c = set_net n c
      in do {
        (ok, buf, c) \<leftarrow> (if ret = 0 then Some (None, buf, c)
                        else do {
                          ASSERT (ret = int (bf_used buf));
                          (ok, buf, n) \<leftarrow> ReadCommand (ms_socket (cl_master c)) buf (cl_net c);
                          Some (ok, buf, set_net n c)
                        });
        if ok \<noteq> None then Some (ok, buf, c)
        else do {
          c \<leftarrow> EnsureConnect P (Disconnect c);
          case retry of 0 \<Rightarrow> Some (None, buf, c) | Suc retry \<Rightarrow> exchange P retry buf c
        }
      })"

declare exchange.simps [simp del]

text \<open>The answer is the memory from the read pointer on and the number of payload bytes, or a null pointer.\<close>

definition SendAndReceive :: "'w peers \<Rightarrow> Buffer \<Rightarrow> nat \<Rightarrow> 'w client \<Rightarrow> ((bytes \<times> int) option \<times> 'w client) option" where
  "SendAndReceive P buf expect_cmd c = do {
     c \<leftarrow> EnsureConnect P c;
     ASSERT (0 < bf_used buf);
     (ok, buf, c) \<leftarrow> exchange P 3 buf c;
     case ok of
       None \<Rightarrow> Some (None, c)
     | Some (cmd, len) \<Rightarrow>
         if cmd = expect_cmd then do {
           (packet_id, rptr) \<leftarrow> get32bit (drop 8 (bf_mem buf));
           ASSERT (packet_id = ms_session (cl_master c));
           Some (Some (rptr, wrap32 (int len - 4)), c)
         }
         else Some (None, c)
   }"

section \<open>Operations of the master\<close>

text \<open>The attributes of a file as they come over the wire.\<close>

type_synonym FileAttribute = bytes

text \<open>Requests start from an empty buffer. The name is preceded by its length in one byte.\<close>

definition name_field :: "string \<Rightarrow> bytes" where
  "name_field name = put8bit (length (c_str name)) @ c_str name"

definition request_header :: "nat \<Rightarrow> nat \<Rightarrow> 'w client \<Rightarrow> Buffer \<times> bytes" where
  "request_header cmd len c = BuildCommand (nt_heap (cl_net c)) cmd len (ms_session (cl_master c))"

abbreviation uid_field :: "'w client \<Rightarrow> bytes" where
  "uid_field c \<equiv> put32bit (to_u32 (ms_uid (cl_master c))) @ put32bit (to_u32 (ms_gid (cl_master c)))"

definition Lookup_request :: "nat \<Rightarrow> string \<Rightarrow> 'w client \<Rightarrow> Buffer option" where
  "Lookup_request par name c =
     finish (request_header CUTOMA_FUSE_LOOKUP (13 + length (c_str name)) c)
       (put32bit par @ name_field name @ uid_field c)"

definition Lookup :: "'w peers \<Rightarrow> nat \<Rightarrow> string \<Rightarrow> 'w client \<Rightarrow> ((int \<times> (nat \<times> FileAttribute) option) \<times> 'w client) option" where
  "Lookup P par name c = do {
     buf \<leftarrow> Lookup_request par name c;
     (r, c) \<leftarrow> SendAndReceive P buf MATOCU_FUSE_LOOKUP c;
     case r of
       None \<Rightarrow> Some ((ERROR_IO, None), c)
     | Some (rptr, len) \<Rightarrow>
         if len = 1 then do { (st, _) \<leftarrow> get8bit rptr; Some ((int st, None), c) }
         else if len = 39 then do {
           (t, rptr) \<leftarrow> get32bit rptr;
           Some ((STATUS_OK, Some (t, take 35 rptr)), c)
         }
         else Some ((ERROR_IO, None), Disconnect c)
   }"

text \<open>The lookup of a path, over the pieces between its slashes; empty pieces are passed over.\<close>

fun lookup_pieces ::
  "'w peers \<Rightarrow> string list \<Rightarrow> nat \<Rightarrow> FileAttribute \<Rightarrow> 'w client \<Rightarrow> ((int \<times> (nat \<times> FileAttribute) option) \<times> 'w client) option" where
  "lookup_pieces P [] inode attr c = Some ((STATUS_OK, Some (inode, attr)), c)"
| "lookup_pieces P (copy # rest) inode attr c =
     (if copy = [] then lookup_pieces P rest inode attr c
      else do {
        ((ret, out), c) \<leftarrow> Lookup P inode copy c;
        if ret \<noteq> STATUS_OK then Some ((ret, None), c)
        else (case out of
                Some (inode, attr) \<Rightarrow> lookup_pieces P rest inode attr c
              | None \<Rightarrow> lookup_pieces P rest inode attr c)
      })"

definition Lookup_path :: "'w peers \<Rightarrow> string \<Rightarrow> 'w client \<Rightarrow> ((int \<times> (nat \<times> FileAttribute) option) \<times> 'w client) option" where
  "Lookup_path P name c = lookup_pieces P (split_any {CHR ''/''} (c_str name)) MFS_ROOT_ID (replicate 35 NUL) c"

definition GetAttr :: "'w peers \<Rightarrow> nat \<Rightarrow> 'w client \<Rightarrow> ((int \<times> FileAttribute option) \<times> 'w client) option" where
  "GetAttr P inode c = do {
     buf \<leftarrow> finish (request_header CUTOMA_FUSE_GETATTR 12 c) (put32bit inode @ uid_field c);
     (r, c) \<leftarrow> SendAndReceive P buf MATOCU_FUSE_GETATTR c;
     case r of
       None \<Rightarrow> Some ((ERROR_IO, None), c)
     | Some (rptr, len) \<Rightarrow>
         if len = 1 then do { (st, _) \<leftarrow> get8bit rptr; Some ((int st, None), c) }
         else if len \<noteq> 35 then Some ((ERROR_IO, None), Disconnect c)
         else Some ((STATUS_OK, Some (take 35 rptr)), c)
   }"

text \<open>\<open>Truncate\<close> returns the truth value of the comparison with \<open>STATUS_OK\<close>, not the status.\<close>

definition Truncate ::
  "'w peers \<Rightarrow> nat \<Rightarrow> nat \<Rightarrow> nat \<Rightarrow> bool \<Rightarrow> 'w client \<Rightarrow> ((int \<times> FileAttribute option) \<times> 'w client) option" where
  "Truncate P inode opened attrlength attr c = do {
     buf \<leftarrow> finish (request_header CUTOMA_FUSE_TRUNCATE 21 c)
       (put32bit inode @ put8bit opened @ uid_field c @ put64bit attrlength);
     (r, c) \<leftarrow> SendAndReceive P buf MATOCU_FUSE_TRUNCATE c;
     case r of
       None \<Rightarrow> Some ((ERROR_IO, None), c)
     | Some (rptr, len) \<Rightarrow>
         if len = 1 then do { (st, _) \<leftarrow> get8bit rptr; Some ((if int st = STATUS_OK then 1 else 0, None), c) }
         else if len = 35 \<and> attr then Some ((STATUS_OK, Some (take 35 rptr)), c)
         else Some ((ERROR_IO, None), Disconnect c)
   }"

text \<open>\<open>Access\<close> builds its request without setting \<open>used\<close>.\<close>

definition Access :: "'w peers \<Rightarrow> nat \<Rightarrow> nat \<Rightarrow> 'w client \<Rightarrow> (int \<times> 'w client) option" where
  "Access P inode modemask c = do {
     buf \<leftarrow> (case request_header CUTOMA_FUSE_ACCESS 13 c of
               (b, w) \<Rightarrow> put_all_fields (w @ put32bit inode @ uid_field c @ put8bit modemask) b);
     (r, c) \<leftarrow> SendAndReceive P buf MATOCU_FUSE_ACCESS c;
     case r of
       None \<Rightarrow> Some (ERROR_IO, c)
     | Some (rptr, len) \<Rightarrow>
         if len \<noteq> 1 then Some (ERROR_IO, c)
         else do { (st, _) \<leftarrow> get8bit rptr; Some (int st, c) }
   }"

definition Open :: "'w peers \<Rightarrow> nat \<Rightarrow> nat \<Rightarrow> bool \<Rightarrow> 'w client \<Rightarrow> ((int \<times> FileAttribute option) \<times> 'w client) option" where
  "Open P inode oflags attr c = do {
     buf \<leftarrow> finish (request_header CUTOMA_FUSE_OPEN 13 c) (put32bit inode @ uid_field c @ put8bit oflags);
     (r, c) \<leftarrow> SendAndReceive P buf MATOCU_FUSE_OPEN c;
     case r of
       None \<Rightarrow> Some ((ERROR_IO, None), c)
     | Some (rptr, len) \<Rightarrow>
         if len = 1 then do { (st, _) \<leftarrow> get8bit rptr; Some ((int st, None), c) }
         else if len = 35 \<and> attr then Some ((STATUS_OK, Some (take 35 rptr)), c)
         else Some ((ERROR_IO, None), Disconnect c)
   }"

text \<open>Operations that create a node answer with its inode and attributes.\<close>

definition Mknod_request :: "nat \<Rightarrow> string \<Rightarrow> nat \<Rightarrow> nat \<Rightarrow> nat \<Rightarrow> 'w client \<Rightarrow> Buffer option" where
  "Mknod_request par name type mode rdev c =
     finish (request_header CUTOMA_FUSE_MKNOD (20 + length (c_str name)) c)
       (put32bit par @ name_field name @ put8bit type @ put16bit mode @ uid_field c @ put32bit rdev)"

definition Mknod ::
  "'w peers \<Rightarrow> nat \<Rightarrow> string \<Rightarrow> nat \<Rightarrow> nat \<Rightarrow> nat \<Rightarrow> 'w client \<Rightarrow> ((int \<times> (nat \<times> FileAttribute) option) \<times> 'w client) option" where
  "Mknod P par name type mode rdev c = do {
     buf \<leftarrow> Mknod_request par name type mode rdev c;
     (r, c) \<leftarrow> SendAndReceive P buf MATOCU_FUSE_MKNOD c;
     case r of
       None \<Rightarrow> Some ((ERROR_IO, None), c)
     | Some (rptr, len) \<Rightarrow>
         if len = 1 then do { (st, _) \<leftarrow> get8bit rptr; Some ((int st, None), c) }
         else if len \<noteq> 39 then Some ((ERROR_IO, None), c)
         else do {
           (t, rptr) \<leftarrow> get32bit rptr;
           Some ((STATUS_OK, Some (t, take 35 rptr)), c)
         }
   }"

definition Mkdir_request :: "nat \<Rightarrow> string \<Rightarrow> nat \<Rightarrow> 'w client \<Rightarrow> Buffer option" where
  "Mkdir_request par name mode c =
     finish (request_header CUTOMA_FUSE_MKDIR (15 + length (c_str name)) c)
       (put32bit par @ name_field name @ put16bit mode @ uid_field c)"

definition Mkdir ::
  "'w peers \<Rightarrow> nat \<Rightarrow> string \<Rightarrow> nat \<Rightarrow> 'w client \<Rightarrow> ((int \<times> (nat \<times> FileAttribute) option) \<times> 'w client) option" where
  "Mkdir P par name mode c = do {
     buf \<leftarrow> Mkdir_request par name mode c;
     (r, c) \<leftarrow> SendAndReceive P buf MATOCU_FUSE_MKDIR c;
     case r of
       None \<Rightarrow> Some ((ERROR_IO, None), c)
     | Some (rptr, len) \<Rightarrow>
         if len = 1 then do { (st, _) \<leftarrow> get8bit rptr; Some ((int st, None), c) }
         else if len \<noteq> 39 then Some ((ERROR_IO, None), Disconnect c)
         else do {
           (t, rptr) \<leftarrow> get32bit rptr;
           Some ((STATUS_OK, Some (t, take 35 rptr)), c)
         }
   }"

text \<open>\<open>Rmdir\<close> and \<open>Unlink\<close> differ in their commands only.\<close>

definition Remove_request :: "nat \<Rightarrow> nat \<Rightarrow> string \<Rightarrow> 'w client \<Rightarrow> Buffer option" where
  "Remove_request cmd par name c =
     finish (request_header cmd (13 + length (c_str name)) c) (put32bit par @ name_field name @ uid_field c)"

definition Rmdir :: "'w peers \<Rightarrow> nat \<Rightarrow> string \<Rightarrow> 'w client \<Rightarrow> (int \<times> 'w client) option" where
  "Rmdir P par name c = do {
     buf \<leftarrow> Remove_request CUTOMA_FUSE_RMDIR par name c;
     (r, c) \<leftarrow> SendAndReceive P buf MATOCU_FUSE_RMDIR c;
     case r of
       None \<Rightarrow> Some (ERROR_IO, c)
     | Some (rptr, len) \<Rightarrow>
         if len = 1 then do { (st, _) \<leftarrow> get8bit rptr; Some (int st, c) }
         else Some (ERROR_IO, Disconnect c)
   }"

definition Unlink :: "'w peers \<Rightarrow> nat \<Rightarrow> string \<Rightarrow> 'w client \<Rightarrow> (int \<times> 'w client) option" where
  "Unlink P par name c = do {
     buf \<leftarrow> Remove_request CUTOMA_FUSE_UNLINK par name c;
     (r, c) \<leftarrow> SendAndReceive P buf MATOCU_FUSE_UNLINK c;
     case r of
       None \<Rightarrow> Some (ERROR_IO, c)
     | Some (rptr, len) \<Rightarrow>
         if len = 1 then do { (st, _) \<leftarrow> get8bit rptr; Some (int st, c) }
         else Some (ERROR_IO, Disconnect c)
   }"

definition Master_Create :: "'w peers \<Rightarrow> nat \<Rightarrow> string \<Rightarrow> nat \<Rightarrow> 'w client \<Rightarrow> ((int \<times> nat option) \<times> 'w client) option" where
  "Master_Create P par name mode c = do {
     ((ret, out), c) \<leftarrow> Mknod P par name (of_char TYPE_FILE) (mode mod 4096) 0 c;
     Some ((ret, map_option fst out), c)
   }"

section \<open>Chunks\<close>

record Location =
  lo_ip :: nat
  lo_port :: nat

record Chunk =
  ch_id :: nat
  ch_version :: nat
  ch_location :: "Location list"

text \<open>The loop over the locations of a chunk; \<open>left\<close> may end below zero.\<close>

function read_locations :: "int \<Rightarrow> bytes \<Rightarrow> Location list \<Rightarrow> Location list option" where
  "read_locations left rptr locs =
     (if 0 < left then do {
        (ip, rptr) \<leftarrow> get32bit rptr;
        (port, rptr) \<leftarrow> get16bit rptr;
        read_locations (left - 6) rptr (locs @ [\<lparr>lo_ip = ip, lo_port = port\<rparr>])
      }
      else Some locs)"
  by pat_completeness auto
termination
  by (relation "measure (\<lambda>(left, _, _). nat left)") auto

declare read_locations.simps [simp del]

definition chunk_reply :: "bytes \<Rightarrow> int \<Rightarrow> (nat \<times> Chunk) option" where
  "chunk_reply rptr len = do {
     (file_length, rptr) \<leftarrow> get64bit rptr;
     (cid, rptr) \<leftarrow> get64bit rptr;
     (ver, rptr) \<leftarrow> get32bit rptr;
     locs \<leftarrow> read_locations (len - 8 - 8 - 4) rptr [];
     Some (file_length, \<lparr>ch_id = cid, ch_version = ver, ch_location = locs\<rparr>)
   }"

definition ReadChunk :: "'w peers \<Rightarrow> nat \<Rightarrow> nat \<Rightarrow> 'w client \<Rightarrow> ((int \<times> (nat \<times> Chunk) option) \<times> 'w client) option" where
  "ReadChunk P inode indx c = do {
     buf \<leftarrow> finish (request_header CUTOMA_FUSE_READ_CHUNK 8 c) (put32bit inode @ put32bit indx);
     (r, c) \<leftarrow> SendAndReceive P buf MATOCU_FUSE_READ_CHUNK c;
     case r of
       None \<Rightarrow> Some ((ERROR_IO, None), c)
     | Some (rptr, len) \<Rightarrow>
         if len = 1 then do { (st, _) \<leftarrow> get8bit rptr; Some ((int st, None), c) }
         else do { fc \<leftarrow> chunk_reply rptr len; Some ((STATUS_OK, Some fc), c) }
   }"

definition WriteChunk :: "'w peers \<Rightarrow> nat \<Rightarrow> nat \<Rightarrow> 'w client \<Rightarrow> ((int \<times> (nat \<times> Chunk) option) \<times> 'w client) option" where
  "WriteChunk P inode indx c = do {
     buf \<leftarrow> finish (request_header CUTOMA_FUSE_WRITE_CHUNK 8 c) (put32bit inode @ put32bit indx);
     (r, c) \<leftarrow> SendAndReceive P buf MATOCU_FUSE_WRITE_CHUNK c;
     case r of
       None \<Rightarrow> Some ((ERROR_IO, None), c)
     | Some (rptr, len) \<Rightarrow>
         if len = 1 then do { (st, _) \<leftarrow> get8bit rptr; Some ((int st, None), c) }
         else if len < 20 \<or> (len - 20) mod 6 \<noteq> 0 then Some ((ERROR_IO, None), Disconnect c)
         else do { fc \<leftarrow> chunk_reply rptr len; Some ((STATUS_OK, Some fc), c) }
   }"

definition WriteChunkEnd :: "'w peers \<Rightarrow> nat \<Rightarrow> nat \<Rightarrow> nat \<Rightarrow> 'w client \<Rightarrow> (int \<times> 'w client) option" where
  "WriteChunkEnd P chunkid inode len c = do {
     buf \<leftarrow> finish (request_header CUTOMA_FUSE_WRITE_CHUNK_END 20 c) (put64bit chunkid @ put32bit inode @ put64bit len);
     (r, c) \<leftarrow> SendAndReceive P buf MATOCU_FUSE_WRITE_CHUNK_END c;
     case r of
       None \<Rightarrow> Some (ERROR_IO, c)
     | Some (rptr, length') \<Rightarrow>
         if length' = 1 then do { (st, _) \<leftarrow> get8bit rptr; Some (int st, c) }
         else Some (ERROR_IO, c)
   }"

end
