(* ===== verification/MasterProto.thy ===== *)
theory MasterProto
  imports Moose PathOps
begin

text \<open>
  The protocol between client and master: how messages are framed on the connection, what an operation makes of
  an answer, and the lookup of paths against a directory tree.
\<close>

section \<open>Reading a connection\<close>

lemma tcptoread_live:
  assumes "live fd n" "length rcvd \<le> leng" "leng \<le> length rcvd + length (inbox fd n)"
  shows "\<exists>n'. tcptoread fd leng rcvd n = (int leng, rcvd @ take (leng - length rcvd) (inbox fd n), n')
    \<and> inbox fd n' = drop (leng - length rcvd) (inbox fd n) \<and> live fd n' \<and> same_but fd n n'"
  using assms
proof (induction "leng - length rcvd" arbitrary: rcvd n rule: less_induct)
  case less
  show ?case
  proof (cases "length rcvd < leng")
    case True
    obtain i d n1 where r: "sys_read fd (leng - length rcvd) n = (i, d, n1)" by (cases "sys_read fd (leng - length rcvd) n")
    have d: "i = int (length d)" "length d \<le> leng - length rcvd" "inbox fd n = d @ inbox fd n1" "live fd n1" "same_but fd n n1"
      "d \<noteq> []"
      using sys_read_live [OF less.prems(1) _ r] True less.prems(3) by auto
    have "leng - length (rcvd @ d) < leng - length rcvd" using d(6) True by (cases d) auto
    then obtain n' where "tcptoread fd leng (rcvd @ d) n1 = (int leng, (rcvd @ d) @ take (leng - length (rcvd @ d)) (inbox fd n1), n')"
      "inbox fd n' = drop (leng - length (rcvd @ d)) (inbox fd n1)" "live fd n'" "same_but fd n1 n'"
      using less.hyps [of "rcvd @ d" n1] d True less.prems(3) by (auto simp: le_diff_conv2)
    then show ?thesis
      using r d True same_but_trans by (subst tcptoread.simps) (auto simp: d(3))
  next
    case False
    then show ?thesis using less.prems by (subst tcptoread.simps) (auto simp: same_but_refl)
  qed
qed

lemma tcptoread_exact:
  assumes "live fd n" "inbox fd n = d @ r"
  shows "\<exists>n'. tcptoread fd (length d) [] n = (int (length d), d, n') \<and> inbox fd n' = r \<and> live fd n' \<and> same_but fd n n'"
  using tcptoread_live [of fd n "[]" "length d"] assms by simp

section \<open>Frames\<close>

definition frame :: "nat \<Rightarrow> bytes \<Rightarrow> bytes" where
  "frame cmd body = put32bit cmd @ put32bit (length body) @ body"

text \<open>An idle message: command 0 with four bytes.\<close>

definition nop :: "bytes \<Rightarrow> bytes" where
  "nop z = frame ANTOAN_NOP z"

lemma length_frame: "length (frame cmd body) = 8 + length body"
  by (simp add: frame_def length_put)

lemma store_at_0: "length d \<le> length (bf_mem b) \<Longrightarrow> take (length d) (bf_mem (store_at 0 d b)) = d"
  by (simp add: store_at_def)

lemma length_store_at: "off + length d \<le> length (bf_mem b) \<Longrightarrow> length (bf_mem (store_at off d b)) = length (bf_mem b)"
  by (simp add: store_at_def)

lemma read_header_frame:
  assumes "live fd n" "inbox fd n = concat (map nop zs) @ frame cmd body @ rest" "\<forall>z \<in> set zs. length z = 4"
    and "cmd \<noteq> ANTOAN_NOP" "cmd < 2 ^ 32" "length body < 2 ^ 32" "8 \<le> length (bf_mem b)"
  shows "\<exists>b' n'. read_header fd b n = Some (Some (cmd, length body), b', n')
    \<and> length (bf_mem b') = length (bf_mem b) \<and> bf_used b' = bf_used b \<and> drop 8 (bf_mem b') = drop 8 (bf_mem b)
    \<and> inbox fd n' = body @ rest \<and> live fd n' \<and> same_but fd n n'"
  using assms(1,2,3,7)
proof (induction zs arbitrary: n b)
  case Nil
  let ?h = "put32bit cmd @ put32bit (length body)"
  have h8: "length ?h = 8" by (simp add: length_put)
  obtain n' where n': "tcptoread fd 8 [] n = (8, ?h, n')" "inbox fd n' = body @ rest" "live fd n'" "same_but fd n n'"
    using tcptoread_exact [of fd n ?h "body @ rest"] Nil h8 by (auto simp: frame_def)
  let ?b = "store_at 0 ?h b"
  have m: "bf_mem ?b = put32bit cmd @ put32bit (length body) @ drop 8 (bf_mem b)"
    using h8 by (simp add: store_at_def)
  have "length (bf_mem ?b) = length (bf_mem b)" using Nil.prems(4) h8 by (simp add: length_store_at)
  moreover have "bf_used ?b = bf_used b" "drop 8 (bf_mem ?b) = drop 8 (bf_mem b)" using h8 by (simp_all add: store_at_def)
  moreover have "read_header fd b n = Some (Some (cmd, length body), ?b, n')"
    using assms(4,5,6)
    by (subst read_header.simps) (simp add: n'(1) m f32.get_put_small Let_def)
  ultimately show ?case using n' by blast
next
  case (Cons z zs)
  let ?h = "put32bit ANTOAN_NOP @ put32bit 4"
  let ?r = "concat (map nop zs) @ frame cmd body @ rest"
  have h8: "length ?h = 8" by (simp add: length_put)
  have z: "length z = 4" using Cons.prems(3) by simp
  obtain n1 where n1: "tcptoread fd 8 [] n = (8, ?h, n1)" "inbox fd n1 = z @ ?r" "live fd n1" "same_but fd n n1"
    using tcptoread_exact [of fd n ?h "z @ ?r"] Cons.prems(1,2) h8 z unfolding list.map concat.simps nop_def [of z] frame_def [of ANTOAN_NOP]
    by auto
  obtain n2 where n2: "tcptoread fd 4 [] n1 = (4, z, n2)" "inbox fd n2 = ?r" "live fd n2" "same_but fd n1 n2"
    using tcptoread_exact [OF n1(3,2)] z by auto
  let ?b = "store_at 0 z (store_at 0 ?h b)"
  have m: "bf_mem (store_at 0 ?h b) = put32bit ANTOAN_NOP @ put32bit 4 @ drop 8 (bf_mem b)"
    using h8 by (simp add: store_at_def)
  have lb: "length (bf_mem ?b) = length (bf_mem b)" using Cons.prems(4) h8 z by (simp add: length_store_at)
  obtain b' n' where "read_header fd ?b n2 = Some (Some (cmd, length body), b', n')"
    "length (bf_mem b') = length (bf_mem ?b)" "bf_used b' = bf_used ?b" "drop 8 (bf_mem b') = drop 8 (bf_mem ?b)" "inbox fd n' = body @ rest" "live fd n'" "same_but fd n2 n'"
    using Cons.IH [OF n2(3,2), of ?b] Cons.prems(3,4) lb by auto
  moreover have "read_header fd b n = read_header fd ?b n2"
  proof -
    have "get32bit (put32bit ANTOAN_NOP @ r) = Some (ANTOAN_NOP, r)" for r
      by (rule f32.get_put_small) (simp add: ANTOAN_NOP_def)
    then show ?thesis
      by (subst read_header.simps) (simp add: n1(1) n2(1) m f32.get_put_small Let_def)
  qed
  moreover have "bf_used ?b = bf_used b" "drop 8 (bf_mem ?b) = drop 8 (bf_mem b)" using h8 z Cons.prems(4) by (simp_all add: store_at_def)
  ultimately show ?case using lb same_but_trans [OF n1(4) same_but_trans [OF n2(4)]] by auto
qed

lemma ReadCommand_reads_frame:
  assumes "live fd n" "inbox fd n = concat (map nop zs) @ frame cmd body @ rest" "\<forall>z \<in> set zs. length z = 4"
    and "cmd \<noteq> ANTOAN_NOP" "cmd < 2 ^ 32" "length body \<le> 64 * 1024 * 1024"
  shows "\<exists>b' n'. ReadCommand fd b n = Some (Some (cmd, length body), b', n')
    \<and> take (length body) (drop 8 (bf_mem b')) = body \<and> max 8 (length (bf_mem b)) \<le> length (bf_mem b')
    \<and> 8 + length body \<le> length (bf_mem b') \<and> bf_used b' = bf_used b
    \<and> (8 + length body \<le> length (bf_mem b) \<longrightarrow> drop (8 + length body) (bf_mem b') = drop (8 + length body) (bf_mem b))
    \<and> inbox fd n' = rest \<and> live fd n' \<and> same_but fd n n'"
proof -
  let ?b = "Alloca (nt_heap n) 8 b"
  have b: "max 8 (length (bf_mem b)) = length (bf_mem ?b)" "bf_used ?b = bf_used b" by (auto simp: Alloca_def)
  obtain b1 n1 where h: "read_header fd ?b n = Some (Some (cmd, length body), b1, n1)" "length (bf_mem b1) = length (bf_mem ?b)"
    "bf_used b1 = bf_used b" "drop 8 (bf_mem b1) = drop 8 (bf_mem ?b)" "inbox fd n1 = body @ rest" "live fd n1" "same_but fd n n1"
    using read_header_frame [OF assms(1-5), of ?b] assms(6) b by force
  obtain n2 where t: "tcptoread fd (length body) [] n1 = (int (length body), body, n2)" "inbox fd n2 = rest" "live fd n2" "same_but fd n1 n2"
    using tcptoread_exact [OF h(6,5)] by blast
  let ?b1 = "Alloca (nt_heap n1) (8 + length body) b1"
  have l1: "8 + length body \<le> length (bf_mem ?b1)" "length (bf_mem b1) \<le> length (bf_mem ?b1)" "bf_used ?b1 = bf_used b1"
    by (auto simp: Alloca_def)
  have "ReadCommand fd b n = Some (Some (cmd, length body), store_at 8 body ?b1, n2)"
    using assms(6) by (simp add: ReadCommand_def h(1) t(1) Let_def)
  moreover have "take (length body) (drop 8 (bf_mem (store_at 8 body ?b1))) = body" using l1(1) by (simp add: store_at_def)
  moreover have "length (bf_mem (store_at 8 body ?b1)) = length (bf_mem ?b1)" using l1(1) by (simp add: length_store_at)
  moreover have "bf_used (store_at 8 body ?b1) = bf_used b" using l1(3) h(3) by (simp add: store_at_def)
  moreover have rest: "drop (8 + length body) (bf_mem (store_at 8 body ?b1)) = drop (8 + length body) (bf_mem b)"
    if "8 + length body \<le> length (bf_mem b)"
  proof -
    have "?b = b" "?b1 = b1" using that h(2) by (simp_all add: Alloca_def)
    moreover have "drop (length body) (drop 8 (bf_mem b1)) = drop (length body) (drop 8 (bf_mem b))" using h(4) \<open>?b = b\<close> by simp
    ultimately show ?thesis using that h(2) by (simp add: store_at_def add.commute)
  qed
  ultimately show ?thesis
    using l1 b h(2) t same_but_trans [OF h(7) t(4)] rest by (intro exI [of _ "store_at 8 body ?b1"] exI [of _ n2]) simp
qed

section \<open>Requests\<close>

text \<open>A finished request is one frame that fills exactly what was allocated for it.\<close>

lemma finish_frame:
  assumes "length body = len"
  shows "\<exists>b. finish (BuildCommand h cmd len sid) body = Some b
    \<and> bf_mem b = frame cmd (put32bit sid @ body) \<and> bf_used b = length (bf_mem b)"
proof -
  let ?w = "put32bit cmd @ put32bit (4 + len) @ put32bit sid"
  have w: "length ?w = 12" by (simp add: length_put)
  have "bf_mem (Alloca h (8 + 4 + len) Buffer0) = map h [0..<12 + len]" by (simp add: Alloca_def Buffer0_def)
  then show ?thesis
    using assms w
    by (simp add: finish_def BuildCommand_def put_all_fields_def store_at_def set_used_def frame_def length_put
        del: upt_Suc upt.simps)
qed

definition request_bytes :: "Buffer \<Rightarrow> bytes" where
  "request_bytes b = take (bf_used b) (bf_mem b)"

text \<open>What the requests say on the wire.\<close>

abbreviation session :: "'w client \<Rightarrow> nat" where
  "session c \<equiv> ms_session (cl_master c)"

definition session_frame :: "nat \<Rightarrow> 'w client \<Rightarrow> bytes \<Rightarrow> bytes" where
  "session_frame cmd c body = frame cmd (put32bit (ms_session (cl_master c)) @ body)"

lemma request_frame:
  assumes "length body = len"
  shows "\<exists>b. finish (request_header cmd len c) body = Some b \<and> request_bytes b = session_frame cmd c body
    \<and> bf_used b = length (bf_mem b) \<and> 12 \<le> length (bf_mem b)"
  using finish_frame [OF assms, of "nt_heap (cl_net c)" cmd "ms_session (cl_master c)"]
  by (auto simp: request_header_def request_bytes_def session_frame_def length_frame length_put)

section \<open>Answers\<close>

text \<open>
  The master takes a request as a whole and answers it with some idle messages and one frame, in segments of any size, and changes
  its state to \<open>w'\<close>; nothing else is waiting on the connection. The number of the session has 32 bits.
\<close>

definition answers :: "'w peers \<Rightarrow> 'w client \<Rightarrow> bytes \<Rightarrow> nat \<Rightarrow> bytes \<Rightarrow> 'w \<Rightarrow> bool" where
  "answers P c req cmd body w' \<longleftrightarrow>
     (let fd = ms_socket (cl_master c); n = cl_net c in
      fd \<noteq> 0 \<and> ms_session (cl_master c) < 2 ^ 32 \<and> (\<exists>cn segs zs. nt_conn n fd = Some cn \<and> cn_segs cn = [] \<and> [] \<notin> set segs
        \<and> hears P fd (cn_addr cn) req (nt_world n) = (int (length req), segs, w')
        \<and> concat segs = concat (map nop zs) @ frame cmd body \<and> (\<forall>z \<in> set zs. length z = 4)))"

definition after :: "'w \<Rightarrow> 'w client \<Rightarrow> 'w client" where
  "after w c = set_net (cl_net c\<lparr>nt_world := w\<rparr>) c"

lemma inbox_empty: "live fd n \<Longrightarrow> inbox fd n = [] \<Longrightarrow> \<exists>cn. nt_conn n fd = Some cn \<and> cn_segs cn = []"
  by (cases "nt_conn n fd") (auto simp: live_def inbox_def, metis list.set_intros(1) neq_Nil_conv)

lemma same_but_empty:
  assumes "same_but fd n n'" "nt_conn n fd = Some cn" "nt_conn n' fd = Some cn'" "cn_segs cn' = []"
  shows "n' = n\<lparr>nt_conn := (nt_conn n)(fd := Some (cn\<lparr>cn_segs := []\<rparr>))\<rparr>"
proof -
  have "cn' = cn\<lparr>cn_segs := []\<rparr>" using assms by (cases cn; cases cn') (simp add: same_but_def)
  then have "nt_conn n' = (nt_conn n)(fd := Some (cn\<lparr>cn_segs := []\<rparr>))" using assms by (auto simp: same_but_def fun_eq_iff)
  then show ?thesis using assms(1) by (cases n; cases n') (simp add: same_but_def)
qed

lemma SendAndReceive_answer:
  assumes "answers P c (request_bytes buf) cmd (put32bit (ms_session (cl_master c)) @ body) w'" "cmd \<noteq> ANTOAN_NOP" "cmd < 2 ^ 32"
    and "4 + length body \<le> 64 * 1024 * 1024" "0 < bf_used buf" "bf_used buf = length (bf_mem buf)"
  shows "\<exists>junk. SendAndReceive P buf cmd c = Some (Some (body @ junk, int (length body)), after w' c)"
proof -
  let ?fd = "ms_socket (cl_master c)" and ?pid = "ms_session (cl_master c)" and ?body = "put32bit (ms_session (cl_master c)) @ body"
  let ?ret = "int (bf_used buf)"
  have lr: "length (request_bytes buf) = bf_used buf" using assms(6) by (simp add: request_bytes_def)
  obtain cn segs zs where fd: "?fd \<noteq> 0" and sess: "?pid < 2 ^ 32" and cn: "nt_conn (cl_net c) ?fd = Some cn" "cn_segs cn = []" "[] \<notin> set segs"
    and hr: "hears P ?fd (cn_addr cn) (request_bytes buf) (nt_world (cl_net c)) = (?ret, segs, w')"
    and segs: "concat segs = concat (map nop zs) @ frame cmd ?body @ []" "\<forall>z \<in> set zs. length z = 4"
    using assms(1) lr by (auto simp: answers_def Let_def)
  define n1 where "n1 = cl_net c\<lparr>nt_world := w', nt_conn := (nt_conn (cl_net c))(?fd := Some (cn\<lparr>cn_segs := segs\<rparr>))\<rparr>"
  have wr: "sys_write P ?fd (take (bf_used buf) (bf_mem buf)) (cl_net c) = (?ret, n1)"
    using cn hr by (simp add: sys_write_def n1_def request_bytes_def)
  have "live ?fd n1" "inbox ?fd n1 = concat (map nop zs) @ frame cmd ?body @ []"
    using cn(3) segs(1) by (simp_all add: live_def inbox_def n1_def)
  from ReadCommand_reads_frame [OF this segs(2) assms(2,3), of buf]
  obtain b' n' where rc: "ReadCommand ?fd buf n1 = Some (Some (cmd, length ?body), b', n')"
    "take (length ?body) (drop 8 (bf_mem b')) = ?body" and n': "inbox ?fd n' = []" "live ?fd n'" "same_but ?fd n1 n'"
    using assms(4) by (auto simp: length_put)
  obtain cn' where "nt_conn n' ?fd = Some cn'" "cn_segs cn' = []" using inbox_empty [OF n'(2,1)] by blast
  from same_but_empty [OF n'(3) _ this] have n1': "n' = n1\<lparr>nt_conn := (nt_conn n1)(?fd := Some (cn\<lparr>cn_segs := []\<rparr>))\<rparr>"
    by (simp add: n1_def)
  have "cn\<lparr>cn_segs := []\<rparr> = cn" using cn(2) by (cases cn) simp
  then have "(nt_conn (cl_net c))(?fd := Some (cn\<lparr>cn_segs := []\<rparr>)) = nt_conn (cl_net c)" using cn(1) by auto
  then have eq: "n' = cl_net c\<lparr>nt_world := w'\<rparr>" unfolding n1' n1_def by simp
  have m: "drop 8 (bf_mem b') = put32bit ?pid @ body @ drop (length ?body) (drop 8 (bf_mem b'))"
    using rc(2) append_take_drop_id [of "length ?body" "drop 8 (bf_mem b')"] by simp
  have ec: "EnsureConnect P c = Some c" using fd by (simp add: EnsureConnect_def)
  have ex: "exchange P 3 buf c = Some (Some (cmd, length ?body), b', after w' c)"
    using assms(5) by (subst exchange.simps) (simp add: wr set_net_def rc(1) after_def eq)
  have "get32bit (drop 8 (bf_mem b')) = Some (?pid, body @ drop (length ?body) (drop 8 (bf_mem b')))"
    by (subst m) (rule f32.get_put_small, use sess in simp)
  moreover have "wrap32 (int (length ?body) - 4) = int (length body)" using assms(4) by (simp add: length_put wrap32_id)
  moreover have "ms_session (cl_master (after w' c)) = ?pid" by (simp add: after_def set_net_def)
  ultimately show ?thesis using assms(5) by (simp add: SendAndReceive_def ec ex)
qed

end
