(* ===== verification/MasterOps.thy ===== *)
theory MasterOps
  imports MasterProto
begin

text \<open>
  What the operations of the master return for each kind of answer, the lookup of a path against a directory tree, and
  the operations that misread their answers.
\<close>

section \<open>Answers of the operations\<close>

lemma name_field_length: "length (name_field name) = 1 + length (c_str name)"
  by (simp add: name_field_def length_put)

definition status_bytes :: "nat \<Rightarrow> nat \<Rightarrow> bytes" where
  "status_bytes pid st = put32bit pid @ put8bit st"

text \<open>The bodies of the requests.\<close>

definition named_body :: "nat \<Rightarrow> string \<Rightarrow> 'w client \<Rightarrow> bytes" where
  "named_body par name c = put32bit par @ name_field name @ uid_field c"

definition mkdir_body :: "nat \<Rightarrow> string \<Rightarrow> nat \<Rightarrow> 'w client \<Rightarrow> bytes" where
  "mkdir_body par name mode c = put32bit par @ name_field name @ put16bit mode @ uid_field c"

definition mknod_body :: "nat \<Rightarrow> string \<Rightarrow> nat \<Rightarrow> nat \<Rightarrow> nat \<Rightarrow> 'w client \<Rightarrow> bytes" where
  "mknod_body par name type mode rdev c =
     put32bit par @ name_field name @ put8bit type @ put16bit mode @ uid_field c @ put32bit rdev"

definition open_body :: "nat \<Rightarrow> nat \<Rightarrow> 'w client \<Rightarrow> bytes" where
  "open_body inode oflags c = put32bit inode @ uid_field c @ put8bit oflags"

definition truncate_body :: "nat \<Rightarrow> nat \<Rightarrow> nat \<Rightarrow> 'w client \<Rightarrow> bytes" where
  "truncate_body inode opened len c = put32bit inode @ put8bit opened @ uid_field c @ put64bit len"

lemmas bodies = named_body_def mkdir_body_def mknod_body_def open_body_def truncate_body_def
lemmas commands = CUTOMA_FUSE_LOOKUP_def MATOCU_FUSE_LOOKUP_def MATOCU_FUSE_GETATTR_def MATOCU_FUSE_MKNOD_def
  MATOCU_FUSE_MKDIR_def MATOCU_FUSE_UNLINK_def MATOCU_FUSE_RMDIR_def MATOCU_FUSE_OPEN_def MATOCU_FUSE_READ_CHUNK_def
  MATOCU_FUSE_WRITE_CHUNK_def MATOCU_FUSE_WRITE_CHUNK_END_def MATOCU_FUSE_TRUNCATE_def ANTOAN_NOP_def

text \<open>
  The exchange every operation starts with: a request of the announced length is sent as one frame, and the
  operation goes on with the body of the answer.
\<close>

lemma operation:
  assumes "answers P c (session_frame cmd c body) cmd' (put32bit (session c) @ payload) w'" "length body = len"
    and "cmd' \<noteq> ANTOAN_NOP" "cmd' < 2 ^ 32" "4 + length payload \<le> 64 * 1024 * 1024"
  shows "\<exists>buf junk. finish (request_header cmd len c) body = Some buf
    \<and> SendAndReceive P buf cmd' c = Some (Some (payload @ junk, int (length payload)), after w' c)"
proof -
  obtain buf where b: "finish (request_header cmd len c) body = Some buf" "request_bytes buf = session_frame cmd c body"
      "bf_used buf = length (bf_mem buf)" "12 \<le> length (bf_mem buf)"
    using request_frame [OF assms(2)] by blast
  moreover have "\<exists>junk. SendAndReceive P buf cmd' c = Some (Some (payload @ junk, int (length payload)), after w' c)"
    using assms b(3,4) by (intro SendAndReceive_answer) (auto simp: b(2))
  ultimately show ?thesis by blast
qed

lemma operation_status:
  assumes "answers P c (session_frame cmd c body) cmd' (status_bytes (session c) st) w'" "length body = len"
    and "cmd' \<noteq> ANTOAN_NOP" "cmd' < 2 ^ 32"
  shows "\<exists>buf junk. finish (request_header cmd len c) body = Some buf
    \<and> SendAndReceive P buf cmd' c = Some (Some (put8bit st @ junk, 1), after w' c)"
  using operation [OF assms(1) [unfolded status_bytes_def] assms(2-4)] by (simp add: length_put)

lemma Lookup_found:
  assumes "answers P c (session_frame CUTOMA_FUSE_LOOKUP c (named_body par name c)) MATOCU_FUSE_LOOKUP
      (put32bit (session c) @ put32bit i @ a) w'"
    and "i < 2 ^ 32" "length a = 35"
  shows "Lookup P par name c = Some ((STATUS_OK, Some (i, a)), after w' c)"
proof -
  obtain buf junk where "Lookup_request par name c = Some buf"
    "SendAndReceive P buf MATOCU_FUSE_LOOKUP c = Some (Some ((put32bit i @ a) @ junk, 39), after w' c)"
    using operation [OF assms(1), of "13 + length (c_str name)"] assms(3)
    by (auto simp: Lookup_request_def named_body_def name_field_length length_put commands)
  then show ?thesis using assms(2,3) by (simp add: Lookup_def f32.get_put_small)
qed

lemma Lookup_status:
  assumes "answers P c (session_frame CUTOMA_FUSE_LOOKUP c (named_body par name c)) MATOCU_FUSE_LOOKUP (status_bytes (session c) st) w'"
    and "st < 256"
  shows "Lookup P par name c = Some ((int st, None), after w' c)"
proof -
  obtain buf junk where "Lookup_request par name c = Some buf"
    "SendAndReceive P buf MATOCU_FUSE_LOOKUP c = Some (Some (put8bit st @ junk, 1), after w' c)"
    using operation_status [OF assms(1), of "13 + length (c_str name)"]
    by (auto simp: Lookup_request_def named_body_def name_field_length length_put commands)
  then show ?thesis using assms(2) by (simp add: Lookup_def f8.get_put_small)
qed

text \<open>The answer to a chunk request: length of the file, chunk, and where its copies are.\<close>

definition location_bytes :: "Location \<Rightarrow> bytes" where
  "location_bytes l = put32bit (lo_ip l) @ put16bit (lo_port l)"

definition chunk_bytes :: "nat \<Rightarrow> Chunk \<Rightarrow> bytes" where
  "chunk_bytes len ch = put64bit len @ put64bit (ch_id ch) @ put32bit (ch_version ch) @ concat (map location_bytes (ch_location ch))"

definition chunk_ok :: "Chunk \<Rightarrow> bool" where
  "chunk_ok ch \<longleftrightarrow> ch_id ch < 2 ^ 64 \<and> ch_version ch < 2 ^ 32 \<and> length (ch_location ch) < 1000000
     \<and> (\<forall>l \<in> set (ch_location ch). lo_ip l < 2 ^ 32 \<and> lo_port l < 2 ^ 16)"

lemma length_location_bytes: "length (concat (map location_bytes ls)) = 6 * length ls"
  by (induction ls) (simp_all add: location_bytes_def length_put)

lemma read_locations_bytes:
  "\<forall>l \<in> set ls. lo_ip l < 2 ^ 32 \<and> lo_port l < 2 ^ 16 \<Longrightarrow>
   read_locations (6 * int (length ls)) (concat (map location_bytes ls) @ junk) acc = Some (acc @ ls)"
proof (induction ls arbitrary: acc)
  case Nil
  then show ?case by (simp add: read_locations.simps)
next
  case (Cons l ls)
  have "read_locations (6 * int (length (l # ls))) (concat (map location_bytes (l # ls)) @ junk) acc
      = read_locations (6 * int (length ls)) (concat (map location_bytes ls) @ junk) (acc @ [l])"
    using Cons.prems
    by (cases l, subst read_locations.simps)
      (simp add: location_bytes_def [of "\<lparr>lo_ip = _, lo_port = _\<rparr>"] f32.get_put_small f16.get_put_small algebra_simps)
  then show ?case using Cons by simp
qed

lemma chunk_reply_bytes:
  assumes "chunk_ok ch" "len < 2 ^ 64"
  shows "chunk_reply (chunk_bytes len ch @ junk) (int (length (chunk_bytes len ch))) = Some (len, ch)"
proof -
  have "int (length (chunk_bytes len ch)) - 8 - 8 - 4 = 6 * int (length (ch_location ch))"
    by (simp add: chunk_bytes_def length_location_bytes length_put)
  then show ?thesis
    using assms read_locations_bytes [of "ch_location ch" junk "[]"]
    by (simp add: chunk_reply_def chunk_bytes_def chunk_ok_def f64.get_put_small f32.get_put_small)
qed

lemma chunk_bytes_small: "chunk_ok ch \<Longrightarrow> 4 + length (chunk_bytes len ch) \<le> 64 * 1024 * 1024"
  by (simp add: chunk_bytes_def chunk_ok_def length_location_bytes length_put)

section \<open>Paths\<close>

text \<open>
  The specification: the tree of the master gives the inode and attributes of a name in a directory, and a path is
  walked from the root, one non-empty piece after the other.
\<close>

type_synonym tree = "nat \<Rightarrow> string \<Rightarrow> (nat \<times> FileAttribute) option"

fun walk :: "tree \<Rightarrow> string list \<Rightarrow> nat \<times> FileAttribute \<Rightarrow> (nat \<times> FileAttribute) option" where
  "walk tr [] at = Some at"
| "walk tr (p # ps) at = (case tr (fst at) p of None \<Rightarrow> None | Some at' \<Rightarrow> walk tr ps at')"

definition pieces :: "string \<Rightarrow> string list" where
  "pieces path = filter (\<lambda>p. p \<noteq> []) (split_any {CHR ''/''} (c_str path))"

definition tree_ok :: "tree \<Rightarrow> bool" where
  "tree_ok tr \<longleftrightarrow> (\<forall>par name i a. tr par name = Some (i, a) \<longrightarrow> i < 2 ^ 32 \<and> length a = 35)"

text \<open>What the master does with a lookup: it answers from the tree and keeps its state.\<close>

definition lookup_answer :: "tree \<Rightarrow> nat \<Rightarrow> nat \<Rightarrow> string \<Rightarrow> bytes" where
  "lookup_answer tr pid par name =
     (case tr par name of None \<Rightarrow> status_bytes pid 3 | Some (i, a) \<Rightarrow> put32bit pid @ put32bit i @ a)"

definition serves_tree :: "'w peers \<Rightarrow> 'w client \<Rightarrow> tree \<Rightarrow> bool" where
  "serves_tree P c tr \<longleftrightarrow>
     (\<forall>par name. par < 2 ^ 32 \<and> NUL \<notin> set name \<and> length name \<le> 255 \<longrightarrow>
        answers P c (session_frame CUTOMA_FUSE_LOOKUP c (named_body par name c)) MATOCU_FUSE_LOOKUP
          (lookup_answer tr (session c) par name) (nt_world (cl_net c)))"

lemma after_same: "after (nt_world (cl_net c)) c = c"
  by (simp add: after_def set_net_def)

lemma Lookup_tree:
  assumes "serves_tree P c tr" "tree_ok tr" "par < 2 ^ 32" "NUL \<notin> set name" "length name \<le> 255"
  shows "Lookup P par name c
    = Some ((case tr par name of None \<Rightarrow> (ERROR_ENOENT, None) | Some r \<Rightarrow> (STATUS_OK, Some r)), c)"
proof -
  have a: "answers P c (session_frame CUTOMA_FUSE_LOOKUP c (named_body par name c)) MATOCU_FUSE_LOOKUP
      (lookup_answer tr (session c) par name) (nt_world (cl_net c))"
    using assms by (auto simp: serves_tree_def)
  show ?thesis
  proof (cases "tr par name")
    case None
    then show ?thesis using Lookup_status [of P c par name 3] a
      by (simp add: lookup_answer_def after_same ERROR_ENOENT_def)
  next
    case (Some r)
    obtain i at where r: "r = (i, at)" by (cases r)
    have "i < 2 ^ 32" "length at = 35" using assms(2) Some r unfolding tree_ok_def by blast+
    then show ?thesis using Lookup_found [of P c par name i at] a Some r
      by (simp add: lookup_answer_def after_same)
  qed
qed

lemma lookup_pieces_walk:
  assumes "serves_tree P c tr" "tree_ok tr"
  shows "inode < 2 ^ 32 \<Longrightarrow> \<forall>p \<in> set ps. NUL \<notin> set p \<and> length p \<le> 255 \<Longrightarrow>
    lookup_pieces P ps inode at c
      = Some ((case walk tr (filter (\<lambda>p. p \<noteq> []) ps) (inode, at) of None \<Rightarrow> (ERROR_ENOENT, None) | Some r \<Rightarrow> (STATUS_OK, Some r)), c)"
proof (induction ps arbitrary: inode at)
  case (Cons p ps)
  show ?case
  proof (cases "p = []")
    case False
    note look = Lookup_tree [OF assms Cons.prems(1), of p]
    show ?thesis
    proof (cases "tr inode p")
      case None
      then show ?thesis using False look Cons.prems(2) by (simp add: ERROR_ENOENT_def STATUS_OK_def)
    next
      case (Some r)
      obtain i a where r: "r = (i, a)" by (cases r)
      have "i < 2 ^ 32" using assms(2) Some r unfolding tree_ok_def by blast
      then show ?thesis using False look Cons Some r by (simp add: STATUS_OK_def)
    qed
  qed (use Cons in simp)
qed simp

section \<open>A master for examples\<close>

text \<open>It serves the lookups of a tree, byte by byte and after an idle message, and answers everything else with a
  given body.\<close>

definition tree_hears :: "tree \<Rightarrow> (nat \<Rightarrow> bytes) \<Rightarrow> bytes \<Rightarrow> bytes" where
  "tree_hears tr other b =
     (case get32bit b of
        Some (cmd, _) \<Rightarrow>
          (case get32bit (drop 8 b) of
             Some (pid, r) \<Rightarrow>
               if cmd = CUTOMA_FUSE_LOOKUP then
                 (case get32bit r of
                    Some (par, r) \<Rightarrow>
                      (case get8bit r of
                         Some (k, r) \<Rightarrow> frame MATOCU_FUSE_LOOKUP (lookup_answer tr pid par (take k r))
                       | None \<Rightarrow> [])
                  | None \<Rightarrow> [])
               else frame (cmd + 1) (put32bit pid @ other cmd)
           | None \<Rightarrow> [])
      | None \<Rightarrow> [])"

definition tree_master :: "tree \<Rightarrow> (nat \<Rightarrow> bytes) \<Rightarrow> unit peers" where
  "tree_master tr other =
     \<lparr>accepts = (\<lambda>_ w. (True, w)),
      hears = (\<lambda>_ _ b w. (int (length b), (if b = [] then [] else map (\<lambda>x. [x]) (nop ''idle'' @ tree_hears tr other b)), w))\<rparr>"

definition idle_net :: "unit net" where
  "idle_net = \<lparr>nt_world = (), nt_conn = [3 \<mapsto> \<lparr>cn_addr = (0, 9421), cn_segs = []\<rparr>], nt_fds = [], nt_time = 0, nt_heap = (\<lambda>_. NUL)\<rparr>"

definition idle_client :: "unit client" where
  "idle_client = \<lparr>cl_master = MasterServer_new\<lparr>ms_socket := 3, ms_session := 7\<rparr>, cl_net = idle_net, cl_registered = 0, cl_cache = (\<lambda>_. None)\<rparr>"

lemma idle_answers:
  assumes "req \<noteq> []" "tree_hears tr other req = frame cmd body"
  shows "answers (tree_master tr other) idle_client req cmd body ()"
proof -
  have "concat (map nop [''idle'']) @ frame cmd body = concat (map (\<lambda>x. [x]) (nop ''idle'' @ tree_hears tr other req))"
    using assms by (simp add: concat_singletons)
  then show ?thesis
    using assms(1) unfolding answers_def Let_def
    by (auto simp: idle_client_def idle_net_def tree_master_def intro!: exI [of _ "[''idle'']"])
qed

lemma session_frame_parts:
  assumes "cmd < 2 ^ 32" "session c < 2 ^ 32"
  shows "get32bit (session_frame cmd c body) = Some (cmd, drop 4 (session_frame cmd c body))"
    "get32bit (drop 8 (session_frame cmd c body)) = Some (session c, body)"
  using assms by (simp_all add: session_frame_def frame_def f32.get_put_small length_put)

lemma tree_hears_lookup:
  assumes "par < 2 ^ 32" "NUL \<notin> set name" "length name \<le> 255" "session c < 2 ^ 32"
  shows "tree_hears tr other (session_frame CUTOMA_FUSE_LOOKUP c (named_body par name c))
    = frame MATOCU_FUSE_LOOKUP (lookup_answer tr (session c) par name)"
  unfolding tree_hears_def using assms session_frame_parts [of CUTOMA_FUSE_LOOKUP c]
  by (simp add: named_body_def name_field_def f32.get_put_small f8.get_put_small CUTOMA_FUSE_LOOKUP_def)

lemma tree_hears_other:
  assumes "cmd \<noteq> CUTOMA_FUSE_LOOKUP" "cmd < 2 ^ 32" "session c < 2 ^ 32"
  shows "tree_hears tr other (session_frame cmd c body) = frame (cmd + 1) (put32bit (session c) @ other cmd)"
  unfolding tree_hears_def using assms session_frame_parts [OF assms(2,3)] by simp

lemma session_frame_not_Nil: "session_frame cmd c body \<noteq> []"
  using length_frame [of cmd] by (auto simp: session_frame_def dest: arg_cong [where f = length])

lemma idle_serves: "serves_tree (tree_master tr other) idle_client tr"
  unfolding serves_tree_def
proof (intro allI impI)
  fix par :: nat and name assume "par < 2 ^ 32 \<and> NUL \<notin> set name \<and> length name \<le> (255 :: nat)"
  then have "tree_hears tr other (session_frame CUTOMA_FUSE_LOOKUP idle_client (named_body par name idle_client))
      = frame MATOCU_FUSE_LOOKUP (lookup_answer tr (session idle_client) par name)"
    by (intro tree_hears_lookup) (auto simp: idle_client_def)
  from idle_answers [OF session_frame_not_Nil this]
  show "answers (tree_master tr other) idle_client (session_frame CUTOMA_FUSE_LOOKUP idle_client (named_body par name idle_client))
      MATOCU_FUSE_LOOKUP (lookup_answer tr (session idle_client) par name) (nt_world (cl_net idle_client))"
    by simp
qed

lemma split_any_subset: "p \<in> set (split_any seps s) \<Longrightarrow> set p \<subseteq> set s"
proof (induction s arbitrary: p)
  case (Cons c s)
  show ?case
  proof (cases "c \<in> seps")
    case False
    obtain t ts where s: "split_any seps s = t # ts" by (cases "split_any seps s") simp_all
    have "set t \<subseteq> set s" "q \<in> set ts \<Longrightarrow> set q \<subseteq> set s" for q using Cons.IH [unfolded s] by simp_all
    then show ?thesis using Cons.prems False s by auto
  qed (use Cons in auto)
qed simp

text \<open>A status byte is what each operation returns.\<close>

lemmas status_simps = f8.get_put_small name_field_length length_put commands

lemma GetAttr_status:
  "answers P c (session_frame CUTOMA_FUSE_GETATTR c (put32bit inode @ uid_field c)) MATOCU_FUSE_GETATTR (status_bytes (session c) st) w \<Longrightarrow> st < 256 \<Longrightarrow>
   GetAttr P inode c = Some ((int st, None), after w c)"
  using operation_status [of P c CUTOMA_FUSE_GETATTR "put32bit inode @ uid_field c" MATOCU_FUSE_GETATTR st w "12"]
  by (auto simp: status_simps GetAttr_def)

lemma Open_status:
  "answers P c (session_frame CUTOMA_FUSE_OPEN c (open_body inode oflags c)) MATOCU_FUSE_OPEN (status_bytes (session c) st) w \<Longrightarrow> st < 256 \<Longrightarrow>
   Open P inode oflags attr c = Some ((int st, None), after w c)"
  using operation_status [of P c CUTOMA_FUSE_OPEN "open_body inode oflags c" MATOCU_FUSE_OPEN st w "13"]
  by (auto simp: status_simps Open_def open_body_def)

lemma Mknod_status:
  "answers P c (session_frame CUTOMA_FUSE_MKNOD c (mknod_body par name type mode rdev c)) MATOCU_FUSE_MKNOD (status_bytes (session c) st) w \<Longrightarrow> st < 256 \<Longrightarrow>
   Mknod P par name type mode rdev c = Some ((int st, None), after w c)"
  using operation_status [of P c CUTOMA_FUSE_MKNOD "mknod_body par name type mode rdev c" MATOCU_FUSE_MKNOD st w "20 + length (c_str name)"]
  by (auto simp: status_simps Mknod_def Mknod_request_def mknod_body_def)

lemma Mkdir_status:
  "answers P c (session_frame CUTOMA_FUSE_MKDIR c (mkdir_body par name mode c)) MATOCU_FUSE_MKDIR (status_bytes (session c) st) w \<Longrightarrow> st < 256 \<Longrightarrow>
   Mkdir P par name mode c = Some ((int st, None), after w c)"
  using operation_status [of P c CUTOMA_FUSE_MKDIR "mkdir_body par name mode c" MATOCU_FUSE_MKDIR st w "15 + length (c_str name)"]
  by (auto simp: status_simps Mkdir_def Mkdir_request_def mkdir_body_def)

lemma Rmdir_status:
  "answers P c (session_frame CUTOMA_FUSE_RMDIR c (named_body par name c)) MATOCU_FUSE_RMDIR (status_bytes (session c) st) w \<Longrightarrow> st < 256 \<Longrightarrow>
   Rmdir P par name c = Some (int st, after w c)"
  using operation_status [of P c CUTOMA_FUSE_RMDIR "named_body par name c" MATOCU_FUSE_RMDIR st w "13 + length (c_str name)"]
  by (auto simp: status_simps Rmdir_def Remove_request_def named_body_def)

lemma Unlink_status:
  "answers P c (session_frame CUTOMA_FUSE_UNLINK c (named_body par name c)) MATOCU_FUSE_UNLINK (status_bytes (session c) st) w \<Longrightarrow> st < 256 \<Longrightarrow>
   Unlink P par name c = Some (int st, after w c)"
  using operation_status [of P c CUTOMA_FUSE_UNLINK "named_body par name c" MATOCU_FUSE_UNLINK st w "13 + length (c_str name)"]
  by (auto simp: status_simps Unlink_def Remove_request_def named_body_def)

lemma ReadChunk_status:
  "answers P c (session_frame CUTOMA_FUSE_READ_CHUNK c (put32bit inode @ put32bit indx)) MATOCU_FUSE_READ_CHUNK (status_bytes (session c) st) w \<Longrightarrow> st < 256 \<Longrightarrow>
   ReadChunk P inode indx c = Some ((int st, None), after w c)"
  using operation_status [of P c CUTOMA_FUSE_READ_CHUNK "put32bit inode @ put32bit indx" MATOCU_FUSE_READ_CHUNK st w "8"]
  by (auto simp: status_simps ReadChunk_def)

lemma WriteChunk_status:
  "answers P c (session_frame CUTOMA_FUSE_WRITE_CHUNK c (put32bit inode @ put32bit indx)) MATOCU_FUSE_WRITE_CHUNK (status_bytes (session c) st) w \<Longrightarrow> st < 256 \<Longrightarrow>
   WriteChunk P inode indx c = Some ((int st, None), after w c)"
  using operation_status [of P c CUTOMA_FUSE_WRITE_CHUNK "put32bit inode @ put32bit indx" MATOCU_FUSE_WRITE_CHUNK st w "8"]
  by (auto simp: status_simps WriteChunk_def)

lemma WriteChunkEnd_status:
  "answers P c (session_frame CUTOMA_FUSE_WRITE_CHUNK_END c (put64bit chunkid @ put32bit inode @ put64bit len)) MATOCU_FUSE_WRITE_CHUNK_END (status_bytes (session c) st) w \<Longrightarrow> st < 256 \<Longrightarrow>
   WriteChunkEnd P chunkid inode len c = Some (int st, after w c)"
  using operation_status [of P c CUTOMA_FUSE_WRITE_CHUNK_END "put64bit chunkid @ put32bit inode @ put64bit len" MATOCU_FUSE_WRITE_CHUNK_END st w "20"]
  by (auto simp: status_simps WriteChunkEnd_def)

section \<open>Properties\<close>

text \<open>
  C23: the lookup of a path refines a walk through the directory tree of the master. The client is connected with a session
  number of 32 bits and nothing waiting on the connection, and the master takes each lookup of a piece as a whole, keeps its
  state, and answers with the session number as packet id, after any idle messages and in segments of any size; no piece of the path is
  longer than 255 characters. Then no assertion fails, and \<open>Lookup\<close> returns the inode and attributes that the walk over the
  non-empty pieces of the path reaches, or \<open>ERROR_ENOENT\<close> when a piece is missing, and leaves the client as it was.
\<close>

theorem lookup_path_refines_walk:
  assumes "serves_tree P c tr" "tree_ok tr" "\<forall>p \<in> set (pieces path). length p \<le> 255"
  shows "Lookup_path P path c
    = Some ((case walk tr (pieces path) (MFS_ROOT_ID, replicate 35 NUL) of
               None \<Rightarrow> (ERROR_ENOENT, None) | Some r \<Rightarrow> (STATUS_OK, Some r)), c)"
proof -
  have "NUL \<notin> set p" if "p \<in> set (split_any {CHR ''/''} (c_str path))" for p
    using split_any_subset [OF that] c_str_no_NUL [of path] by blast
  moreover have "length p \<le> 255" if "p \<in> set (split_any {CHR ''/''} (c_str path))" for p
    using that assms(3) by (cases "p = []") (auto simp: pieces_def)
  ultimately show ?thesis
    using lookup_pieces_walk [OF assms(1,2), of MFS_ROOT_ID "split_any {CHR ''/''} (c_str path)"]
    by (simp add: Lookup_path_def pieces_def MFS_ROOT_ID_def)
qed

definition sample_tree :: tree where
  "sample_tree par name = (if par = 1 \<and> name = ''a'' then Some (2, replicate 35 (CHR ''x''))
     else if par = 2 \<and> name = ''b'' then Some (5, replicate 35 (CHR ''y'')) else None)"

theorem lookup_path_refines_walk_witness:
  "Lookup_path (tree_master sample_tree (\<lambda>_. [])) ''/a//b'' idle_client
    = Some ((STATUS_OK, Some (5, replicate 35 (CHR ''y''))), idle_client)"
proof -
  have p: "pieces ''/a//b'' = [''a'', ''b'']" by code_simp
  have "tree_ok sample_tree" by (auto simp: tree_ok_def sample_tree_def split: if_splits)
  from lookup_path_refines_walk [OF idle_serves this, of "''/a//b''"] show ?thesis
    by (simp add: p sample_tree_def MFS_ROOT_ID_def)
qed

text \<open>
  C38: when the master refuses a request with a status byte, the operation returns that status and no result, and leaves the
  connection open. This holds for \<open>GetAttr\<close>, \<open>Open\<close>, \<open>Mknod\<close>, \<open>Mkdir\<close>, \<open>Rmdir\<close>, \<open>Unlink\<close>, \<open>ReadChunk\<close>, \<open>WriteChunk\<close> and
  \<open>WriteChunkEnd\<close> (not for \<open>Truncate\<close> and \<open>Access\<close>, see below), for a connected client whose master takes the request as a whole
  and answers it with the packet id that \<open>SendAndReceive\<close> asserts, the session number, after any idle messages and in segments of any
  size.
\<close>

theorem status_is_reported:
  assumes "st < 256"
  shows "(answers P c (session_frame CUTOMA_FUSE_GETATTR c (put32bit inode @ uid_field c)) MATOCU_FUSE_GETATTR (status_bytes (session c) st) w
      \<longrightarrow> GetAttr P inode c = Some ((int st, None), after w c))
    \<and> (answers P c (session_frame CUTOMA_FUSE_OPEN c (open_body inode oflags c)) MATOCU_FUSE_OPEN (status_bytes (session c) st) w
      \<longrightarrow> Open P inode oflags attr c = Some ((int st, None), after w c))
    \<and> (answers P c (session_frame CUTOMA_FUSE_MKNOD c (mknod_body par name type mode rdev c)) MATOCU_FUSE_MKNOD (status_bytes (session c) st) w
      \<longrightarrow> Mknod P par name type mode rdev c = Some ((int st, None), after w c))
    \<and> (answers P c (session_frame CUTOMA_FUSE_MKDIR c (mkdir_body par name mode c)) MATOCU_FUSE_MKDIR (status_bytes (session c) st) w
      \<longrightarrow> Mkdir P par name mode c = Some ((int st, None), after w c))
    \<and> (answers P c (session_frame CUTOMA_FUSE_RMDIR c (named_body par name c)) MATOCU_FUSE_RMDIR (status_bytes (session c) st) w
      \<longrightarrow> Rmdir P par name c = Some (int st, after w c))
    \<and> (answers P c (session_frame CUTOMA_FUSE_UNLINK c (named_body par name c)) MATOCU_FUSE_UNLINK (status_bytes (session c) st) w
      \<longrightarrow> Unlink P par name c = Some (int st, after w c))
    \<and> (answers P c (session_frame CUTOMA_FUSE_READ_CHUNK c (put32bit inode @ put32bit indx)) MATOCU_FUSE_READ_CHUNK (status_bytes (session c) st) w
      \<longrightarrow> ReadChunk P inode indx c = Some ((int st, None), after w c))
    \<and> (answers P c (session_frame CUTOMA_FUSE_WRITE_CHUNK c (put32bit inode @ put32bit indx)) MATOCU_FUSE_WRITE_CHUNK (status_bytes (session c) st) w
      \<longrightarrow> WriteChunk P inode indx c = Some ((int st, None), after w c))
    \<and> (answers P c (session_frame CUTOMA_FUSE_WRITE_CHUNK_END c (put64bit chunkid @ put32bit inode @ put64bit len)) MATOCU_FUSE_WRITE_CHUNK_END (status_bytes (session c) st) w
      \<longrightarrow> WriteChunkEnd P chunkid inode len c = Some (int st, after w c))"
  using assms by (simp add: GetAttr_status Open_status Mknod_status Mkdir_status Rmdir_status Unlink_status ReadChunk_status WriteChunk_status WriteChunkEnd_status)

theorem status_is_reported_witness:
  "Mkdir (tree_master sample_tree (\<lambda>_. put8bit 5)) 1 ''a'' 0 idle_client = Some ((5, None), after () idle_client)"
proof -
  have "answers (tree_master sample_tree (\<lambda>_. put8bit 5)) idle_client
      (session_frame CUTOMA_FUSE_MKDIR idle_client (mkdir_body 1 ''a'' 0 idle_client)) MATOCU_FUSE_MKDIR (status_bytes (session idle_client) 5) ()"
    using tree_hears_other [of CUTOMA_FUSE_MKDIR idle_client]
    by (intro idle_answers session_frame_not_Nil) (simp add: idle_client_def status_bytes_def CUTOMA_FUSE_MKDIR_def MATOCU_FUSE_MKDIR_def CUTOMA_FUSE_LOOKUP_def)
  then show ?thesis
    using status_is_reported [of 5 "tree_master sample_tree (\<lambda>_. put8bit 5)" idle_client, where par = 1 and name = "''a''"]
    by simp
qed

text \<open>
  C24: what the master says of a new node or of a chunk arrives: \<open>Mkdir\<close> and \<open>Mknod\<close> return the inode and attributes of
  the answer, \<open>ReadChunk\<close> and \<open>WriteChunk\<close> the length of the file and the chunk with its version and every location, in
  order. The client is connected, and the master takes the request as a whole and answers it with the packet id that
  \<open>SendAndReceive\<close> asserts, the session number, after any idle messages and in segments of any size; the numbers in the answer have
  the widths of their fields, the attributes 35 bytes, and a chunk fewer than a million locations.
\<close>

theorem master_results_arrive:
  assumes "i < 2 ^ 32" "length a = 35" "chunk_ok ch" "len < 2 ^ 64"
  shows "(answers P c (session_frame CUTOMA_FUSE_MKDIR c (mkdir_body par name mode c)) MATOCU_FUSE_MKDIR
        (put32bit (session c) @ put32bit i @ a) w \<longrightarrow> Mkdir P par name mode c = Some ((STATUS_OK, Some (i, a)), after w c))
    \<and> (answers P c (session_frame CUTOMA_FUSE_MKNOD c (mknod_body par name type mode rdev c)) MATOCU_FUSE_MKNOD
        (put32bit (session c) @ put32bit i @ a) w \<longrightarrow> Mknod P par name type mode rdev c = Some ((STATUS_OK, Some (i, a)), after w c))
    \<and> (answers P c (session_frame CUTOMA_FUSE_READ_CHUNK c (put32bit inode @ put32bit indx)) MATOCU_FUSE_READ_CHUNK
        (put32bit (session c) @ chunk_bytes len ch) w \<longrightarrow> ReadChunk P inode indx c = Some ((STATUS_OK, Some (len, ch)), after w c))
    \<and> (answers P c (session_frame CUTOMA_FUSE_WRITE_CHUNK c (put32bit inode @ put32bit indx)) MATOCU_FUSE_WRITE_CHUNK
        (put32bit (session c) @ chunk_bytes len ch) w \<longrightarrow> WriteChunk P inode indx c = Some ((STATUS_OK, Some (len, ch)), after w c))"
  (is "?mkdir \<and> ?mknod \<and> ?rd \<and> ?wr")
proof -
  have l: "int (length (chunk_bytes len ch)) \<noteq> 1" "\<not> int (length (chunk_bytes len ch)) < 20"
    "(int (length (chunk_bytes len ch)) - 20) mod 6 = 0"
    by (simp_all add: chunk_bytes_def length_location_bytes length_put)
  have ?mkdir
    using operation [of P c CUTOMA_FUSE_MKDIR "mkdir_body par name mode c" MATOCU_FUSE_MKDIR "put32bit i @ a" w "15 + length (c_str name)"]
      assms(1,2)
    by (auto simp: Mkdir_def Mkdir_request_def mkdir_body_def status_simps f32.get_put_small)
  moreover have ?mknod
    using operation [of P c CUTOMA_FUSE_MKNOD "mknod_body par name type mode rdev c" MATOCU_FUSE_MKNOD "put32bit i @ a" w "20 + length (c_str name)"]
      assms(1,2)
    by (auto simp: Mknod_def Mknod_request_def mknod_body_def status_simps f32.get_put_small)
  moreover have ?rd
    using operation [of P c CUTOMA_FUSE_READ_CHUNK "put32bit inode @ put32bit indx" MATOCU_FUSE_READ_CHUNK "chunk_bytes len ch" w 8]
      chunk_reply_bytes [OF assms(3,4)] chunk_bytes_small [OF assms(3), of len] l(1)
    by (auto simp: ReadChunk_def length_put commands)
  moreover have ?wr
    using operation [of P c CUTOMA_FUSE_WRITE_CHUNK "put32bit inode @ put32bit indx" MATOCU_FUSE_WRITE_CHUNK "chunk_bytes len ch" w 8]
      chunk_reply_bytes [OF assms(3,4)] chunk_bytes_small [OF assms(3), of len] l
    by (auto simp: WriteChunk_def length_put commands)
  ultimately show ?thesis by blast
qed

definition sample_chunk :: Chunk where
  "sample_chunk = \<lparr>ch_id = 77, ch_version = 1, ch_location = [\<lparr>lo_ip = 1, lo_port = 9422\<rparr>, \<lparr>lo_ip = 2, lo_port = 9422\<rparr>]\<rparr>"

theorem master_results_arrive_witness:
  "ReadChunk (tree_master sample_tree (\<lambda>_. chunk_bytes 100 sample_chunk)) 5 0 idle_client
    = Some ((STATUS_OK, Some (100, sample_chunk)), after () idle_client)"
proof -
  have "answers (tree_master sample_tree (\<lambda>_. chunk_bytes 100 sample_chunk)) idle_client
      (session_frame CUTOMA_FUSE_READ_CHUNK idle_client (put32bit 5 @ put32bit 0)) MATOCU_FUSE_READ_CHUNK
      (put32bit (session idle_client) @ chunk_bytes 100 sample_chunk) ()"
    using tree_hears_other [of CUTOMA_FUSE_READ_CHUNK idle_client]
    by (intro idle_answers session_frame_not_Nil) (simp add: idle_client_def status_bytes_def CUTOMA_FUSE_READ_CHUNK_def MATOCU_FUSE_READ_CHUNK_def CUTOMA_FUSE_LOOKUP_def)
  moreover have "chunk_ok sample_chunk" by (simp add: chunk_ok_def sample_chunk_def)
  ultimately show ?thesis
    using master_results_arrive [of 0 "replicate 35 NUL" sample_chunk 100
        "tree_master sample_tree (\<lambda>_. chunk_bytes 100 sample_chunk)" idle_client, where inode = 5 and indx = 0]
    by simp
qed

text \<open>
  \<open>Truncate\<close> returns the truth value of the comparison instead of the status: when the master refuses to
  truncate a file, the caller is told that it was truncated.
\<close>

theorem refused_truncate_succeeds:
  assumes "answers P c (session_frame CUTOMA_FUSE_TRUNCATE c (truncate_body inode opened len c)) MATOCU_FUSE_TRUNCATE
      (status_bytes (session c) st) w" "st < 256" "int st \<noteq> STATUS_OK"
  shows "Truncate P inode opened len attr c = Some ((STATUS_OK, None), after w c)"
  using operation_status [of P c CUTOMA_FUSE_TRUNCATE "truncate_body inode opened len c" MATOCU_FUSE_TRUNCATE st w 21] assms
  by (auto simp: Truncate_def truncate_body_def status_simps STATUS_OK_def)

theorem refused_truncate_succeeds_witness:
  "Truncate (tree_master sample_tree (\<lambda>_. put8bit 1)) 5 0 100 True idle_client = Some ((STATUS_OK, None), after () idle_client)"
proof (rule refused_truncate_succeeds)
  show "answers (tree_master sample_tree (\<lambda>_. put8bit 1)) idle_client
      (session_frame CUTOMA_FUSE_TRUNCATE idle_client (truncate_body 5 0 100 idle_client)) MATOCU_FUSE_TRUNCATE (status_bytes (session idle_client) 1) ()"
    using tree_hears_other [of CUTOMA_FUSE_TRUNCATE idle_client]
    by (intro idle_answers session_frame_not_Nil) (simp add: idle_client_def status_bytes_def CUTOMA_FUSE_TRUNCATE_def MATOCU_FUSE_TRUNCATE_def CUTOMA_FUSE_LOOKUP_def)
qed (simp_all add: STATUS_OK_def)

text \<open>
  \<open>Access\<close> never asks the master anything: it does not set the length of its request, which the assertion in
  \<open>SendAndReceive\<close> finds. Without assertions zero bytes would be written, and every attempt would count as failed.
\<close>

theorem access_always_fails: "Access P inode modemask c = None"
proof -
  obtain b w where h: "request_header CUTOMA_FUSE_ACCESS 13 c = (b, w)" by fastforce
  then have "bf_used b = 0" by (auto simp: request_header_def BuildCommand_def Alloca_def Buffer0_def split: if_splits)
  then have "bf_used (store_at 0 (w @ put32bit inode @ uid_field c @ put8bit modemask) b) = 0" by (simp add: store_at_def)
  moreover have "SendAndReceive P buf MATOCU_FUSE_ACCESS c = None" if "bf_used buf = 0" for buf
    using that by (cases "EnsureConnect P c") (simp_all add: SendAndReceive_def)
  ultimately show ?thesis by (simp add: Access_def h put_all_fields_def)
qed

section \<open>Messages and registration\<close>

text \<open>
  \<open>ReadCommand\<close> takes exactly one message off the connection, whatever idle messages come before it and however the
  bytes are cut into segments: it returns its command and length, leaves its body in the buffer behind the
  eight bytes of the header, and what follows on the connection stays there for the next call.
\<close>

theorem one_message_at_a_time:
  assumes "live fd n" "inbox fd n = concat (map nop zs) @ frame cmd body @ rest" "\<forall>z \<in> set zs. length z = 4"
    and "cmd \<noteq> ANTOAN_NOP" "cmd < 2 ^ 32" "length body \<le> 64 * 1024 * 1024"
  shows "\<exists>b' n'. ReadCommand fd b n = Some (Some (cmd, length body), b', n')
    \<and> take (length body) (drop 8 (bf_mem b')) = body \<and> inbox fd n' = rest \<and> live fd n'
    \<and> (\<forall>fd'. fd' \<noteq> fd \<longrightarrow> inbox fd' n' = inbox fd' n)"
proof -
  obtain b' n' where r: "ReadCommand fd b n = Some (Some (cmd, length body), b', n')"
    "take (length body) (drop 8 (bf_mem b')) = body" "inbox fd n' = rest" "live fd n'" "same_but fd n n'"
    using ReadCommand_reads_frame [OF assms, of b] by blast
  have "inbox fd' n' = inbox fd' n" if "fd' \<noteq> fd" for fd' using r(5) that by (simp add: inbox_def same_but_def)
  then show ?thesis using r by blast
qed

definition busy_net :: "unit net" where
  "busy_net = idle_net\<lparr>nt_conn := [3 \<mapsto> \<lparr>cn_addr = (0, 9421),
     cn_segs = map (\<lambda>x. [x]) (nop ''idle'' @ frame 407 ''abc'' @ frame 405 ''d'')\<rparr>]\<rparr>"

theorem one_message_at_a_time_witness:
  "\<exists>b' n'. ReadCommand 3 Buffer0 busy_net = Some (Some (407, 3), b', n')
    \<and> take 3 (drop 8 (bf_mem b')) = ''abc'' \<and> inbox 3 n' = frame 405 ''d''"
proof -
  have "inbox 3 busy_net = concat (map nop [''idle'']) @ frame 407 ''abc'' @ frame 405 ''d''"
    by (simp add: inbox_def busy_net_def concat_singletons)
  moreover have "live 3 busy_net" by (auto simp: live_def busy_net_def)
  moreover have "length ''abc'' = 3" by simp
  ultimately show ?thesis
    using one_message_at_a_time [of 3 busy_net "[''idle'']" 407 "''abc''" "frame 405 ''d''" Buffer0]
    unfolding \<open>length ''abc'' = 3\<close> by (auto simp: ANTOAN_NOP_def)
qed

lemma length_register_fields: "length (register_fields sid) \<le> 103 \<and> 12 \<le> length (register_fields sid)"
proof -
  have "length FUSE_REGISTER_BLOB_ACL = 64" by code_simp
  then show ?thesis by (simp add: register_fields_def length_put Let_def)
qed

lemma BuildRegister_buffer:
  "\<exists>b. BuildRegister h sid = Some b \<and> request_bytes b = register_fields sid \<and> length (bf_mem b) = 103
    \<and> bf_used b = length (register_fields sid)"
proof -
  have m: "length (bf_mem (Alloca h (8 + 64 + 13 + 16 + 2) Buffer0)) = 103" by (simp add: Alloca_def Buffer0_def)
  then show ?thesis
    using length_register_fields [of sid]
    by (simp add: BuildRegister_def put_all_fields_def set_used_def request_bytes_def store_at_def)
qed

lemma register_text: "take 3 (drop 9 (register_fields 0)) = ''jI1''"
  by (simp add: register_fields_def length_put FUSE_REGISTER_BLOB_ACL_def Let_def)

text \<open>
  A master that refuses to register the client answers with one status byte, but \<open>Connect\<close> never looks at the length of
  the answer: it reports success, keeps the connection, and takes for the session number the status byte and three bytes of its own
  request that are left over in the buffer.
\<close>

theorem refused_registration_connects:
  assumes "ms_socket (cl_master c) = 0" "session c = 0" "st < 256"
    and "nt_fds (cl_net c) = sock # fds" "0 < sock" "accepts P a (nt_world (cl_net c)) = (True, w)"
    and "hears P sock a (register_fields 0) w = (int (length (register_fields 0)), segs, w')" "[] \<notin> set segs"
    and "concat segs = frame MATOCU_FUSE_REGISTER (put8bit st)"
  shows "\<exists>c'. Connect P a remember c = Some (True, c') \<and> ms_socket (cl_master c') = sock
    \<and> session c' = st * 2 ^ 24 + of_char (CHR ''j'') * 2 ^ 16 + of_char (CHR ''I'') * 2 ^ 8 + of_char (CHR ''1'')"
proof -
  define n1 where "n1 = cl_net c\<lparr>nt_fds := fds, nt_world := w, nt_conn := (nt_conn (cl_net c))(sock \<mapsto> \<lparr>cn_addr = a, cn_segs = []\<rparr>)\<rparr>"
  define n2 where "n2 = n1\<lparr>nt_world := w', nt_conn := (nt_conn n1)(sock \<mapsto> \<lparr>cn_addr = a, cn_segs = segs\<rparr>)\<rparr>"
  let ?req = "register_fields 0"
  have so: "sys_socket (cl_net c) = (sock, cl_net c\<lparr>nt_fds := fds\<rparr>)" using assms(4) by (simp add: sys_socket_def)
  have co: "sys_connect P sock a (cl_net c\<lparr>nt_fds := fds\<rparr>) = (0, n1)" using assms(6) by (simp add: sys_connect_def n1_def)
  obtain b where b: "BuildRegister (nt_heap n1) 0 = Some b" "request_bytes b = ?req" "length (bf_mem b) = 103"
      "bf_used b = length ?req"
    using BuildRegister_buffer by metis
  have wr: "sys_write P sock (take (bf_used b) (bf_mem b)) n1 = (int (length ?req), n2)"
    using assms(7) b(2) by (simp add: sys_write_def n1_def n2_def request_bytes_def)
  have "live sock n2" "inbox sock n2 = concat (map nop []) @ frame MATOCU_FUSE_REGISTER (put8bit st) @ []"
    using assms(8,9) by (simp_all add: live_def inbox_def n2_def)
  then obtain b' n3 where rc: "ReadCommand sock b n2 = Some (Some (MATOCU_FUSE_REGISTER, length (put8bit st)), b', n3)"
    and m: "take 1 (drop 8 (bf_mem b')) = put8bit st" "drop 9 (bf_mem b') = drop 9 (bf_mem b)"
    using ReadCommand_reads_frame [of sock n2 "[]" MATOCU_FUSE_REGISTER "put8bit st" "[]" b] b(3)
    by (auto simp: MATOCU_FUSE_REGISTER_def ANTOAN_NOP_def length_put)
  have "take 3 (drop 9 (request_bytes b)) = take 3 (drop 9 (bf_mem b))"
    using length_register_fields [of 0] by (auto simp: request_bytes_def b(4) drop_take min_def)
  then have "take 3 (drop 9 (bf_mem b)) = ''jI1''" using b(2) register_text by simp
  then have t: "drop 9 (bf_mem b') = ''jI1'' @ drop 12 (bf_mem b)"
    using m(2) append_take_drop_id [of 3 "drop 9 (bf_mem b)"] by simp
  have "drop 8 (bf_mem b') = put8bit st @ drop 9 (bf_mem b')"
    using m(1) append_take_drop_id [of 1 "drop 8 (bf_mem b')"] by simp
  then have "drop 8 (bf_mem b') = (put8bit st @ ''jI1'') @ drop 12 (bf_mem b)" using t by simp
  then obtain r where "get32bit (drop 8 (bf_mem b'))
      = Some (st * 2 ^ 24 + of_char (CHR ''j'') * 2 ^ 16 + of_char (CHR ''I'') * 2 ^ 8 + of_char (CHR ''1''), r)"
    using assms(3) by (simp add: put8bit_def)
  moreover have "?req \<noteq> []" using length_register_fields [of 0] by auto
  ultimately show ?thesis
    using assms(1,2,5) by (simp add: Connect_def so co b(1,4) wr [unfolded b(4)] rc GotRegister_def set_net_def)
qed

definition strict_master :: "unit peers" where
  "strict_master = \<lparr>accepts = (\<lambda>_ w. (True, w)), hears = (\<lambda>_ _ b w. (int (length b), [frame 401 (put8bit 9)], w))\<rparr>"

theorem refused_registration_connects_witness:
  "\<exists>c'. Connect strict_master (0, 9421) True (idle_client\<lparr>cl_net := idle_net\<lparr>nt_fds := [4]\<rparr>, cl_master := MasterServer_new\<rparr>) = Some (True, c')
    \<and> ms_socket (cl_master c') = 4 \<and> session c' = 9 * 2 ^ 24 + of_char (CHR ''j'') * 2 ^ 16 + of_char (CHR ''I'') * 2 ^ 8 + of_char (CHR ''1'')"
proof (rule refused_registration_connects)
  have "frame 401 (put8bit 9) \<noteq> []" by (simp add: frame_def put8bit_def)
  then show "[] \<notin> set [frame 401 (put8bit 9)]" by simp
qed (simp_all add: idle_client_def idle_net_def strict_master_def MasterServer_new_def MATOCU_FUSE_REGISTER_def)

end
