(* ===== verification/MooseFile.thy ===== *)
theory MooseFile
  imports Moose
begin

text \<open>
  The data half of \<open>src/src/mooseclient/moose.cc\<close>: file attributes, chunk servers, the cache of their connections and
  the \<open>File\<close> class. The checksum routine of \<open>boost\<close> is the parameter \<open>crc\<close>.
\<close>

section \<open>Attributes\<close>

record stat =
  st_ino :: nat
  st_mode :: nat
  st_nlink :: nat
  st_uid :: nat
  st_gid :: nat
  st_rdev :: nat
  st_size :: nat
  st_blksize :: nat
  st_blocks :: nat
  st_atime :: nat
  st_mtime :: nat
  st_ctime :: nat

text \<open>The file types of the protocol and the mode bits they stand for (disjoint from the permission bits).\<close>

definition S_IF :: "char \<Rightarrow> nat option" where
  "S_IF t =
     (if t = CHR ''d'' then Some 0x4000 else if t = CHR ''l'' then Some 0xA000 else if t = CHR ''f'' then Some 0x8000
      else if t = CHR ''q'' then Some 0x1000 else if t = CHR ''s'' then Some 0xC000
      else if t = CHR ''b'' then Some 0x6000 else if t = CHR ''c'' then Some 0x2000 else None)"

definition u64 :: "nat \<Rightarrow> nat" where
  "u64 n = n mod 2 ^ 64"

definition mfs_attr_to_stat :: "nat \<Rightarrow> FileAttribute \<Rightarrow> stat \<Rightarrow> stat option" where
  "mfs_attr_to_stat inode attr stbuf = do {
     (attrtype, ptr) \<leftarrow> get8bit attr;
     (attrmode, ptr) \<leftarrow> get16bit ptr;
     (attruid, ptr) \<leftarrow> get32bit ptr;
     (attrgid, ptr) \<leftarrow> get32bit ptr;
     (attratime, ptr) \<leftarrow> get32bit ptr;
     (attrmtime, ptr) \<leftarrow> get32bit ptr;
     (attrctime, ptr) \<leftarrow> get32bit ptr;
     (attrnlink, ptr) \<leftarrow> get32bit ptr;
     stbuf \<leftarrow> (let stbuf = stbuf\<lparr>st_ino := inode, st_blksize := 0x10000\<rparr>; t = char_of attrtype in
       case S_IF t of
         None \<Rightarrow> Some (stbuf\<lparr>st_mode := 0\<rparr>)
       | Some kind \<Rightarrow>
           let stbuf = stbuf\<lparr>st_mode := kind + attrmode mod 0x1000\<rparr> in
           if t \<in> {CHR ''d'', CHR ''l'', CHR ''f''} then do {
             (attrlength, _) \<leftarrow> get64bit ptr;
             Some (stbuf\<lparr>st_size := attrlength, st_blocks := u64 (attrlength + 511) div 512\<rparr>)
           }
           else if t \<in> {CHR ''b'', CHR ''c''} then do {
             (attrrdev, _) \<leftarrow> get32bit ptr;
             Some (stbuf\<lparr>st_rdev := attrrdev, st_size := 0, st_blocks := 0\<rparr>)
           }
           else Some (stbuf\<lparr>st_size := 0, st_blocks := 0\<rparr>));
     Some (stbuf\<lparr>st_uid := attruid, st_gid := attrgid, st_atime := attratime, st_mtime := attrmtime,
                 st_ctime := attrctime, st_nlink := attrnlink\<rparr>)
   }"

text \<open>\<open>to_stat\<close> does not pass its inode on.\<close>

definition to_stat :: "nat \<Rightarrow> FileAttribute \<Rightarrow> stat \<Rightarrow> stat option" where
  "to_stat inode attr stbuf = mfs_attr_to_stat 0 attr stbuf"

text \<open>The size that \<open>FileAttribute::size\<close> finds in a local \<open>stat\<close>; for an unknown type it was never set.\<close>

definition FileAttribute_size :: "FileAttribute \<Rightarrow> nat option" where
  "FileAttribute_size attr =
     (if attr \<noteq> [] \<and> S_IF (attr ! 0) \<noteq> None then do {
        st \<leftarrow> to_stat 0 attr \<lparr>st_ino = 0, st_mode = 0, st_nlink = 0, st_uid = 0, st_gid = 0, st_rdev = 0, st_size = 0,
          st_blksize = 0, st_blocks = 0, st_atime = 0, st_mtime = 0, st_ctime = 0\<rparr>;
        Some (st_size st)
      } else None)"

section \<open>Chunk servers\<close>

definition CUTOCS_READ :: nat where "CUTOCS_READ = 200"
definition CSTOCU_READ_STATUS :: nat where "CSTOCU_READ_STATUS = 201"
definition CSTOCU_READ_DATA :: nat where "CSTOCU_READ_DATA = 202"
definition CUTOCS_WRITE :: nat where "CUTOCS_WRITE = 210"
definition CSTOCU_WRITE_STATUS :: nat where "CSTOCU_WRITE_STATUS = 211"
definition CUTOCS_WRITE_DATA :: nat where "CUTOCS_WRITE_DATA = 212"

definition CS_Connect :: "'w peers \<Rightarrow> nat \<Rightarrow> nat \<Rightarrow> ChunkServer \<Rightarrow> 'w net \<Rightarrow> (bool \<times> ChunkServer \<times> 'w net) option" where
  "CS_Connect P ip port cs n = do {
     ASSERT (0 = cs_socket cs);
     let (sock, n) = sys_socket n;
     let cs = cs\<lparr>cs_socket := sock\<rparr>;
     if sock < 0 then Some (False, cs, n)
     else do {
       let (ret, n) = sys_connect P sock (ip, port) n;
       ASSERT (ret = 0);
       if ret < 0 then Some (False, cs\<lparr>cs_socket := 0\<rparr>, sys_close sock n)
       else Some (True, cs\<lparr>cs_ip := ip, cs_port := port\<rparr>, n)
     }
   }"

definition CS_delete :: "ChunkServer \<Rightarrow> 'w net \<Rightarrow> 'w net" where
  "CS_delete cs n = (if cs_socket cs \<noteq> 0 then sys_close (cs_socket cs) n else n)"

text \<open>
  The loop of \<open>ReadBlock\<close>: \<open>acc\<close> is what was stored at \<open>buff\<close>. A message of another kind is skipped by its
  header only.
\<close>

partial_function (option) read_blocks ::
  "(bytes \<Rightarrow> nat) \<Rightarrow> int \<Rightarrow> nat \<Rightarrow> nat \<Rightarrow> nat \<Rightarrow> bytes \<Rightarrow> 'w net \<Rightarrow> (int \<times> bytes \<times> 'w net) option" where
  "read_blocks crc fd cid offset left acc n =
     (let (ret, d, n) = tcptoread fd 8 [] n in do {
      ASSERT (ret = 8);
      if ret \<noteq> 8 then Some (ERROR_IO, acc, n)
      else do {
        (cmd, rptr) \<leftarrow> get32bit d;
        (len, _) \<leftarrow> get32bit rptr;
        if cmd = CSTOCU_READ_STATUS then
          if len \<noteq> 9 then Some (-1, acc, n)
          else let (ret, d, n) = tcptoread fd 9 [] n in
          if ret \<noteq> 9 then Some (-1, acc, n)
          else do {
            (t64, rptr) \<leftarrow> get64bit d;
            (st, _) \<leftarrow> get8bit rptr;
            Some (if st \<noteq> 0 then -1 else if t64 \<noteq> cid then -1 else if left \<noteq> 0 then -1 else 0, acc, n)
          }
        else if cmd = CSTOCU_READ_DATA then do {
          ASSERT (20 \<le> len);
          if len < 20 then Some (-1, acc, n)
          else let (ret, d, n) = tcptoread fd 20 [] n in
          if ret \<noteq> 20 then Some (-1, acc, n)
          else do {
            (t64, rptr) \<leftarrow> get64bit d;
            (blockno, rptr) \<leftarrow> get16bit rptr;
            (blockoffset, rptr) \<leftarrow> get16bit rptr;
            (blocksize, rptr) \<leftarrow> get32bit rptr;
            (blockcrc, _) \<leftarrow> get32bit rptr;
            let breq = (if left < 65536 - blockoffset then left else 65536 - blockoffset);
            if t64 \<noteq> cid \<or> len \<noteq> (20 + blocksize) mod 2 ^ 32 \<or> 0 = blocksize \<or> blockno \<noteq> offset div 65536
               \<or> blockoffset \<noteq> offset mod 65536 \<or> blocksize \<noteq> breq
            then Some (-1, acc, n)
            else
              let (ret, d, n) = tcptoread fd blocksize [] n in
              if ret \<noteq> int blocksize then Some (-1, acc @ d, n)
              else if blockcrc \<noteq> crc d then Some (-1, acc @ d, n)
              else read_blocks crc fd cid ((offset + blocksize) mod 2 ^ 32) (left - blocksize) (acc @ d) n
          }
        }
        else read_blocks crc fd cid offset left acc n
      }})"

definition read_request :: "Chunk \<Rightarrow> nat \<Rightarrow> nat \<Rightarrow> bytes" where
  "read_request ch offset left =
     put32bit CUTOCS_READ @ put32bit 20 @ put64bit (ch_id ch) @ put32bit (ch_version ch) @ put32bit offset @ put32bit left"

definition ReadBlock ::
  "'w peers \<Rightarrow> (bytes \<Rightarrow> nat) \<Rightarrow> ChunkServer \<Rightarrow> Chunk \<Rightarrow> nat \<Rightarrow> nat \<Rightarrow> 'w net \<Rightarrow> (int \<times> bytes \<times> 'w net) option" where
  "ReadBlock P crc cs ch offset left n =
     (let (ret, n) = sys_write P (cs_socket cs) (read_request ch offset left) n in
      if ret \<noteq> 28 then Some (ERROR_IO, [], n)
      else read_blocks crc (cs_socket cs) (ch_id ch) offset left [] n)"

text \<open>The write session of a chunk. The status message must have the expected kind, length, chunk and, when there is one, write number.\<close>

definition write_status :: "nat \<Rightarrow> nat option \<Rightarrow> int \<Rightarrow> 'w net \<Rightarrow> ((int \<times> nat) \<times> 'w net) option" where
  "write_status cid writeid fd n =
     (let (ret, d, n) = tcptoread fd (8 + 13) [] n in
      if ret \<noteq> 8 + 13 then Some ((ERROR_IO, 0), n)
      else do {
        (cmd, rptr) \<leftarrow> get32bit d;
        (len, rptr) \<leftarrow> get32bit rptr;
        ASSERT (CSTOCU_WRITE_STATUS = cmd);
        ASSERT (13 = len);
        (recchunkid, rptr) \<leftarrow> get64bit rptr;
        (recwriteid, rptr) \<leftarrow> get32bit rptr;
        (recstatus, rptr) \<leftarrow> get8bit rptr;
        ASSERT (writeid = None \<or> writeid = Some recwriteid);
        ASSERT (recchunkid = cid);
        Some ((int recstatus, recwriteid), n)
      })"

definition write_init_request :: "Chunk \<Rightarrow> bytes" where
  "write_init_request ch =
     put32bit CUTOCS_WRITE @ put32bit (12 + (length (ch_location ch) - 1) * 6) @ put64bit (ch_id ch) @ put32bit (ch_version ch)
     @ concat (map (\<lambda>l. put32bit (lo_ip l) @ put16bit (lo_port l)) (drop 1 (ch_location ch)))"

definition WriteBlockInit ::
  "'w peers \<Rightarrow> ChunkServer \<Rightarrow> Chunk \<Rightarrow> 'w net \<Rightarrow> ((int \<times> nat) \<times> 'w net) option" where
  "WriteBlockInit P cs ch n =
     (if ch_location ch = [] then None
      else let (ret, n) = sys_write P (cs_socket cs) (write_init_request ch) n in do {
        ASSERT (ret = int (length (write_init_request ch)));
        write_status (ch_id ch) None (cs_socket cs) n
      })"

definition write_data_header :: "(bytes \<Rightarrow> nat) \<Rightarrow> Chunk \<Rightarrow> nat \<Rightarrow> nat \<Rightarrow> nat \<Rightarrow> bytes \<Rightarrow> bytes" where
  "write_data_header crc ch writeid blockno offset d =
     put32bit CUTOCS_WRITE_DATA @ put32bit (24 + length d) @ put64bit (ch_id ch) @ put32bit writeid @ put16bit blockno
     @ put16bit offset @ put32bit (length d) @ put32bit (crc d)"

definition WriteBlock ::
  "'w peers \<Rightarrow> (bytes \<Rightarrow> nat) \<Rightarrow> ChunkServer \<Rightarrow> Chunk \<Rightarrow> nat \<Rightarrow> nat \<Rightarrow> nat \<Rightarrow> bytes \<Rightarrow> 'w net \<Rightarrow> (int \<times> 'w net) option" where
  "WriteBlock P crc cs ch writeid blockno offset d n =
     (let (ret, n) = sys_write P (cs_socket cs) (write_data_header crc ch writeid blockno offset d) n in
      if ret \<noteq> 32 then Some (-1, n)
      else let (ret, n) = sys_write P (cs_socket cs) d n in
      if ret \<noteq> int (length d) then Some (-1, n)
      else do { ((st, _), n) \<leftarrow> write_status (ch_id ch) (Some writeid) (cs_socket cs) n; Some (st, n) })"

section \<open>Cached connections\<close>

text \<open>
  Only connections for reading are kept. \<open>Create\<close> reads the entry after erasing it from the map; the freed entry
  is taken to hold its value still.
\<close>

definition Cached_Key :: "nat \<Rightarrow> nat \<Rightarrow> bool \<Rightarrow> nat" where
  "Cached_Key ip port is_read = ip * 2 ^ 32 + port * 2 ^ 16 + (if is_read then 1 else 0)"

definition Cached_Create :: "'w peers \<Rightarrow> nat \<Rightarrow> nat \<Rightarrow> bool \<Rightarrow> 'w client \<Rightarrow> (ChunkServer option \<times> 'w client) option" where
  "Cached_Create P ip port is_read c =
     (let key = Cached_Key ip port is_read in
      case (if is_read then cl_cache c key else None) of
        Some cs \<Rightarrow> Some (Some cs, c\<lparr>cl_cache := (cl_cache c)(key := None)\<rparr>)
      | None \<Rightarrow> do {
          (ok, cs, n) \<leftarrow> CS_Connect P ip port \<lparr>cs_socket = 0, cs_ip = 0, cs_port = 0\<rparr> (cl_net c);
          Some (if ok then (Some cs, set_net n c) else (None, set_net (CS_delete cs n) c))
        })"

definition Cached_Return :: "ChunkServer \<Rightarrow> bool \<Rightarrow> 'w client \<Rightarrow> 'w client" where
  "Cached_Return cs is_read c =
     (let key = Cached_Key (cs_ip cs) (cs_port cs) is_read in
      if is_read \<and> cl_cache c key = None then c\<lparr>cl_cache := (cl_cache c)(key \<mapsto> cs)\<rparr>
      else set_net (CS_delete cs (cl_net c)) c)"

section \<open>Files\<close>

record File =
  fi_position :: nat
  fi_inode :: nat
  fi_truncate :: bool

definition File_new :: File where
  "File_new = \<lparr>fi_position = 0, fi_inode = 0, fi_truncate = False\<rparr>"

definition O_ACCMODE_of :: "nat \<Rightarrow> nat" where "O_ACCMODE_of fl = fl mod 4"
definition O_CREAT_in :: "nat \<Rightarrow> bool" where "O_CREAT_in fl \<longleftrightarrow> odd (fl div 64)"
definition O_EXCL_in :: "nat \<Rightarrow> bool" where "O_EXCL_in fl \<longleftrightarrow> odd (fl div 128)"
definition O_APPEND_in :: "nat \<Rightarrow> bool" where "O_APPEND_in fl \<longleftrightarrow> odd (fl div 1024)"

definition File_Create :: "'w peers \<Rightarrow> string \<Rightarrow> nat \<Rightarrow> File \<Rightarrow> 'w client \<Rightarrow> (int \<times> File \<times> 'w client) option" where
  "File_Create P pathname mode f c =
     (let s = c_str pathname; slash = rfind s (CHR ''/'') in do {
        ASSERT (fi_inode f = 0);
        ((ret, par), c) \<leftarrow> (if slash \<noteq> npos then do {
            ((ret, out), c) \<leftarrow> Lookup_path P (take slash s) c;
            Some ((ret, map_option fst out), c)
          } else Some ((STATUS_OK, Some MFS_ROOT_ID), c));
        if ret \<noteq> STATUS_OK then Some (ret, f, c)
        else do {
          par \<leftarrow> par;
          ((ret, ino), c) \<leftarrow> Master_Create P par (if slash \<noteq> npos then drop (slash + 1) s else s) mode c;
          if ret \<noteq> STATUS_OK then Some (ret, f, c)
          else Some (STATUS_OK, f\<lparr>fi_inode := (case ino of Some i \<Rightarrow> i | None \<Rightarrow> 0), fi_position := 0\<rparr>, c)
        }
      })"

text \<open>A lookup that failed leaves the inode of \<open>Open\<close> unset.\<close>

definition File_Open :: "'w peers \<Rightarrow> string \<Rightarrow> nat \<Rightarrow> nat \<Rightarrow> File \<Rightarrow> 'w client \<Rightarrow> (int \<times> File \<times> 'w client) option" where
  "File_Open P pathname oflag mode f c = do {
     ASSERT (fi_inode f = 0);
     ((ret, out), c) \<leftarrow> Lookup_path P pathname c;
     if ret = ERROR_ENOENT \<and> O_CREAT_in oflag then File_Create P pathname mode f c
     else if ret = 0 \<and> O_EXCL_in oflag then Some (-1, f, c)
     else do {
       let f = (if O_ACCMODE_of oflag = 1 then f\<lparr>fi_truncate := True\<rparr> else f);
       (inode, _) \<leftarrow> out;
       ((ret, att), c) \<leftarrow> Open P inode (if O_ACCMODE_of oflag = 0 then 1 else if O_ACCMODE_of oflag = 1 then 2
                                     else if O_ACCMODE_of oflag = 2 then 3 else 0) True c;
       if ret \<noteq> STATUS_OK then Some (ret, f, c)
       else do {
         f \<leftarrow> (if O_APPEND_in oflag then do {
                 pos \<leftarrow> FileAttribute_size (case att of Some a \<Rightarrow> a | None \<Rightarrow> replicate 35 NUL);
                 Some (f\<lparr>fi_position := pos, fi_truncate := True\<rparr>)
               } else Some (f\<lparr>fi_position := 0\<rparr>));
         Some (STATUS_OK, f\<lparr>fi_inode := inode\<rparr>, c)
       }
     }
   }"

definition File_Close :: "'w peers \<Rightarrow> File \<Rightarrow> 'w client \<Rightarrow> (int \<times> File \<times> 'w client) option" where
  "File_Close P f c = do {
     (ret, c) \<leftarrow> (if fi_truncate f then do {
         ((ret, attr), c) \<leftarrow> GetAttr P (fi_inode f) c;
         if ret \<noteq> STATUS_OK then Some (STATUS_OK, c)
         else do {
           sz \<leftarrow> FileAttribute_size (case attr of Some a \<Rightarrow> a | None \<Rightarrow> replicate 35 NUL);
           if sz > fi_position f then do {
             ((ret, attr2), c) \<leftarrow> Truncate P (fi_inode f) 0 (fi_position f) True c;
             if ret \<noteq> STATUS_OK then Some (ret, c)
             else do {
               sz2 \<leftarrow> FileAttribute_size (case attr2 of Some a \<Rightarrow> a | None \<Rightarrow> replicate 35 NUL);
               ASSERT (sz2 = fi_position f);
               Some (ret, c)
             }
           } else Some (STATUS_OK, c)
         }
       } else Some (STATUS_OK, c));
     if ret \<noteq> STATUS_OK then Some (ret, f, c)
     else Some (0, f\<lparr>fi_inode := 0, fi_position := 0\<rparr>, c)
   }"

section \<open>Reading and writing\<close>

definition M64 :: nat where "M64 = 64 * 1024 * 1024"
definition K64 :: nat where "K64 = 64 * 1024"
definition MFS_MAX_FILE_SIZE :: nat where "MFS_MAX_FILE_SIZE = 2 ^ 57"
definition EFBIG :: nat where "EFBIG = 27"

text \<open>Differences of \<open>uint64_t\<close> values, and an \<open>int\<close> converted to one.\<close>

definition sub64 :: "nat \<Rightarrow> nat \<Rightarrow> nat" where
  "sub64 a b = nat ((int a - int b) mod 2 ^ 64)"

definition int64 :: "int \<Rightarrow> nat" where
  "int64 x = nat (x mod 2 ^ 64)"

definition u32 :: "nat \<Rightarrow> nat" where
  "u32 n = n mod 2 ^ 32"

text \<open>
  The block loop of \<open>Write\<close>: it returns whether all blocks were written, and the rest of the buffer. A block that
  reaches beyond the buffer is read from memory that is not the caller's.
\<close>

partial_function (option) write_blocks ::
  "'w peers \<Rightarrow> (bytes \<Rightarrow> nat) \<Rightarrow> ChunkServer \<Rightarrow> Chunk \<Rightarrow> nat \<Rightarrow> nat \<Rightarrow> nat \<Rightarrow> nat \<Rightarrow> bytes \<Rightarrow> 'w net
     \<Rightarrow> (bool \<times> bytes \<times> 'w net) option" where
  "write_blocks P crc cs ch last_pos chunk_pos blockno writeid buf n =
     (let block_offset = u32 (sub64 chunk_pos (u64 (blockno * K64)));
          block_size = u32 (sub64 (min last_pos (u64 ((blockno + 1) * K64))) chunk_pos)
      in if length buf < block_size then None
         else do {
           (ret, n) \<leftarrow> WriteBlock P crc cs ch writeid (blockno mod 2 ^ 16) (block_offset mod 2 ^ 16) (take block_size buf) n;
           if ret \<noteq> STATUS_OK then Some (False, buf, CS_delete cs n)
           else
             let chunk_pos = u64 (chunk_pos + block_size); blockno = u64 (blockno + 1); writeid = u32 (writeid + 1);
                 buf = drop block_size buf
             in if last_pos \<le> chunk_pos then Some (True, buf, n)
                else write_blocks P crc cs ch last_pos chunk_pos blockno writeid buf n
         })"

text \<open>The chunk loop of \<open>Write\<close>: \<open>None\<close> in the result is the early return of 0.\<close>

partial_function (option) write_chunks ::
  "'w peers \<Rightarrow> (bytes \<Rightarrow> nat) \<Rightarrow> nat \<Rightarrow> nat \<Rightarrow> nat \<Rightarrow> int \<Rightarrow> bytes \<Rightarrow> 'w client \<Rightarrow> (nat option \<times> 'w client) option" where
  "write_chunks P crc inode last_pos write_position chunk_index buf c = do {
     ((ret, out), c) \<leftarrow> WriteChunk P inode (to_u32 chunk_index) c;
     if ret \<noteq> STATUS_OK then Some (None, c)
     else do {
       (_, ch) \<leftarrow> out;
       loc \<leftarrow> (case ch_location ch of [] \<Rightarrow> None | l # _ \<Rightarrow> Some l);
       let chunk_offset = sub64 write_position (int64 (chunk_index * int M64));
       let chunk_size = sub64 (min last_pos (int64 ((chunk_index + 1) * int M64))) write_position;
       (cs, c) \<leftarrow> Cached_Create P (lo_ip loc) (lo_port loc) False c;
       (cs, c) \<leftarrow> (case cs of None \<Rightarrow> Cached_Create P (lo_ip loc) (lo_port loc) False c | Some _ \<Rightarrow> Some (cs, c));
       case cs of
         None \<Rightarrow> Some (None, c)
       | Some cs \<Rightarrow> do {
           ((ret, writeid), n) \<leftarrow> WriteBlockInit P cs ch (cl_net c);
           let c = set_net n c;
           if ret \<noteq> STATUS_OK then Some (None, c)
           else do {
             (ok, buf, n) \<leftarrow> write_blocks P crc cs ch (u64 (chunk_offset + chunk_size)) chunk_offset (chunk_offset div 2 ^ 16) writeid buf (cl_net c);
             let c = set_net n c;
             if \<not> ok then Some (None, c)
             else do {
               let c = Cached_Return cs False c;
               let write_position = u64 (write_position + chunk_size);
               let chunk_index = wrap32 (chunk_index + 1);
               (ret, c) \<leftarrow> WriteChunkEnd P (ch_id ch) inode write_position c;
               if ret \<noteq> STATUS_OK then Some (None, c)
               else if last_pos \<le> write_position then Some (Some write_position, c)
               else write_chunks P crc inode last_pos write_position chunk_index buf c
             }
           }
         }
     }
   }"

definition File_Write :: "'w peers \<Rightarrow> (bytes \<Rightarrow> nat) \<Rightarrow> bytes \<Rightarrow> File \<Rightarrow> 'w client \<Rightarrow> (nat \<times> File \<times> 'w client) option" where
  "File_Write P crc buf f c =
     (let write_position = fi_position f in do {
        ASSERT (fi_inode f \<noteq> 0);
        (r, c) \<leftarrow> write_chunks P crc (fi_inode f) (u64 (fi_position f + length buf)) write_position
          (wrap32 (int (write_position div 2 ^ 26))) buf c;
        Some (case r of None \<Rightarrow> (0, f, c) | Some pos \<Rightarrow> (u32 (length buf), f\<lparr>fi_position := pos\<rparr>, c))
      })"

text \<open>The first location that accepts a connection.\<close>

fun connect_any :: "'w peers \<Rightarrow> Location list \<Rightarrow> 'w client \<Rightarrow> (ChunkServer option \<times> 'w client) option" where
  "connect_any P [] c = Some (None, c)"
| "connect_any P (l # ls) c = do {
     (cs, c) \<leftarrow> Cached_Create P (lo_ip l) (lo_port l) True c;
     case cs of Some cs \<Rightarrow> Some (Some cs, c) | None \<Rightarrow> connect_any P ls c
   }"

text \<open>
  The chunk loop of \<open>Read\<close>. A chunk is tried again, a second later, while the last reconnection is not ten seconds
  old. A failed block outside that time goes on with a connection that was deleted. \<open>acc\<close> is what was stored in the
  caller's buffer before the current chunk.
\<close>

partial_function (option) read_chunks ::
  "'w peers \<Rightarrow> (bytes \<Rightarrow> nat) \<Rightarrow> nat \<Rightarrow> nat \<Rightarrow> nat \<Rightarrow> nat \<Rightarrow> int \<Rightarrow> bytes \<Rightarrow> 'w client
     \<Rightarrow> ((nat \<times> bytes) option \<times> 'w client) option" where
  "read_chunks P crc inode start last_pos write_position chunk_index acc c = do {
     ((status, out), c) \<leftarrow> ReadChunk P inode (to_u32 chunk_index) c;
     if status \<noteq> STATUS_OK then Some (None, c)
     else do {
       (file_length, ch) \<leftarrow> out;
       let last_pos = (if file_length < last_pos then file_length else last_pos);
       if file_length < start then Some (None, c)
       else do {
         let chunk_offset = sub64 write_position (int64 (chunk_index * int M64));
         let chunk_size = sub64 (min last_pos (int64 ((chunk_index + 1) * int M64))) write_position;
         let recent = nt_time (cl_net c) - cl_registered c < 10;
         if ch_location ch = [] then
           (if recent
            then read_chunks P crc inode start last_pos write_position chunk_index acc (set_net (sys_sleep 1 (cl_net c)) c)
            else Some (None, c))
         else do {
           (cs, c) \<leftarrow> connect_any P (ch_location ch) c;
           (case cs of
              None \<Rightarrow> Some (None, c)
            | Some cs \<Rightarrow> do {
                (ret, d, n) \<leftarrow> ReadBlock P crc cs ch (u32 chunk_offset) (u32 chunk_size) (cl_net c);
                let c = set_net n c;
                if ret \<noteq> STATUS_OK then
                  (if recent
                   then read_chunks P crc inode start last_pos write_position chunk_index acc
                     (set_net (sys_sleep 1 (CS_delete cs (cl_net c))) c)
                   else None)
                else do {
                  let c = Cached_Return cs True c;
                  let write_position = u64 (write_position + chunk_size);
                  let chunk_index = wrap32 (chunk_index + 1);
                  if last_pos \<le> write_position then Some (Some (write_position, acc @ d), c)
                  else read_chunks P crc inode start last_pos write_position chunk_index (acc @ d) c
                }
              })
         }
       }
     }
   }"

definition File_Read :: "'w peers \<Rightarrow> (bytes \<Rightarrow> nat) \<Rightarrow> nat \<Rightarrow> File \<Rightarrow> 'w client \<Rightarrow> ((nat \<times> bytes) \<times> File \<times> 'w client) option" where
  "File_Read P crc count f c =
     (if fi_inode f = 0 then None
      else if MFS_MAX_FILE_SIZE \<le> fi_position f then Some ((EFBIG, []), f, c)
      else do {
        (r, c) \<leftarrow> read_chunks P crc (fi_inode f) (fi_position f) (u64 (fi_position f + count)) (fi_position f)
          (wrap32 (int (fi_position f div 2 ^ 26))) [] c;
        Some (case r of
                None \<Rightarrow> ((0, []), f, c)
              | Some (pos, d) \<Rightarrow> ((u32 (sub64 pos (fi_position f)), d), f\<lparr>fi_position := pos\<rparr>, c))
      })"

definition File_Seek :: "'w peers \<Rightarrow> nat \<Rightarrow> nat \<Rightarrow> File \<Rightarrow> 'w client \<Rightarrow> (nat \<times> File \<times> 'w client) option" where
  "File_Seek P offset whence f c = do {
     ((ret, attr), c) \<leftarrow> GetAttr P (fi_inode f) c;
     if ret = STATUS_OK then do {
       sz \<leftarrow> FileAttribute_size (case attr of Some a \<Rightarrow> a | None \<Rightarrow> replicate 35 NUL);
       Some (if whence = 0 \<and> offset \<le> sz then (fi_position f, f\<lparr>fi_position := offset\<rparr>, c)
             else if whence = 1 \<and> u64 (offset + fi_position f) \<le> sz
             then (fi_position f, f\<lparr>fi_position := u64 (fi_position f + offset)\<rparr>, c)
             else (2 ^ 64 - 1, f, c))
     }
     else Some (2 ^ 64 - 1, f, c)
   }"

definition File_Pwrite :: "'w peers \<Rightarrow> (bytes \<Rightarrow> nat) \<Rightarrow> bytes \<Rightarrow> int \<Rightarrow> File \<Rightarrow> 'w client \<Rightarrow> (nat \<times> File \<times> 'w client) option" where
  "File_Pwrite P crc buf offset f c = File_Write P crc buf (f\<lparr>fi_position := int64 offset\<rparr>) c"

definition File_Pread :: "'w peers \<Rightarrow> (bytes \<Rightarrow> nat) \<Rightarrow> nat \<Rightarrow> int \<Rightarrow> File \<Rightarrow> 'w client \<Rightarrow> ((nat \<times> bytes) \<times> File \<times> 'w client) option" where
  "File_Pread P crc count offset f c = File_Read P crc count (f\<lparr>fi_position := int64 offset\<rparr>) c"

end
