(* ===== verification/MooseC.thy ===== *)
theory MooseC
  imports MooseFile PathOps Mkdirs
begin

text \<open>
  \<open>src/src/mooseclient/moose_c.cc\<close>, the C interface that the bundle store can be built on, and the address parser of
  \<open>sockutil.cc\<close>. A descriptor is the inode of the file. The library routine \<open>inet_pton\<close> is a parameter. Calls that
  need a master and are made without one have no result.
\<close>

section \<open>Addresses\<close>

definition inet_port :: "string option \<Rightarrow> nat option" where
  "inet_port port_part =
     (case port_part of
        None \<Rightarrow> Some 0
      | Some p \<Rightarrow> let port = wrap32 (atol p) in if port \<le> 0 \<or> 65535 < port then None else Some (nat port))"

text \<open>The forms \<open>[addr]:port\<close>, \<open>addr\<close> with two colons, \<open>addr:port\<close> and \<open>addr\<close>; only IPv4 is compiled in.\<close>

definition parse_sockaddr_port :: "(string \<Rightarrow> nat option) \<Rightarrow> string \<Rightarrow> addr option" where
  "parse_sockaddr_port inet_pton ip_as_string =
     (let s = c_str ip_as_string; cp = find_first_of s (CHR '':'') in do {
        (addr_part, port_part) \<leftarrow>
          (if s \<noteq> [] \<and> s ! 0 = CHR ''['' then
             let cp = find_first_of s (CHR '']'') in
             if cp = npos then None
             else if 127 < cp - 1 then None
             else Some (take (cp - 1) (drop 1 s),
                        if drop (cp + 1) s \<noteq> [] \<and> s ! (cp + 1) = CHR '':'' then Some (drop (cp + 2) s) else None)
           else if cp \<noteq> npos \<and> CHR '':'' \<in> set (drop (cp + 1) s) then Some (s, None)
           else if cp \<noteq> npos then
             (if 127 < cp then None else Some (take cp s, Some (drop (cp + 1) s)))
           else Some (s, None));
        port \<leftarrow> inet_port port_part;
        ip \<leftarrow> inet_pton addr_part;
        Some (ip, port)
      })"

definition Connect_host ::
  "'w peers \<Rightarrow> (string \<Rightarrow> nat option) \<Rightarrow> string \<Rightarrow> 'w client \<Rightarrow> (bool \<times> 'w client) option" where
  "Connect_host P inet_pton host_ip c =
     (case parse_sockaddr_port inet_pton host_ip of
        Some a \<Rightarrow> Connect P a True c
      | None \<Rightarrow> Some (False, c))"

section \<open>State\<close>

text \<open>Whether \<open>master_\<close> was created, the client, the open files and \<open>errno\<close>.\<close>

record 'w mfs =
  mf_master :: bool
  mf_client :: "'w client"
  mf_files :: "int \<Rightarrow> File option"
  mf_errno :: int

definition fail_with :: "int \<Rightarrow> 'w mfs \<Rightarrow> int \<times> 'w mfs" where
  "fail_with e m = (-1, m\<lparr>mf_errno := e\<rparr>)"

definition mfs_connect :: "'w peers \<Rightarrow> (string \<Rightarrow> nat option) \<Rightarrow> string \<Rightarrow> 'w mfs \<Rightarrow> (bool \<times> 'w mfs) option" where
  "mfs_connect P inet_pton host_ip m =
     (let m = (if mf_master m then m
               else m\<lparr>mf_master := True, mf_client := (mf_client m)\<lparr>cl_master := MasterServer_new\<rparr>\<rparr>)
      in do { (ok, c) \<leftarrow> Connect_host P inet_pton host_ip (mf_client m); Some (ok, m\<lparr>mf_client := c\<rparr>) })"

section \<open>Names\<close>

text \<open>The second component of \<open>mfs_stat\<close> is the buffer, when it is filled.\<close>

definition mfs_stat :: "'w peers \<Rightarrow> string \<Rightarrow> stat \<Rightarrow> 'w mfs \<Rightarrow> ((int \<times> stat) \<times> 'w mfs) option" where
  "mfs_stat P path buf m =
     (if \<not> mf_master m then Some ((-1, buf), m)
      else do {
        ((ret, out), c) \<leftarrow> Lookup_path P path (mf_client m);
        let m = m\<lparr>mf_client := c\<rparr>;
        if ret \<noteq> 0 then
          (let (r, m) = fail_with (if ret = ERROR_ENOENT then ENOENT else ret) m in Some ((r, buf), m))
        else do {
          (inode, attr) \<leftarrow> out;
          st \<leftarrow> to_stat inode attr buf;
          Some ((0, st), m)
        }
      })"

definition mfs_access :: "'w peers \<Rightarrow> string \<Rightarrow> int \<Rightarrow> 'w mfs \<Rightarrow> (int \<times> 'w mfs) option" where
  "mfs_access P pathname mode m =
     (if \<not> mf_master m then Some (-1, m)
      else do {
        ((ret, _), c) \<leftarrow> Lookup_path P pathname (mf_client m);
        let m = m\<lparr>mf_client := c\<rparr>;
        Some (if ret \<noteq> 0 then fail_with ret m else (0, m))
      })"

text \<open>The inode of the directory of a path and the name in it.\<close>

definition extract_path :: "'w peers \<Rightarrow> string \<Rightarrow> 'w client \<Rightarrow> ((int \<times> nat option \<times> string) \<times> 'w client) option" where
  "extract_path P pathname c =
     (let pathname = c_str pathname; dir = Dirname pathname; basename = Basename pathname in
      if dir = [] then Some ((0, Some MFS_ROOT_ID, basename), c)
      else do {
        ((ret, out), c) \<leftarrow> Lookup_path P dir c;
        Some ((ret, map_option fst out, basename), c)
      })"

definition mfs_unlink :: "'w peers \<Rightarrow> string \<Rightarrow> 'w mfs \<Rightarrow> (int \<times> 'w mfs) option" where
  "mfs_unlink P pathname m =
     (if \<not> mf_master m then Some (-1, m)
      else do {
        ((ret, par, basename), c) \<leftarrow> extract_path P pathname (mf_client m);
        if ret = 0 then do {
          par \<leftarrow> par;
          (ret, c) \<leftarrow> Unlink P par basename c;
          Some (ret, m\<lparr>mf_client := c\<rparr>)
        }
        else Some (ret, m\<lparr>mf_client := c\<rparr>)
      })"

definition mfs_rmdir :: "'w peers \<Rightarrow> string \<Rightarrow> 'w mfs \<Rightarrow> (int \<times> 'w mfs) option" where
  "mfs_rmdir P pathname m =
     (if \<not> mf_master m then Some (-1, m)
      else do {
        ((ret, par, basename), c) \<leftarrow> extract_path P pathname (mf_client m);
        if ret = 0 then do {
          par \<leftarrow> par;
          (ret, c) \<leftarrow> Rmdir P par basename c;
          Some (ret, m\<lparr>mf_client := c\<rparr>)
        }
        else Some (ret, m\<lparr>mf_client := c\<rparr>)
      })"

definition mfs_mkdir :: "'w peers \<Rightarrow> string \<Rightarrow> nat \<Rightarrow> 'w mfs \<Rightarrow> (int \<times> 'w mfs) option" where
  "mfs_mkdir P pathname mode m =
     (if \<not> mf_master m then Some (-1, m)
      else do {
        ((ret, par, basename), c) \<leftarrow> extract_path P pathname (mf_client m);
        if ret \<noteq> 0 then Some (fail_with ret (m\<lparr>mf_client := c\<rparr>))
        else do {
          par \<leftarrow> par;
          ((ret, _), c) \<leftarrow> Mkdir P par basename mode c;
          let m = m\<lparr>mf_client := c\<rparr>;
          Some (if ret \<noteq> 0 then fail_with (if ret = ERROR_EEXIST then EEXIST else ret) m else (0, m))
        }
      })"

function mfs_mkdirs_loop :: "'w peers \<Rightarrow> nat \<Rightarrow> string \<Rightarrow> string \<Rightarrow> 'w mfs \<Rightarrow> (int \<times> 'w mfs) option" where
  "mfs_mkdirs_loop P mode subpath pa m =
     (if CHR ''/'' \<in> set pa then do {
        let subpath = subpath @ takeWhile (\<lambda>c. c \<noteq> CHR ''/'') pa;
        (retval, m) \<leftarrow> mfs_mkdir P subpath mode m;
        if retval \<noteq> 0 \<and> mf_errno m \<noteq> EEXIST then Some (retval, m)
        else mfs_mkdirs_loop P mode (subpath @ ''/'') (tl (dropWhile (\<lambda>c. c \<noteq> CHR ''/'') pa)) m
      }
      else do {
        (retval, m) \<leftarrow> mfs_mkdir P (subpath @ pa) mode m;
        Some (if retval \<noteq> 0 \<and> mf_errno m \<noteq> EEXIST then (retval, m) else (0, m))
      })"
  by pat_completeness auto
termination
  by (relation "measure (\<lambda>(P, mode, subpath, pa, m). length pa)") (auto simp: rest_shorter [simplified])

declare mfs_mkdirs_loop.simps [simp del]

definition mfs_mkdirs :: "'w peers \<Rightarrow> string \<Rightarrow> nat \<Rightarrow> 'w mfs \<Rightarrow> (int \<times> 'w mfs) option" where
  "mfs_mkdirs P pathname mode m =
     (let path = take (PATH_LENGTH_MAX - 1) (c_str pathname);
          path = (if path \<noteq> [] \<and> last path = CHR ''/'' then butlast path else path)
      in if path \<noteq> [] \<and> path ! 0 = CHR ''/'' then mfs_mkdirs_loop P mode ''/'' (drop 1 path) m
         else if 2 \<le> length path \<and> path ! 0 = CHR ''.'' \<and> path ! 1 = CHR ''/''
         then mfs_mkdirs_loop P mode ''./'' (drop 2 path) m
         else mfs_mkdirs_loop P mode [] path m)"

section \<open>Files\<close>

definition with_file :: "int \<Rightarrow> (File \<Rightarrow> 'w client \<Rightarrow> ('a \<times> File \<times> 'w client) option) \<Rightarrow> 'a \<Rightarrow> 'w mfs \<Rightarrow> ('a \<times> 'w mfs) option" where
  "with_file fd op none m =
     (case mf_files m fd of
        None \<Rightarrow> Some (none, m)
      | Some f \<Rightarrow> do {
          (r, f, c) \<leftarrow> op f (mf_client m);
          Some (r, m\<lparr>mf_client := c, mf_files := (mf_files m)(fd \<mapsto> f)\<rparr>)
        })"

definition mfs_open :: "'w peers \<Rightarrow> string \<Rightarrow> nat \<Rightarrow> nat \<Rightarrow> 'w mfs \<Rightarrow> (int \<times> 'w mfs) option" where
  "mfs_open P pathname oflag mode m =
     (if \<not> mf_master m then None
      else do {
        (ret, f, c) \<leftarrow> File_Open P pathname oflag mode File_new (mf_client m);
        let m = m\<lparr>mf_client := c\<rparr>;
        let fd = wrap32 (int (fi_inode f));
        Some (if 0 = ret then (fd, m\<lparr>mf_files := (mf_files m)(fd \<mapsto> f)\<rparr>) else (-1, m))
      })"

definition mfs_creat :: "'w peers \<Rightarrow> string \<Rightarrow> nat \<Rightarrow> 'w mfs \<Rightarrow> (int \<times> 'w mfs) option" where
  "mfs_creat P pathname mode m =
     (if \<not> mf_master m then None
      else do {
        (ret, f, c) \<leftarrow> File_Create P pathname mode File_new (mf_client m);
        let m = m\<lparr>mf_client := c\<rparr>;
        let fd = wrap32 (int (fi_inode f));
        Some (if 0 = ret then (fd, m\<lparr>mf_files := (mf_files m)(fd \<mapsto> f)\<rparr>) else (-1, m))
      })"

definition mfs_read :: "'w peers \<Rightarrow> (bytes \<Rightarrow> nat) \<Rightarrow> int \<Rightarrow> nat \<Rightarrow> 'w mfs \<Rightarrow> ((int \<times> bytes) \<times> 'w mfs) option" where
  "mfs_read P crc fd count m = with_file fd
     (\<lambda>f c. do { ((r, d), f, c) \<leftarrow> File_Read P crc count f c; Some ((int r, d), f, c) }) (-1, []) m"

definition mfs_write :: "'w peers \<Rightarrow> (bytes \<Rightarrow> nat) \<Rightarrow> int \<Rightarrow> bytes \<Rightarrow> 'w mfs \<Rightarrow> (int \<times> 'w mfs) option" where
  "mfs_write P crc fd buf m = with_file fd
     (\<lambda>f c. do { (r, f, c) \<leftarrow> File_Write P crc buf f c; Some (int r, f, c) }) (-1) m"

definition mfs_pread :: "'w peers \<Rightarrow> (bytes \<Rightarrow> nat) \<Rightarrow> int \<Rightarrow> nat \<Rightarrow> int \<Rightarrow> 'w mfs \<Rightarrow> ((int \<times> bytes) \<times> 'w mfs) option" where
  "mfs_pread P crc fd count offset m = with_file fd
     (\<lambda>f c. do { ((r, d), f, c) \<leftarrow> File_Pread P crc count offset f c; Some ((int r, d), f, c) }) (-1, []) m"

definition mfs_pwrite :: "'w peers \<Rightarrow> (bytes \<Rightarrow> nat) \<Rightarrow> int \<Rightarrow> bytes \<Rightarrow> int \<Rightarrow> 'w mfs \<Rightarrow> (int \<times> 'w mfs) option" where
  "mfs_pwrite P crc fd buf offset m = with_file fd
     (\<lambda>f c. do { (r, f, c) \<leftarrow> File_Pwrite P crc buf offset f c; Some (int r, f, c) }) (-1) m"

definition mfs_lseek :: "'w peers \<Rightarrow> int \<Rightarrow> int \<Rightarrow> nat \<Rightarrow> 'w mfs \<Rightarrow> (int \<times> 'w mfs) option" where
  "mfs_lseek P fd offset whence m = with_file fd
     (\<lambda>f c. do { (r, f, c) \<leftarrow> File_Seek P (int64 offset) whence f c; Some (wrap64 (int r), f, c) }) (-1) m"

definition mfs_close :: "'w peers \<Rightarrow> int \<Rightarrow> 'w mfs \<Rightarrow> (int \<times> 'w mfs) option" where
  "mfs_close P fd m =
     (case mf_files m fd of
        None \<Rightarrow> Some (-1, m)
      | Some f \<Rightarrow> do {
          (_, _, c) \<leftarrow> File_Close P f (mf_client m);
          Some (0, m\<lparr>mf_client := c, mf_files := (mf_files m)(fd := None)\<rparr>)
        })"

end
