(* ===== verification/ChunkProto.thy ===== *)
theory ChunkProto
  imports MasterOps MooseC
begin

text \<open>
  The protocol between client and chunk servers: which messages a block read accepts, and that it returns exactly
  what the server sent.
\<close>

section \<open>Messages of a chunk server\<close>

definition block_message :: "(bytes \<Rightarrow> nat) \<Rightarrow> nat \<Rightarrow> nat \<Rightarrow> bytes \<Rightarrow> bytes" where
  "block_message crc cid offset d =
     frame CSTOCU_READ_DATA (put64bit cid @ put16bit (offset div 65536) @ put16bit (offset mod 65536)
       @ put32bit (length d) @ put32bit (crc d) @ d)"

definition read_status :: "nat \<Rightarrow> nat \<Rightarrow> bytes" where
  "read_status cid st = frame CSTOCU_READ_STATUS (put64bit cid @ put8bit st)"

text \<open>
  The header of a message that is neither data nor status: eight bytes, whatever length they declare, for \<open>ReadBlock\<close>
  never looks at that length and never takes a body.
\<close>

definition other_header :: "bytes \<Rightarrow> bool" where
  "other_header h \<longleftrightarrow> length h = 8 \<and> (\<forall>cmd r. get32bit h = Some (cmd, r) \<longrightarrow> cmd \<noteq> CSTOCU_READ_STATUS \<and> cmd \<noteq> CSTOCU_READ_DATA)"

text \<open>
  The specification: \<open>delivers crc cid offset data s\<close> when the bytes \<open>s\<close> say that the chunk holds \<open>data\<close> from
  \<open>offset\<close> on: one message per block of 64 KB, cut at block boundaries, each with its checksum, and a final
  status without error.
\<close>

inductive delivers :: "(bytes \<Rightarrow> nat) \<Rightarrow> nat \<Rightarrow> nat \<Rightarrow> bytes \<Rightarrow> bytes \<Rightarrow> bool" for crc cid where
  finished: "delivers crc cid offset [] (read_status cid 0)"
| block: "d \<noteq> [] \<Longrightarrow> length d = min (length (d @ data)) (65536 - offset mod 65536)
    \<Longrightarrow> delivers crc cid (offset + length d) data s \<Longrightarrow> delivers crc cid offset (d @ data) (block_message crc cid offset d @ s)"
| other: "other_header h \<Longrightarrow> delivers crc cid offset data s \<Longrightarrow> delivers crc cid offset data (h @ s)"

lemmas read_commands = CSTOCU_READ_STATUS_def CSTOCU_READ_DATA_def

lemma tcptoread_prefix:
  "live fd n \<Longrightarrow> length rcvd \<le> leng \<Longrightarrow> tcptoread fd leng rcvd n = (ret, d, n') \<Longrightarrow>
   \<exists>e. d = rcvd @ e \<and> inbox fd n = e @ inbox fd n' \<and> live fd n' \<and> same_but fd n n' \<and> length d \<le> leng
     \<and> (0 < leng \<and> ret = int leng \<longrightarrow> length d = leng)"
proof (induction fd leng rcvd n arbitrary: ret d n' rule: tcptoread.induct)
  case (1 fd leng rcvd n)
  show ?case
  proof (cases "length rcvd < leng")
    case True
    obtain i e n1 where r: "sys_read fd (leng - length rcvd) n = (i, e, n1)" by (cases "sys_read fd (leng - length rcvd) n")
    have e: "i = int (length e)" "length e \<le> leng - length rcvd" "inbox fd n = e @ inbox fd n1" "live fd n1" "same_but fd n n1"
      using sys_read_live [OF "1.prems"(1) _ r] True by auto
    show ?thesis
    proof (cases "i \<le> 0")
      case True
      then have "ret = 0" "d = rcvd" "n' = n1" "e = []"
        using "1.prems"(3) r e(1) \<open>length rcvd < leng\<close> by (auto simp: tcptoread.simps [of fd leng rcvd n])
      then show ?thesis using e \<open>length rcvd < leng\<close> by auto
    next
      case False
      have t: "tcptoread fd leng (rcvd @ e) n1 = (ret, d, n')"
        using "1.prems"(3) r False True by (simp add: tcptoread.simps [of fd leng rcvd n])
      have "\<exists>e'. d = (rcvd @ e) @ e' \<and> inbox fd n1 = e' @ inbox fd n' \<and> live fd n' \<and> same_but fd n1 n' \<and> length d \<le> leng
          \<and> (0 < leng \<and> ret = int leng \<longrightarrow> length d = leng)"
        by (rule "1.IH" [OF True r [symmetric] refl refl False e(4) _ t]) (use e(2) True in simp)
      then show ?thesis using e same_but_trans by fastforce
    qed
  next
    case False
    then show ?thesis using "1.prems" by (auto simp: tcptoread.simps [of fd leng rcvd n] same_but_refl)
  qed
qed

lemma tcptoread_all:
  assumes "live fd n" "tcptoread fd leng [] n = (int leng, d, n')" "0 < leng"
  shows "length d = leng \<and> inbox fd n = d @ inbox fd n' \<and> live fd n' \<and> same_but fd n n'"
  using tcptoread_prefix [OF assms(1) _ assms(2)] assms(3) by auto

section \<open>Reading blocks\<close>

lemma read_frame_header:
  assumes "live fd n" "inbox fd n = frame cmd body @ rest"
  shows "\<exists>n'. tcptoread fd 8 [] n = (8, put32bit cmd @ put32bit (length body), n')
    \<and> inbox fd n' = body @ rest \<and> live fd n' \<and> same_but fd n n'"
  using tcptoread_exact [of fd n "put32bit cmd @ put32bit (length body)" "body @ rest"] assms
  by (simp add: frame_def length_put)

lemma read_blocks_complete:
  assumes "delivers crc cid offset data s" "cid < 2 ^ 64" "\<And>d. crc d < 2 ^ 32"
  shows "live fd n \<Longrightarrow> inbox fd n = s @ rest \<Longrightarrow> offset + length data < 2 ^ 32 \<Longrightarrow>
    \<exists>n'. read_blocks crc fd cid offset (length data) acc n = Some (0, acc @ data, n')
      \<and> inbox fd n' = rest \<and> live fd n' \<and> same_but fd n n'"
  using assms(1)
proof (induction arbitrary: n acc rule: delivers.induct)
  case (finished offset)
  let ?b = "put64bit cid @ put8bit 0"
  have l: "length ?b = 9" by (simp add: length_put)
  obtain n1 where n1: "tcptoread fd 8 [] n = (8, put32bit CSTOCU_READ_STATUS @ put32bit 9, n1)" "inbox fd n1 = ?b @ rest" "live fd n1"
    "same_but fd n n1"
    using read_frame_header [OF finished(1), of CSTOCU_READ_STATUS ?b rest] finished(2) l by (auto simp: read_status_def)
  obtain n2 where n2: "tcptoread fd 9 [] n1 = (9, ?b, n2)" "inbox fd n2 = rest" "live fd n2" "same_but fd n1 n2"
    using tcptoread_exact [OF n1(3,2)] l by auto
  have g: "get32bit (put32bit CSTOCU_READ_STATUS @ r) = Some (CSTOCU_READ_STATUS, r)" "get32bit (put32bit 9) = Some (9, [])" for r
    using f32.get_put_small [of 9 "[]"] by (simp_all add: f32.get_put_small CSTOCU_READ_STATUS_def)
  have "get8bit (put8bit 0) = Some (0, [])" by (simp add: put8bit_def)
  then have "read_blocks crc fd cid offset 0 acc n = Some (0, acc, n2)"
    using assms(2) by (subst read_blocks.simps) (simp add: n1(1) n2(1) g f64.get_put_small Let_def)
  then show ?case using n2 same_but_trans [OF n1(4) n2(4)] by auto
next
  case (block d data offset s)
  let ?f = "put64bit cid @ put16bit (offset div 65536) @ put16bit (offset mod 65536) @ put32bit (length d) @ put32bit (crc d)"
  have l: "length ?f = 20" by (simp add: length_put)
  have ld: "length d \<le> 65536" "offset + length d < 2 ^ 32" "offset < 2 ^ 32" using block.hyps(2) block.prems(3) by auto
  have lb: "length (?f @ d) = 20 + length d" using l by simp
  obtain n1 where n1: "tcptoread fd 8 [] n = (8, put32bit CSTOCU_READ_DATA @ put32bit (20 + length d), n1)"
    "inbox fd n1 = ?f @ d @ s @ rest" "live fd n1" "same_but fd n n1"
    using read_frame_header [OF block.prems(1), of CSTOCU_READ_DATA "?f @ d" "s @ rest"] block.prems(2)
    unfolding lb by (auto simp: block_message_def)
  obtain n2 where n2: "tcptoread fd 20 [] n1 = (20, ?f, n2)" "inbox fd n2 = d @ s @ rest" "live fd n2" "same_but fd n1 n2"
    using tcptoread_exact [OF n1(3,2)] l by auto
  obtain n3 where n3: "tcptoread fd (length d) [] n2 = (int (length d), d, n3)" "inbox fd n3 = s @ rest" "live fd n3" "same_but fd n2 n3"
    using tcptoread_exact [OF n2(3,2)] by auto
  obtain n' where n': "read_blocks crc fd cid (offset + length d) (length data) (acc @ d) n3 = Some (0, (acc @ d) @ data, n')"
    "inbox fd n' = rest" "live fd n'" "same_but fd n3 n'"
    using block.IH [OF n3(3,2), of "acc @ d"] block.prems(3) by auto
  have g: "get32bit (put32bit CSTOCU_READ_DATA @ r) = Some (CSTOCU_READ_DATA, r)"
      "get32bit (put32bit (20 + length d)) = Some (20 + length d, [])" "get32bit (put32bit (crc d)) = Some (crc d, [])" for r
    using f32.get_put_small [of "20 + length d" "[]"] f32.get_put_small [of "crc d" "[]"] ld(1) assms(3) [of d]
    by (simp_all add: f32.get_put_small CSTOCU_READ_DATA_def)
  have ne: "CSTOCU_READ_DATA \<noteq> CSTOCU_READ_STATUS" by (simp add: read_commands)
  have o: "offset div 65536 < 65536" using ld(3) by simp
  have k: "(if length (d @ data) < 65536 - offset mod 65536 then length (d @ data) else 65536 - offset mod 65536) = length d"
    using block.hyps(2) by auto
  have "read_blocks crc fd cid offset (length (d @ data)) acc n
      = read_blocks crc fd cid (offset + length d) (length data) (acc @ d) n3"
    using assms(2) ld o k block.hyps(1) ne
    by (subst read_blocks.simps)
      (simp add: n1(1) n2(1) n3(1) g f64.get_put_small f32.get_put_small f16.get_put_small Let_def)
  then show ?case using n' same_but_trans [OF n1(4) same_but_trans [OF n2(4) same_but_trans [OF n3(4) n'(4)]]] by auto
next
  case (other h offset data s)
  obtain n1 where n1: "tcptoread fd 8 [] n = (8, h, n1)" "inbox fd n1 = s @ rest" "live fd n1" "same_but fd n n1"
    using tcptoread_exact [of fd n h "s @ rest"] other.prems(1,2) other.hyps(1) by (auto simp: other_header_def)
  obtain cmd r len r' where h: "get32bit h = Some (cmd, r)" "get32bit r = Some (len, r')"
  proof -
    obtain cmd where c: "get32bit h = Some (cmd, drop 4 h)" using f32.get_Some [of h] other.hyps(1) by (auto simp: other_header_def)
    obtain len where "get32bit (drop 4 h) = Some (len, drop 4 (drop 4 h))"
      using f32.get_Some [of "drop 4 h"] other.hyps(1) by (auto simp: other_header_def)
    then show ?thesis using that c by blast
  qed
  have "read_blocks crc fd cid offset (length data) acc n = read_blocks crc fd cid offset (length data) acc n1"
    using other.hyps(1) h by (subst read_blocks.simps) (auto simp: n1(1) other_header_def)
  moreover obtain n' where "read_blocks crc fd cid offset (length data) acc n1 = Some (0, acc @ data, n')"
    "inbox fd n' = rest" "live fd n'" "same_but fd n1 n'"
    using other.IH [OF n1(3,2)] other.prems(3) by blast
  ultimately show ?case using same_but_trans [OF n1(4)] by auto
qed

text \<open>The other direction, step by step: what the bytes were when the checks of the loop succeed.\<close>

lemma header_bytes:
  assumes "length d = 8" "get32bit d = Some (cmd, r)" "get32bit r = Some (len, r')"
  shows "d = put32bit cmd @ put32bit len"
  using f32.put_get [OF assms(2)] f32.put_get [OF assms(3)] assms(1) by (simp add: length_put)

lemma status_bytes_read:
  assumes "length d = 9" "get64bit d = Some (t, r)" "get8bit r = Some (st, r')"
  shows "d = put64bit t @ put8bit st"
  using f64.put_get [OF assms(2)] f8.put_get [OF assms(3)] assms(1) by (simp add: length_put)

lemma block_bytes_read:
  assumes "length d = 20" "get64bit d = Some (t, r)" "get16bit r = Some (bno, r1)" "get16bit r1 = Some (boff, r2)"
    "get32bit r2 = Some (bs, r3)" "get32bit r3 = Some (bc, r4)"
  shows "d = put64bit t @ put16bit bno @ put16bit boff @ put32bit bs @ put32bit bc"
  using f64.put_get [OF assms(2)] f16.put_get [OF assms(3)] f16.put_get [OF assms(4)] f32.put_get [OF assms(5)]
    f32.put_get [OF assms(6)] assms(1) by (simp add: length_put)

definition sound_read :: "(bytes \<Rightarrow> nat) \<Rightarrow> int \<Rightarrow> nat \<Rightarrow> nat \<Rightarrow> nat \<Rightarrow> bytes \<Rightarrow> 'w net \<Rightarrow> int \<times> bytes \<times> 'w net \<Rightarrow> bool" where
  "sound_read crc fd cid offset left acc n y \<longleftrightarrow>
     (fst y = 0 \<and> live fd n \<and> offset + left < 2 ^ 32 \<longrightarrow>
      (\<exists>data s. fst (snd y) = acc @ data \<and> length data = left \<and> inbox fd n = s @ inbox fd (snd (snd y))
        \<and> delivers crc cid offset data s \<and> live fd (snd (snd y)) \<and> same_but fd n (snd (snd y))))"

lemma sound_readI:
  assumes "fst (snd y) = acc @ data" "length data = left" "inbox fd n = s @ inbox fd (snd (snd y))"
    "delivers crc cid offset data s" "live fd (snd (snd y))" "same_but fd n (snd (snd y))"
  shows "sound_read crc fd cid offset left acc n y"
  unfolding sound_read_def using assms by blast

lemma read_blocks_sound:
  "read_blocks crc fd cid offset left acc n = Some y \<Longrightarrow> sound_read crc fd cid offset left acc n y"
proof (induction rule: read_blocks.raw_induct [rotated, consumes 1, case_names 1])
  case (1 f crc fd cid offset left acc n y)
  obtain ret1 d1 n1 where t1: "tcptoread fd 8 [] n = (ret1, d1, n1)" by (cases "tcptoread fd 8 [] n")
  show ?case
  proof (cases "fst y = 0 \<and> live fd n \<and> offset + left < 2 ^ 32")
    case True
    then have y0: "fst y = 0" and live: "live fd n" and ol: "offset + left < 2 ^ 32" by auto
    have r1: "ret1 = 8" using 1(2) t1 y0 by (auto simp: ERROR_IO_def ASSERT_def split: if_splits)
    have d1: "length d1 = 8" "inbox fd n = d1 @ inbox fd n1" "live fd n1" "same_but fd n n1"
      using tcptoread_all [OF live, of 8 d1 n1] t1 r1 by auto
    obtain cmd rr where g1: "get32bit d1 = Some (cmd, rr)" using f32.get_Some [of d1] d1(1) by auto
    obtain len r' where g2: "get32bit rr = Some (len, r')"
      using f32.get_Some [of rr] f32.get_iff [OF g1] d1(1) by fastforce
    note h = header_bytes [OF d1(1) g1 g2]
    consider (st) "cmd = CSTOCU_READ_STATUS" | (da) "cmd = CSTOCU_READ_DATA" | (ot) "cmd \<noteq> CSTOCU_READ_STATUS" "cmd \<noteq> CSTOCU_READ_DATA"
      by blast
    then show ?thesis
    proof cases
      case st
      obtain ret2 d2 n2 where t2: "tcptoread fd 9 [] n1 = (ret2, d2, n2)" by (cases "tcptoread fd 9 [] n1")
      have e: "len = 9" "ret2 = 9" using 1(2) t1 r1 g1 g2 st t2 y0 by (auto split: if_splits)
      have d2: "length d2 = 9" "inbox fd n1 = d2 @ inbox fd n2" "live fd n2" "same_but fd n1 n2"
        using tcptoread_all [OF d1(3), of 9 d2 n2] t2 e by auto
      obtain t64 q where g3: "get64bit d2 = Some (t64, q)" using f64.get_Some [of d2] d2(1) by auto
      obtain s0 q' where g4: "get8bit q = Some (s0, q')" using f8.get_Some [of q] f64.get_iff [OF g3] d2(1) by fastforce
      have c: "s0 = 0" "t64 = cid" "left = 0" "snd y = (acc, n2)"
        using 1(2) t1 r1 g1 g2 st t2 e g3 g4 y0 by (auto split: if_splits)
      have "d2 = put64bit cid @ put8bit 0" using status_bytes_read [OF d2(1) g3 g4] c by simp
      then have "d1 @ d2 = read_status cid 0" using h st e(1) d2(1) by (simp add: read_status_def frame_def length_put)
      then have "inbox fd n = read_status cid 0 @ inbox fd n2" using d1(2) d2(2) by simp
      then show ?thesis
        using c d2(3) same_but_trans [OF d1(4) d2(4)] delivers.finished [of crc cid offset] by (auto simp: sound_read_def)
    next
      case da
      have ne: "CSTOCU_READ_DATA \<noteq> CSTOCU_READ_STATUS" by (simp add: read_commands)
      obtain ret2 d2 n2 where t2: "tcptoread fd 20 [] n1 = (ret2, d2, n2)" by (cases "tcptoread fd 20 [] n1")
      have e: "\<not> len < 20" "ret2 = 20" using 1(2) t1 r1 g1 g2 da ne t2 y0 by (auto split: if_splits)
      have d2: "length d2 = 20" "inbox fd n1 = d2 @ inbox fd n2" "live fd n2" "same_but fd n1 n2"
        using tcptoread_all [OF d1(3), of 20 d2 n2] t2 e by auto
      obtain t64 q1 where g3: "get64bit d2 = Some (t64, q1)" using f64.get_Some [of d2] d2(1) by auto
      obtain bno q2 where g4: "get16bit q1 = Some (bno, q2)" using f16.get_Some [of q1] f64.get_iff [OF g3] d2(1) by fastforce
      obtain boff q3 where g5: "get16bit q2 = Some (boff, q3)"
        using f16.get_Some [of q2] f16.get_iff [OF g4] f64.get_iff [OF g3] d2(1) by fastforce
      obtain bs q4 where g6: "get32bit q3 = Some (bs, q4)"
        using f32.get_Some [of q3] f16.get_iff [OF g5] f16.get_iff [OF g4] f64.get_iff [OF g3] d2(1) by fastforce
      obtain bc q5 where g7: "get32bit q4 = Some (bc, q5)"
        using f32.get_Some [of q4] f32.get_iff [OF g6] f16.get_iff [OF g5] f16.get_iff [OF g4] f64.get_iff [OF g3] d2(1) by fastforce
      obtain ret3 d n3 where t3: "tcptoread fd bs [] n2 = (ret3, d, n3)" by (cases "tcptoread fd bs [] n2")
      define breq where "breq = (if left < 65536 - boff then left else 65536 - boff)"
      define bad where "bad \<longleftrightarrow> t64 \<noteq> cid \<or> len \<noteq> (20 + bs) mod 2 ^ 32 \<or> 0 = bs \<or> bno \<noteq> offset div 65536
        \<or> boff \<noteq> offset mod 65536 \<or> bs \<noteq> breq"
      have step: "(if bad then Some (-1, acc, n2) else if ret3 \<noteq> int bs then Some (-1, acc @ d, n3) else if bc \<noteq> crc d
          then Some (-1, acc @ d, n3) else f crc fd cid ((offset + bs) mod 2 ^ 32) (left - bs) (acc @ d) n3) = Some y"
        using 1(2) unfolding bad_def breq_def t1 Let_def split r1 g1 g2 da e t2 g3 g4 g5 g6 g7 t3 bind.bind_lunit
        by (simp only: ne e e(1) [unfolded not_less] if_False if_True simp_thms ASSERT_bind)
      have ok: "\<not> bad" "ret3 = int bs" "bc = crc d" and rec: "f crc fd cid ((offset + bs) mod 2 ^ 32) (left - bs) (acc @ d) n3 = Some y"
        using step y0 by (auto split: if_splits)
      have c: "t64 = cid" "len = (20 + bs) mod 2 ^ 32" "bs \<noteq> 0" "bno = offset div 65536" "boff = offset mod 65536" "bs = breq"
        using ok(1) unfolding bad_def by auto
      have d3: "length d = bs" "inbox fd n2 = d @ inbox fd n3" "live fd n3" "same_but fd n2 n3"
        using tcptoread_all [OF d2(3), of bs d n3] t3 ok(2) c(3) by auto
      have bl: "bs \<le> left" "bs \<le> 65536" "(offset + bs) mod 2 ^ 32 = offset + bs"
        using c(6) ol by (auto simp: breq_def split: if_splits)
      obtain data s where ih: "fst (snd y) = (acc @ d) @ data" "length data = left - bs" "inbox fd n3 = s @ inbox fd (snd (snd y))"
        "delivers crc cid (offset + bs) data s" "live fd (snd (snd y))" "same_but fd n3 (snd (snd y))"
        using 1(1) [OF rec] y0 d3(3) ol bl by (auto simp: sound_read_def)
      have "d2 = put64bit cid @ put16bit (offset div 65536) @ put16bit (offset mod 65536) @ put32bit bs @ put32bit (crc d)"
        using block_bytes_read [OF d2(1) g3 g4 g5 g6 g7] c(1,4,5) ok(3) by simp
      then have m: "block_message crc cid offset d = d1 @ d2 @ d"
        using h da c(2) bl d3(1) by (simp add: block_message_def frame_def length_put)
      have "inbox fd n = (block_message crc cid offset d @ s) @ inbox fd (snd (snd y))"
        by (simp add: m d1(2) d2(2) d3(2) ih(3))
      moreover have "delivers crc cid offset (d @ data) (block_message crc cid offset d @ s)"
      proof (rule delivers.block)
        show "d \<noteq> []" using d3(1) c(3) by auto
        have "length (d @ data) = left" using ih(2) d3(1) bl(1) by simp
        then show "length d = min (length (d @ data)) (65536 - offset mod 65536)"
          unfolding d3(1) c(6) breq_def c(5) by (simp add: min_def)
        show "delivers crc cid (offset + length d) data s" using ih(4) by (simp only: d3(1))
      qed
      moreover have "same_but fd n (snd (snd y))"
        using same_but_trans [OF d1(4) same_but_trans [OF d2(4) same_but_trans [OF d3(4) ih(6)]]] .
      ultimately show ?thesis using ih(1,2,5) d3(1) bl(1) by (intro sound_readI [of y acc "d @ data"]) simp_all
    next
      case ot
      then have rec: "f crc fd cid offset left acc n1 = Some y"
        using 1(2) t1 r1 g1 g2 y0 by (auto split: if_splits)
      then obtain data s where ih: "fst (snd y) = acc @ data" "length data = left" "inbox fd n1 = s @ inbox fd (snd (snd y))"
        "delivers crc cid offset data s" "live fd (snd (snd y))" "same_but fd n1 (snd (snd y))"
        using 1(1) [OF rec] y0 d1(3) ol by (auto simp: sound_read_def)
      have "other_header d1" using ot d1(1) g1 by (auto simp: other_header_def)
      then have "delivers crc cid offset data (d1 @ s)" using ih(4) by (rule delivers.other)
      then show ?thesis
        using ih(1,2,3,5) d1(2) same_but_trans [OF d1(4) ih(6)] by (intro sound_readI [of y acc data _ _ _ "d1 @ s"]) simp_all
    qed
  qed (auto simp: sound_read_def)
qed

section \<open>Reading a range of a chunk\<close>

text \<open>
  A message of another kind that has a body: only its header is taken, and its body is read as if it were the next messages.
  A body that looks like an answer is taken for the answer.
\<close>

lemma other_body_read_as_messages:
  assumes "live fd n" "inbox fd n = frame cmd body @ rest" "cmd < 2 ^ 32" "length body < 2 ^ 32"
    and "cmd \<noteq> CSTOCU_READ_STATUS" "cmd \<noteq> CSTOCU_READ_DATA"
  shows "\<exists>n'. read_blocks crc fd cid offset left acc n = read_blocks crc fd cid offset left acc n'
    \<and> inbox fd n' = body @ rest \<and> live fd n' \<and> same_but fd n n'"
proof -
  obtain n' where n': "tcptoread fd 8 [] n = (8, put32bit cmd @ put32bit (length body), n')" "inbox fd n' = body @ rest"
    "live fd n'" "same_but fd n n'"
    using read_frame_header [OF assms(1,2)] by blast
  have g: "get32bit (put32bit cmd @ r) = Some (cmd, r)" "get32bit (put32bit (length body)) = Some (length body, [])" for r
    using assms(3,4) f32.get_put_small [of "length body" "[]"] by (simp_all add: f32.get_put_small)
  have "read_blocks crc fd cid offset left acc n = read_blocks crc fd cid offset left acc n'"
    using assms(5,6) by (subst read_blocks.simps) (simp add: n'(1) g)
  then show ?thesis using n' by blast
qed

lemma forged_body_accepted:
  assumes "live fd n" "inbox fd n = frame cmd body @ rest" "cmd < 2 ^ 32" "length body < 2 ^ 32"
    and "cmd \<noteq> CSTOCU_READ_STATUS" "cmd \<noteq> CSTOCU_READ_DATA"
    and "delivers crc cid offset data body" "cid < 2 ^ 64" "\<And>d. crc d < 2 ^ 32" "offset + length data < 2 ^ 32"
  shows "\<exists>n'. read_blocks crc fd cid offset (length data) [] n = Some (0, data, n') \<and> inbox fd n' = rest"
proof -
  obtain n1 where n1: "read_blocks crc fd cid offset (length data) [] n = read_blocks crc fd cid offset (length data) [] n1"
    "inbox fd n1 = body @ rest" "live fd n1"
    using other_body_read_as_messages [OF assms(1-6)] by blast
  show ?thesis using read_blocks_complete [OF assms(7-9) n1(3,2) assms(10), of "[]"] n1(1) by auto
qed

text \<open>
  C22: when the chunk server has taken the whole request and the read is within the 32-bit offsets of the protocol, a block
  read succeeds with given data exactly when the server's bytes deliver it: one message for every block of 64 KB that the range
  meets, in order, with the offset, the length and the (32-bit) checksum of its block, and a status without error at the end. It
  then consumes these bytes and no others. In between the messages only bare headers of eight bytes may come, as an idle message has
  one: the loop of \<open>ReadBlock\<close> never takes the body of a message of another kind, so such a body is read as the next messages
  (\<open>other_body_read_as_messages\<close>, \<open>forged_body_accepted\<close>). Where the stream breaks off inside a header, or a data message
  declares fewer than 20 bytes, the assertions of the loop stop the process, which is not a success either.
\<close>

theorem read_block_exact:
  assumes "sys_write P (cs_socket cs) (read_request ch offset left) n = (28, n1)" "live (cs_socket cs) n1"
    and "ch_id ch < 2 ^ 64" "\<And>d. crc d < 2 ^ 32" "offset + left < 2 ^ 32"
  shows "(\<exists>n'. ReadBlock P crc cs ch offset left n = Some (0, data, n') \<and> inbox (cs_socket cs) n' = rest)
    \<longleftrightarrow> length data = left \<and> (\<exists>s. inbox (cs_socket cs) n1 = s @ rest \<and> delivers crc (ch_id ch) offset data s)"
    (is "?read \<longleftrightarrow> ?sent")
proof
  assume ?read
  then obtain n' where "read_blocks crc (cs_socket cs) (ch_id ch) offset left [] n1 = Some (0, data, n')"
    and "inbox (cs_socket cs) n' = rest"
    by (auto simp: ReadBlock_def assms(1))
  from read_blocks_sound [OF this(1)] this(2) show ?sent using assms(2,5) by (auto simp: sound_read_def)
next
  assume ?sent
  then obtain s where s: "inbox (cs_socket cs) n1 = s @ rest" "delivers crc (ch_id ch) offset data s" and left: "left = length data"
    by auto
  show ?read
    unfolding ReadBlock_def assms(1) using read_blocks_complete [OF s(2) assms(3,4,2) s(1), of "[]"] assms(5)
    by (auto simp: left)
qed

text \<open>A server that answers every message with the same bytes.\<close>

definition saying :: "bytes \<Rightarrow> unit peers" where
  "saying s = \<lparr>accepts = \<lambda>a w. (True, w), hears = \<lambda>fd a b w. (int (length b), [s], w)\<rparr>"

definition sample_net :: "unit net" where
  "sample_net = \<lparr>nt_world = (), nt_conn = [4 \<mapsto> \<lparr>cn_addr = (1, 2), cn_segs = []\<rparr>], nt_fds = [], nt_time = 0, nt_heap = \<lambda>_. NUL\<rparr>"

text \<open>Five bytes that cross a block boundary; the checksum is a sample.\<close>

definition sample_blocks :: bytes where
  "sample_blocks = block_message (\<lambda>_. 7) 9 65534 ''he'' @ block_message (\<lambda>_. 7) 9 65536 ''llo'' @ read_status 9 0"

lemma sample_delivers: "delivers (\<lambda>_. 7) 9 65534 ''hello'' sample_blocks"
proof -
  have "delivers (\<lambda>_. 7) 9 65536 ''llo'' (block_message (\<lambda>_. 7) 9 65536 ''llo'' @ read_status 9 0)"
    using delivers.block [of "''llo''" "[]" 65536 "\<lambda>_. 7" 9, OF _ _ delivers.finished] by simp
  then show ?thesis using delivers.block [of "''he''" "''llo''" 65534 "\<lambda>_. 7" 9] by (simp add: sample_blocks_def)
qed

lemma sample_blocks_ne: "sample_blocks \<noteq> []"
  by (simp add: sample_blocks_def block_message_def frame_def put32bit_def)

theorem read_block_exact_witness:
  "\<exists>n'. ReadBlock (saying sample_blocks) (\<lambda>_. 7) \<lparr>cs_socket = 4, cs_ip = 1, cs_port = 2\<rparr>
      \<lparr>ch_id = 9, ch_version = 1, ch_location = []\<rparr> 65534 5 sample_net
    = Some (0, ''hello'', n') \<and> inbox 4 n' = []"
proof -
  let ?cs = "\<lparr>cs_socket = 4, cs_ip = 1, cs_port = 2\<rparr>" and ?ch = "\<lparr>ch_id = 9, ch_version = 1, ch_location = []\<rparr>"
  let ?n1 = "sample_net\<lparr>nt_conn := [4 \<mapsto> \<lparr>cn_addr = (1, 2), cn_segs = [sample_blocks]\<rparr>]\<rparr>"
  have "sys_write (saying sample_blocks) (cs_socket ?cs) (read_request ?ch 65534 5) sample_net = (28, ?n1)"
    by (simp add: sys_write_def saying_def sample_net_def read_request_def length_put)
  moreover have "live (cs_socket ?cs) ?n1" using sample_blocks_ne by (simp add: live_def)
  moreover have "inbox 4 ?n1 = sample_blocks @ []" by (simp add: inbox_def)
  ultimately show ?thesis
    using read_block_exact [of "saying sample_blocks" ?cs ?ch 65534 5 sample_net ?n1 "\<lambda>_. 7" "''hello''" "[]"] sample_delivers
    by auto
qed

end
