(* ===== verification/Pickle.thy ===== *)
theory Pickle
  imports CString LittleEndian "HOL-Library.Monad_Syntax"
begin

text \<open>
  \<open>src/src/base3/pickle.cc\<close> and \<open>pickle.h\<close>: values written one after the other into a growing block of memory and read
  back. Pointers are addresses modulo \<open>2^64\<close>, zero is the null pointer, and a pickle owns the bytes from
  \<open>pk_header\<close> on. A result \<open>None\<close> is an access outside that memory or a failed \<open>CHECK\<close> or \<open>DCHECK\<close>. \<open>realloc\<close> is a parameter: given the old address and the size it fails or yields the new address and the contents
  of fresh bytes. Integers are little-endian, \<open>long\<close> has 64 and \<open>wchar_t\<close> 32 bits.
\<close>

section \<open>State\<close>

type_synonym allocator = "nat \<Rightarrow> nat \<Rightarrow> (nat \<times> (nat \<Rightarrow> char)) option"

record Pickle =
  pk_header :: nat
  pk_mem :: bytes
  header_size :: nat
  capacity :: nat
  variable_buffer_offset :: nat

definition kPayloadUnit :: nat where "kPayloadUnit = 64"
definition kCapacityReadOnly :: nat where "kCapacityReadOnly = 2 ^ 64 - 1"

definition AlignInt :: "nat \<Rightarrow> nat \<Rightarrow> nat" where
  "AlignInt i alignment = szadd i ((alignment - i mod alignment) mod alignment)"

text \<open>Reading and storing bytes of the pickle, the latter at an offset from its start.\<close>

definition fetch :: "Pickle \<Rightarrow> nat \<Rightarrow> nat \<Rightarrow> bytes option" where
  "fetch p a k =
     (if k = 0 then Some []
      else if pk_header p \<noteq> 0 \<and> pk_header p \<le> a \<and> a + k \<le> pk_header p + length (pk_mem p)
      then Some (take k (drop (a - pk_header p) (pk_mem p))) else None)"

definition store :: "nat \<Rightarrow> bytes \<Rightarrow> Pickle \<Rightarrow> Pickle option" where
  "store off d p =
     (if d = [] then Some p
      else if pk_header p \<noteq> 0 \<and> off + length d \<le> length (pk_mem p)
      then Some (p\<lparr>pk_mem := take off (pk_mem p) @ d @ drop (off + length d) (pk_mem p)\<rparr>) else None)"

definition payload_size :: "Pickle \<Rightarrow> nat option" where
  "payload_size p = map_option le_val (fetch p (pk_header p) 4)"

definition set_payload_size :: "nat \<Rightarrow> Pickle \<Rightarrow> Pickle option" where
  "set_payload_size v p = store 0 (le_bytes 4 v) p"

definition payload :: "Pickle \<Rightarrow> nat" where
  "payload p = szadd (pk_header p) (header_size p)"

definition end_of_payload :: "Pickle \<Rightarrow> nat option" where
  "end_of_payload p =
     (if pk_header p \<noteq> 0 then do { k \<leftarrow> payload_size p; Some (szadd (payload p) k) } else Some 0)"

definition Resize :: "allocator \<Rightarrow> nat \<Rightarrow> Pickle \<Rightarrow> (bool \<times> Pickle) option" where
  "Resize R new_capacity p =
     (let n = AlignInt new_capacity kPayloadUnit in
      if capacity p = kCapacityReadOnly then None
      else case R (pk_header p) n of
        None \<Rightarrow> Some (False, p)
      | Some (a, h) \<Rightarrow>
          Some (True, p\<lparr>pk_header := a, pk_mem := take n (pk_mem p) @ map h [length (pk_mem p)..<n], capacity := n\<rparr>))"

section \<open>Construction\<close>

definition Pickle_new :: "allocator \<Rightarrow> Pickle option" where
  "Pickle_new R = do {
     (_, p) \<leftarrow> Resize R kPayloadUnit
       \<lparr>pk_header = 0, pk_mem = [], header_size = 4, capacity = 0, variable_buffer_offset = 0\<rparr>;
     set_payload_size 0 p
   }"

definition Pickle_new_header :: "allocator \<Rightarrow> int \<Rightarrow> Pickle option" where
  "Pickle_new_header R hsize = do {
     DCHECK (4 \<le> to_size hsize);
     DCHECK (hsize \<le> int kPayloadUnit);
     (_, p) \<leftarrow> Resize R kPayloadUnit
       \<lparr>pk_header = 0, pk_mem = [], header_size = AlignInt (to_size hsize) 4, capacity = 0, variable_buffer_offset = 0\<rparr>;
     set_payload_size 0 p
   }"

text \<open>A pickle that refers to given data at a given address; \<open>data_len\<close> is the length of the data.\<close>

definition Pickle_data :: "nat \<Rightarrow> bytes \<Rightarrow> Pickle" where
  "Pickle_data a data =
     (let hs = (if 4 \<le> length data then to_u32 (int (length data) - int (le_val (take 4 data))) else 0);
          hs = (if length data < hs then 0 else hs);
          hs = (if hs \<noteq> AlignInt hs 4 then 0 else hs)
      in \<lparr>pk_header = (if hs = 0 then 0 else a), pk_mem = (if hs = 0 then [] else data), header_size = hs,
          capacity = kCapacityReadOnly, variable_buffer_offset = 0\<rparr>)"

definition Pickle_copy :: "allocator \<Rightarrow> Pickle \<Rightarrow> Pickle option" where
  "Pickle_copy R p = do {
     k \<leftarrow> payload_size p;
     let n = szadd (header_size p) k;
     (resized, q) \<leftarrow> Resize R n
       \<lparr>pk_header = 0, pk_mem = [], header_size = header_size p, capacity = 0, variable_buffer_offset = variable_buffer_offset p\<rparr>;
     if \<not> resized then None
     else do { d \<leftarrow> fetch p (pk_header p) n; store 0 d q }
   }"

definition Pickle_assign :: "allocator \<Rightarrow> Pickle \<Rightarrow> Pickle \<Rightarrow> Pickle option" where
  "Pickle_assign R q p = do {
     let q = (if capacity q = kCapacityReadOnly then q\<lparr>pk_header := 0, pk_mem := [], capacity := 0\<rparr> else q);
     let q = (if header_size q \<noteq> header_size p then q\<lparr>pk_header := 0, pk_mem := [], header_size := header_size p\<rparr> else q);
     k \<leftarrow> payload_size p;
     (resized, q) \<leftarrow> Resize R (szadd (header_size p) k) q;
     if \<not> resized then None
     else do {
       d \<leftarrow> fetch p (pk_header p) (szadd (header_size p) k);
       q \<leftarrow> store 0 d q;
       Some (q\<lparr>variable_buffer_offset := variable_buffer_offset p\<rparr>)
     }
   }"

definition Pickle_size :: "Pickle \<Rightarrow> int option" where
  "Pickle_size p = do { k \<leftarrow> payload_size p; Some (wrap32 (int (szadd (header_size p) k))) }"

section \<open>Reading\<close>

text \<open>
  The result of a reader is the value, if the call returns true, and the iterator. A reader called with a null iterator
  starts at the payload.
\<close>

definition IteratorHasRoomFor :: "Pickle \<Rightarrow> nat \<Rightarrow> int \<Rightarrow> bool option" where
  "IteratorHasRoomFor p it len = do {
     e \<leftarrow> end_of_payload p;
     Some (if len < 0 \<or> it < pk_header p \<or> e < it then False
           else let end_of_region = szadd it (nat len) in it \<le> end_of_region \<and> end_of_region \<le> e)
   }"

definition UpdateIter :: "nat \<Rightarrow> int \<Rightarrow> nat" where
  "UpdateIter it n = szadd it (AlignInt (to_size n) 4)"

definition ReadBytes :: "Pickle \<Rightarrow> nat \<Rightarrow> int \<Rightarrow> (bytes option \<times> nat) option" where
  "ReadBytes p it len = do {
     let it = (if it = 0 then payload p else it);
     ok \<leftarrow> IteratorHasRoomFor p it len;
     if ok then do { d \<leftarrow> fetch p it (nat len); Some (Some d, UpdateIter it len) } else Some (None, it)
   }"

text \<open>The readers of fixed size copy the bytes into the result.\<close>

definition read_fixed :: "nat \<Rightarrow> (nat \<Rightarrow> 'a) \<Rightarrow> Pickle \<Rightarrow> nat \<Rightarrow> ('a option \<times> nat) option" where
  "read_fixed k conv p it = do {
     (d, it) \<leftarrow> ReadBytes p it (int k);
     Some (map_option (\<lambda>d. conv (le_val d)) d, it)
   }"

definition ReadInt :: "Pickle \<Rightarrow> nat \<Rightarrow> (int option \<times> nat) option" where
  "ReadInt = read_fixed 4 (\<lambda>v. wrap32 (int v))"
definition ReadLong :: "Pickle \<Rightarrow> nat \<Rightarrow> (int option \<times> nat) option" where
  "ReadLong = read_fixed 8 (\<lambda>v. wrap64 (int v))"
definition ReadSize :: "Pickle \<Rightarrow> nat \<Rightarrow> (nat option \<times> nat) option" where
  "ReadSize = read_fixed 8 (\<lambda>v. v)"
definition ReadUInt32 :: "Pickle \<Rightarrow> nat \<Rightarrow> (nat option \<times> nat) option" where
  "ReadUInt32 = read_fixed 4 (\<lambda>v. v)"
definition ReadInt64 :: "Pickle \<Rightarrow> nat \<Rightarrow> (int option \<times> nat) option" where
  "ReadInt64 = read_fixed 8 (\<lambda>v. wrap64 (int v))"
definition ReadUInt64 :: "Pickle \<Rightarrow> nat \<Rightarrow> (nat option \<times> nat) option" where
  "ReadUInt64 = read_fixed 8 (\<lambda>v. v)"

text \<open>\<open>ReadBool\<close> checks that the integer in the data is 0 or 1.\<close>

definition ReadBool :: "Pickle \<Rightarrow> nat \<Rightarrow> (bool option \<times> nat) option" where
  "ReadBool p it = do {
     (tmp, it) \<leftarrow> ReadInt p it;
     case tmp of
       None \<Rightarrow> Some (None, it)
     | Some tmp \<Rightarrow> do { DCHECK (0 = tmp \<or> 1 = tmp); Some (Some (tmp \<noteq> 0), it) }
   }"

definition ReadLength :: "Pickle \<Rightarrow> nat \<Rightarrow> (int option \<times> nat) option" where
  "ReadLength p it = do {
     (v, it) \<leftarrow> ReadInt p it;
     Some (case v of Some l \<Rightarrow> if 0 \<le> l then Some l else None | None \<Rightarrow> None, it)
   }"

text \<open>\<open>ReadString\<close> and \<open>ReadWString\<close> do not replace a null iterator: \<open>ReadLength\<close> has done so.\<close>

definition ReadString :: "Pickle \<Rightarrow> nat \<Rightarrow> (string option \<times> nat) option" where
  "ReadString p it = do {
     (len, it) \<leftarrow> ReadLength p it;
     case len of
       None \<Rightarrow> Some (None, it)
     | Some len \<Rightarrow> do {
         ok \<leftarrow> IteratorHasRoomFor p it len;
         if ok then do { d \<leftarrow> fetch p it (nat len); Some (Some d, UpdateIter it len) } else Some (None, it)
       }
   }"

fun wchars :: "bytes \<Rightarrow> nat list" where
  "wchars (a # b # c # d # r) = le_val [a, b, c, d] # wchars r"
| "wchars _ = []"

definition ReadWString :: "Pickle \<Rightarrow> nat \<Rightarrow> (nat list option \<times> nat) option" where
  "ReadWString p it = do {
     (len, it) \<leftarrow> ReadLength p it;
     case len of
       None \<Rightarrow> Some (None, it)
     | Some len \<Rightarrow>
         if (2 ^ 31 - 1) div 4 < len then Some (None, it)
         else do {
           ok \<leftarrow> IteratorHasRoomFor p it (len * 4);
           if ok then do { d \<leftarrow> fetch p it (nat (len * 4)); Some (Some (wchars d), UpdateIter it (len * 4)) } else Some (None, it)
         }
   }"

definition ReadData :: "Pickle \<Rightarrow> nat \<Rightarrow> (bytes option \<times> nat) option" where
  "ReadData p it = do {
     (len, it) \<leftarrow> ReadLength p it;
     case len of None \<Rightarrow> Some (None, it) | Some len \<Rightarrow> ReadBytes p it len
   }"

section \<open>Writing\<close>

text \<open>The place to write to is an offset from the start of the pickle.\<close>

definition BeginWrite :: "allocator \<Rightarrow> nat \<Rightarrow> Pickle \<Rightarrow> (nat option \<times> Pickle) option" where
  "BeginWrite R len p = do {
     k \<leftarrow> payload_size p;
     let offset = AlignInt k 4;
     let new_size = szadd offset len;
     let needed_size = szadd (header_size p) new_size;
     (ok, p) \<leftarrow> (if capacity p < needed_size then Resize R (max (capacity p * 2 mod 2 ^ 64) needed_size) p else Some (True, p));
     if \<not> ok then Some (None, p)
     else do {
       DCHECK (len \<le> 2 ^ 32 - 1);
       p \<leftarrow> set_payload_size (new_size mod 2 ^ 32) p;
       Some (Some (szadd (header_size p) offset), p)
     }
   }"

definition EndWrite :: "nat \<Rightarrow> int \<Rightarrow> Pickle \<Rightarrow> Pickle option" where
  "EndWrite dest len p =
     (let r = to_size len mod 4 in if r \<noteq> 0 then store (szadd dest (to_size len)) (replicate (4 - r) NUL) p else Some p)"

definition WriteBytes :: "allocator \<Rightarrow> bytes \<Rightarrow> int \<Rightarrow> Pickle \<Rightarrow> (bool \<times> Pickle) option" where
  "WriteBytes R data data_len p = do {
     DCHECK (capacity p \<noteq> kCapacityReadOnly);
     (dest, p) \<leftarrow> BeginWrite R (to_size data_len) p;
     case dest of
       None \<Rightarrow> Some (False, p)
     | Some dest \<Rightarrow>
         if length data < to_size data_len then None
         else do {
           p \<leftarrow> store dest (take (to_size data_len) data) p;
           p \<leftarrow> EndWrite dest data_len p;
           Some (True, p)
         }
   }"

definition WriteInt :: "allocator \<Rightarrow> int \<Rightarrow> Pickle \<Rightarrow> (bool \<times> Pickle) option" where
  "WriteInt R v = WriteBytes R (le_bytes 4 (to_u32 v)) 4"
definition WriteBool :: "allocator \<Rightarrow> bool \<Rightarrow> Pickle \<Rightarrow> (bool \<times> Pickle) option" where
  "WriteBool R v = WriteInt R (if v then 1 else 0)"
definition WriteLong :: "allocator \<Rightarrow> int \<Rightarrow> Pickle \<Rightarrow> (bool \<times> Pickle) option" where
  "WriteLong R v = WriteBytes R (le_bytes 8 (to_size v)) 8"
definition WriteSize :: "allocator \<Rightarrow> nat \<Rightarrow> Pickle \<Rightarrow> (bool \<times> Pickle) option" where
  "WriteSize R v = WriteBytes R (le_bytes 8 v) 8"
definition WriteUInt32 :: "allocator \<Rightarrow> nat \<Rightarrow> Pickle \<Rightarrow> (bool \<times> Pickle) option" where
  "WriteUInt32 R v = WriteBytes R (le_bytes 4 v) 4"
definition WriteInt64 :: "allocator \<Rightarrow> int \<Rightarrow> Pickle \<Rightarrow> (bool \<times> Pickle) option" where
  "WriteInt64 R v = WriteBytes R (le_bytes 8 (to_size v)) 8"
definition WriteUInt64 :: "allocator \<Rightarrow> nat \<Rightarrow> Pickle \<Rightarrow> (bool \<times> Pickle) option" where
  "WriteUInt64 R v = WriteBytes R (le_bytes 8 v) 8"

text \<open>The second write of a pair is made only when the first succeeded.\<close>

definition then_write ::
  "(bool \<times> Pickle) option \<Rightarrow> (Pickle \<Rightarrow> (bool \<times> Pickle) option) \<Rightarrow> (bool \<times> Pickle) option" where
  "then_write m f = do { (ok, p) \<leftarrow> m; if ok then f p else Some (False, p) }"

definition WriteString :: "allocator \<Rightarrow> string \<Rightarrow> Pickle \<Rightarrow> (bool \<times> Pickle) option" where
  "WriteString R s p =
     then_write (WriteInt R (wrap32 (int (length s))) p) (WriteBytes R s (wrap32 (int (length s))))"

definition WriteWString :: "allocator \<Rightarrow> nat list \<Rightarrow> Pickle \<Rightarrow> (bool \<times> Pickle) option" where
  "WriteWString R s p =
     then_write (WriteInt R (wrap32 (int (length s))) p)
       (WriteBytes R (concat (map (le_bytes 4) s)) (wrap32 (int (length s * 4 mod 2 ^ 64))))"

definition WriteData :: "allocator \<Rightarrow> bytes \<Rightarrow> int \<Rightarrow> Pickle \<Rightarrow> (bool \<times> Pickle) option" where
  "WriteData R data len p =
     (if len < 0 then Some (False, p) else then_write (WriteInt R len p) (WriteBytes R data len))"

definition BeginWriteData :: "allocator \<Rightarrow> int \<Rightarrow> Pickle \<Rightarrow> (nat option \<times> Pickle) option" where
  "BeginWriteData R len p = do {
     DCHECK (variable_buffer_offset p = 0);
     if len < 0 then Some (None, p)
     else do {
        (ok, p) \<leftarrow> WriteInt R len p;
        if \<not> ok then Some (None, p)
        else do {
          (dest, p) \<leftarrow> BeginWrite R (to_size len) p;
          case dest of
            None \<Rightarrow> Some (None, p)
          | Some dest \<Rightarrow> do {
              p \<leftarrow> EndWrite dest len (p\<lparr>variable_buffer_offset := szsub dest 4\<rparr>);
              Some (Some dest, p)
            }
        }
     }
   }"

text \<open>A new length that is negative or too large is \<open>NOTREACHED\<close>.\<close>

definition TrimWriteData :: "int \<Rightarrow> Pickle \<Rightarrow> Pickle option" where
  "TrimWriteData new_length p = do {
     DCHECK (variable_buffer_offset p \<noteq> 0);
     d \<leftarrow> fetch p (szadd (pk_header p) (variable_buffer_offset p)) 4;
     let cur_length = wrap32 (int (le_val d));
     if new_length < 0 \<or> cur_length < new_length then None
     else do {
       k \<leftarrow> payload_size p;
       p \<leftarrow> set_payload_size (to_u32 (int k - (cur_length - new_length))) p;
       store (variable_buffer_offset p) (le_bytes 4 (to_u32 new_length)) p
     }
   }"

text \<open>The end of the pickle that starts a range of memory, the range given by its address and bytes.\<close>

definition FindNext :: "nat \<Rightarrow> nat \<Rightarrow> bytes \<Rightarrow> nat option option" where
  "FindNext hsize start rng = do {
     DCHECK (hsize = AlignInt hsize 4);
     DCHECK (hsize \<le> kPayloadUnit);
     if length rng < 4 then None
     else let payload_base = szadd start hsize; payload_end = szadd payload_base (le_val (take 4 rng))
          in Some (if payload_end < payload_base then None
                   else if start + length rng < payload_end then None else Some payload_end)
   }"

end
