(* ===== verification/PickleIO.thy ===== *)
theory PickleIO
  imports Pickle
begin

text \<open>
  Pickles: what is written is read back in order, writing stays inside the allocated memory, and reading data
  of unknown origin stays inside that data.
\<close>

section \<open>Alignment\<close>

definition up4 :: "nat \<Rightarrow> nat" where
  "up4 n = (n + 3) div 4 * 4"

lemma up4_bounds: "n \<le> up4 n" "up4 n < n + 4" "4 dvd up4 n"
  unfolding up4_def by presburger+

lemma up4_aligned: "4 dvd n \<Longrightarrow> up4 n = n"
  unfolding up4_def by (auto elim!: dvdE)

lemma up4_add: "4 dvd m \<Longrightarrow> up4 (m + n) = m + up4 n"
  unfolding up4_def by (auto elim!: dvdE simp: add.assoc)

lemma up_to_multiple:
  fixes n k :: nat
  assumes "0 < k"
  shows "n + (k - n mod k) mod k = (n + (k - 1)) div k * k"
proof -
  obtain q r where n: "n = q * k + r" "r < k" using assms by (metis mod_less_divisor div_mult_mod_eq)
  show ?thesis
  proof (cases "r = 0")
    case True
    then have "(n + (k - 1)) div k = (k - 1 + q * k) div k" using n(1) by (simp add: add.commute)
    also have "\<dots> = q + (k - 1) div k" using assms by (intro div_mult_self1) simp
    finally show ?thesis using n True assms by simp
  next
    case False
    then have "(n + (k - 1)) div k = (r - 1 + (q + 1) * k) div k" using n assms by (simp add: algebra_simps)
    also have "\<dots> = (q + 1) + (r - 1) div k" using assms by (intro div_mult_self1) simp
    also have "\<dots> = q + 1" using n(2) by simp
    finally show ?thesis using n False by (simp add: algebra_simps)
  qed
qed

lemma padding: "(4 - n mod 4) mod 4 = up4 n - n"
  using up_to_multiple [of 4 n] by (simp add: up4_def)

lemma AlignInt_up4: "n + 4 < 2 ^ 64 \<Longrightarrow> AlignInt n 4 = up4 n"
  using up4_bounds [of n] by (simp add: AlignInt_def padding szadd_def)

lemma AlignInt_unit:
  assumes "n < 2 ^ 60"
  shows "n \<le> AlignInt n kPayloadUnit \<and> AlignInt n kPayloadUnit < n + 64 \<and> 64 dvd AlignInt n kPayloadUnit"
proof -
  have "n + (64 - n mod 64) mod 64 < n + 64" by simp
  moreover have "64 dvd n + (64 - n mod 64) mod 64" using up_to_multiple [of 64 n] by simp
  ultimately show ?thesis using assms by (simp add: AlignInt_def szadd_def kPayloadUnit_def)
qed

definition pad4 :: "bytes \<Rightarrow> bytes" where
  "pad4 d = d @ replicate (up4 (length d) - length d) NUL"

lemma length_pad4 [simp]: "length (pad4 d) = up4 (length d)"
  using up4_bounds [of "length d"] by (simp add: pad4_def)

text \<open>Pieces written one after the other; only the last one is not padded.\<close>

fun joined :: "bytes list \<Rightarrow> bytes" where
  "joined [] = []"
| "joined [d] = d"
| "joined (d # e # ds) = pad4 d @ joined (e # ds)"

lemma pad4_append: "4 dvd length a \<Longrightarrow> pad4 (a @ b) = a @ pad4 b"
  using up4_add [of "length a" "length b"] by (simp add: pad4_def)

lemma pad4_joined: "pad4 (joined ds) = concat (map pad4 ds)"
proof (induction ds rule: joined.induct)
  case (3 d e ds)
  then show ?case using pad4_append [of "pad4 d"] up4_bounds(3) by simp
qed (simp_all add: pad4_def up4_def)

lemma joined_snoc: "joined (ds @ [d]) = pad4 (joined ds) @ d"
proof (induction ds rule: joined.induct)
  case (3 c e ds)
  then have "joined (e # ds @ [d]) = concat (map pad4 (e # ds)) @ d" by (simp only: append_Cons pad4_joined)
  then show ?case unfolding pad4_joined [of "c # e # ds"] by simp
qed (simp_all add: pad4_def up4_def)

lemma length_joined_append: "length (joined ds) \<le> length (joined (ds @ es))"
proof (induction es rule: rev_induct)
  case (snoc e es)
  have "length (joined (ds @ es)) \<le> length (joined (ds @ es @ [e]))"
    using joined_snoc [of "ds @ es" e] up4_bounds(1) [of "length (joined (ds @ es))"] by simp
  then show ?case using snoc by simp
qed simp

section \<open>Reading\<close>

text \<open>A pickle that holds a payload, and the address of an offset in it.\<close>

definition holds :: "Pickle \<Rightarrow> bytes \<Rightarrow> bool" where
  "holds p body \<longleftrightarrow>
     0 < pk_header p \<and> pk_header p + length (pk_mem p) < 2 ^ 63 \<and> 4 \<le> header_size p \<and> payload_size p = Some (length body)
     \<and> header_size p + length body \<le> length (pk_mem p) \<and> take (length body) (drop (header_size p) (pk_mem p)) = body
     \<and> length body < 2 ^ 32"

definition addr :: "Pickle \<Rightarrow> nat \<Rightarrow> nat" where
  "addr p off = pk_header p + header_size p + off"

lemma holds_payload: "holds p body \<Longrightarrow> payload p = addr p 0"
  by (simp add: holds_def payload_def addr_def szadd_def)

lemma holds_end: "holds p body \<Longrightarrow> end_of_payload p = Some (addr p (length body))"
  by (simp add: holds_def end_of_payload_def payload_def addr_def szadd_def)

lemma room_at:
  assumes "holds p body" "off \<le> length body" "k < 2 ^ 32"
  shows "IteratorHasRoomFor p (addr p off) (int k) = Some (off + k \<le> length body)"
  using assms holds_end [OF assms(1)] by (auto simp: IteratorHasRoomFor_def addr_def szadd_def holds_def Let_def)

lemma fetch_at:
  assumes "holds p body" "off + k \<le> length body"
  shows "fetch p (addr p off) k = Some (take k (drop off body))"
proof -
  have "take k (drop off body) = take k (drop (header_size p + off) (pk_mem p))"
  proof -
    have "drop off body = take (length body - off) (drop (header_size p + off) (pk_mem p))"
      using assms by (metis (no_types, lifting) add.commute drop_drop drop_take holds_def)
    then show ?thesis using assms(2) by (simp add: min_def)
  qed
  then show ?thesis using assms by (simp add: fetch_def addr_def holds_def)
qed

lemma UpdateIter_at:
  "holds p body \<Longrightarrow> off + k \<le> length body \<Longrightarrow> UpdateIter (addr p off) (int k) = addr p (off + up4 k)"
  using up4_bounds [of k] by (simp add: UpdateIter_def holds_def addr_def to_size_def AlignInt_up4 szadd_def nat_mod_distrib)

lemma ReadBytes_at:
  assumes "holds p body" "off + k \<le> length body" "it = addr p off \<or> it = 0 \<and> off = 0"
  shows "ReadBytes p it (int k) = Some (Some (take k (drop off body)), addr p (off + up4 k))"
proof -
  have "k < 2 ^ 32" using assms(1,2) by (simp add: holds_def)
  moreover have "(if it = 0 then payload p else it) = addr p off"
    using assms(1,3) holds_payload [OF assms(1)] by (auto simp: addr_def holds_def)
  ultimately show ?thesis
    using room_at [OF assms(1)] fetch_at [OF assms(1,2)] UpdateIter_at [OF assms(1,2)] assms(2)
    by (simp add: ReadBytes_def)
qed

text \<open>The iterator stands in front of the given pieces.\<close>

definition stands :: "Pickle \<Rightarrow> bytes \<Rightarrow> nat \<Rightarrow> bytes list \<Rightarrow> bool" where
  "stands p body it ds \<longleftrightarrow>
     (\<exists>off. (it = addr p off \<or> it = 0 \<and> off = 0) \<and> (ds \<noteq> [] \<longrightarrow> off \<le> length body \<and> drop off body = joined ds))"

lemma ReadBytes_piece:
  assumes "holds p body" "stands p body it (d # ds)"
  shows "\<exists>it'. ReadBytes p it (int (length d)) = Some (Some d, it') \<and> stands p body it' ds \<and> it' \<noteq> 0"
proof -
  obtain off where off: "it = addr p off \<or> it = 0 \<and> off = 0" "off \<le> length body" "drop off body = joined (d # ds)"
    using assms(2) by (auto simp: stands_def)
  have len: "length body = off + length (joined (d # ds))" using off(2,3) by (metis add.commute diff_add length_drop)
  have pre: "length d \<le> length (joined (d # ds)) \<and> take (length d) (joined (d # ds)) = d"
    by (cases ds) (auto simp: pad4_def up4_bounds)
  have "ReadBytes p it (int (length d)) = Some (Some d, addr p (off + up4 (length d)))"
    using ReadBytes_at [OF assms(1) _ off(1), of "length d"] pre len off(3) by simp
  moreover have "stands p body (addr p (off + up4 (length d))) ds"
  proof (cases ds)
    case (Cons e es)
    then have j: "drop off body = pad4 d @ joined ds" using off(3) by simp
    then have "drop (up4 (length d)) (drop off body) = joined ds" by simp
    then have "drop (off + up4 (length d)) body = joined ds" by (simp add: add.commute)
    moreover have "off + up4 (length d) \<le> length body" using len Cons by simp
    ultimately show ?thesis by (auto simp: stands_def)
  qed (auto simp: stands_def)
  moreover have "addr p (off + up4 (length d)) \<noteq> 0" using assms(1) by (simp add: addr_def holds_def)
  ultimately show ?thesis by blast
qed

section \<open>Values\<close>

text \<open>The kinds of values that can be written and the pieces each one is written as.\<close>

datatype kind = KBool | KInt | KLong | KSize | KUInt32 | KInt64 | KUInt64 | KString | KWString | KData

datatype pval =
  VBool bool | VInt int | VLong int | VSize nat | VUInt32 nat | VInt64 int | VUInt64 nat | VString string
| VWString "nat list" | VData bytes

fun kind_of :: "pval \<Rightarrow> kind" where
  "kind_of (VBool _) = KBool" | "kind_of (VInt _) = KInt" | "kind_of (VLong _) = KLong" | "kind_of (VSize _) = KSize"
| "kind_of (VUInt32 _) = KUInt32" | "kind_of (VInt64 _) = KInt64" | "kind_of (VUInt64 _) = KUInt64"
| "kind_of (VString _) = KString" | "kind_of (VWString _) = KWString" | "kind_of (VData _) = KData"

fun in_range :: "pval \<Rightarrow> bool" where
  "in_range (VBool _) = True"
| "in_range (VInt v) = (- (2 ^ 31) \<le> v \<and> v < 2 ^ 31)"
| "in_range (VLong v) = (- (2 ^ 63) \<le> v \<and> v < 2 ^ 63)"
| "in_range (VSize v) = (v < 2 ^ 64)"
| "in_range (VUInt32 v) = (v < 2 ^ 32)"
| "in_range (VInt64 v) = (- (2 ^ 63) \<le> v \<and> v < 2 ^ 63)"
| "in_range (VUInt64 v) = (v < 2 ^ 64)"
| "in_range (VString s) = (length s < 2 ^ 31)"
| "in_range (VWString s) = (length s < 2 ^ 29 \<and> (\<forall>c \<in> set s. c < 2 ^ 32))"
| "in_range (VData s) = (length s < 2 ^ 31)"

definition int_piece :: "int \<Rightarrow> bytes" where "int_piece v = le_bytes 4 (to_u32 v)"

fun pieces :: "pval \<Rightarrow> bytes list" where
  "pieces (VBool b) = [int_piece (if b then 1 else 0)]"
| "pieces (VInt v) = [int_piece v]"
| "pieces (VLong v) = [le_bytes 8 (to_size v)]"
| "pieces (VSize v) = [le_bytes 8 v]"
| "pieces (VUInt32 v) = [le_bytes 4 v]"
| "pieces (VInt64 v) = [le_bytes 8 (to_size v)]"
| "pieces (VUInt64 v) = [le_bytes 8 v]"
| "pieces (VString s) = [int_piece (int (length s)), s]"
| "pieces (VWString s) = [int_piece (int (length s)), concat (map (le_bytes 4) s)]"
| "pieces (VData s) = [int_piece (int (length s)), s]"

text \<open>The reader and the writer of each kind.\<close>

definition as_val :: "('a \<Rightarrow> pval) \<Rightarrow> ('a option \<times> nat) option \<Rightarrow> (pval option \<times> nat) option" where
  "as_val f = map_option (\<lambda>(r, it). (map_option f r, it))"

fun read_value :: "kind \<Rightarrow> Pickle \<Rightarrow> nat \<Rightarrow> (pval option \<times> nat) option" where
  "read_value KBool p it = as_val VBool (ReadBool p it)"
| "read_value KInt p it = as_val VInt (ReadInt p it)"
| "read_value KLong p it = as_val VLong (ReadLong p it)"
| "read_value KSize p it = as_val VSize (ReadSize p it)"
| "read_value KUInt32 p it = as_val VUInt32 (ReadUInt32 p it)"
| "read_value KInt64 p it = as_val VInt64 (ReadInt64 p it)"
| "read_value KUInt64 p it = as_val VUInt64 (ReadUInt64 p it)"
| "read_value KString p it = as_val VString (ReadString p it)"
| "read_value KWString p it = as_val VWString (ReadWString p it)"
| "read_value KData p it = as_val VData (ReadData p it)"

fun write_value :: "allocator \<Rightarrow> pval \<Rightarrow> Pickle \<Rightarrow> (bool \<times> Pickle) option" where
  "write_value R (VBool v) = WriteBool R v"
| "write_value R (VInt v) = WriteInt R v"
| "write_value R (VLong v) = WriteLong R v"
| "write_value R (VSize v) = WriteSize R v"
| "write_value R (VUInt32 v) = WriteUInt32 R v"
| "write_value R (VInt64 v) = WriteInt64 R v"
| "write_value R (VUInt64 v) = WriteUInt64 R v"
| "write_value R (VString v) = WriteString R v"
| "write_value R (VWString v) = WriteWString R v"
| "write_value R (VData v) = WriteData R v (int (length v))"

text \<open>Reading and writing stop at the first call that returns false.\<close>

fun read_all :: "kind list \<Rightarrow> Pickle \<Rightarrow> nat \<Rightarrow> (pval list option \<times> nat) option" where
  "read_all [] p it = Some (Some [], it)"
| "read_all (k # ks) p it = do {
     (v, it) \<leftarrow> read_value k p it;
     case v of
       None \<Rightarrow> Some (None, it)
     | Some v \<Rightarrow> do { (vs, it) \<leftarrow> read_all ks p it; Some (map_option ((#) v) vs, it) }
   }"

fun write_all :: "allocator \<Rightarrow> pval list \<Rightarrow> Pickle \<Rightarrow> (bool \<times> Pickle) option" where
  "write_all R [] p = Some (True, p)"
| "write_all R (v # vs) p = then_write (write_value R v p) (write_all R vs)"

lemma to_u32_wrap32:
  assumes "- (2 ^ 31) \<le> v" "v < 2 ^ 31"
  shows "wrap32 (int (to_u32 v)) = v"
proof -
  have "int (to_u32 v) = take_bit 32 v" by (simp add: to_u32_def take_bit_eq_mod)
  then show ?thesis using assms unfolding wrap32_def by (simp add: signed_take_bit_take_bit signed_take_bit_int_eq_self)
qed

lemma to_size_wrap64:
  assumes "- (2 ^ 63) \<le> v" "v < 2 ^ 63"
  shows "wrap64 (int (to_size v)) = v"
proof -
  have "int (to_size v) = take_bit 64 v" by (simp add: to_size_def take_bit_eq_mod)
  then show ?thesis using assms unfolding wrap64_def by (simp add: signed_take_bit_take_bit signed_take_bit_int_eq_self)
qed

lemma read_fixed_piece:
  assumes "holds p body" "stands p body it (le_bytes k v # ds)"
  shows "\<exists>it'. read_fixed k conv p it = Some (Some (conv (v mod 256 ^ k)), it') \<and> stands p body it' ds \<and> it' \<noteq> 0"
  using ReadBytes_piece [OF assms] by (auto simp: read_fixed_def le_val_le_bytes)

lemma ReadInt_piece:
  assumes "holds p body" "stands p body it (int_piece v # ds)" "- (2 ^ 31) \<le> v" "v < 2 ^ 31"
  shows "\<exists>it'. ReadInt p it = Some (Some v, it') \<and> stands p body it' ds \<and> it' \<noteq> 0"
  using read_fixed_piece [OF assms(1), of it 4 "to_u32 v" ds "\<lambda>v. wrap32 (int v)"] assms(2) to_u32_bound [of v]
    to_u32_wrap32 [OF assms(3,4)] by (simp add: ReadInt_def int_piece_def)

lemma ReadLength_piece:
  assumes "holds p body" "stands p body it (int_piece (int n) # ds)" "n < 2 ^ 31"
  shows "\<exists>it'. ReadLength p it = Some (Some (int n), it') \<and> stands p body it' ds \<and> it' \<noteq> 0"
  using ReadInt_piece [OF assms(1,2)] assms(3) by (auto simp: ReadLength_def)

text \<open>With an iterator that is not null, the second half of the string readers is \<open>ReadBytes\<close>.\<close>

lemma ReadBytes_not_null:
  "it \<noteq> 0 \<Longrightarrow> IteratorHasRoomFor p it len \<bind> (\<lambda>ok. if ok then fetch p it (nat len) \<bind> (\<lambda>d. Some (Some (f d), UpdateIter it len)) else Some (None, it))
    = map_option (\<lambda>(d, it). (map_option f d, it)) (ReadBytes p it len)"
  by (auto simp: ReadBytes_def split: Option.bind_splits)

lemma le_bytes_4: "le_bytes 4 c = [char_of c, char_of (c div 256), char_of (c div 256 div 256), char_of (c div 256 div 256 div 256)]"
proof -
  have "(4 :: nat) = Suc (Suc (Suc (Suc 0)))" by simp
  then show ?thesis by (simp only: le_bytes.simps)
qed

lemma wchars_le: "\<forall>c \<in> set s. c < 2 ^ 32 \<Longrightarrow> wchars (concat (map (le_bytes 4) s)) = s"
proof (induction s)
  case (Cons c s)
  have "le_val (le_bytes 4 c) = c" using Cons.prems by (simp add: le_val_le_bytes)
  then show ?case using Cons unfolding list.map concat.simps le_bytes_4 by (simp only: append_Cons append_Nil wchars.simps) simp
qed simp

lemma length_wide: "length (concat (map (le_bytes 4) s)) = length s * 4"
  by (induction s) auto

lemma read_bytes_value:
  assumes "holds p body" "stands p body it (int_piece (int (length s)) # s # ds)" "length s < 2 ^ 31"
  shows "\<exists>it'. ReadString p it = Some (Some s, it') \<and> stands p body it' ds"
    and "\<exists>it'. ReadData p it = Some (Some s, it') \<and> stands p body it' ds"
proof -
  obtain it1 where it1: "ReadLength p it = Some (Some (int (length s)), it1)" "stands p body it1 (s # ds)" "it1 \<noteq> 0"
    using ReadLength_piece [OF assms] by blast
  obtain it2 where it2: "ReadBytes p it1 (int (length s)) = Some (Some s, it2)" "stands p body it2 ds"
    using ReadBytes_piece [OF assms(1) it1(2)] by blast
  show "\<exists>it'. ReadString p it = Some (Some s, it') \<and> stands p body it' ds"
    using it1(1) it2 ReadBytes_not_null [OF it1(3), of p "int (length s)" "\<lambda>d. d"] by (simp add: ReadString_def option.map_ident)
  show "\<exists>it'. ReadData p it = Some (Some s, it') \<and> stands p body it' ds"
    using it1(1) it2 by (simp add: ReadData_def)
qed

lemma read_wide_value:
  assumes "holds p body" "stands p body it (int_piece (int (length s)) # concat (map (le_bytes 4) s) # ds)"
    and "length s < 2 ^ 29" "\<forall>c \<in> set s. c < 2 ^ 32"
  shows "\<exists>it'. ReadWString p it = Some (Some s, it') \<and> stands p body it' ds"
proof -
  let ?d = "concat (map (le_bytes 4) s)"
  obtain it1 where it1: "ReadLength p it = Some (Some (int (length s)), it1)" "stands p body it1 (?d # ds)" "it1 \<noteq> 0"
    using ReadLength_piece [OF assms(1,2)] assms(3) by auto
  obtain it2 where it2: "ReadBytes p it1 (int (length s) * 4) = Some (Some ?d, it2)" "stands p body it2 ds"
    using ReadBytes_piece [OF assms(1) it1(2)] by (auto simp: length_wide)
  show ?thesis
    using it1(1) it2 assms(3) ReadBytes_not_null [OF it1(3), of p "int (length s) * 4" wchars] wchars_le [OF assms(4)]
    by (simp add: ReadWString_def)
qed

lemma read_value_pieces:
  assumes p: "holds p body" and "in_range v" "stands p body it (pieces v @ ds)"
  shows "\<exists>it'. read_value (kind_of v) p it = Some (Some v, it') \<and> stands p body it' ds"
  using assms(2,3)
proof (cases v)
  case (VBool b)
  then show ?thesis using ReadInt_piece [OF p, of it "if b then 1 else 0" ds] assms(3) by (cases b) (auto simp: as_val_def ReadBool_def)
next
  case (VLong x)
  then show ?thesis
    using read_fixed_piece [OF p, of it 8 "to_size x" ds "\<lambda>v. wrap64 (int v)"] assms(2,3) to_size_bound [of x] to_size_wrap64 [of x]
    by (auto simp: as_val_def ReadLong_def)
next
  case (VInt64 x)
  then show ?thesis
    using read_fixed_piece [OF p, of it 8 "to_size x" ds "\<lambda>v. wrap64 (int v)"] assms(2,3) to_size_bound [of x] to_size_wrap64 [of x]
    by (auto simp: as_val_def ReadInt64_def)
next
  case (VWString s)
  then show ?thesis using read_wide_value [OF p, of it s ds] assms(2,3) by (auto simp: as_val_def)
next
  case (VInt x)
  then show ?thesis using ReadInt_piece [OF p, of it x ds] assms(2,3) by (auto simp: as_val_def)
next
  case (VSize x)
  then show ?thesis
    using read_fixed_piece [OF p, of it 8 x ds "\<lambda>v. v"] assms(2,3) by (auto simp: as_val_def ReadSize_def)
next
  case (VUInt32 x)
  then show ?thesis
    using read_fixed_piece [OF p, of it 4 x ds "\<lambda>v. v"] assms(2,3) by (auto simp: as_val_def ReadUInt32_def)
next
  case (VUInt64 x)
  then show ?thesis
    using read_fixed_piece [OF p, of it 8 x ds "\<lambda>v. v"] assms(2,3) by (auto simp: as_val_def ReadUInt64_def)
next
  case (VString s)
  then show ?thesis using read_bytes_value(1) [OF p, of it s ds] assms(2,3) by (auto simp: as_val_def)
next
  case (VData s)
  then show ?thesis using read_bytes_value(2) [OF p, of it s ds] assms(2,3) by (auto simp: as_val_def)
qed

lemma read_all_pieces:
  assumes p: "holds p body"
  shows "\<forall>v \<in> set vs. in_range v \<Longrightarrow> stands p body it (concat (map pieces vs)) \<Longrightarrow>
    \<exists>it'. read_all (map kind_of vs) p it = Some (Some vs, it')"
proof (induction vs arbitrary: it)
  case (Cons v vs)
  obtain it1 where it1: "read_value (kind_of v) p it = Some (Some v, it1)" "stands p body it1 (concat (map pieces vs))"
    using read_value_pieces [OF p, of v it "concat (map pieces vs)"] Cons.prems by auto
  then show ?case using Cons.IH [OF _ it1(2)] Cons.prems(1) by auto
qed simp

section \<open>Writing\<close>

text \<open>
  A pickle that was written to: the memory is what was allocated, and behind the header stand the pieces, each padded with zeros
  to a multiple of four.
\<close>

definition alloc_ok :: "allocator \<Rightarrow> bool" where
  "alloc_ok R \<longleftrightarrow> (\<forall>a n b h. R a n = Some (b, h) \<longrightarrow> 0 < b \<and> b + n < 2 ^ 63)"

definition written :: "Pickle \<Rightarrow> bytes list \<Rightarrow> bool" where
  "written p ds \<longleftrightarrow>
     0 < pk_header p \<and> pk_header p + length (pk_mem p) < 2 ^ 63 \<and> capacity p = length (pk_mem p) \<and> length (pk_mem p) < 2 ^ 34
     \<and> 64 dvd length (pk_mem p) \<and> 4 dvd header_size p \<and> 4 \<le> header_size p \<and> header_size p \<le> 64
     \<and> take 4 (pk_mem p) = le_bytes 4 (length (joined ds)) \<and> length (joined ds) < 2 ^ 31
     \<and> header_size p + up4 (length (joined ds)) \<le> length (pk_mem p)
     \<and> take (up4 (length (joined ds))) (drop (header_size p) (pk_mem p)) = pad4 (joined ds)"

lemma written_payload_size: "written p ds \<Longrightarrow> payload_size p = Some (length (joined ds))"
  by (auto simp: written_def payload_size_def fetch_def le_val_le_bytes)

text \<open>Growing keeps what was written and makes room.\<close>

lemma Resize_written:
  assumes "alloc_ok R" "written p ds" "n < 2 ^ 33 + 1" "capacity p < n"
  shows "Resize R n p = Some (False, p)
    \<or> (\<exists>q. Resize R n p = Some (True, q) \<and> written q ds \<and> n \<le> length (pk_mem q) \<and> header_size q = header_size p)"
proof (cases "R (pk_header p) (AlignInt n kPayloadUnit)")
  case None
  then show ?thesis using assms(2) by (simp add: Resize_def written_def kCapacityReadOnly_def)
next
  case (Some bh)
  obtain b h where bh: "bh = (b, h)" by (cases bh)
  let ?n = "AlignInt n kPayloadUnit"
  let ?q = "p\<lparr>pk_header := b, pk_mem := take ?n (pk_mem p) @ map h [length (pk_mem p)..<?n], capacity := ?n\<rparr>"
  have n: "n \<le> ?n" "?n < n + 64" "64 dvd ?n" "?n < 2 ^ 34" using AlignInt_unit [of n] assms(3) by auto
  have le: "length (pk_mem p) < ?n" using assms(2,4) n(1) by (simp add: written_def)
  have q: "pk_mem ?q = pk_mem p @ map h [length (pk_mem p)..<?n]" "length (pk_mem ?q) = ?n" using le by simp_all
  have "Resize R n p = Some (True, ?q)" using Some bh assms(2) by (simp add: Resize_def written_def kCapacityReadOnly_def Let_def)
  moreover have "written ?q ds"
    unfolding written_def q
    using assms(1,2) Some bh n le unfolding alloc_ok_def written_def by auto
  ultimately show ?thesis using n(1) q(2) by auto
qed

lemma store_mem: "0 < pk_header p \<Longrightarrow> off + length d \<le> length (pk_mem p) \<Longrightarrow>
    store off d p = Some (p\<lparr>pk_mem := take off (pk_mem p) @ d @ drop (off + length d) (pk_mem p)\<rparr>)"
  by (simp add: store_def)

lemma store_padded:
  assumes "0 < pk_header p" "off + up4 (length d) \<le> length (pk_mem p)" "length (pk_mem p) < 2 ^ 63"
  shows "store off d p \<bind> EndWrite off (int (length d))
    = Some (p\<lparr>pk_mem := take off (pk_mem p) @ pad4 d @ drop (off + up4 (length d)) (pk_mem p)\<rparr>)"
proof -
  have ld: "length d \<le> up4 (length d)" "off + length d \<le> length (pk_mem p)" using up4_bounds(1) [of "length d"] assms(2) by auto
  let ?p = "p\<lparr>pk_mem := take off (pk_mem p) @ d @ drop (off + length d) (pk_mem p)\<rparr>"
  have s: "store off d p = Some ?p" using store_mem [OF assms(1) ld(2)] .
  have sz: "to_size (int (length d)) = length d" using ld(2) assms(3) by (simp add: to_size_id)
  show ?thesis
  proof (cases "length d mod 4 = 0")
    case True
    then have "up4 (length d) = length d" by (intro up4_aligned) auto
    then show ?thesis using s sz True by (simp add: EndWrite_def Let_def pad4_def)
  next
    case False
    let ?k = "up4 (length d) - length d"
    have k: "4 - length d mod 4 = ?k" using padding [of "length d"] False by simp
    have "store (off + length d) (replicate ?k NUL) ?p
      = Some (p\<lparr>pk_mem := take off (pk_mem p) @ pad4 d @ drop (off + up4 (length d)) (pk_mem p)\<rparr>)"
      using assms(1,2) ld by (subst store_mem) (auto simp: pad4_def min_def add.commute)
    then show ?thesis using s sz False k ld assms(3) by (simp add: EndWrite_def Let_def szadd_def)
  qed
qed

lemma fits_aligned:
  fixes a n m :: nat
  assumes "4 dvd a" "4 dvd m" "a + n \<le> m"
  shows "a + up4 n \<le> m"
proof -
  obtain i j where "a = 4 * i" "m = 4 * j" using assms(1,2) by (auto elim!: dvdE)
  then have "(n + 3) div 4 \<le> (4 * (j - i) + 3) div 4" using assms(3) by (intro div_le_mono) simp
  then show ?thesis using assms(3) \<open>a = 4 * i\<close> \<open>m = 4 * j\<close> by (simp add: up4_def)
qed

lemma BeginWrite_room:
  assumes "alloc_ok R" "written p ds" "up4 (length (joined ds)) + n < 2 ^ 31"
  shows "BeginWrite R n p = Some (None, p)
    \<or> (\<exists>q. BeginWrite R n p = do { q \<leftarrow> set_payload_size (up4 (length (joined ds)) + n) q;
            Some (Some (header_size q + up4 (length (joined ds))), q) }
          \<and> written q ds \<and> header_size q = header_size p \<and> header_size q + up4 (length (joined ds)) + n \<le> length (pk_mem q))"
proof -
  let ?k = "length (joined ds)"
  note w = assms(2) [unfolded written_def]
  have sz: "szadd (up4 ?k) n = up4 ?k + n" "szadd (header_size p) (up4 ?k + n) = header_size p + up4 ?k + n"
    "szadd (header_size p) (up4 ?k) = header_size p + up4 ?k" "AlignInt ?k 4 = up4 ?k"
    using w assms(3) by (auto simp: AlignInt_up4 szadd_def)
  let ?need = "header_size p + up4 ?k + n"
  show ?thesis
  proof (cases "capacity p < ?need")
    case True
    let ?n = "max (capacity p * 2 mod 2 ^ 64) ?need"
    have "?n < 2 ^ 33 + 1" "capacity p < ?n" using True assms(3) w by auto
    from Resize_written [OF assms(1,2) this]
    show ?thesis
    proof
      assume "Resize R ?n p = Some (False, p)"
      then show ?thesis using True by (simp add: BeginWrite_def written_payload_size [OF assms(2)] sz Let_def)
    next
      assume "\<exists>q. Resize R ?n p = Some (True, q) \<and> written q ds \<and> ?n \<le> length (pk_mem q) \<and> header_size q = header_size p"
      then obtain q where q: "Resize R ?n p = Some (True, q)" "written q ds" "?n \<le> length (pk_mem q)" "header_size q = header_size p"
        by blast
      have "BeginWrite R n p = do { q \<leftarrow> set_payload_size (up4 ?k + n) q; Some (Some (szadd (header_size q) (up4 ?k)), q) }"
        using True q(1) assms(3) by (simp add: BeginWrite_def written_payload_size [OF assms(2)] sz Let_def)
      then show ?thesis using q sz by (intro disjI2 exI [of _ q]) (auto simp: set_payload_size_def store_def split: Option.bind_splits)
    qed
  next
    case False
    then have "BeginWrite R n p = do { q \<leftarrow> set_payload_size (up4 ?k + n) p; Some (Some (szadd (header_size q) (up4 ?k)), q) }"
      using assms(3) by (simp add: BeginWrite_def written_payload_size [OF assms(2)] sz Let_def)
    then show ?thesis
      using False assms(2) sz w by (intro disjI2 exI [of _ p]) (auto simp: set_payload_size_def store_def split: Option.bind_splits)
  qed
qed

lemma written_snoc:
  assumes "written q ds" "up4 (length (joined ds)) + length d < 2 ^ 31"
    and "header_size q + up4 (length (joined ds)) + length d \<le> length (pk_mem q)"
    and m: "m = le_bytes 4 (up4 (length (joined ds)) + length d) @ drop 4 (pk_mem q)"
    and off: "off = header_size q + up4 (length (joined ds))"
  shows "off + up4 (length d) \<le> length m
    \<and> written (q\<lparr>pk_mem := take off m @ pad4 d @ drop (off + up4 (length d)) m\<rparr>) (ds @ [d])"
proof -
  let ?k = "length (joined ds)"
  note w = assms(1) [unfolded written_def]
  have lm: "length m = length (pk_mem q)" using m w by auto
  have k: "length (joined (ds @ [d])) = up4 ?k + length d" by (simp add: joined_snoc)
  have up: "up4 (up4 ?k + length d) = up4 ?k + up4 (length d)" using up4_bounds(3) by (rule up4_add)
  have four: "4 dvd length (pk_mem q)" using w dvd_trans [of 4 64 "length (pk_mem q)"] by auto
  have fit: "off + up4 (length d) \<le> length m"
    unfolding off lm by (rule fits_aligned) (use w assms(3) four up4_bounds(3) in auto)
  have "take 4 (take off m @ pad4 d @ drop (off + up4 (length d)) m) = le_bytes 4 (up4 ?k + length d)"
    using w fit by (simp add: off m)
  moreover have "take (up4 ?k) (drop (header_size q) m) = pad4 (joined ds)" using w by (simp add: m)
  then have "take (up4 ?k + up4 (length d)) (drop (header_size q) (take off m @ pad4 d @ drop (off + up4 (length d)) m))
      = pad4 (joined (ds @ [d]))"
    using fit up4_bounds(3) by (simp add: off drop_take joined_snoc pad4_append)
  ultimately show ?thesis
    using w fit lm assms(2) unfolding written_def k up by (simp add: off)
qed

text \<open>A write never touches memory outside the allocation; it fails only when memory cannot be had.\<close>

lemma WriteBytes_written:
  assumes "alloc_ok R" "written p ds" "up4 (length (joined ds)) + length d < 2 ^ 31"
  shows "WriteBytes R d (int (length d)) p = Some (False, p)
    \<or> (\<exists>q. WriteBytes R d (int (length d)) p = Some (True, q) \<and> written q (ds @ [d]) \<and> header_size q = header_size p)"
proof -
  have sz: "to_size (int (length d)) = length d" using assms(3) by (simp add: to_size_id)
  from BeginWrite_room [OF assms] show ?thesis
  proof
    assume "BeginWrite R (length d) p = Some (None, p)"
    then show ?thesis using assms(2) by (simp add: WriteBytes_def sz written_def kCapacityReadOnly_def)
  next
    assume "\<exists>q. BeginWrite R (length d) p = do { q \<leftarrow> set_payload_size (up4 (length (joined ds)) + length d) q;
            Some (Some (header_size q + up4 (length (joined ds))), q) }
          \<and> written q ds \<and> header_size q = header_size p \<and> header_size q + up4 (length (joined ds)) + length d \<le> length (pk_mem q)"
    then obtain q where b: "BeginWrite R (length d) p = do { q \<leftarrow> set_payload_size (up4 (length (joined ds)) + length d) q;
            Some (Some (header_size q + up4 (length (joined ds))), q) }"
      and q: "written q ds" "header_size q = header_size p" "header_size q + up4 (length (joined ds)) + length d \<le> length (pk_mem q)"
      by blast
    define m where "m = le_bytes 4 (up4 (length (joined ds)) + length d) @ drop 4 (pk_mem q)"
    define off where "off = header_size q + up4 (length (joined ds))"
    have h: "0 < pk_header q" "4 \<le> length (pk_mem q)" "length (pk_mem q) < 2 ^ 63" using q(1) by (auto simp: written_def)
    have "set_payload_size (up4 (length (joined ds)) + length d) q = Some (q\<lparr>pk_mem := m\<rparr>)"
      using h by (simp add: set_payload_size_def store_mem m_def)
    then have b': "BeginWrite R (length d) p = Some (Some off, q\<lparr>pk_mem := m\<rparr>)" using b by (simp add: off_def)
    note w = written_snoc [OF q(1) assms(3) q(3) m_def off_def]
    have "store off d (q\<lparr>pk_mem := m\<rparr>) \<bind> EndWrite off (int (length d))
        = Some (q\<lparr>pk_mem := take off m @ pad4 d @ drop (off + up4 (length d)) m\<rparr>)"
      using store_padded [of "q\<lparr>pk_mem := m\<rparr>" off d] w h by (simp add: m_def)
    moreover have "capacity p \<noteq> kCapacityReadOnly" using assms(2) by (simp add: written_def kCapacityReadOnly_def)
    ultimately have "WriteBytes R d (int (length d)) p = Some (True, q\<lparr>pk_mem := take off m @ pad4 d @ drop (off + up4 (length d)) m\<rparr>)"
      unfolding WriteBytes_def sz b' by (auto split: Option.bind_splits)
    then show ?thesis using w q(2) by auto
  qed
qed

text \<open>What a sequence of writes may come to: failure, or the pickle with all its pieces.\<close>

definition wrote :: "Pickle \<Rightarrow> bytes list \<Rightarrow> (bool \<times> Pickle) option \<Rightarrow> bool" where
  "wrote p ds r \<longleftrightarrow> (\<exists>q. r = Some (False, q)) \<or> (\<exists>q. r = Some (True, q) \<and> written q ds \<and> header_size q = header_size p)"

lemma wrote_piece:
  assumes "alloc_ok R" "written p ds" "length (joined (ds @ [d])) < 2 ^ 31" "n = int (length d)"
  shows "wrote p (ds @ [d]) (WriteBytes R d n p)"
  using WriteBytes_written [OF assms(1,2), of d] assms(3,4) by (auto simp: wrote_def joined_snoc)

lemma wrote_then:
  assumes "wrote p ds m" "\<And>q. written q ds \<Longrightarrow> header_size q = header_size p \<Longrightarrow> wrote q es (f q)"
  shows "wrote p es (then_write m f)"
proof (cases "\<exists>q. m = Some (True, q)")
  case True
  then obtain q where q: "m = Some (True, q)" "written q ds" "header_size q = header_size p" using assms(1) by (auto simp: wrote_def)
  then show ?thesis using assms(2) [OF q(2,3)] by (auto simp: wrote_def then_write_def)
qed (use assms(1) in \<open>auto simp: wrote_def then_write_def\<close>)

lemma bounded_prefix: "length (joined (ds @ es @ fs)) < 2 ^ 31 \<Longrightarrow> length (joined (ds @ es)) < 2 ^ 31"
  using length_joined_append [of "ds @ es" fs] by simp

lemma wrote_pair:
  assumes "alloc_ok R" "written p ds" "length (joined (ds @ [int_piece n, d])) < 2 ^ 31" "k = int (length d)"
  shows "wrote p (ds @ [int_piece n, d]) (then_write (WriteInt R n p) (WriteBytes R d k))"
proof (rule wrote_then)
  show "wrote p (ds @ [int_piece n]) (WriteInt R n p)"
    unfolding WriteInt_def int_piece_def
    by (rule wrote_piece [OF assms(1,2)]) (use bounded_prefix [of ds "[int_piece n]" "[d]"] assms(3) in \<open>simp_all add: int_piece_def\<close>)
  fix q
  assume "written q (ds @ [int_piece n])"
  from wrote_piece [OF assms(1) this _ assms(4)] show "wrote q (ds @ [int_piece n, d]) (WriteBytes R d k q)" using assms(3) by simp
qed

lemma write_value_written:
  assumes R: "alloc_ok R" "written p ds" and "in_range v" "length (joined (ds @ pieces v)) < 2 ^ 31"
  shows "wrote p (ds @ pieces v) (write_value R v p)"
proof (cases v)
  case (VString s)
  have "wrap32 (int (length s)) = int (length s)" using assms(3) VString by (simp add: wrap32_id)
  then show ?thesis using wrote_pair [OF R, of "int (length s)" s] assms(4) VString by (simp add: WriteString_def)
next
  case (VWString s)
  have "wrap32 (int (length s)) = int (length s)" "wrap32 (int (length s * 4 mod 2 ^ 64)) = int (length s) * 4"
    using assms(3) VWString by (simp_all add: wrap32_id)
  then show ?thesis
    using wrote_pair [OF R, of "int (length s)" "concat (map (le_bytes 4) s)" "int (length s) * 4"] assms(4) VWString
    by (simp add: WriteWString_def length_wide)
next
  case (VData s)
  then show ?thesis using wrote_pair [OF R, of "int (length s)" s] assms(4) by (simp add: WriteData_def)
qed (use assms(4) in \<open>auto intro!: wrote_piece [OF R] simp: WriteBool_def WriteInt_def int_piece_def WriteLong_def WriteSize_def
    WriteUInt32_def WriteInt64_def WriteUInt64_def\<close>)

lemma write_all_written:
  assumes R: "alloc_ok R"
  shows "written p ds \<Longrightarrow> \<forall>v \<in> set vs. in_range v \<Longrightarrow> length (joined (ds @ concat (map pieces vs))) < 2 ^ 31 \<Longrightarrow>
    wrote p (ds @ concat (map pieces vs)) (write_all R vs p)"
proof (induction vs arbitrary: p ds)
  case (Cons v vs)
  have "length (joined (ds @ pieces v)) < 2 ^ 31" using bounded_prefix [of ds "pieces v"] Cons.prems(3) by simp
  then have "wrote p (ds @ pieces v) (write_value R v p)" using write_value_written [OF R Cons.prems(1)] Cons.prems(2) by simp
  then show ?case using Cons.IH [of _ "ds @ pieces v"] Cons.prems(2,3) by (auto intro: wrote_then)
qed (simp add: wrote_def)

section \<open>Whole pickles\<close>

lemma written_new:
  assumes "alloc_ok R" "Pickle_new_header R hs = Some p" "4 \<le> hs" "hs \<le> 60"
  shows "written p []"
proof -
  let ?p0 = "\<lparr>pk_header = 0, pk_mem = [], header_size = AlignInt (to_size hs) 4, capacity = 0, variable_buffer_offset = 0\<rparr>"
  have hs: "AlignInt (to_size hs) 4 = up4 (nat hs)" using assms(3,4) by (simp add: to_size_id AlignInt_up4)
  have ck: "4 \<le> to_size hs" "hs \<le> int kPayloadUnit" using assms(3,4) by (simp_all add: to_size_id kPayloadUnit_def)
  have n: "AlignInt kPayloadUnit kPayloadUnit = 64" by (simp add: AlignInt_def kPayloadUnit_def szadd_def)
  have b: "4 dvd up4 (nat hs)" "4 \<le> up4 (nat hs)" "up4 (nat hs) \<le> 64"
    using assms(3,4) up4_bounds [of "nat hs"] by auto
  show ?thesis
  proof (cases "R 0 64")
    case None
    then show ?thesis
      using assms(2) ck by (simp add: Pickle_new_header_def Resize_def n kCapacityReadOnly_def set_payload_size_def store_def le_bytes_4)
  next
    case (Some ah)
    obtain a h where ah: "ah = (a, h)" by (cases ah)
    have a: "0 < a" "a + 64 < 2 ^ 63" using assms(1) Some ah unfolding alloc_ok_def by blast+
    have "p = ?p0\<lparr>pk_header := a, pk_mem := le_bytes 4 0 @ drop 4 (map h [0..<64]), capacity := 64\<rparr>"
      using assms(2) Some ah a ck
      by (simp add: Pickle_new_header_def Resize_def n kCapacityReadOnly_def set_payload_size_def store_mem Let_def del: upt_Suc)
    then show ?thesis using a b hs by (simp add: written_def pad4_def up4_def del: upt_Suc)
  qed
qed

lemma Pickle_new_is: "Pickle_new R = Pickle_new_header R 4"
  by (simp add: Pickle_new_def Pickle_new_header_def AlignInt_def szadd_def to_size_def kPayloadUnit_def)

text \<open>The data of a written pickle is recognised with its header and payload.\<close>

lemma Pickle_data_holds:
  assumes "written p ds" "0 < a" "a < 2 ^ 62" "header_size p + length (joined ds) < 2 ^ 31"
  shows "Pickle_size p = Some (int (header_size p + length (joined ds)))
    \<and> holds (Pickle_data a (take (header_size p + length (joined ds)) (pk_mem p))) (joined ds)"
proof -
  let ?k = "length (joined ds)" and ?h = "header_size p"
  let ?d = "take (?h + ?k) (pk_mem p)"
  note w = assms(1) [unfolded written_def]
  have ld: "length ?d = ?h + ?k" using w up4_bounds(1) [of ?k] by auto
  have v: "le_val (take 4 ?d) = ?k" using w by (auto simp: min_def le_val_le_bytes)
  have h: "to_u32 (int (?h + ?k) - int ?k) = ?h" "AlignInt ?h 4 = ?h" "?h \<noteq> 0"
    using w by (auto simp: to_u32_id AlignInt_up4 up4_aligned)
  have q: "Pickle_data a ?d = \<lparr>pk_header = a, pk_mem = ?d, header_size = ?h, capacity = kCapacityReadOnly, variable_buffer_offset = 0\<rparr>"
    unfolding Pickle_data_def ld v h(1) Let_def using w h(2,3) by auto
  have "take ?k (drop ?h ?d) = take ?k (take (up4 ?k) (drop ?h (pk_mem p)))"
    using up4_bounds(1) [of ?k] by (simp add: drop_take min_def)
  also have "\<dots> = joined ds" using w by (simp add: pad4_def)
  finally have body: "take ?k (drop ?h ?d) = joined ds" .
  have "payload_size (Pickle_data a ?d) = Some ?k"
    using assms(2) ld v w unfolding q by (simp add: payload_size_def fetch_def)
  then have "holds (Pickle_data a ?d) (joined ds)"
    using assms(2,3,4) ld body w unfolding holds_def q by simp
  moreover have "Pickle_size p = Some (int (?h + ?k))"
    using assms(4) by (simp add: Pickle_size_def written_payload_size [OF assms(1)] szadd_def wrap32_id)
  ultimately show ?thesis by blast
qed

text \<open>
  C25: what is written to a pickle is read back. Writing any values to a new pickle stays inside its
  memory; when all writes succeed, a pickle made from its data and size yields the same values when they are read in the
  order in which they were written.
\<close>

theorem pickle_round_trip:
  assumes "alloc_ok R" "Pickle_new_header R hs = Some p" "4 \<le> hs" "hs \<le> 60" "\<forall>v \<in> set vs. in_range v"
    and "length (joined (concat (map pieces vs))) < 2 ^ 31 - 64" "0 < a" "a < 2 ^ 62"
  shows "\<exists>ok q. write_all R vs p = Some (ok, q) \<and> (ok \<longrightarrow>
    (\<exists>n it. Pickle_size q = Some n \<and> read_all (map kind_of vs) (Pickle_data a (take (nat n) (pk_mem q))) 0 = Some (Some vs, it)))"
proof -
  let ?ds = "concat (map pieces vs)"
  have "wrote p ([] @ ?ds) (write_all R vs p)"
    using write_all_written [OF assms(1) written_new [OF assms(1-4)] assms(5)] assms(6) by simp
  then consider q where "write_all R vs p = Some (False, q)" | q where "write_all R vs p = Some (True, q)" "written q ?ds"
    by (auto simp: wrote_def)
  then show ?thesis
  proof cases
    case (2 q)
    then have "header_size q + length (joined ?ds) < 2 ^ 31" using assms(6) by (simp add: written_def)
    from Pickle_data_holds [OF 2(2) assms(7,8) this]
    have size: "Pickle_size q = Some (int (header_size q + length (joined ?ds)))"
      and holds: "holds (Pickle_data a (take (header_size q + length (joined ?ds)) (pk_mem q))) (joined ?ds)" by auto
    have "stands (Pickle_data a (take (header_size q + length (joined ?ds)) (pk_mem q))) (joined ?ds) 0 ?ds"
      unfolding stands_def by (intro exI [of _ 0]) simp
    then obtain it where "read_all (map kind_of vs) (Pickle_data a (take (header_size q + length (joined ?ds)) (pk_mem q))) 0 = Some (Some vs, it)"
      using read_all_pieces [OF holds assms(5)] by blast
    then show ?thesis using 2(1) size by (metis nat_int)
  qed auto
qed

definition sample_alloc :: allocator where
  "sample_alloc a n = (if n \<le> 1000 then Some (4096, \<lambda>_. CHR ''x'') else None)"

definition sample_values :: "pval list" where
  "sample_values = [VBool True, VInt (-5), VString ''abc'', VWString [960], VUInt64 7, VData ''de'']"

theorem pickle_round_trip_witness:
  "\<exists>p ok q. Pickle_new_header sample_alloc 6 = Some p \<and> write_all sample_alloc sample_values p = Some (ok, q) \<and> (ok \<longrightarrow>
    (\<exists>n it. Pickle_size q = Some n
      \<and> read_all (map kind_of sample_values) (Pickle_data 8192 (take (nat n) (pk_mem q))) 0 = Some (Some sample_values, it)))"
proof -
  have R: "alloc_ok sample_alloc" by (simp add: alloc_ok_def sample_alloc_def)
  have "\<exists>p. Pickle_new_header sample_alloc 6 = Some p"
    by (simp add: Pickle_new_header_def Resize_def sample_alloc_def AlignInt_def szadd_def kPayloadUnit_def kCapacityReadOnly_def
        to_size_def set_payload_size_def store_mem Let_def del: upt_Suc)
  then obtain p where p: "Pickle_new_header sample_alloc 6 = Some p" by blast
  have "length (joined (concat (map pieces sample_values))) < 2 ^ 31 - 64"
    by (simp add: sample_values_def int_piece_def up4_def)
  then show ?thesis
    using pickle_round_trip [OF R p, of sample_values 8192] p by (auto simp: sample_values_def)
qed

section \<open>Data of unknown origin\<close>

lemma Pickle_data_end:
  assumes "0 < a" "a + length data < 2 ^ 63" "length data < 2 ^ 31"
  defines "q \<equiv> Pickle_data a data"
  shows "pk_header q = 0 \<and> end_of_payload q = Some 0
    \<or> pk_header q = a \<and> pk_mem q = data \<and> end_of_payload q = Some (a + length data)"
proof (cases "pk_header q = 0")
  case False
  let ?v = "le_val (take 4 data)"
  have q: "4 \<le> length data" "header_size q \<le> length data" "header_size q = to_u32 (int (length data) - int ?v)"
    "pk_header q = a" "pk_mem q = data"
    using False by (auto simp: q_def Pickle_data_def Let_def split: if_splits)
  have v: "?v < 2 ^ 32" using le_val_less [of "take 4 data"] q(1) by (simp add: min_absorb2)
  have "?v \<le> length data"
  proof (rule ccontr)
    assume "\<not> ?v \<le> length data"
    then have "(int (length data) - int ?v) mod 2 ^ 32 = int (length data) - int ?v + 2 ^ 32"
      using v by (intro mod_pos_pos_trivial [THEN trans [OF mod_add_self2 [symmetric]]]) auto
    then show False using q(2,3) v by (simp add: to_u32_def)
  qed
  then have "header_size q + ?v = length data" using q(3) assms(3) by (simp add: to_u32_id)
  moreover have "payload_size q = Some ?v" using q(1,4,5) assms(1) by (simp add: payload_size_def fetch_def)
  ultimately have "end_of_payload q = Some (a + length data)"
    using q(4) assms(1,2) by (simp add: end_of_payload_def payload_def szadd_def)
  then show ?thesis using q by simp
qed (simp add: end_of_payload_def)

lemma room_inside:
  assumes "0 < a" "a + length data < 2 ^ 63" "length data < 2 ^ 31" "len < 2 ^ 32"
  shows "\<exists>ok. IteratorHasRoomFor (Pickle_data a data) it len = Some ok
    \<and> (ok \<longrightarrow> (\<exists>d. fetch (Pickle_data a data) it (nat len) = Some d))"
  using Pickle_data_end [OF assms(1-3)]
proof
  assume "pk_header (Pickle_data a data) = 0 \<and> end_of_payload (Pickle_data a data) = Some 0"
  then show ?thesis using assms(4) by (auto simp: IteratorHasRoomFor_def fetch_def szadd_def Let_def)
next
  assume q: "pk_header (Pickle_data a data) = a \<and> pk_mem (Pickle_data a data) = data
    \<and> end_of_payload (Pickle_data a data) = Some (a + length data)"
  show ?thesis
  proof (cases "it \<le> a + length data")
    case True
    then have "szadd it (nat len) = it + nat len" using assms(2,4) by (simp add: szadd_def)
    then show ?thesis using q True assms(1) by (auto simp: IteratorHasRoomFor_def fetch_def Let_def)
  qed (use q in \<open>auto simp: IteratorHasRoomFor_def\<close>)
qed

lemma ReadBytes_inside:
  assumes "0 < a" "a + length data < 2 ^ 63" "length data < 2 ^ 31" "len < 2 ^ 32"
  shows "\<exists>r. ReadBytes (Pickle_data a data) it len = Some r"
  using room_inside [OF assms, of "if it = 0 then payload (Pickle_data a data) else it"] by (auto simp: ReadBytes_def Let_def)

lemma read_fixed_inside:
  assumes "0 < a" "a + length data < 2 ^ 63" "length data < 2 ^ 31" "k < 2 ^ 32"
  shows "\<exists>r it'. read_fixed k conv (Pickle_data a data) it = Some (r, it')"
  using ReadBytes_inside [OF assms(1-3), of "int k" it] assms(4) by (auto simp: read_fixed_def)

lemma ReadLength_inside:
  assumes "0 < a" "a + length data < 2 ^ 63" "length data < 2 ^ 31"
  shows "\<exists>r it'. ReadLength (Pickle_data a data) it = Some (r, it') \<and> (\<forall>l. r = Some l \<longrightarrow> l < 2 ^ 31)"
proof -
  obtain r it' where r: "ReadInt (Pickle_data a data) it = Some (r, it')"
    using read_fixed_inside [OF assms, of 4 "\<lambda>v. wrap32 (int v)" it] by (auto simp: ReadInt_def)
  have "\<forall>l. r = Some l \<longrightarrow> l < 2 ^ 31"
    using r wrap32_bounds(2) by (auto simp: ReadInt_def read_fixed_def split: Option.bind_splits prod.splits)
  then show ?thesis using r by (auto simp: ReadLength_def split: option.splits)
qed

lemma as_val_Some: "\<exists>x. r = Some x \<Longrightarrow> \<exists>y it. as_val f r = Some (y, it)"
  by (auto simp: as_val_def)

text \<open>The only call that may not return is the one that reads as a truth value an integer that is neither 0 nor 1.\<close>

definition odd_bool :: "kind \<Rightarrow> Pickle \<Rightarrow> nat \<Rightarrow> bool" where
  "odd_bool k p it \<longleftrightarrow> k = KBool \<and> (\<exists>v it'. ReadInt p it = Some (Some v, it') \<and> v \<noteq> 0 \<and> v \<noteq> 1)"

lemma read_value_inside:
  assumes d: "0 < a" "a + length data < 2 ^ 63" "length data < 2 ^ 31"
  shows "read_value k (Pickle_data a data) it = None \<longleftrightarrow> odd_bool k (Pickle_data a data) it"
proof (cases "k = KBool")
  case True
  obtain r it' where "ReadInt (Pickle_data a data) it = Some (r, it')"
    using read_fixed_inside [OF d, of 4 "\<lambda>v. wrap32 (int v)" it] by (auto simp: ReadInt_def)
  then show ?thesis using True by (auto simp: odd_bool_def ReadBool_def as_val_def split: option.splits)
next
  case False
  obtain r1 it1 where l: "ReadLength (Pickle_data a data) it = Some (r1, it1)" "\<And>l. r1 = Some l \<Longrightarrow> l < 2 ^ 31"
    using ReadLength_inside [OF d] by blast
  have b: "\<exists>ok. IteratorHasRoomFor (Pickle_data a data) it1 n = Some ok
      \<and> (ok \<longrightarrow> (\<exists>d. fetch (Pickle_data a data) it1 (nat n) = Some d))" if "n < 2 ^ 32" for n
    using room_inside [OF d that] .
  have s: "\<exists>x. ReadString (Pickle_data a data) it = Some x" "\<exists>x. ReadData (Pickle_data a data) it = Some x"
    "\<exists>x. ReadWString (Pickle_data a data) it = Some x"
    using l b [of "the r1"] b [of "the r1 * 4"] ReadBytes_inside [OF d, of "the r1" it1]
    by (auto simp: ReadString_def ReadData_def ReadWString_def split: option.splits)
  have "\<exists>y it'. read_value k (Pickle_data a data) it = Some (y, it')"
    using s False read_fixed_inside [OF d, of 8 "\<lambda>v. v" it] read_fixed_inside [OF d, of 4 "\<lambda>v. v" it]
      read_fixed_inside [OF d, of 8 "\<lambda>v. wrap64 (int v)" it] read_fixed_inside [OF d, of 4 "\<lambda>v. wrap32 (int v)" it]
    by (cases k) (auto intro!: as_val_Some simp: ReadInt_def ReadLong_def ReadSize_def ReadUInt32_def ReadInt64_def ReadUInt64_def)
  then show ?thesis using False by (auto simp: odd_bool_def)
qed

lemma read_all_inside:
  assumes d: "0 < a" "a + length data < 2 ^ 63" "length data < 2 ^ 31"
  shows "read_all ks (Pickle_data a data) it = None \<longleftrightarrow>
    (\<exists>ks1 k ks2 vs it1. ks = ks1 @ k # ks2 \<and> read_all ks1 (Pickle_data a data) it = Some (Some vs, it1)
      \<and> odd_bool k (Pickle_data a data) it1)"
proof (induction ks arbitrary: it)
  case (Cons k ks)
  let ?p = "Pickle_data a data"
  define stop where "stop ks it \<longleftrightarrow> (\<exists>ks1 k ks2 vs it1. ks = ks1 @ k # ks2 \<and> read_all ks1 ?p it = Some (Some vs, it1) \<and> odd_bool k ?p it1)"
    for ks it
  have ih: "read_all ks ?p it = None \<longleftrightarrow> stop ks it" for it using Cons [of it] by (simp only: stop_def)
  have "read_all (k # ks) ?p it = None \<longleftrightarrow> stop (k # ks) it"
  proof (cases "read_value k ?p it")
    case None
    then have "odd_bool k ?p it" using read_value_inside [OF d] by blast
    then have "stop (k # ks) it" unfolding stop_def by (intro exI [of _ "[]"]) auto
    then show ?thesis using None by simp
  next
    case (Some r)
    have first: "\<not> odd_bool k ?p it" using Some read_value_inside [OF d, of k it] by simp
    obtain v it1 where r: "r = (v, it1)" by (cases r)
    have "stop (k # ks) it \<longleftrightarrow> v \<noteq> None \<and> stop ks it1"
    proof
      assume "stop (k # ks) it"
      then obtain ks1 j ks2 vs it2 where s: "k # ks = ks1 @ j # ks2" "read_all ks1 ?p it = Some (Some vs, it2)" "odd_bool j ?p it2"
        unfolding stop_def by blast
      obtain ks1' where k1: "ks1 = k # ks1'" using s first by (cases ks1) auto
      have "v \<noteq> None \<and> (\<exists>vs. read_all ks1' ?p it1 = Some (Some vs, it2))"
        using s(2) k1 Some r by (auto split: option.splits Option.bind_splits)
      then show "v \<noteq> None \<and> stop ks it1" using s(1,3) k1 unfolding stop_def by auto
    next
      assume "v \<noteq> None \<and> stop ks it1"
      then obtain x ks1 j ks2 vs it2 where s: "v = Some x" "ks = ks1 @ j # ks2" "read_all ks1 ?p it1 = Some (Some vs, it2)" "odd_bool j ?p it2"
        unfolding stop_def by blast
      then have "read_all (k # ks1) ?p it = Some (Some (x # vs), it2)" using Some r by simp
      then show "stop (k # ks) it" using s(2,4) unfolding stop_def by (intro exI [of _ "k # ks1"]) auto
    qed
    moreover have "read_all (k # ks) ?p it = None \<longleftrightarrow> v \<noteq> None \<and> read_all ks ?p it1 = None"
      using Some r by (cases v) (auto split: option.splits Option.bind_splits)
    ultimately show ?thesis using ih [of it1] by blast
  qed
  then show ?case by (simp only: stop_def)
qed simp

text \<open>
  C26: reading from a block of data that may hold anything (a wrong size in its header, lengths that are negative or too
  large) never touches a byte outside the block, whatever kinds of values are read and wherever the iterator stands:
  every call returns, with a value or with false, but for one: \<open>ReadBool\<close> stops the process, by its debug check, exactly when
  the integer it finds is neither 0 nor 1. (The block is shorter than 2 GB and does not lie at the null pointer.)
\<close>

theorem pickle_read_safe:
  assumes "0 < a" "a + length data < 2 ^ 63" "length data < 2 ^ 31"
  shows "read_all ks (Pickle_data a data) it = None \<longleftrightarrow>
    (\<exists>ks1 ks2 vs it1 v it2. ks = ks1 @ KBool # ks2 \<and> read_all ks1 (Pickle_data a data) it = Some (Some vs, it1)
      \<and> ReadInt (Pickle_data a data) it1 = Some (Some v, it2) \<and> v \<noteq> 0 \<and> v \<noteq> 1)"
  unfolding read_all_inside [OF assms] odd_bool_def by blast

text \<open>A string whose length is too large, and an integer that is no truth value.\<close>

theorem pickle_read_safe_witness:
  "(\<exists>vs it. read_all [KString, KInt] (Pickle_data 4096 (le_bytes 4 8 @ le_bytes 4 100 @ ''abcd'')) 0 = Some (vs, it))
    \<and> read_all [KInt, KBool] (Pickle_data 4096 (le_bytes 4 8 @ le_bytes 4 100 @ le_bytes 4 2)) 0 = None"
proof
  let ?p = "Pickle_data 4096 (le_bytes 4 8 @ le_bytes 4 100 @ ''abcd'')"
  have "\<not> (\<exists>ks1 ks2. [KString, KInt] = ks1 @ KBool # ks2)" by (auto simp: append_eq_Cons_conv Cons_eq_append_conv)
  then have "read_all [KString, KInt] ?p 0 \<noteq> None"
    using pickle_read_safe [of 4096 "le_bytes 4 8 @ le_bytes 4 100 @ ''abcd''" "[KString, KInt]" 0] by auto
  then show "\<exists>vs it. read_all [KString, KInt] ?p 0 = Some (vs, it)" by auto
  let ?q = "Pickle_data 4096 (le_bytes 4 8 @ le_bytes 4 100 @ le_bytes 4 2)"
  let ?body = "le_bytes 4 100 @ le_bytes 4 2"
  have q: "?q = \<lparr>pk_header = 4096, pk_mem = le_bytes 4 8 @ ?body, header_size = 4, capacity = kCapacityReadOnly, variable_buffer_offset = 0\<rparr>"
    by (simp add: Pickle_data_def le_val_le_bytes to_u32_id AlignInt_def szadd_def)
  have "payload_size ?q = Some 8" by (simp add: q payload_size_def fetch_def le_val_le_bytes)
  then have h: "holds ?q ?body" by (simp add: q holds_def)
  have two: "int_piece 100 = le_bytes 4 100" "int_piece 2 = le_bytes 4 2" by (simp_all add: int_piece_def to_u32_id)
  have "pad4 (le_bytes 4 100) = le_bytes 4 100" by (simp add: pad4_def up4_def)
  then have "stands ?q ?body 0 [int_piece 100, int_piece 2]" unfolding stands_def two by (intro exI [of _ 0]) simp
  then obtain it1 where i1: "ReadInt ?q 0 = Some (Some 100, it1)" "stands ?q ?body it1 [int_piece 2]"
    using ReadInt_piece [OF h] by force
  then obtain it2 where i: "ReadInt ?q 0 = Some (Some 100, it1)" "ReadInt ?q it1 = Some (Some 2, it2)"
    using ReadInt_piece [OF h, of it1 2 "[]"] by auto
  then have ints: "read_all [KInt] ?q 0 = Some (Some [VInt 100], it1)" by (simp add: as_val_def)
  have "[KInt, KBool] = [KInt] @ KBool # []" "(2 :: int) \<noteq> 0" "(2 :: int) \<noteq> 1" by simp_all
  with ints i(2) have "\<exists>ks1 ks2 vs it1 v it2. [KInt, KBool] = ks1 @ KBool # ks2 \<and> read_all ks1 ?q 0 = Some (Some vs, it1)
      \<and> ReadInt ?q it1 = Some (Some v, it2) \<and> v \<noteq> 0 \<and> v \<noteq> 1" by blast
  moreover have "0 < (4096 :: nat)" "4096 + length (le_bytes 4 8 @ le_bytes 4 100 @ le_bytes 4 2) < 2 ^ 63"
    "length (le_bytes 4 8 @ le_bytes 4 100 @ le_bytes 4 2) < 2 ^ 31" by simp_all
  ultimately show "read_all [KInt, KBool] ?q 0 = None" by (simp only: pickle_read_safe)
qed

text \<open>The end of a pickle in a range is found when the range holds all of it.\<close>

lemma FindNext_exact:
  assumes "4 \<le> length rng" "start + length rng < 2 ^ 62" "hs \<le> kPayloadUnit" "4 dvd hs"
  shows "FindNext hs start rng
    = Some (if hs + le_val (take 4 rng) \<le> length rng then Some (start + hs + le_val (take 4 rng)) else None)"
proof -
  have "le_val (take 4 rng) < 2 ^ 32" using le_val_less [of "take 4 rng"] assms(1) by (simp add: min_absorb2)
  moreover have "AlignInt hs 4 = hs" using assms(3,4) by (simp add: AlignInt_up4 up4_aligned kPayloadUnit_def)
  ultimately show ?thesis using assms by (auto simp: FindNext_def szadd_def Let_def kPayloadUnit_def)
qed

end
