(* ===== verification/NumberConv.thy ===== *)
theory NumberConv
  imports CString "HOL-Library.Monad_Syntax"
begin

text \<open>
  \<open>src/src/base3/string_number_conversions.cc\<close>: integers printed and read, hexadecimal coding. A reader returns whether it
  succeeded and what it stored in its output. Conversions of \<open>double\<close> are left to the library \<open>dmg_fp\<close> and are not
  modelled. The output vector of \<open>HexStringToBytes\<close> is empty on entry, as the \<open>DCHECK\<close> of the source asks.
\<close>

section \<open>Printing\<close>

text \<open>
  The output buffer is filled from its end; \<open>it\<close> counts the characters before the iterator, and \<open>None\<close> is a write before
  the buffer.
\<close>

fun put_digits :: "nat \<Rightarrow> nat \<Rightarrow> string \<Rightarrow> (nat \<times> string) option" where
  "put_digits 0 res out = None"
| "put_digits (Suc it) res out =
     (let out = char_of (res mod 10 + 48) # out; res = res div 10
      in if res = 0 then Some (it, out) else put_digits it res out)"

definition IntToStringT :: "nat \<Rightarrow> bool \<Rightarrow> nat \<Rightarrow> string option" where
  "IntToStringT bytes is_neg res = do {
     (it, out) \<leftarrow> put_digits (3 * bytes + 1) res [];
     if is_neg then if it = 0 then None else Some (CHR ''-'' # out) else Some out
   }"

text \<open>The magnitude of a negative number is negated in its own type, so that of the smallest one comes out right.\<close>

definition IntToString :: "int \<Rightarrow> string option" where
  "IntToString v = IntToStringT 4 (v < 0) (to_u32 (if v < 0 then wrap32 (- v) else v))"
definition UintToString :: "nat \<Rightarrow> string option" where
  "UintToString v = IntToStringT 4 False v"
definition Int64ToString :: "int \<Rightarrow> string option" where
  "Int64ToString v = IntToStringT 8 (v < 0) (to_size (if v < 0 then wrap64 (- v) else v))"
definition Uint64ToString :: "nat \<Rightarrow> string option" where
  "Uint64ToString v = IntToStringT 8 False v"

section \<open>Reading\<close>

definition CharToDigit :: "nat \<Rightarrow> char \<Rightarrow> nat option" where
  "CharToDigit base c =
     (let n = of_char c in
      if base \<le> 10 then if 48 \<le> n \<and> n < 48 + base then Some (n - 48) else None
      else if 48 \<le> n \<and> n \<le> 57 then Some (n - 48)
      else if 97 \<le> n \<and> n < 97 + base - 10 then Some (n - 97 + 10)
      else if 65 \<le> n \<and> n < 65 + base - 10 then Some (n - 65 + 10)
      else None)"

text \<open>The target type of a reader: base, limits and conversion to its width.\<close>

record traits =
  t_base :: nat
  t_min :: int
  t_max :: int
  t_wrap :: "int \<Rightarrow> int"

definition IntTraits :: traits where
  "IntTraits = \<lparr>t_base = 10, t_min = - (2 ^ 31), t_max = 2 ^ 31 - 1, t_wrap = wrap32\<rparr>"
definition Int64Traits :: traits where
  "Int64Traits = \<lparr>t_base = 10, t_min = - (2 ^ 63), t_max = 2 ^ 63 - 1, t_wrap = wrap64\<rparr>"
definition HexIntTraits :: traits where
  "HexIntTraits = \<lparr>t_base = 16, t_min = - (2 ^ 31), t_max = 2 ^ 32 - 1, t_wrap = wrap32\<rparr>"

text \<open>Division of the smallest value rounds towards zero.\<close>

definition CheckBounds :: "bool \<Rightarrow> traits \<Rightarrow> int \<Rightarrow> nat \<Rightarrow> bool \<times> int" where
  "CheckBounds neg T out d =
     (let b = int (t_base T) in
      if neg then
        (let lo = - (- t_min T div b) in
         if out < lo \<or> out = lo \<and> - t_min T mod b < int d then (False, t_min T) else (True, out))
      else
        (let hi = t_wrap T (t_max T div b) in
         if hi < out \<or> out = hi \<and> t_max T mod b < int d then (False, t_wrap T (t_max T)) else (True, out)))"

definition Increment :: "bool \<Rightarrow> traits \<Rightarrow> nat \<Rightarrow> int \<Rightarrow> int" where
  "Increment neg T d out = t_wrap T (if neg then out - int d else out + int d)"

fun read_digits :: "bool \<Rightarrow> traits \<Rightarrow> bool \<Rightarrow> int \<Rightarrow> string \<Rightarrow> bool \<times> int" where
  "read_digits neg T first out [] = (True, out)"
| "read_digits neg T first out (c # cs) =
     (case CharToDigit (t_base T) c of
        None \<Rightarrow> (False, out)
      | Some d \<Rightarrow>
          if first then read_digits neg T False (Increment neg T d out) cs
          else (case CheckBounds neg T out d of
                  (False, out) \<Rightarrow> (False, out)
                | (True, out) \<Rightarrow> read_digits neg T False (Increment neg T d (t_wrap T (out * int (t_base T)))) cs))"

definition Sign_Invoke :: "bool \<Rightarrow> traits \<Rightarrow> string \<Rightarrow> bool \<times> int" where
  "Sign_Invoke neg T s =
     (if s = [] then (False, 0)
      else let s = (if t_base T = 16 \<and> 2 \<le> length s \<and> s ! 0 = CHR ''0'' \<and> (s ! 1 = CHR ''x'' \<or> s ! 1 = CHR ''X'') then drop 2 s else s)
           in read_digits neg T True 0 s)"

definition Number_Invoke :: "traits \<Rightarrow> string \<Rightarrow> bool \<times> int" where
  "Number_Invoke T s =
     (let valid = (takeWhile is_space s = []); s = dropWhile is_space s;
          (ok, out) = (if s \<noteq> [] \<and> s ! 0 = CHR ''-'' then Sign_Invoke True T (tl s)
                       else Sign_Invoke False T (if s \<noteq> [] \<and> s ! 0 = CHR ''+'' then tl s else s))
      in (valid \<and> ok, out))"

definition StringToInt :: "string \<Rightarrow> bool \<times> int" where "StringToInt = Number_Invoke IntTraits"
definition StringToInt64 :: "string \<Rightarrow> bool \<times> int" where "StringToInt64 = Number_Invoke Int64Traits"
definition HexStringToInt :: "string \<Rightarrow> bool \<times> int" where "HexStringToInt = Number_Invoke HexIntTraits"

section \<open>Bytes\<close>

definition kHexChars :: string where "kHexChars = ''0123456789ABCDEF''"

definition HexEncode :: "bytes \<Rightarrow> string" where
  "HexEncode bs = concat (map (\<lambda>b. [kHexChars ! (of_char b div 16), kHexChars ! (of_char b mod 16)]) bs)"

fun hex_pairs :: "string \<Rightarrow> bytes \<Rightarrow> bool \<times> bytes" where
  "hex_pairs (a # b # r) out =
     (case (CharToDigit 16 a, CharToDigit 16 b) of
        (Some msb, Some lsb) \<Rightarrow> hex_pairs r (out @ [char_of (msb * 16 + lsb)])
      | _ \<Rightarrow> (False, out))"
| "hex_pairs _ out = (True, out)"

definition HexStringToBytes :: "string \<Rightarrow> bool \<times> bytes" where
  "HexStringToBytes s = (if length s = 0 \<or> length s mod 2 \<noteq> 0 then (False, []) else hex_pairs s [])"

section \<open>What printing yields\<close>

lemma put_digits_eq:
  "length (digits_rev 10 res) \<le> it \<Longrightarrow>
   put_digits it res out = Some (it - length (digits_rev 10 res), map digit_char (rev (digits_rev 10 res)) @ out)"
proof (induction it res out rule: put_digits.induct)
  case (2 it res out)
  have c: "char_of (n mod 10 + 48) = digit_char (n mod 10)" for n by (simp add: digit_char_def add.commute)
  show ?case
  proof (cases "res < 10")
    case True
    then show ?thesis using c [of res] by (simp add: digits_rev.simps [of 10 res])
  next
    case False
    then have "length (digits_rev 10 (res div 10)) \<le> it" using "2.prems" by (simp add: digits_rev.simps [of 10 res])
    moreover have "res div 10 \<noteq> 0" using False by simp
    ultimately show ?thesis using "2.IH" [OF refl refl] False c [of res] by (simp add: digits_rev.simps [of 10 res] Let_def)
  qed
qed simp

lemma IntToStringT_eq:
  assumes "length (digits_rev 10 res) \<le> 3 * k"
  shows "IntToStringT k neg res = Some ((if neg then ''-'' else []) @ show_nat res)"
  using put_digits_eq [of res "3 * k + 1" "[]"] assms by (simp add: IntToStringT_def show_nat_def)

lemma decimal_digits: "n < 10 ^ 10 \<Longrightarrow> length (digits_rev 10 n) \<le> 3 * 4" "n < 10 ^ 20 \<Longrightarrow> length (digits_rev 10 n) \<le> 3 * 8"
  using length_digits_rev [of 10 n 9] length_digits_rev [of 10 n 19] by auto

lemma unsigned_of_signed:
  "0 \<le> x \<Longrightarrow> x < 2 ^ 32 \<Longrightarrow> to_u32 (wrap32 x) = nat x"
  "0 \<le> x \<Longrightarrow> x < 2 ^ 64 \<Longrightarrow> to_size (wrap64 x) = nat x"
proof -
  have "to_u32 (wrap32 x) = nat (take_bit 32 (signed_take_bit 31 x))" by (simp add: to_u32_def wrap32_def take_bit_eq_mod)
  then show "0 \<le> x \<Longrightarrow> x < 2 ^ 32 \<Longrightarrow> to_u32 (wrap32 x) = nat x"
    by (simp add: take_bit_signed_take_bit take_bit_int_eq_self)
  have "to_size (wrap64 x) = nat (take_bit 64 (signed_take_bit 63 x))" by (simp add: to_size_def wrap64_def take_bit_eq_mod)
  then show "0 \<le> x \<Longrightarrow> x < 2 ^ 64 \<Longrightarrow> to_size (wrap64 x) = nat x"
    by (simp add: take_bit_signed_take_bit take_bit_int_eq_self)
qed

lemma magnitude:
  "- (2 ^ 31) \<le> v \<Longrightarrow> v < 2 ^ 31 \<Longrightarrow> to_u32 (if v < 0 then wrap32 (- v) else v) = nat \<bar>v\<bar>"
  "- (2 ^ 63) \<le> v \<Longrightarrow> v < 2 ^ 63 \<Longrightarrow> to_size (if v < 0 then wrap64 (- v) else v) = nat \<bar>v\<bar>"
  using unsigned_of_signed [of "- v"] by (auto simp: to_u32_id to_size_id)

lemma IntToString_show: "- (2 ^ 31) \<le> v \<Longrightarrow> v < 2 ^ 31 \<Longrightarrow> IntToString v = Some (show_int v)"
  using IntToStringT_eq [of "nat \<bar>v\<bar>" 4 "v < 0"] decimal_digits(1) [of "nat \<bar>v\<bar>"] magnitude(1) [of v]
  by (simp add: IntToString_def show_int_def)

lemma Int64ToString_show: "- (2 ^ 63) \<le> v \<Longrightarrow> v < 2 ^ 63 \<Longrightarrow> Int64ToString v = Some (show_int v)"
  using IntToStringT_eq [of "nat \<bar>v\<bar>" 8 "v < 0"] decimal_digits(2) [of "nat \<bar>v\<bar>"] magnitude(2) [of v]
  by (simp add: Int64ToString_def show_int_def)

section \<open>What reading accepts\<close>

text \<open>The value of a string of digits, and decimal types: those whose limits are \<open>m\<close> and \<open>- m - 1\<close>.\<close>

definition decimal :: "string \<Rightarrow> nat" where
  "decimal s = digits_val 10 (digits_of s)"

definition decimal_type :: "traits \<Rightarrow> int \<Rightarrow> bool" where
  "decimal_type T m \<longleftrightarrow> t_base T = 10 \<and> 100 \<le> m \<and> t_max T = m \<and> t_min T = - m - 1
     \<and> (\<forall>x. - m - 1 \<le> x \<and> x \<le> m \<longrightarrow> t_wrap T x = x)"

lemma decimal_types: "decimal_type IntTraits (2 ^ 31 - 1)" "decimal_type Int64Traits (2 ^ 63 - 1)"
  by (auto simp: decimal_type_def IntTraits_def Int64Traits_def wrap32_id wrap64_id)

lemma CharToDigit_10: "CharToDigit 10 c = (if is_digit c then Some (of_char c - 48) else None)"
  by (auto simp: CharToDigit_def is_digit_def)

definition limit :: "bool \<Rightarrow> int \<Rightarrow> int" where
  "limit neg m = (if neg then m + 1 else m)"

definition signed :: "bool \<Rightarrow> int \<Rightarrow> int" where
  "signed neg x = (if neg then - x else x)"

text \<open>Digits are appended as long as the magnitude stays within the limit.\<close>

lemma append_digit:
  assumes T: "decimal_type T m" and o: "0 \<le> k" "k \<le> limit neg m" and d: "d < 10"
  shows "limit neg m < k * 10 + int d \<Longrightarrow> CheckBounds neg T (signed neg k) d = (False, signed neg (limit neg m))"
    and "k * 10 + int d \<le> limit neg m \<Longrightarrow> CheckBounds neg T (signed neg k) d = (True, signed neg k)
      \<and> Increment neg T d (t_wrap T (signed neg k * int (t_base T))) = signed neg (k * 10 + int d)"
proof -
  let ?L = "limit neg m"
  have L: "0 < ?L" using T by (auto simp: limit_def decimal_type_def)
  have iff: "?L < k * 10 + int d \<longleftrightarrow> ?L div 10 < k \<or> k = ?L div 10 \<and> ?L mod 10 < int d" using d by presburger
  have w: "- m - 1 \<le> x \<Longrightarrow> x \<le> m \<Longrightarrow> t_wrap T x = x" for x using T by (simp add: decimal_type_def)
  have t: "t_base T = 10" "t_max T = m" "t_min T = - m - 1" "100 \<le> m" using T by (auto simp: decimal_type_def)
  have c: "CheckBounds neg T (signed neg k) d
    = (if ?L < k * 10 + int d then (False, signed neg ?L) else (True, signed neg k))"
    unfolding iff using t w [of "m div 10"] w [of m] by (cases neg) (auto simp: CheckBounds_def signed_def limit_def Let_def add.commute)
  then show "?L < k * 10 + int d \<Longrightarrow> CheckBounds neg T (signed neg k) d = (False, signed neg ?L)" by simp
  assume le: "k * 10 + int d \<le> ?L"
  have "t_wrap T (signed neg k * 10) = signed neg k * 10" using le o t by (intro w) (auto simp: signed_def limit_def split: if_splits)
  moreover have "t_wrap T (signed neg (k * 10 + int d)) = signed neg (k * 10 + int d)"
    using le o t by (intro w) (auto simp: signed_def limit_def split: if_splits)
  ultimately show "CheckBounds neg T (signed neg k) d = (True, signed neg k)
      \<and> Increment neg T d (t_wrap T (signed neg k * int (t_base T))) = signed neg (k * 10 + int d)"
    using c le t by (cases neg) (auto simp: Increment_def signed_def)
qed

definition append_val :: "nat \<Rightarrow> string \<Rightarrow> nat" where
  "append_val k s = foldl (\<lambda>a d. a * 10 + d) k (map (\<lambda>c. of_char c - 48) s)"

lemma append_val_Cons: "append_val k (c # cs) = append_val (k * 10 + (of_char c - 48)) cs"
  by (simp add: append_val_def)

lemma append_val_mono: "k \<le> append_val k s"
proof (induction s arbitrary: k)
  case (Cons c s)
  have "k \<le> k * 10 + (of_char c - 48)" by simp
  also have "\<dots> \<le> append_val (k * 10 + (of_char c - 48)) s" by (rule Cons)
  finally show ?case by (simp add: append_val_Cons)
qed (simp add: append_val_def)

lemma decimal_append: "\<forall>c \<in> set s. is_digit c \<Longrightarrow> decimal s = append_val 0 s"
  by (simp add: decimal_def digits_val_def append_val_def digits_of_def takeWhile_eq_all_conv [THEN iffD2])

lemma read_digits_rest:
  assumes T: "decimal_type T m"
  shows "int k \<le> limit neg m \<Longrightarrow> \<forall>c \<in> set s. is_digit c \<Longrightarrow>
    read_digits neg T False (signed neg (int k)) s
      = (if int (append_val k s) \<le> limit neg m then (True, signed neg (int (append_val k s))) else (False, signed neg (limit neg m)))"
proof (induction s arbitrary: k)
  case (Cons c s)
  let ?d = "of_char c - 48 :: nat"
  have c: "CharToDigit (t_base T) c = Some ?d" "?d < 10"
    using Cons.prems(2) T by (auto simp: CharToDigit_10 decimal_type_def is_digit_def)
  show ?case
  proof (cases "int (k * 10 + ?d) \<le> limit neg m")
    case True
    then have "CheckBounds neg T (signed neg (int k)) ?d = (True, signed neg (int k))"
      "Increment neg T ?d (t_wrap T (signed neg (int k) * int (t_base T))) = signed neg (int (k * 10 + ?d))"
      using append_digit(2) [OF T _ Cons.prems(1) c(2)] by auto
    then show ?thesis using c(1) Cons.IH [OF True] Cons.prems(2) by (simp add: append_val_Cons)
  next
    case False
    then have "CheckBounds neg T (signed neg (int k)) ?d = (False, signed neg (limit neg m))"
      using append_digit(1) [OF T _ Cons.prems(1) c(2)] by auto
    then show ?thesis using c(1) False append_val_mono [of "k * 10 + ?d" s] by (simp add: append_val_Cons)
  qed
qed (simp add: append_val_def)

lemma read_digits_digits:
  "fst (read_digits neg T first out s) \<Longrightarrow> t_base T = 10 \<Longrightarrow> \<forall>c \<in> set s. is_digit c"
proof (induction neg T first out s rule: read_digits.induct)
  case (2 neg T first out c cs)
  show ?case
  proof (cases "is_digit c")
    case True
    then have d: "CharToDigit (t_base T) c = Some (of_char c - 48)" using "2.prems"(2) by (simp add: CharToDigit_10)
    show ?thesis
    proof (cases first)
      case True
      then show ?thesis using "2.IH"(1) [OF d True] "2.prems" d \<open>is_digit c\<close> by simp
    next
      case False
      obtain ok out' where b: "CheckBounds neg T out (of_char c - 48) = (ok, out')" by (cases "CheckBounds neg T out (of_char c - 48)")
      then have ok using "2.prems"(1) d False by (cases ok) simp_all
      then show ?thesis using "2.IH"(2) [OF d False, of ok out'] b "2.prems" d False \<open>is_digit c\<close> by simp
    qed
  qed (use "2.prems" in \<open>simp add: CharToDigit_10\<close>)
qed simp

lemma Sign_Invoke_digits:
  assumes T: "decimal_type T m" and s: "s \<noteq> []" "\<forall>c \<in> set s. is_digit c"
  shows "Sign_Invoke neg T s
    = (if int (decimal s) \<le> limit neg m then (True, signed neg (int (decimal s))) else (False, signed neg (limit neg m)))"
proof -
  obtain c cs where c: "s = c # cs" using s(1) by (cases s) auto
  let ?d = "of_char c - 48 :: nat"
  have t: "t_base T = 10" "100 \<le> m" "\<And>x. - m - 1 \<le> x \<Longrightarrow> x \<le> m \<Longrightarrow> t_wrap T x = x" using T by (auto simp: decimal_type_def)
  have d: "CharToDigit (t_base T) c = Some ?d" "?d < 10" using s(2) c t(1) by (auto simp: CharToDigit_10 is_digit_def)
  have "Increment neg T ?d 0 = signed neg (int ?d)" using d(2) t(2) t(3) [of "int ?d"] t(3) [of "- int ?d"] by (simp add: Increment_def signed_def)
  moreover have "int ?d \<le> limit neg m" using d(2) t(2) by (simp add: limit_def)
  moreover have "decimal s = append_val ?d cs" using decimal_append [OF s(2)] c by (simp add: append_val_Cons)
  ultimately show ?thesis
    using read_digits_rest [OF T, of ?d neg cs] s(2) d(1) t(1) c by (simp add: Sign_Invoke_def)
qed

lemma Sign_Invoke_True:
  assumes "t_base T = 10" "fst (Sign_Invoke neg T s)"
  shows "s \<noteq> [] \<and> (\<forall>c \<in> set s. is_digit c)"
  using assms read_digits_digits [of neg T True 0 s] by (auto simp: Sign_Invoke_def Let_def split: if_splits)

text \<open>A decimal number: an optional sign and at least one digit, with nothing before, between or after.\<close>

definition denotes :: "string \<Rightarrow> int \<Rightarrow> bool" where
  "denotes s v \<longleftrightarrow> (\<exists>ds. ds \<noteq> [] \<and> (\<forall>c \<in> set ds. is_digit c)
     \<and> ((s = ds \<or> s = CHR ''+'' # ds) \<and> v = int (decimal ds) \<or> s = CHR ''-'' # ds \<and> v = - int (decimal ds)))"

lemma sign_chars: "\<not> is_digit (CHR ''+'')" "\<not> is_digit (CHR ''-'')" "is_digit c \<Longrightarrow> \<not> is_space c" "\<not> is_space (CHR ''+'')" "\<not> is_space (CHR ''-'')"
  by (auto simp: is_digit_def is_space_def)

lemma Number_Invoke_forms:
  assumes ds: "ds \<noteq> []" "\<forall>c \<in> set ds. is_digit c"
  shows "Number_Invoke T ds = Sign_Invoke False T ds" "Number_Invoke T (CHR ''+'' # ds) = Sign_Invoke False T ds"
    "Number_Invoke T (CHR ''-'' # ds) = Sign_Invoke True T ds"
proof -
  obtain c cs where c: "ds = c # cs" "is_digit c" using ds by (cases ds) auto
  then show "Number_Invoke T ds = Sign_Invoke False T ds" using sign_chars by (auto simp: Number_Invoke_def Let_def split: prod.splits)
qed (auto simp: Number_Invoke_def Let_def sign_chars split: prod.splits)

lemma Number_Invoke_denotes:
  assumes T: "decimal_type T m" and "denotes s v"
  shows "Number_Invoke T s = (if v < - m - 1 then (False, - m - 1) else if m < v then (False, m) else (True, v))"
proof -
  obtain ds where ds: "ds \<noteq> []" "\<forall>c \<in> set ds. is_digit c"
    and s: "(s = ds \<or> s = CHR ''+'' # ds) \<and> v = int (decimal ds) \<or> s = CHR ''-'' # ds \<and> v = - int (decimal ds)"
    using assms(2) unfolding denotes_def by blast
  have "100 \<le> m" using T by (simp add: decimal_type_def)
  then show ?thesis
    using s Number_Invoke_forms [OF ds, of T] Sign_Invoke_digits [OF T ds]
    by (auto simp: limit_def signed_def)
qed

lemma Number_Invoke_True:
  assumes T: "decimal_type T m" and r: "Number_Invoke T s = (True, v)"
  shows "denotes s v \<and> - m - 1 \<le> v \<and> v \<le> m"
proof -
  have b: "t_base T = 10" using T by (simp add: decimal_type_def)
  have "takeWhile is_space s = []" using r by (auto simp: Number_Invoke_def Let_def split: prod.splits)
  then have d: "dropWhile is_space s = s" by (metis append_Nil takeWhile_dropWhile_id)
  have r': "(if s \<noteq> [] \<and> s ! 0 = CHR ''-'' then Sign_Invoke True T (tl s)
      else Sign_Invoke False T (if s \<noteq> [] \<and> s ! 0 = CHR ''+'' then tl s else s)) = (True, v)"
    using r d by (auto simp: Number_Invoke_def Let_def split: prod.splits)
  obtain neg ds where ds: "Sign_Invoke neg T ds = (True, v)" "s = (if neg then CHR ''-'' # ds else ds) \<or> \<not> neg \<and> s = CHR ''+'' # ds"
  proof (cases "s \<noteq> [] \<and> s ! 0 = CHR ''-''")
    case True
    then show ?thesis using r' that [of True "tl s"] by (cases s) auto
  next
    case False
    then show ?thesis using r' that [of False s] that [of False "tl s"] by (cases s) (auto split: if_splits)
  qed
  have digits: "ds \<noteq> []" "\<forall>c \<in> set ds. is_digit c" using Sign_Invoke_True [OF b, of neg ds] ds(1) by auto
  have v: "int (decimal ds) \<le> limit neg m" "v = signed neg (int (decimal ds))"
    using Sign_Invoke_digits [OF T digits, of neg] ds(1) by (auto split: if_splits)
  have "denotes s v" using ds(2) digits v(2) unfolding denotes_def by (intro exI [of _ ds]) (auto simp: signed_def split: if_splits)
  moreover have "100 \<le> m" using T by (simp add: decimal_type_def)
  ultimately show ?thesis using v by (auto simp: signed_def limit_def split: if_splits)
qed

text \<open>
  C29: the number readers accept exactly the decimal numbers that fit their type, with the value they denote: white
  space, missing digits, other characters and numbers out of range are refused.
\<close>

theorem string_to_number_exact:
  "(StringToInt s = (True, v) \<longleftrightarrow> denotes s v \<and> - (2 ^ 31) \<le> v \<and> v < 2 ^ 31)
    \<and> (StringToInt64 s = (True, w) \<longleftrightarrow> denotes s w \<and> - (2 ^ 63) \<le> w \<and> w < 2 ^ 63)"
  using Number_Invoke_True [OF decimal_types(1), of s v] Number_Invoke_True [OF decimal_types(2), of s w]
    Number_Invoke_denotes [OF decimal_types(1), of s v] Number_Invoke_denotes [OF decimal_types(2), of s w]
  unfolding StringToInt_def StringToInt64_def by auto

lemma denotes_show_int: "denotes (show_int v) v"
proof -
  have "show_nat n \<noteq> []" "\<forall>c \<in> set (show_nat n). is_digit c" "decimal (show_nat n) = n" for n
    using digits_of_show_nat [of n] by (auto simp: decimal_def show_nat_def intro: is_digit_digit_char dest: digits_rev_bound [rotated])
  then show ?thesis unfolding denotes_def show_int_def by (intro exI [of _ "show_nat (nat \<bar>v\<bar>)"]) auto
qed

lemma hex_digit_pair: "CharToDigit 16 (kHexChars ! n) = Some n" if "n < 16"
proof -
  have "list_all (\<lambda>n. CharToDigit 16 (kHexChars ! n) = Some n) [0..<16]" by code_simp
  then show ?thesis using that by (simp add: list_all_iff)
qed

lemma hex_pairs_HexEncode: "hex_pairs (HexEncode bs) out = (True, out @ bs)"
proof (induction bs arbitrary: out)
  case (Cons b bs)
  have "CharToDigit 16 (kHexChars ! (of_char b div 16)) = Some (of_char b div 16)"
    "CharToDigit 16 (kHexChars ! (of_char b mod 16)) = Some (of_char b mod 16)"
    by (rule hex_digit_pair, simp add: less_mult_imp_div_less)+
  moreover have "char_of (of_char b div 16 * 16 + of_char b mod 16 :: nat) = b" by simp
  ultimately show ?case using Cons by (simp add: HexEncode_def)
qed (simp add: HexEncode_def)

lemma length_HexEncode: "length (HexEncode bs) = 2 * length bs"
  by (induction bs) (auto simp: HexEncode_def)

text \<open>
  Printed numbers are read back: every \<open>int\<close> and \<open>int64\<close>, the smallest ones included, and every non-empty block of bytes in
  hexadecimal.
\<close>

theorem number_round_trip:
  "map_option StringToInt (IntToString (wrap32 x)) = Some (True, wrap32 x)
    \<and> map_option StringToInt64 (Int64ToString (wrap64 x)) = Some (True, wrap64 x)
    \<and> HexStringToBytes (HexEncode bs) = (bs \<noteq> [], bs)"
proof -
  have "StringToInt (show_int (wrap32 x)) = (True, wrap32 x)" "StringToInt64 (show_int (wrap64 x)) = (True, wrap64 x)"
    using Number_Invoke_denotes [OF decimal_types(1) denotes_show_int, of "wrap32 x"]
      Number_Invoke_denotes [OF decimal_types(2) denotes_show_int, of "wrap64 x"] wrap32_bounds [of x] wrap64_bounds [of x]
    unfolding StringToInt_def StringToInt64_def by auto
  moreover have "HexStringToBytes (HexEncode bs) = (bs \<noteq> [], bs)"
    using hex_pairs_HexEncode [of bs "[]"] by (auto simp: HexStringToBytes_def length_HexEncode)
  ultimately show ?thesis
    using IntToString_show [of "wrap32 x"] Int64ToString_show [of "wrap64 x"] wrap32_bounds [of x] wrap64_bounds [of x] by simp
qed

text \<open>A decimal number out of range is refused and the nearest value of the type is stored.\<close>

lemma string_to_int_clamps:
  "denotes s v \<Longrightarrow> 2 ^ 31 \<le> v \<Longrightarrow> StringToInt s = (False, 2 ^ 31 - 1)"
  "denotes s v \<Longrightarrow> v < - (2 ^ 31) \<Longrightarrow> StringToInt s = (False, - (2 ^ 31))"
  using Number_Invoke_denotes [OF decimal_types(1), of s v] unfolding StringToInt_def by simp_all

text \<open>
  Hexadecimal numbers may use all 32 bits, so the value becomes negative with the eighth digit and the bound, which is compared as a signed
  number, no longer stops a ninth: a number of 36 bits is read as 1. A prefix without digits is read as 0.
\<close>

lemma hex_overflow_undetected:
  "HexStringToInt ''800000001'' = (True, 1)" "HexStringToInt ''100000001'' = (False, -1)" "HexStringToInt ''0x'' = (True, 0)"
  by code_simp+

end
