(* ===== verification/HashCache.thy ===== *)
theory HashCache
  imports CString "HOL-Library.AList" "HOL-Library.Monad_Syntax"
begin

text \<open>
  \<open>src/src/base3/cache.h\<close>: a cache that keeps the most recently used entries. The list nodes carry an identity, which is what
  the iterators of the map refer to; the hash map is an association list. \<open>Creator\<close> is the parameter that makes missing
  values. The result \<open>None\<close> of an operation is an invalid iterator; a null or default result is \<open>None\<close>
  inside. \<open>Find\<close>, \<open>Insert\<close>, \<open>Erase\<close> and \<open>Replace\<close> are one critical section each, and so atomic; \<open>Locate\<close> is two, with the
  mutex released while the creator runs, and is modelled as the calling thread runs it when no other call comes in between
  (what happens when one does is \<open>racing_locates\<close> below). \<open>hc_posted\<close> counts the replacements handed to the thread pool and
  not yet run.
\<close>

record ('k, 'v) HashCache =
  hc_list :: "(nat \<times> 'k \<times> 'v) list"
  hc_map :: "('k \<times> nat) list"
  hc_max :: nat
  hc_replacing :: bool
  hc_posted :: nat
  hc_next :: nat

definition HashCache_new :: "nat \<Rightarrow> ('k, 'v) HashCache" where
  "HashCache_new m = \<lparr>hc_list = [], hc_map = [], hc_max = m, hc_replacing = False, hc_posted = 0, hc_next = 0\<rparr>"

definition cache_size :: "('k, 'v) HashCache \<Rightarrow> nat" where
  "cache_size c = length (hc_map c)"

definition ebaseed :: "('k, 'v) HashCache \<Rightarrow> bool" where
  "ebaseed c \<longleftrightarrow> hc_max c < cache_size c \<and> hc_max c div 10 < cache_size c - hc_max c"

text \<open>Moving a node to the end and reading its value.\<close>

definition splice :: "nat \<Rightarrow> (nat \<times> 'k \<times> 'v) list \<Rightarrow> ('v \<times> (nat \<times> 'k \<times> 'v) list) option" where
  "splice i l = do { (k, v) \<leftarrow> map_of l i; Some (v, filter (\<lambda>n. fst n \<noteq> i) l @ [(i, k, v)]) }"

definition Find :: "'k \<Rightarrow> ('k, 'v) HashCache \<Rightarrow> ('v option \<times> ('k, 'v) HashCache) option" where
  "Find key c =
     (case map_of (hc_map c) key of
        Some i \<Rightarrow> do { (v, l) \<leftarrow> splice i (hc_list c); Some (Some v, c\<lparr>hc_list := l\<rparr>) }
      | None \<Rightarrow> Some (None, c))"

definition Insert :: "'k \<Rightarrow> 'v \<Rightarrow> ('k, 'v) HashCache \<Rightarrow> ('k, 'v) HashCache" where
  "Insert key v c =
     (let c = c\<lparr>hc_list := hc_list c @ [(hc_next c, key, v)], hc_map := AList.update key (hc_next c) (hc_map c), hc_next := hc_next c + 1\<rparr>
      in if \<not> hc_replacing c \<and> ebaseed c then c\<lparr>hc_replacing := True, hc_posted := hc_posted c + 1\<rparr> else c)"

text \<open>The first critical section of \<open>Locate\<close> is that of \<open>Find\<close>, its second one is \<open>Insert\<close>.\<close>

definition Locate :: "('k \<Rightarrow> 'v option) \<Rightarrow> 'k \<Rightarrow> ('k, 'v) HashCache \<Rightarrow> ('v option \<times> ('k, 'v) HashCache) option" where
  "Locate Creator key c = do {
     (found, c) \<leftarrow> Find key c;
     if found \<noteq> None then Some (found, c)
     else (case Creator key of Some v \<Rightarrow> Some (Some v, Insert key v c) | None \<Rightarrow> Some (None, c))
   }"

lemma Locate_absent:
  "map_of (hc_map c) key = None \<Longrightarrow>
   Locate Creator key c = (case Creator key of Some v \<Rightarrow> Some (Some v, Insert key v c) | None \<Rightarrow> Some (None, c))"
  by (simp add: Locate_def Find_def)

lemma Locate_present: "map_of (hc_map c) key = Some i \<Longrightarrow> Locate Creator key c = Find key c"
  by (cases "splice i (hc_list c)") (auto simp: Locate_def Find_def)

definition Erase :: "'k \<Rightarrow> ('k, 'v) HashCache \<Rightarrow> ('k, 'v) HashCache option" where
  "Erase key c =
     (case map_of (hc_map c) key of
        Some i \<Rightarrow>
          if map_of (hc_list c) i = None then None
          else Some (c\<lparr>hc_list := filter (\<lambda>n. fst n \<noteq> i) (hc_list c), hc_map := AList.delete key (hc_map c)\<rparr>)
      | None \<Rightarrow> Some c)"

text \<open>\<open>Replace\<close> removes the oldest nodes; the difference of the sizes is taken modulo \<open>2^64\<close>.\<close>

definition Replace :: "('k, 'v) HashCache \<Rightarrow> (nat \<times> ('k, 'v) HashCache) option" where
  "Replace c =
     (let count = szsub (cache_size c) (hc_max c) in
      if length (hc_list c) < count then None
      else Some (count, c\<lparr>hc_list := drop count (hc_list c), hc_map := foldl (\<lambda>m n. AList.delete (fst (snd n)) m) (hc_map c) (take count (hc_list c)),
                          hc_replacing := False, hc_posted := hc_posted c - 1\<rparr>))"

definition Dump :: "('k, 'v) HashCache \<Rightarrow> 'k list" where
  "Dump c = map (\<lambda>n. fst (snd n)) (hc_list c)"

section \<open>The cache as a list of recent entries\<close>

text \<open>The specification: a list of keys and values, the most recently used one last.\<close>

datatype 'k operation = OFind 'k | OLocate 'k | OErase 'k | OReplace

datatype 'v result = RValue "'v option" | RDone | RCount nat

fun lru_step :: "('k \<Rightarrow> 'v option) \<Rightarrow> nat \<Rightarrow> 'k operation \<Rightarrow> ('k \<times> 'v) list \<Rightarrow> ('v result \<times> ('k \<times> 'v) list) option" where
  "lru_step Creator m (OFind k) es =
     Some (case map_of es k of None \<Rightarrow> (RValue None, es) | Some v \<Rightarrow> (RValue (Some v), filter (\<lambda>e. fst e \<noteq> k) es @ [(k, v)]))"
| "lru_step Creator m (OLocate k) es =
     Some (case map_of es k of
             Some v \<Rightarrow> (RValue (Some v), filter (\<lambda>e. fst e \<noteq> k) es @ [(k, v)])
           | None \<Rightarrow> (RValue (Creator k), case Creator k of None \<Rightarrow> es | Some v \<Rightarrow> es @ [(k, v)]))"
| "lru_step Creator m (OErase k) es = Some (RDone, filter (\<lambda>e. fst e \<noteq> k) es)"
| "lru_step Creator m OReplace es =
     (if length es < m then None else Some (RCount (length es - m), drop (length es - m) es))"

fun cache_step :: "('k \<Rightarrow> 'v option) \<Rightarrow> 'k operation \<Rightarrow> ('k, 'v) HashCache \<Rightarrow> ('v result \<times> ('k, 'v) HashCache) option" where
  "cache_step Creator (OFind k) c = map_option (\<lambda>(v, c). (RValue v, c)) (Find k c)"
| "cache_step Creator (OLocate k) c = map_option (\<lambda>(v, c). (RValue v, c)) (Locate Creator k c)"
| "cache_step Creator (OErase k) c = map_option (\<lambda>c. (RDone, c)) (Erase k c)"
| "cache_step Creator OReplace c = map_option (\<lambda>(n, c). (RCount n, c)) (Replace c)"

fun lru_run :: "('k \<Rightarrow> 'v option) \<Rightarrow> nat \<Rightarrow> 'k operation list \<Rightarrow> ('k \<times> 'v) list \<Rightarrow> ('v result list \<times> ('k \<times> 'v) list) option" where
  "lru_run Creator m [] es = Some ([], es)"
| "lru_run Creator m (op # ops) es = do {
     (r, es) \<leftarrow> lru_step Creator m op es;
     (rs, es) \<leftarrow> lru_run Creator m ops es;
     Some (r # rs, es)
   }"

fun cache_run :: "('k \<Rightarrow> 'v option) \<Rightarrow> 'k operation list \<Rightarrow> ('k, 'v) HashCache \<Rightarrow> ('v result list \<times> ('k, 'v) HashCache) option" where
  "cache_run Creator [] c = Some ([], c)"
| "cache_run Creator (op # ops) c = do {
     (r, c) \<leftarrow> cache_step Creator op c;
     (rs, c) \<leftarrow> cache_run Creator ops c;
     Some (r # rs, c)
   }"

section \<open>Invariant\<close>

definition entries :: "('k, 'v) HashCache \<Rightarrow> ('k \<times> 'v) list" where
  "entries c = map snd (hc_list c)"

text \<open>Every key has one node, and the map refers to it.\<close>

definition nodes_inv :: "(nat \<times> 'k \<times> 'v) list \<Rightarrow> ('k \<times> nat) list \<Rightarrow> nat \<Rightarrow> bool" where
  "nodes_inv l m n \<longleftrightarrow>
     distinct l \<and> inj_on fst (set l) \<and> inj_on (\<lambda>x. fst (snd x)) (set l) \<and> (\<forall>x \<in> set l. fst x < n)
     \<and> distinct (map fst m) \<and> set m = (\<lambda>x. (fst (snd x), fst x)) ` set l"

definition cache_inv :: "('k, 'v) HashCache \<Rightarrow> bool" where
  "cache_inv c \<longleftrightarrow> nodes_inv (hc_list c) (hc_map c) (hc_next c)"

lemma inv_new: "cache_inv (HashCache_new m)"
  by (simp add: cache_inv_def nodes_inv_def HashCache_new_def)

lemma inv_facts:
  assumes "cache_inv c"
  shows inv_ids: "inj_on fst (set (hc_list c))" and inv_keys: "inj_on (\<lambda>n. fst (snd n)) (set (hc_list c))"
    and inv_list: "distinct (hc_list c)" and inv_map: "distinct (hc_map c)" and inv_map_keys: "distinct (map fst (hc_map c))"
    and inv_map_set: "set (hc_map c) = (\<lambda>n. (fst (snd n), fst n)) ` set (hc_list c)"
    and inv_entries: "distinct (map fst (entries c))" and inv_next: "\<forall>n \<in> set (hc_list c). fst n < hc_next c"
  using assms unfolding cache_inv_def nodes_inv_def entries_def by (auto simp: distinct_map comp_def)

lemma inv_size:
  assumes "cache_inv c"
  shows "cache_size c = length (entries c)"
proof -
  have "length (hc_map c) = card ((\<lambda>n. (fst (snd n), fst n)) ` set (hc_list c))"
    using distinct_card [OF inv_map [OF assms]] by (simp add: inv_map_set [OF assms])
  also have "\<dots> = card (set (hc_list c))"
    using inv_ids [OF assms] by (intro card_image) (auto simp: inj_on_def)
  also have "\<dots> = length (hc_list c)" using inv_list [OF assms] by (rule distinct_card)
  finally show ?thesis by (simp add: cache_size_def entries_def)
qed

lemma inv_node:
  assumes "cache_inv c"
  shows "map_of (hc_map c) k = Some i \<longleftrightarrow> (\<exists>v. (i, k, v) \<in> set (hc_list c))"
proof -
  have "map_of (hc_map c) k = Some i \<longleftrightarrow> (k, i) \<in> set (hc_map c)" using inv_map_keys [OF assms] by (rule map_of_eq_Some_iff)
  also have "\<dots> \<longleftrightarrow> (\<exists>v. (i, k, v) \<in> set (hc_list c))" unfolding inv_map_set [OF assms] by (auto simp: image_iff Bex_def)
  finally show ?thesis .
qed

lemma inv_entry:
  assumes "cache_inv c" "(i, k, v) \<in> set (hc_list c)"
  shows "map_of (hc_list c) i = Some (k, v)" "map_of (entries c) k = Some v"
    "filter (\<lambda>n. fst n \<noteq> i) (hc_list c) = filter (\<lambda>n. fst (snd n) \<noteq> k) (hc_list c)"
proof -
  have "distinct (map fst (hc_list c))" using inv_list [OF assms(1)] inv_ids [OF assms(1)] by (simp add: distinct_map)
  then show "map_of (hc_list c) i = Some (k, v)" using assms(2) by simp
  have "(k, v) \<in> set (entries c)" using image_eqI [OF _ assms(2), of "(k, v)" snd] by (simp add: entries_def)
  then show "map_of (entries c) k = Some v" using inv_entries [OF assms(1)] by simp
  have "fst n = i \<longleftrightarrow> fst (snd n) = k" if "n \<in> set (hc_list c)" for n
    using inj_onD [OF inv_ids [OF assms(1)] _ that assms(2)] inj_onD [OF inv_keys [OF assms(1)] _ that assms(2)] by (metis fst_conv snd_conv)
  then show "filter (\<lambda>n. fst n \<noteq> i) (hc_list c) = filter (\<lambda>n. fst (snd n) \<noteq> k) (hc_list c)"
    by (intro filter_cong) auto
qed

lemma entries_filter: "map snd (filter (\<lambda>n. fst (snd n) \<noteq> k) l) = filter (\<lambda>e. fst e \<noteq> k) (map snd l)"
  by (induction l) auto

lemma inv_absent:
  assumes "cache_inv c" "map_of (hc_map c) k = None"
  shows "k \<notin> fst ` set (entries c)"
proof
  assume "k \<in> fst ` set (entries c)"
  then obtain i v where "(i, k, v) \<in> set (hc_list c)" by (auto simp: entries_def)
  then show False using inv_node [OF assms(1), of k i] assms(2) by auto
qed

section \<open>Each operation\<close>

definition step_ok :: "nat \<Rightarrow> ('v result \<times> ('k, 'v) HashCache) option \<Rightarrow> ('v result \<times> ('k \<times> 'v) list) option \<Rightarrow> bool" where
  "step_ok m x y \<longleftrightarrow> map_option (\<lambda>(r, c). (r, entries c)) x = y \<and> (\<forall>r c. x = Some (r, c) \<longrightarrow> cache_inv c \<and> hc_max c = m)"

lemma nodes_inv_perm: "nodes_inv l m n \<Longrightarrow> set l' = set l \<Longrightarrow> distinct l' \<Longrightarrow> nodes_inv l' m n"
  by (simp add: nodes_inv_def)

lemma splice_inv:
  assumes "cache_inv c" "(i, k, v) \<in> set (hc_list c)"
  shows "splice i (hc_list c) = Some (v, filter (\<lambda>n. fst (snd n) \<noteq> k) (hc_list c) @ [(i, k, v)])"
    and "cache_inv (c\<lparr>hc_list := filter (\<lambda>n. fst (snd n) \<noteq> k) (hc_list c) @ [(i, k, v)]\<rparr>)"
proof -
  show "splice i (hc_list c) = Some (v, filter (\<lambda>n. fst (snd n) \<noteq> k) (hc_list c) @ [(i, k, v)])"
    using inv_entry(1,3) [OF assms] by (simp add: splice_def)
  let ?l = "filter (\<lambda>n. fst (snd n) \<noteq> k) (hc_list c) @ [(i, k, v)]"
  have set: "set ?l = set (hc_list c)"
    using assms(2) inj_onD [OF inv_keys [OF assms(1)] _ _ assms(2)] by auto
  have "distinct ?l" using inv_list [OF assms(1)] by simp
  then have "nodes_inv ?l (hc_map c) (hc_next c)" using nodes_inv_perm [OF _ set] assms(1) unfolding cache_inv_def by blast
  then show "cache_inv (c\<lparr>hc_list := ?l\<rparr>)" by (simp add: cache_inv_def)
qed

lemma Find_step: "cache_inv c \<Longrightarrow> hc_max c = m \<Longrightarrow> step_ok m (cache_step Creator (OFind k) c) (lru_step Creator m (OFind k) (entries c))"
proof (cases "map_of (hc_map c) k")
  case None
  assume c: "cache_inv c" "hc_max c = m"
  then show ?thesis
    using inv_absent [OF c(1) None] None by (auto simp: step_ok_def Find_def map_of_eq_None_iff [symmetric])
next
  case (Some i)
  assume c: "cache_inv c" "hc_max c = m"
  obtain v where v: "(i, k, v) \<in> set (hc_list c)" using inv_node [OF c(1)] Some by blast
  show ?thesis
    using splice_inv [OF c(1) v] inv_entry(2) [OF c(1) v] Some c(2)
    by (auto simp: step_ok_def Find_def entries_def entries_filter)
qed

lemma update_absent: "k \<notin> fst ` set m \<Longrightarrow> AList.update k n m = m @ [(k, n)]"
  by (induction m) auto

lemma nodes_inv_insert:
  assumes "nodes_inv l m n" "k \<notin> (\<lambda>x. fst (snd x)) ` set l"
  shows "nodes_inv (l @ [(n, k, v)]) (AList.update k n m) (n + 1)"
proof -
  have k: "\<forall>x \<in> set l. fst (snd x) \<noteq> k" using assms(2) by auto
  then have m: "k \<notin> fst ` set m" using assms(1) by (auto simp: nodes_inv_def)
  have n: "n \<notin> fst ` set l" using assms(1) by (auto simp: nodes_inv_def)
  show ?thesis using assms(1) k n unfolding nodes_inv_def update_absent [OF m] by auto
qed

lemma nodes_inv_erase:
  assumes "nodes_inv l m n"
  shows "nodes_inv (filter (\<lambda>x. fst (snd x) \<noteq> k) l) (AList.delete k m) n"
  using assms unfolding nodes_inv_def AList.delete_eq by (auto simp: distinct_map intro: inj_on_subset)

lemma Locate_step: "cache_inv c \<Longrightarrow> hc_max c = m \<Longrightarrow> step_ok m (cache_step Creator (OLocate k) c) (lru_step Creator m (OLocate k) (entries c))"
proof (cases "map_of (hc_map c) k")
  case None
  assume c: "cache_inv c" "hc_max c = m"
  have absent: "map_of (entries c) k = None" using inv_absent [OF c(1) None] by (simp add: map_of_eq_None_iff)
  show ?thesis
  proof (cases "Creator k")
    case (Some v)
    have "nodes_inv (hc_list c @ [(hc_next c, k, v)]) (AList.update k (hc_next c) (hc_map c)) (hc_next c + 1)"
      using c(1) inv_absent [OF c(1) None] by (intro nodes_inv_insert) (auto simp: cache_inv_def entries_def)
    then have "cache_inv (Insert k v c)" "entries (Insert k v c) = entries c @ [(k, v)]" "hc_max (Insert k v c) = m"
      using c(2) by (auto simp: Insert_def cache_inv_def entries_def Let_def)
    then show ?thesis using None Some absent by (simp add: step_ok_def Locate_absent)
  qed (use None absent c in \<open>simp add: step_ok_def Locate_absent\<close>)
next
  case (Some i)
  assume c: "cache_inv c" "hc_max c = m"
  obtain v where v: "(i, k, v) \<in> set (hc_list c)" using inv_node [OF c(1)] Some by blast
  show ?thesis
    using splice_inv [OF c(1) v] inv_entry(2) [OF c(1) v] Some c(2)
    by (auto simp: step_ok_def Locate_present Find_def entries_def entries_filter)
qed

lemma Erase_step: "cache_inv c \<Longrightarrow> hc_max c = m \<Longrightarrow> step_ok m (cache_step Creator (OErase k) c) (lru_step Creator m (OErase k) (entries c))"
proof (cases "map_of (hc_map c) k")
  case None
  assume c: "cache_inv c" "hc_max c = m"
  have "filter (\<lambda>e. fst e \<noteq> k) (entries c) = entries c" using inv_absent [OF c(1) None] by (intro filter_True) auto
  then show ?thesis using None c by (simp add: step_ok_def Erase_def)
next
  case (Some i)
  assume c: "cache_inv c" "hc_max c = m"
  obtain v where v: "(i, k, v) \<in> set (hc_list c)" using inv_node [OF c(1)] Some by blast
  show ?thesis
    using inv_entry [OF c(1) v] nodes_inv_erase [of "hc_list c" "hc_map c" "hc_next c" k] Some c
    by (auto simp: step_ok_def Erase_def cache_inv_def entries_def entries_filter)
qed

lemma nodes_inv_tl:
  assumes "nodes_inv (x # l) m n"
  shows "nodes_inv l (AList.delete (fst (snd x)) m) n"
proof -
  have "filter (\<lambda>y. fst (snd y) \<noteq> fst (snd x)) (x # l) = l"
    using assms by (auto simp: nodes_inv_def inj_on_def intro!: filter_True)
  then show ?thesis using nodes_inv_erase [OF assms, of "fst (snd x)"] by simp
qed

lemma nodes_inv_drop:
  "nodes_inv l m n \<Longrightarrow> nodes_inv (drop k l) (foldl (\<lambda>m x. AList.delete (fst (snd x)) m) m (take k l)) n"
proof (induction k arbitrary: l m)
  case (Suc k)
  show ?case
  proof (cases l)
    case (Cons x xs)
    then show ?thesis using Suc.IH [OF nodes_inv_tl [of x xs m n]] Suc.prems by simp
  qed (use Suc.prems in simp)
qed simp

lemma Replace_step:
  assumes c: "cache_inv c" "hc_max c = m" and len: "length (entries c) < 2 ^ 64" "m < 2 ^ 64"
  shows "step_ok m (cache_step Creator OReplace c) (lru_step Creator m OReplace (entries c))"
proof (cases "length (entries c) < m")
  case True
  then have "szsub (cache_size c) (hc_max c) = length (entries c) + (2 ^ 64 - m)"
    using inv_size [OF c(1)] c(2) len by (simp add: szsub_def)
  then show ?thesis using True len(2) by (simp add: step_ok_def Replace_def entries_def Let_def)
next
  case False
  then have s: "szsub (cache_size c) (hc_max c) = length (entries c) - m"
    using inv_size [OF c(1)] c(2) len(1) by (simp add: szsub_le)
  show ?thesis
    using False s c nodes_inv_drop [of "hc_list c" "hc_map c" "hc_next c" "length (entries c) - m"]
    by (simp add: step_ok_def Replace_def cache_inv_def entries_def drop_map Let_def)
qed

lemma cache_step_ok:
  assumes "cache_inv c" "hc_max c = m" "length (entries c) < 2 ^ 64" "m < 2 ^ 64"
  shows "step_ok m (cache_step Creator op c) (lru_step Creator m op (entries c))"
  using Find_step [OF assms(1,2)] Locate_step [OF assms(1,2)] Erase_step [OF assms(1,2)] Replace_step [OF assms]
  by (cases op) (simp_all only:)

lemma lru_step_length: "lru_step Creator m op es = Some (r, es') \<Longrightarrow> length es' \<le> length es + 1"
  using length_filter_le [of _ es]
  by (cases op) (auto split: option.splits if_splits intro: le_SucI)

lemma cache_run_ok:
  "cache_inv c \<Longrightarrow> hc_max c = m \<Longrightarrow> length (entries c) + length ops < 2 ^ 64 \<Longrightarrow> m < 2 ^ 64 \<Longrightarrow>
   map_option (\<lambda>(rs, c). (rs, entries c)) (cache_run Creator ops c) = lru_run Creator m ops (entries c)"
proof (induction ops arbitrary: c)
  case (Cons op ops)
  have s: "step_ok m (cache_step Creator op c) (lru_step Creator m op (entries c))"
    using cache_step_ok [OF Cons.prems(1,2)] Cons.prems(3,4) by simp
  show ?case
  proof (cases "cache_step Creator op c")
    case None
    then show ?thesis using s by (auto simp: step_ok_def)
  next
    case (Some rc)
    obtain r c' where rc: "rc = (r, c')" by (cases rc)
    have l: "lru_step Creator m op (entries c) = Some (r, entries c')" "cache_inv c'" "hc_max c' = m"
      using s Some rc by (auto simp: step_ok_def)
    have "length (entries c') + length ops < 2 ^ 64" using lru_step_length [OF l(1)] Cons.prems(3) by simp
    from Cons.IH [OF l(2,3) this Cons.prems(4)] show ?thesis
      using Some rc l(1) by (cases "cache_run Creator ops c'") (auto split: Option.bind_splits)
  qed
qed simp

text \<open>
  C34: the cache is a list of recent entries: any sequence of \<open>Find\<close>, \<open>Locate\<close>, \<open>Erase\<close> and \<open>Replace\<close>, one call after the other, on a
  new cache returns what the same sequence returns on the list, whose last entry is the one used last: a key is found with the value its creator gave, and
  \<open>Replace\<close> removes the entries that were not used for longest. The two also agree in when \<open>Replace\<close> is not defined, below the limit.
\<close>

theorem cache_refines_lru:
  assumes "length ops < 2 ^ 64" "m < 2 ^ 64"
  shows "map_option (\<lambda>(rs, c). (rs, entries c)) (cache_run Creator ops (HashCache_new m)) = lru_run Creator m ops []"
  using cache_run_ok [OF inv_new, of m m ops Creator] assms by (simp add: HashCache_new_def entries_def)

theorem cache_refines_lru_witness:
  "map_option (\<lambda>(rs, c). (rs, entries c))
     (cache_run (\<lambda>k. if k = 0 then None else Some (k * k)) [OLocate 3, OLocate 4, OFind 3, OLocate 5, OReplace, OFind (4 :: nat)] (HashCache_new 2))
   = Some ([RValue (Some 9), RValue (Some 16), RValue (Some 9), RValue (Some 25), RCount 1, RValue None], [(3, 9), (5, 25)])"
  by (subst cache_refines_lru) simp_all

text \<open>
  Two ways out of the refinement. A key inserted twice keeps its old node, and the replacement that removes this node also
  removes the new entry from the map. Entries erased between the posting of a replacement and its run make the difference of
  the sizes wrap around.
\<close>

lemma double_insert_loses_key:
  "(let c = Insert 4 ''d'' (Insert 3 ''c'' (Insert 2 ''new'' (Insert 2 ''old'' (HashCache_new 2))))
    in map_option fst (Find (2 :: nat) c) = Some (Some ''new'')
       \<and> map_option (\<lambda>(n, c). (n, map_option fst (Find 2 c), Dump c)) (Replace c) = Some (1, Some None, [2, 3, 4]))"
  by (simp add: Insert_def HashCache_new_def ebaseed_def cache_size_def Find_def splice_def Replace_def szsub_def Dump_def Let_def)

text \<open>
  Two threads that locate the same missing key get there: both look it up before either inserts it.
\<close>

lemma racing_locates:
  assumes "Find key c = Some (None, c)" "Creator key = Some v"
  shows "(do { (a, c) \<leftarrow> Find key c; (b, c) \<leftarrow> Find key c; Some (a, b, Insert key v (Insert key v c)) })
      = Some (None, None, Insert key v (Insert key v c))"
    and "Locate Creator key c = Some (Some v, Insert key v c)"
    and "map (\<lambda>n. fst (snd n)) (hc_list (Insert key v (Insert key v c))) = map (\<lambda>n. fst (snd n)) (hc_list c) @ [key, key]"
  using assms by (auto simp: Locate_def Insert_def Let_def)

lemma late_replacement_is_undefined:
  "(let c = Insert (3 :: nat) ''c'' (Insert 2 ''b'' (Insert 1 ''a'' (HashCache_new 2)))
    in hc_posted c = 1 \<and> Erase 3 c \<bind> (\<lambda>c. Erase 2 c \<bind> Replace) = None)"
  by (simp add: Insert_def HashCache_new_def ebaseed_def cache_size_def Erase_def Replace_def szsub_def Let_def)

end
