(* ===== verification/Continuum.thy ===== *)
theory Continuum
  imports StdMap Murmur "HOL-Library.Multiset" "HOL-Library.Monad_Syntax"
begin

text \<open>
  \<open>src/src/base3/consistenthash.h\<close>: servers on a ring of hash values, each at as many points as its capacity says. The hash
  function is an argument of \<open>Rebuild\<close>, as it is in the template. \<open>std::sort\<close> leaves the order of equal points open and is a
  parameter. Calls are atomic; the report \<open>Dump\<close>, which uses floating point, is not modelled.
\<close>

type_synonym Point = "nat \<times> string"

record Continuum =
  points :: "Point list"
  desc_map :: "(string, nat) std_map"

definition Continuum_new :: Continuum where
  "Continuum_new = \<lparr>points = [], desc_map = []\<rparr>"

text \<open>\<open>base3/hash.h\<close> repeats the hash of \<open>murmurhash2.cc\<close>.\<close>

definition Hash :: "bytes \<Rightarrow> nat" where
  "Hash t = unat (MurmurHash2 t 0)"

text \<open>\<open>lower_bound\<close> on the sorted points; a hash behind the last point belongs to the first.\<close>

definition lower_bound :: "Point list \<Rightarrow> nat \<Rightarrow> Point list" where
  "lower_bound ps h = dropWhile (\<lambda>p. fst p < h) ps"

definition Locate :: "Continuum \<Rightarrow> nat \<Rightarrow> string" where
  "Locate c h =
     (case lower_bound (points c) h of
        p # _ \<Rightarrow> snd p
      | [] \<Rightarrow> (case points c of p # _ \<Rightarrow> snd p | [] \<Rightarrow> []))"

definition Add :: "string \<Rightarrow> nat \<Rightarrow> Continuum \<Rightarrow> Continuum" where
  "Add desc cap c = c\<lparr>desc_map := map_put desc cap (desc_map c)\<rparr>"

definition Remove :: "string \<Rightarrow> Continuum \<Rightarrow> Continuum" where
  "Remove desc c = c\<lparr>desc_map := map_erase desc (desc_map c)\<rparr>"

definition Clear :: "Continuum \<Rightarrow> Continuum" where
  "Clear c = c\<lparr>desc_map := []\<rparr>"

text \<open>
  \<open>snprintf\<close> cuts the label to the buffer but returns its full length, with which the hash function then reads the buffer; \<open>None\<close> when
  that is beyond the end.
\<close>

definition big_enough :: nat where "big_enough = 16 + 5"

definition hex :: "nat \<Rightarrow> string" where
  "hex k = map digit_char (rev (digits_rev 16 k))"

definition label :: "string \<Rightarrow> nat \<Rightarrow> string" where
  "label desc k = c_str desc @ ''-'' @ hex k"

definition hashed_text :: "string \<Rightarrow> nat \<Rightarrow> bytes option" where
  "hashed_text desc k =
     (let full = label desc k; buf = take (big_enough - 1) full @ [NUL]
      in if length full < big_enough then Some full
         else if length full = big_enough then Some buf else None)"

fun server_points :: "(bytes \<Rightarrow> nat) \<Rightarrow> string \<Rightarrow> nat list \<Rightarrow> Point list option" where
  "server_points func desc [] = Some []"
| "server_points func desc (k # ks) = do {
     t \<leftarrow> hashed_text desc k;
     ps \<leftarrow> server_points func desc ks;
     Some ((func t, desc) # ps)
   }"

fun all_points :: "(bytes \<Rightarrow> nat) \<Rightarrow> (string, nat) std_map \<Rightarrow> Point list option" where
  "all_points func [] = Some []"
| "all_points func ((desc, cap) # m) = do {
     ps \<leftarrow> server_points func desc [0..<cap];
     qs \<leftarrow> all_points func m;
     Some (ps @ qs)
   }"

definition Rebuild :: "(Point list \<Rightarrow> Point list) \<Rightarrow> (bytes \<Rightarrow> nat) \<Rightarrow> Continuum \<Rightarrow> (bool \<times> Continuum) option" where
  "Rebuild srt func c =
     (let total_point = sum_list (map snd (desc_map c)) mod 2 ^ 32 in
      if total_point = 0 then Some (False, c)
      else do {
        target \<leftarrow> all_points func (desc_map c);
        Some (True, c\<lparr>points := srt target\<rparr>)
      })"

definition ring_size :: "Continuum \<Rightarrow> nat" where
  "ring_size c = length (points c)"

section \<open>The nearest point\<close>

text \<open>\<open>std::sort\<close>: the same points, in the order of their hash values.\<close>

definition sorts :: "(Point list \<Rightarrow> Point list) \<Rightarrow> bool" where
  "sorts srt \<longleftrightarrow> (\<forall>ps. mset (srt ps) = mset ps \<and> sorted (map fst (srt ps)))"

text \<open>The first point at or after a hash value, going round.\<close>

definition nearest :: "Point set \<Rightarrow> nat \<Rightarrow> Point \<Rightarrow> bool" where
  "nearest S h p \<longleftrightarrow>
     p \<in> S \<and> (h \<le> fst p \<and> (\<forall>q \<in> S. h \<le> fst q \<longrightarrow> fst p \<le> fst q) \<or> (\<forall>q \<in> S. fst q < h) \<and> (\<forall>q \<in> S. fst p \<le> fst q))"

lemma nearest_unique: "inj_on fst S \<Longrightarrow> nearest S h p \<Longrightarrow> nearest S h q \<Longrightarrow> p = q"
  unfolding nearest_def by (meson inj_onD le_antisym not_less)

lemma nearest_subset: "nearest S h p \<Longrightarrow> T \<subseteq> S \<Longrightarrow> p \<in> T \<Longrightarrow> nearest T h p"
  unfolding nearest_def by blast

lemma Locate_nearest:
  assumes "sorted (map fst (points c))" "points c \<noteq> []"
  shows "\<exists>p. nearest (set (points c)) h p \<and> Locate c h = snd p"
proof (cases "lower_bound (points c) h")
  case Nil
  then have lt: "\<forall>q \<in> set (points c). fst q < h" by (simp add: lower_bound_def dropWhile_eq_Nil_conv)
  obtain p ps where p: "points c = p # ps" using assms(2) by (cases "points c") auto
  then have "nearest (set (points c)) h p" using lt assms(1) by (auto simp: nearest_def)
  then show ?thesis using Nil p by (intro exI [of _ p]) (simp add: Locate_def)
next
  case (Cons p ps)
  let ?pre = "takeWhile (\<lambda>p. fst p < h) (points c)"
  have split: "points c = ?pre @ p # ps" using Cons by (metis lower_bound_def takeWhile_dropWhile_id)
  have h: "h \<le> fst p" using Cons by (auto simp: lower_bound_def dest: dropWhile_eq_Cons_conv [THEN iffD1])
  have "fst p \<le> fst q" if "q \<in> set (points c)" "h \<le> fst q" for q
  proof -
    have "q \<notin> set ?pre" using that(2) by (auto dest: set_takeWhileD)
    then have "q \<in> set (p # ps)" using that(1) split by (metis Un_iff set_append)
    moreover have "sorted (map fst (p # ps))" using assms(1) split by (metis map_append sorted_append)
    ultimately show ?thesis by auto
  qed
  then have "nearest (set (points c)) h p" using h split unfolding nearest_def by (metis in_set_conv_decomp)
  then show ?thesis using Cons by (intro exI [of _ p]) (simp add: Locate_def)
qed

section \<open>Building and changing the ring\<close>

lemma server_points_desc: "server_points func desc ks = Some ps \<Longrightarrow> p \<in> set ps \<Longrightarrow> snd p = desc"
  by (induction ks arbitrary: ps) (auto split: Option.bind_splits)

lemma all_points_desc: "all_points func m = Some ps \<Longrightarrow> p \<in> set ps \<Longrightarrow> snd p \<in> fst ` set m"
  by (induction func m arbitrary: ps rule: all_points.induct)
    (fastforce split: Option.bind_splits dest: server_points_desc)+

lemma all_points_erase:
  "map_ok m \<Longrightarrow> all_points func m = Some ps \<Longrightarrow> \<exists>qs. all_points func (map_erase d m) = Some qs \<and> set qs = {p \<in> set ps. snd p \<noteq> d}"
proof (induction func m arbitrary: ps rule: all_points.induct)
  case (2 func desc cap m)
  obtain p1 p2 where p: "server_points func desc [0..<cap] = Some p1" "all_points func m = Some p2" "ps = p1 @ p2"
    using "2.prems"(2) by (auto split: Option.bind_splits)
  have m: "map_ok m" "desc \<notin> fst ` set m" using "2.prems"(1) by (auto simp: map_ok_def)
  note d1 = server_points_desc [OF p(1)]
  show ?case
  proof (cases "d = desc")
    case True
    then show ?thesis using p m(2) d1 all_points_desc [OF p(2)] by (auto simp: image_iff) (metis prod.collapse)+
  next
    case False
    obtain qs where "all_points func (map_erase d m) = Some qs" "set qs = {p \<in> set p2. snd p \<noteq> d}"
      using "2.IH" [OF p(1) m(1) p(2)] by blast
    then show ?thesis using False p d1 by auto
  qed
qed simp

lemma Rebuild_points:
  assumes "sorts srt" "Rebuild srt func c = Some (True, c')"
  shows "\<exists>ps. all_points func (desc_map c) = Some ps \<and> set (points c') = set ps \<and> sorted (map fst (points c'))
    \<and> length (points c') = length ps \<and> desc_map c' = desc_map c"
proof -
  obtain ps where ps: "all_points func (desc_map c) = Some ps" "c' = c\<lparr>points := srt ps\<rparr>"
    using assms(2) by (auto simp: Rebuild_def Let_def split: if_splits Option.bind_splits)
  have "mset (srt ps) = mset ps" "sorted (map fst (srt ps))" using assms(1) by (auto simp: sorts_def)
  then have "set (srt ps) = set ps" "length (srt ps) = length ps" "sorted (map fst (srt ps))"
    by (auto dest: mset_eq_setD mset_eq_length)
  then show ?thesis using ps by simp
qed

lemma length_server_points: "server_points func desc ks = Some ps \<Longrightarrow> length ps = length ks"
  by (induction ks arbitrary: ps) (auto split: Option.bind_splits)

lemma length_all_points: "all_points func m = Some ps \<Longrightarrow> length ps = sum_list (map snd m)"
  by (induction func m arbitrary: ps rule: all_points.induct) (auto split: Option.bind_splits dest: length_server_points)

lemma Rebuild_ring:
  assumes "sorts srt" "Rebuild srt func c = Some (True, c')"
  shows "points c' \<noteq> [] \<and> sorted (map fst (points c'))"
proof -
  obtain ps where ps: "all_points func (desc_map c) = Some ps" "sorted (map fst (points c'))" "length (points c') = length ps"
    using Rebuild_points [OF assms] by blast
  have "sum_list (map snd (desc_map c)) mod 2 ^ 32 \<noteq> 0"
    using assms(2) unfolding Rebuild_def Let_def by (metis (no_types, lifting) option.inject prod.inject)
  then have "sum_list (map snd (desc_map c)) \<noteq> 0" by (metis mod_0)
  then show ?thesis using length_all_points [OF ps(1)] ps(2,3) by (metis list.size(3))
qed

text \<open>
  C35: consistent hashing: when a server is removed and the ring rebuilt, every hash value that belonged to another server still
  belongs to it. Before and after, a value belongs to the server of the nearest point at or after it, going round. (No two points of the ring
  have the same hash value.)
\<close>

theorem removal_moves_only_its_keys:
  assumes "sorts srt" "map_ok (desc_map c)" "Rebuild srt func c = Some (True, c1)" "Rebuild srt func (Remove d c1) = Some (True, c2)"
    and "inj_on fst (set (points c1))"
  shows "(\<exists>p. nearest (set (points c1)) h p \<and> Locate c1 h = snd p) \<and> (\<exists>p. nearest (set (points c2)) h p \<and> Locate c2 h = snd p)
    \<and> (Locate c1 h \<noteq> d \<longrightarrow> Locate c2 h = Locate c1 h)"
proof -
  obtain p where p: "nearest (set (points c1)) h p" "Locate c1 h = snd p"
    using Locate_nearest Rebuild_ring [OF assms(1,3)] by blast
  obtain q where q: "nearest (set (points c2)) h q" "Locate c2 h = snd q"
    using Locate_nearest Rebuild_ring [OF assms(1,4)] by blast
  obtain ps where ps: "all_points func (desc_map c) = Some ps" "set (points c1) = set ps" "desc_map c1 = desc_map c"
    using Rebuild_points [OF assms(1,3)] by blast
  have "set (points c2) = {p \<in> set (points c1). snd p \<noteq> d}"
    using Rebuild_points [OF assms(1,4)] all_points_erase [OF assms(2) ps(1), of d] ps(2,3) by (auto simp: Remove_def)
  then have "Locate c2 h = Locate c1 h" if "Locate c1 h \<noteq> d"
    using nearest_subset [OF p(1), of "set (points c2)"] nearest_unique [OF _ q(1), of p] inj_on_subset [OF assms(5)] that p q
    by (auto simp: nearest_def)
  then show ?thesis using p q by blast
qed

definition sample_ring :: Continuum where
  "sample_ring = Add ''b'' 2 (Add ''a'' 1 Continuum_new)"

text \<open>A sample hash function: the sum of the bytes.\<close>

definition byte_sum :: "bytes \<Rightarrow> nat" where
  "byte_sum t = sum_list (map of_char t)"

lemma sample_points:
  "all_points byte_sum [(''a'', 1), (''b'', 2)] = Some [(190, ''a''), (191, ''b''), (192, ''b'')]"
  "all_points byte_sum [(''b'', 2)] = Some [(191, ''b''), (192, ''b'')]"
  by (simp_all add: upt_rec hashed_text_def label_def hex_def digits_rev.simps digit_char_def byte_sum_def big_enough_def c_str_def Let_def)

theorem removal_moves_only_its_keys_witness:
  "\<exists>c1 c2. Rebuild (sort_key fst) byte_sum sample_ring = Some (True, c1)
    \<and> Rebuild (sort_key fst) byte_sum (Remove ''a'' c1) = Some (True, c2) \<and> Locate c1 191 = ''b'' \<and> Locate c2 191 = Locate c1 191"
proof -
  let ?c1 = "sample_ring\<lparr>points := [(190, ''a''), (191, ''b''), (192, ''b'')]\<rparr>"
  have m: "desc_map sample_ring = [(''a'', 1), (''b'', 2)]"
    by (simp add: sample_ring_def Add_def Continuum_new_def less_char_def)
  have 1: "Rebuild (sort_key fst) byte_sum sample_ring = Some (True, ?c1)"
    by (simp add: Rebuild_def m sample_points del: all_points.simps One_nat_def)
  have "Rebuild (sort_key fst) byte_sum (Remove ''a'' ?c1) = Some (True, (Remove ''a'' ?c1)\<lparr>points := [(191, ''b''), (192, ''b'')]\<rparr>)"
    by (simp add: Rebuild_def Remove_def m sample_points del: all_points.simps One_nat_def)
  moreover have "sorts (sort_key fst)" by (simp add: sorts_def)
  moreover have "map_ok (desc_map sample_ring)" by (simp add: m map_ok_def less_char_def)
  moreover have l: "Locate ?c1 191 = ''b''" by (simp add: Locate_def lower_bound_def)
  ultimately show ?thesis using 1 removal_moves_only_its_keys [OF _ _ 1, of "''a''" _ 191] by auto
qed

text \<open>A description that is too long for the label buffer makes the hash function read beyond it.\<close>

lemma long_label_overruns: "NUL \<notin> set desc \<Longrightarrow> 19 < length desc \<Longrightarrow> hashed_text desc k = None"
proof -
  assume d: "NUL \<notin> set desc" "19 < length desc"
  have l: "length (label desc k) = length desc + 1 + length (hex k)" using d(1) by (simp add: label_def)
  have "1 \<le> length (hex k)" by (simp add: hex_def Suc_le_eq)
  then have "big_enough < length (label desc k)" unfolding l big_enough_def using d(2) by linarith
  then show ?thesis by (simp add: hashed_text_def Let_def)
qed

text \<open>When no server is left the old ring stays in use.\<close>

lemma cleared_ring_stays: "Rebuild srt func (Clear c) = Some (False, Clear c) \<and> Locate (Clear c) h = Locate c h"
  by (auto simp: Rebuild_def Clear_def Locate_def split: list.splits)

end
