(* ===== verification/Md5.thy ===== *)
theory Md5
  imports LittleEndian CString
begin

unbundle bit_operations_syntax

text \<open>
  \<open>src/src/base3/md5.cc\<close>: the message digest, computed over data that arrives in pieces. The halves of the bit count are kept as
  numbers below \<open>2^32\<close>. The proofs compare it with the definition of the digest on a whole message.
\<close>

type_synonym u32 = "32 word"
type_synonym md5_state = "u32 \<times> u32 \<times> u32 \<times> u32"

section \<open>The transformation of one block\<close>

definition F1 :: "u32 \<Rightarrow> u32 \<Rightarrow> u32 \<Rightarrow> u32" where "F1 x y z = (z XOR (x AND (y XOR z)))"
definition F2 :: "u32 \<Rightarrow> u32 \<Rightarrow> u32 \<Rightarrow> u32" where "F2 x y z = F1 z x y"
definition F3 :: "u32 \<Rightarrow> u32 \<Rightarrow> u32 \<Rightarrow> u32" where "F3 x y z = (x XOR y XOR z)"
definition F4 :: "u32 \<Rightarrow> u32 \<Rightarrow> u32 \<Rightarrow> u32" where "F4 x y z = (y XOR (x OR NOT z))"

definition rotate :: "u32 \<Rightarrow> nat \<Rightarrow> u32" where
  "rotate w s = (push_bit s w OR drop_bit (32 - s) w)"

definition MD5STEP :: "(u32 \<Rightarrow> u32 \<Rightarrow> u32 \<Rightarrow> u32) \<Rightarrow> u32 \<Rightarrow> u32 \<Rightarrow> u32 \<Rightarrow> u32 \<Rightarrow> u32 \<Rightarrow> nat \<Rightarrow> u32" where
  "MD5STEP f w x y z data s = rotate (w + (f x y z + data)) s + x"

text \<open>Four lines of the routine: each of the variables is changed once.\<close>

definition quad ::
  "(u32 \<Rightarrow> u32 \<Rightarrow> u32 \<Rightarrow> u32) \<Rightarrow> nat \<times> nat \<times> nat \<times> nat \<Rightarrow> md5_state \<Rightarrow> u32 \<Rightarrow> u32 \<Rightarrow> u32 \<Rightarrow> u32 \<Rightarrow> md5_state" where
  "quad f s v d1 d2 d3 d4 =
     (case (s, v) of ((s1, s2, s3, s4), (a, b, c, d)) \<Rightarrow>
        let a = MD5STEP f a b c d d1 s1;
            d = MD5STEP f d a b c d2 s2;
            c = MD5STEP f c d a b d3 s3;
            b = MD5STEP f b c d a d4 s4
        in (a, b, c, d))"

definition MD5Transform :: "md5_state \<Rightarrow> (nat \<Rightarrow> u32) \<Rightarrow> md5_state" where
  "MD5Transform buf i =
     (let v = buf;
          v = quad F1 (7, 12, 17, 22) v (i 0 + 0xd76aa478) (i 1 + 0xe8c7b756) (i 2 + 0x242070db) (i 3 + 0xc1bdceee);
          v = quad F1 (7, 12, 17, 22) v (i 4 + 0xf57c0faf) (i 5 + 0x4787c62a) (i 6 + 0xa8304613) (i 7 + 0xfd469501);
          v = quad F1 (7, 12, 17, 22) v (i 8 + 0x698098d8) (i 9 + 0x8b44f7af) (i 10 + 0xffff5bb1) (i 11 + 0x895cd7be);
          v = quad F1 (7, 12, 17, 22) v (i 12 + 0x6b901122) (i 13 + 0xfd987193) (i 14 + 0xa679438e) (i 15 + 0x49b40821);
          v = quad F2 (5, 9, 14, 20) v (i 1 + 0xf61e2562) (i 6 + 0xc040b340) (i 11 + 0x265e5a51) (i 0 + 0xe9b6c7aa);
          v = quad F2 (5, 9, 14, 20) v (i 5 + 0xd62f105d) (i 10 + 0x02441453) (i 15 + 0xd8a1e681) (i 4 + 0xe7d3fbc8);
          v = quad F2 (5, 9, 14, 20) v (i 9 + 0x21e1cde6) (i 14 + 0xc33707d6) (i 3 + 0xf4d50d87) (i 8 + 0x455a14ed);
          v = quad F2 (5, 9, 14, 20) v (i 13 + 0xa9e3e905) (i 2 + 0xfcefa3f8) (i 7 + 0x676f02d9) (i 12 + 0x8d2a4c8a);
          v = quad F3 (4, 11, 16, 23) v (i 5 + 0xfffa3942) (i 8 + 0x8771f681) (i 11 + 0x6d9d6122) (i 14 + 0xfde5380c);
          v = quad F3 (4, 11, 16, 23) v (i 1 + 0xa4beea44) (i 4 + 0x4bdecfa9) (i 7 + 0xf6bb4b60) (i 10 + 0xbebfbc70);
          v = quad F3 (4, 11, 16, 23) v (i 13 + 0x289b7ec6) (i 0 + 0xeaa127fa) (i 3 + 0xd4ef3085) (i 6 + 0x04881d05);
          v = quad F3 (4, 11, 16, 23) v (i 9 + 0xd9d4d039) (i 12 + 0xe6db99e5) (i 15 + 0x1fa27cf8) (i 2 + 0xc4ac5665);
          v = quad F4 (6, 10, 15, 21) v (i 0 + 0xf4292244) (i 7 + 0x432aff97) (i 14 + 0xab9423a7) (i 5 + 0xfc93a039);
          v = quad F4 (6, 10, 15, 21) v (i 12 + 0x655b59c3) (i 3 + 0x8f0ccc92) (i 10 + 0xffeff47d) (i 1 + 0x85845dd1);
          v = quad F4 (6, 10, 15, 21) v (i 8 + 0x6fa87e4f) (i 15 + 0xfe2ce6e0) (i 6 + 0xa3014314) (i 13 + 0x4e0811a1);
          v = quad F4 (6, 10, 15, 21) v (i 4 + 0xf7537e82) (i 11 + 0xbd3af235) (i 2 + 0x2ad7d2bb) (i 9 + 0xeb86d391)
      in case (buf, v) of ((a0, b0, c0, d0), (a, b, c, d)) \<Rightarrow> (a0 + a, b0 + b, c0 + c, d0 + d))"

section \<open>The running digest\<close>

record Context =
  cx_buf :: md5_state
  bits0 :: nat
  bits1 :: nat
  inbuf :: bytes

text \<open>\<open>byteReverse\<close> stores every group of four bytes as the number they stand for, which changes nothing on a little-endian machine.\<close>

fun byteReverse :: "nat \<Rightarrow> bytes \<Rightarrow> bytes" where
  "byteReverse 0 b = b"
| "byteReverse (Suc longs) b = le_bytes 4 (le_val (take 4 b)) @ byteReverse longs (drop 4 b)"

definition long_at :: "bytes \<Rightarrow> nat \<Rightarrow> u32" where
  "long_at b i = of_nat (le_val (take 4 (drop (4 * i) b)))"

definition overwrite :: "nat \<Rightarrow> bytes \<Rightarrow> bytes \<Rightarrow> bytes" where
  "overwrite off d b = take off b @ d @ drop (off + length d) b"

definition MD5Init :: "Context \<Rightarrow> Context" where
  "MD5Init ctx = ctx\<lparr>cx_buf := (0x67452301, 0xefcdab89, 0x98badcfe, 0x10325476), bits0 := 0, bits1 := 0\<rparr>"

definition transform_block :: "Context \<Rightarrow> Context" where
  "transform_block ctx =
     (let b = byteReverse 16 (inbuf ctx) in ctx\<lparr>inbuf := b, cx_buf := MD5Transform (cx_buf ctx) (long_at b)\<rparr>)"

function update_blocks :: "Context \<Rightarrow> bytes \<Rightarrow> Context \<times> bytes" where
  "update_blocks ctx buf =
     (if 64 \<le> length buf then update_blocks (transform_block (ctx\<lparr>inbuf := overwrite 0 (take 64 buf) (inbuf ctx)\<rparr>)) (drop 64 buf)
      else (ctx, buf))"
  by pat_completeness auto
termination
  by (relation "measure (\<lambda>(_, buf). length buf)") auto

declare update_blocks.simps [simp del]

definition MD5Update :: "Context \<Rightarrow> bytes \<Rightarrow> Context" where
  "MD5Update ctx buf =
     (let len = length buf; t = bits0 ctx;
          b0 = (t + len * 8 mod 2 ^ 32) mod 2 ^ 32;
          b1 = (if b0 < t then (bits1 ctx + 1) mod 2 ^ 32 else bits1 ctx);
          ctx = ctx\<lparr>bits0 := b0, bits1 := (b1 + len div 2 ^ 29) mod 2 ^ 32\<rparr>;
          t = t div 8 mod 64
      in if t \<noteq> 0 \<and> len < 64 - t then ctx\<lparr>inbuf := overwrite t buf (inbuf ctx)\<rparr>
         else
           let (ctx, buf) = (if t \<noteq> 0
                 then (transform_block (ctx\<lparr>inbuf := overwrite t (take (64 - t) buf) (inbuf ctx)\<rparr>), drop (64 - t) buf)
                 else (ctx, buf));
               (ctx, buf) = update_blocks ctx buf
           in ctx\<lparr>inbuf := overwrite 0 buf (inbuf ctx)\<rparr>)"

definition MD5Final :: "Context \<Rightarrow> bytes" where
  "MD5Final ctx =
     (let count = bits0 ctx div 8 mod 64;
          ctx = ctx\<lparr>inbuf := overwrite count [CHR 0x80] (inbuf ctx)\<rparr>;
          p = count + 1; count = 64 - 1 - count;
          ctx = (if count < 8
                 then (let ctx = transform_block (ctx\<lparr>inbuf := overwrite p (replicate count NUL) (inbuf ctx)\<rparr>)
                       in ctx\<lparr>inbuf := overwrite 0 (replicate 56 NUL) (inbuf ctx)\<rparr>)
                 else ctx\<lparr>inbuf := overwrite p (replicate (count - 8) NUL) (inbuf ctx)\<rparr>);
          b = byteReverse 14 (inbuf ctx);
          b = overwrite 60 (le_bytes 4 (bits1 ctx)) (overwrite 56 (le_bytes 4 (bits0 ctx)) b)
      in case MD5Transform (cx_buf ctx) (long_at b) of (a, b, c, d) \<Rightarrow>
           byteReverse 4 (le_bytes 4 (unat a) @ le_bytes 4 (unat b) @ le_bytes 4 (unat c) @ le_bytes 4 (unat d)))"

definition MD5DigestToBase16 :: "bytes \<Rightarrow> string" where
  "MD5DigestToBase16 digest =
     concat (map (\<lambda>a. [''0123456789abcdef'' ! (of_char a div 16), ''0123456789abcdef'' ! (of_char a mod 16)]) digest)"

text \<open>The contents of a new context are those of the stack.\<close>

definition MD5Sum :: "Context \<Rightarrow> bytes \<Rightarrow> bytes" where
  "MD5Sum stack data = MD5Final (MD5Update (MD5Init stack) data)"

definition MD5String :: "Context \<Rightarrow> string \<Rightarrow> string" where
  "MD5String stack str = MD5DigestToBase16 (MD5Sum stack str)"

section \<open>The digest of a whole message\<close>

text \<open>The definition of RFC 1321: a table of constants, 64 rounds, and the message padded to whole blocks with its length in bits.\<close>

definition md5_table :: "u32 list" where
  "md5_table = [
      0xd76aa478, 0xe8c7b756, 0x242070db, 0xc1bdceee, 0xf57c0faf, 0x4787c62a, 0xa8304613, 0xfd469501,
      0x698098d8, 0x8b44f7af, 0xffff5bb1, 0x895cd7be, 0x6b901122, 0xfd987193, 0xa679438e, 0x49b40821,
      0xf61e2562, 0xc040b340, 0x265e5a51, 0xe9b6c7aa, 0xd62f105d, 0x02441453, 0xd8a1e681, 0xe7d3fbc8,
      0x21e1cde6, 0xc33707d6, 0xf4d50d87, 0x455a14ed, 0xa9e3e905, 0xfcefa3f8, 0x676f02d9, 0x8d2a4c8a,
      0xfffa3942, 0x8771f681, 0x6d9d6122, 0xfde5380c, 0xa4beea44, 0x4bdecfa9, 0xf6bb4b60, 0xbebfbc70,
      0x289b7ec6, 0xeaa127fa, 0xd4ef3085, 0x04881d05, 0xd9d4d039, 0xe6db99e5, 0x1fa27cf8, 0xc4ac5665,
      0xf4292244, 0x432aff97, 0xab9423a7, 0xfc93a039, 0x655b59c3, 0x8f0ccc92, 0xffeff47d, 0x85845dd1,
      0x6fa87e4f, 0xfe2ce6e0, 0xa3014314, 0x4e0811a1, 0xf7537e82, 0xbd3af235, 0x2ad7d2bb, 0xeb86d391]"

definition md5_shift :: "nat \<Rightarrow> nat" where
  "md5_shift i = [7, 12, 17, 22, 5, 9, 14, 20, 4, 11, 16, 23, 6, 10, 15, 21] ! (i div 16 * 4 + i mod 4)"

definition md5_index :: "nat \<Rightarrow> nat" where
  "md5_index i = [i, 5 * i + 1, 3 * i + 5, 7 * i] ! (i div 16) mod 16"

definition md5_function :: "nat \<Rightarrow> u32 \<Rightarrow> u32 \<Rightarrow> u32 \<Rightarrow> u32" where
  "md5_function i x y z =
     (if i < 16 then (x AND y) OR (NOT x AND z) else if i < 32 then (x AND z) OR (y AND NOT z)
      else if i < 48 then x XOR y XOR z else y XOR (x OR NOT z))"

definition md5_round :: "(nat \<Rightarrow> u32) \<Rightarrow> nat \<Rightarrow> md5_state \<Rightarrow> md5_state" where
  "md5_round m i v =
     (case v of (a, b, c, d) \<Rightarrow>
        (d, b + rotate (a + md5_function i b c d + md5_table ! i + m (md5_index i)) (md5_shift i), b, c))"

definition md5_block :: "md5_state \<Rightarrow> bytes \<Rightarrow> md5_state" where
  "md5_block v b =
     (case (v, fold (md5_round (long_at b)) [0..<64] v) of ((a0, b0, c0, d0), (a, b, c, d)) \<Rightarrow> (a0 + a, b0 + b, c0 + c, d0 + d))"

function md5_blocks :: "md5_state \<Rightarrow> bytes \<Rightarrow> md5_state" where
  "md5_blocks v m = (if 64 \<le> length m then md5_blocks (md5_block v (take 64 m)) (drop 64 m) else v)"
  by pat_completeness auto
termination
  by (relation "measure (\<lambda>(_, m). length m)") auto

declare md5_blocks.simps [simp del]

definition md5_padding :: "nat \<Rightarrow> bytes" where
  "md5_padding n = CHR 0x80 # replicate ((119 - n mod 64) mod 64) NUL @ le_bytes 8 (8 * n)"

definition md5_digest :: "bytes \<Rightarrow> bytes" where
  "md5_digest m =
     (case md5_blocks (0x67452301, 0xefcdab89, 0x98badcfe, 0x10325476) (m @ md5_padding (length m)) of (a, b, c, d) \<Rightarrow>
        le_bytes 4 (unat a) @ le_bytes 4 (unat b) @ le_bytes 4 (unat c) @ le_bytes 4 (unat d))"

section \<open>The rounds\<close>

lemma functions_agree:
  "F1 x y z = (x AND y) OR (NOT x AND z)" "F2 x y z = (x AND z) OR (y AND NOT z)"
  by (rule bit_word_eqI, auto simp: F1_def F2_def bit_simps)+

lemma fold_quad:
  assumes "i + 3 < 64" "\<And>j. j \<in> {i, i + 1, i + 2, i + 3} \<Longrightarrow> f = md5_function j"
  shows "fold (md5_round m) [i, i + 1, i + 2, i + 3] v
    = quad f (md5_shift i, md5_shift (i + 1), md5_shift (i + 2), md5_shift (i + 3)) v
        (m (md5_index i) + md5_table ! i) (m (md5_index (i + 1)) + md5_table ! (i + 1))
        (m (md5_index (i + 2)) + md5_table ! (i + 2)) (m (md5_index (i + 3)) + md5_table ! (i + 3))"
proof -
  have f: "md5_function i = f" "md5_function (i + 1) = f" "md5_function (i + 2) = f" "md5_function (i + 3) = f"
    using assms(2) by auto
  obtain a b c d where v: "v = (a, b, c, d)" by (cases v)
  show ?thesis unfolding v fold.simps comp_def id_def md5_round_def quad_def MD5STEP_def f prod.case Let_def
    by (simp add: ac_simps)
qed


lemma md5_functions:
  "i < 16 \<Longrightarrow> md5_function i = F1" "16 \<le> i \<Longrightarrow> i < 32 \<Longrightarrow> md5_function i = F2"
  "32 \<le> i \<Longrightarrow> i < 48 \<Longrightarrow> md5_function i = F3" "48 \<le> i \<Longrightarrow> md5_function i = F4"
  by (auto simp: md5_function_def functions_agree F3_def F4_def fun_eq_iff)

lemma fold_concat_lists: "fold f (concat xss) = fold (fold f) xss"
  by (induction xss) auto

text \<open>The indices and shift counts written out in the routine are those of the definition.\<close>

definition md5_rounds4 :: "(nat \<Rightarrow> u32) \<Rightarrow> nat \<Rightarrow> md5_state \<Rightarrow> md5_state" where
  "md5_rounds4 m i = fold (md5_round m) [i, i + 1, i + 2, i + 3]"

lemma rounds_by_four:
  "fold (md5_round m) [0..<64] v
     = fold (md5_rounds4 m) [0, 4, 8, 12, 16, 20, 24, 28, 32, 36, 40, 44, 48, 52, 56, 60] v"
proof -
  have "[0..<64] = concat (map (\<lambda>i. [i, i + 1, i + 2, i + 3]) [0, 4, 8, 12, 16, 20, 24, 28, 32, 36, 40, 44, 48, 52, 56, 60 :: nat])"
    by (simp add: upt_rec)
  then show ?thesis by (simp only: fold_concat_lists fold_map comp_def md5_rounds4_def [abs_def])
qed

lemma quad_rounds:
  assumes "f = md5_function i" "i \<in> {0, 4, 8, 12, 16, 20, 24, 28, 32, 36, 40, 44, 48, 52, 56, 60}"
  shows "md5_rounds4 m i v
    = quad f (md5_shift i, md5_shift (i + 1), md5_shift (i + 2), md5_shift (i + 3)) v
        (m (md5_index i) + md5_table ! i) (m (md5_index (i + 1)) + md5_table ! (i + 1))
        (m (md5_index (i + 2)) + md5_table ! (i + 2)) (m (md5_index (i + 3)) + md5_table ! (i + 3))"
  using assms unfolding md5_rounds4_def by (intro fold_quad) (auto simp: md5_functions)

lemma MD5Transform_is_block: "MD5Transform v (long_at b) = md5_block v b"
proof -
  note q = quad_rounds
  note q' = q [of F1 0] q [of F1 4] q [of F1 8] q [of F1 12] q [of F2 16] q [of F2 20] q [of F2 24] q [of F2 28]
    q [of F3 32] q [of F3 36] q [of F3 40] q [of F3 44] q [of F4 48] q [of F4 52] q [of F4 56] q [of F4 60]
  show ?thesis unfolding md5_block_def MD5Transform_def rounds_by_four Let_def
    by (simp add: q' md5_functions md5_shift_def md5_index_def md5_table_def flip: numeral_2_eq_2)
qed

section \<open>Whole blocks and what is left over\<close>

lemma byteReverse_id: "4 * k \<le> length b \<Longrightarrow> byteReverse k b = b"
proof (induction k arbitrary: b)
  case (Suc k)
  have "le_bytes 4 (le_val (take 4 b)) = take 4 b" using le_bytes_le_val [of "take 4 b"] Suc.prems by simp
  moreover have "byteReverse k (drop 4 b) = drop 4 b" using Suc by simp
  ultimately show ?case by simp
qed simp

definition md5_tail :: "bytes \<Rightarrow> bytes" where
  "md5_tail m = drop (length m - length m mod 64) m"

lemma length_md5_tail [simp]: "length (md5_tail m) = length m mod 64"
  by (simp add: md5_tail_def)

lemma md5_tail_short: "length m < 64 \<Longrightarrow> md5_tail m = m"
  by (simp add: md5_tail_def)

lemma md5_tail_drop: "64 \<le> length m \<Longrightarrow> md5_tail (drop 64 m) = md5_tail m"
  using mod_less_eq_dividend [of "length m - 64" 64] by (simp add: md5_tail_def le_mod_geq)

lemma md5_blocks_short: "length m < 64 \<Longrightarrow> md5_blocks v m = v"
  by (simp add: md5_blocks.simps)

lemma md5_blocks_append: "md5_blocks v (m @ n) = md5_blocks (md5_blocks v m) (md5_tail m @ n)"
proof (induction v m rule: md5_blocks.induct)
  case (1 v m)
  show ?case
  proof (cases "64 \<le> length m")
    case True
    then show ?thesis using 1 by (subst (1 2) md5_blocks.simps) (simp add: md5_tail_drop)
  qed (simp add: md5_tail_short md5_blocks_short)
qed

lemma md5_blocks_step: "64 \<le> length m \<Longrightarrow> md5_blocks v m = md5_blocks (md5_block v (take 64 m)) (drop 64 m)"
  by (subst md5_blocks.simps) simp

lemma md5_tail_append: "md5_tail (m @ n) = md5_tail (md5_tail m @ n)"
proof (induction m rule: measure_induct_rule [of length])
  case (less m)
  show ?case
  proof (cases "64 \<le> length m")
    case True
    have "md5_tail (m @ n) = md5_tail (drop 64 m @ n)" using md5_tail_drop [of "m @ n"] True by simp
    also have "\<dots> = md5_tail (md5_tail (drop 64 m) @ n)" using True by (intro less) simp
    finally show ?thesis by (simp only: md5_tail_drop [OF True])
  qed (simp add: md5_tail_short)
qed

section \<open>The digest of the data that arrives in pieces\<close>

abbreviation md5_start :: md5_state where
  "md5_start \<equiv> (0x67452301, 0xefcdab89, 0x98badcfe, 0x10325476)"

definition md5_holds :: "Context \<Rightarrow> bytes \<Rightarrow> bool" where
  "md5_holds ctx m \<longleftrightarrow> length (inbuf ctx) = 64 \<and> cx_buf ctx = md5_blocks md5_start m
     \<and> take (length m mod 64) (inbuf ctx) = md5_tail m
     \<and> bits0 ctx = 8 * length m mod 2 ^ 32 \<and> bits1 ctx = 8 * length m div 2 ^ 32 mod 2 ^ 32"

lemma MD5Init_holds: "length (inbuf stack) = 64 \<Longrightarrow> md5_holds (MD5Init stack) []"
  by (simp add: md5_holds_def MD5Init_def md5_blocks_short md5_tail_short)

lemma transform_block_at:
  assumes "length (inbuf ctx) = 64"
  shows "transform_block ctx = ctx\<lparr>cx_buf := md5_block (cx_buf ctx) (inbuf ctx)\<rparr>"
  using assms by (simp add: transform_block_def byteReverse_id MD5Transform_is_block)

lemma update_blocks_at:
  assumes "length (inbuf ctx) = 64"
  shows "\<exists>b. length b = 64
    \<and> update_blocks ctx buf = (ctx\<lparr>cx_buf := md5_blocks (cx_buf ctx) buf, inbuf := b\<rparr>, md5_tail buf)"
  using assms
proof (induction ctx buf rule: update_blocks.induct)
  case (1 ctx buf)
  show ?case
  proof (cases "64 \<le> length buf")
    case True
    let ?c = "transform_block (ctx\<lparr>inbuf := overwrite 0 (take 64 buf) (inbuf ctx)\<rparr>)"
    have c: "?c = ctx\<lparr>inbuf := take 64 buf, cx_buf := md5_block (cx_buf ctx) (take 64 buf)\<rparr>"
      using True 1(2) by (simp add: transform_block_at overwrite_def)
    then obtain b where "length b = 64" "update_blocks ?c (drop 64 buf)
        = (?c\<lparr>cx_buf := md5_blocks (cx_buf ?c) (drop 64 buf), inbuf := b\<rparr>, md5_tail (drop 64 buf))"
      using 1(1) [OF True] True by auto
    moreover have "update_blocks ctx buf = update_blocks ?c (drop 64 buf)" using True by (subst update_blocks.simps) simp
    ultimately show ?thesis using c by (auto simp: md5_tail_drop [OF True] md5_blocks_step [OF True])
  qed (use 1(2) in \<open>auto simp: update_blocks.simps md5_blocks_short md5_tail_short intro!: exI [of _ "inbuf ctx"]\<close>)
qed

text \<open>The count of bits, in two halves.\<close>

lemma halves_add:
  fixes x y B :: nat
  assumes "0 < B"
  shows "(x + y) div B = x div B + y div B + (if (x + y) mod B < x mod B then 1 else 0)"
proof (cases "x mod B + y mod B < B")
  case True
  then show ?thesis by (simp add: div_add1_eq [of x y] mod_add_eq [of x B y, symmetric])
next
  case False
  let ?s = "x mod B + y mod B"
  have less: "y mod B < B" "x mod B < B" using assms by simp_all
  have "?s < B + B" using less by linarith
  then have "?s div B = 1" using False by (intro div_nat_eqI) simp_all
  moreover have "(x + y) mod B = ?s - B"
  proof -
    have "?s - B < B" using less by linarith
    moreover have "?s mod B = (?s - B) mod B" using False by (intro le_mod_geq) simp
    ultimately show ?thesis by (simp only: mod_less mod_add_eq [of x B y, symmetric])
  qed
  moreover have "?s - B < x mod B" using False less by linarith
  ultimately show ?thesis by (simp only: div_add1_eq [of x y] if_True)
qed

lemma bytes_in_block: "8 * n mod 2 ^ 32 div 8 mod 64 = n mod (64 :: nat)"
proof -
  have "8 * n mod 2 ^ 32 = 8 * (n mod 2 ^ 29)" using mod_mult_mult1 [of 8 n "2 ^ 29"] by simp
  then show ?thesis using mod_mod_cancel [of 64 "2 ^ 29" n] by simp
qed

lemma count_low: "(8 * n mod 2 ^ 32 + l * 8 mod 2 ^ 32) mod 2 ^ 32 = 8 * (n + l) mod (2 ^ 32 :: nat)"
  by (simp add: mod_simps algebra_simps)

lemma count_high:
  fixes n l :: nat
  assumes "b1 = 8 * n div 2 ^ 32 mod 2 ^ 32"
  shows "((if 8 * (n + l) mod 2 ^ 32 < 8 * n mod 2 ^ 32 then (b1 + 1) mod 2 ^ 32 else b1) + l div 2 ^ 29) mod 2 ^ 32
    = 8 * (n + l) div 2 ^ 32 mod 2 ^ 32"
proof -
  have "8 * l div 2 ^ 32 = l div 2 ^ 29" using div_mult_mult1 [of 8 l "2 ^ 29"] by simp
  then show ?thesis
    using halves_add [of "2 ^ 32" "8 * n" "8 * l"] by (simp add: assms distrib_left mod_simps ac_simps)
qed

text \<open>The bytes that complete a block, and those that leave it unfinished.\<close>

lemma MD5Update_holds:
  assumes "md5_holds ctx m"
  shows "md5_holds (MD5Update ctx buf) (m @ buf)"
proof -
  let ?t = "length m mod 64" and ?n = "length m" and ?l = "length buf"
  note h = assms [unfolded md5_holds_def]
  define c where "c = ctx\<lparr>bits0 := 8 * (?n + ?l) mod 2 ^ 32, bits1 := 8 * (?n + ?l) div 2 ^ 32 mod 2 ^ 32\<rparr>"
  define c2 where "c2 = (if ?t \<noteq> 0
    then (transform_block (c\<lparr>inbuf := overwrite ?t (take (64 - ?t) buf) (inbuf c)\<rparr>), drop (64 - ?t) buf) else (c, buf))"
  have c: "inbuf c = inbuf ctx" "cx_buf c = md5_blocks md5_start m" using h by (simp_all add: c_def)
  have upd: "MD5Update ctx buf = (if ?t \<noteq> 0 \<and> ?l < 64 - ?t then c\<lparr>inbuf := overwrite ?t buf (inbuf c)\<rparr>
    else let (ctx, buf) = c2; (ctx, buf) = update_blocks ctx buf in ctx\<lparr>inbuf := overwrite 0 buf (inbuf ctx)\<rparr>)"
    using h count_high [of "bits1 ctx" ?n ?l]
    by (simp only: MD5Update_def Let_def count_low bytes_in_block c_def [symmetric] c2_def [symmetric])
  let ?full = "md5_tail m @ buf"
  have intro: "md5_holds x (m @ buf)"
    if "length (inbuf x) = 64" "cx_buf x = md5_blocks (cx_buf c) ?full" "take (length ?full mod 64) (inbuf x) = md5_tail ?full"
      "bits0 x = bits0 c" "bits1 x = bits1 c" for x
    using that md5_blocks_append [of md5_start m buf] md5_tail_append [of m buf]
    by (simp add: md5_holds_def c_def h mod_simps)
  show ?thesis
  proof (cases "?t \<noteq> 0 \<and> ?l < 64 - ?t")
    case True
    then have "length ?full < 64" by auto
    then show ?thesis
      using True h by (auto intro!: intro simp: upd c overwrite_def md5_blocks_short md5_tail_short)
  next
    case False
    obtain cc rest where c2: "c2 = (cc, rest)" by (cases c2)
    have cc: "length (inbuf cc) = 64 \<and> md5_blocks (cx_buf cc) rest = md5_blocks (cx_buf c) ?full
        \<and> md5_tail rest = md5_tail ?full \<and> bits0 cc = bits0 c \<and> bits1 cc = bits1 c"
    proof (cases "?t = 0")
      case True
      then have "md5_tail m = []" using length_md5_tail [of m] by (simp del: length_md5_tail)
      moreover have "cc = c" "rest = buf" using True c2 by (simp_all add: c2_def)
      ultimately show ?thesis using h by (simp add: c)
    next
      case t: False
      then have "64 \<le> length ?full" using False by auto
      moreover have "overwrite ?t (take (64 - ?t) buf) (inbuf ctx) = take 64 ?full" "drop (64 - ?t) buf = drop 64 ?full"
        using False t h by (simp_all add: overwrite_def)
      ultimately show ?thesis
        using t c2 md5_blocks_step [of ?full] md5_tail_drop [of ?full]
        by (auto simp: c2_def c transform_block_at)
    qed
    then obtain b where "length b = 64"
      "update_blocks cc rest = (cc\<lparr>cx_buf := md5_blocks (cx_buf cc) rest, inbuf := b\<rparr>, md5_tail rest)"
      using update_blocks_at by blast
    then show ?thesis using False cc by (auto intro!: intro simp: upd c2 overwrite_def)
  qed
qed

section \<open>The final block\<close>

lemma padding_zeros:
  assumes "t < (64 :: nat)"
  shows "(119 - t) mod 64 = (if t < 56 then 55 - t else 63 - t + 56)"
  using assms by (auto simp: le_mod_geq)

text \<open>The buffer, its length and the length in bits make the last blocks of the padded message.\<close>

lemma length_field: "le_bytes 4 (8 * n mod 2 ^ 32) @ le_bytes 4 (8 * n div 2 ^ 32 mod 2 ^ 32) = le_bytes 8 (8 * n)"
proof -
  have "le_bytes 8 (8 * n) = le_bytes 4 (8 * n) @ le_bytes 4 (8 * n div 2 ^ 32)"
    using le_bytes_append [of 4 4 "8 * n"] by simp
  then show ?thesis using le_bytes_mod [of 4] by simp
qed

lemma byteReverse_state:
  "byteReverse 4 (le_bytes 4 a @ le_bytes 4 b @ le_bytes 4 c @ le_bytes 4 d) = le_bytes 4 a @ le_bytes 4 b @ le_bytes 4 c @ le_bytes 4 d"
  by (rule byteReverse_id) simp

lemma MD5Final_holds:
  assumes "md5_holds ctx m"
  shows "MD5Final ctx = md5_digest m"
proof -
  let ?t = "length m mod 64" and ?full = "md5_tail m @ md5_padding (length m)"
  note h = assms [unfolded md5_holds_def]
  define L where "L = le_bytes 8 (8 * length m)"
  define ctx1 where "ctx1 = ctx\<lparr>inbuf := overwrite ?t [CHR 0x80] (inbuf ctx)\<rparr>"
  define ctx2 where "ctx2 = (if 64 - 1 - ?t < 8
    then (transform_block (ctx1\<lparr>inbuf := overwrite (?t + 1) (replicate (64 - 1 - ?t) NUL) (inbuf ctx1)\<rparr>))
      \<lparr>inbuf := overwrite 0 (replicate 56 NUL)
        (inbuf (transform_block (ctx1\<lparr>inbuf := overwrite (?t + 1) (replicate (64 - 1 - ?t) NUL) (inbuf ctx1)\<rparr>)))\<rparr>
    else ctx1\<lparr>inbuf := overwrite (?t + 1) (replicate (64 - 1 - ?t - 8) NUL) (inbuf ctx1)\<rparr>)"
  have L: "length L = 8" by (simp add: L_def)
  have t: "?t < 64" by simp
  have in1: "take (Suc ?t) (inbuf ctx1) = md5_tail m @ [CHR 0x80]" "length (inbuf ctx1) = 64"
    using h t by (simp_all add: ctx1_def overwrite_def)
  have final: "MD5Final ctx = (case MD5Transform (cx_buf ctx2) (long_at (overwrite 60 (le_bytes 4 (bits1 ctx2))
      (overwrite 56 (le_bytes 4 (bits0 ctx2)) (byteReverse 14 (inbuf ctx2))))) of (a, b, c, d) \<Rightarrow>
        byteReverse 4 (le_bytes 4 (unat a) @ le_bytes 4 (unat b) @ le_bytes 4 (unat c) @ le_bytes 4 (unat d)))"
    using h by (simp only: MD5Final_def Let_def bytes_in_block ctx1_def ctx2_def)
  have two: "length (inbuf ctx2) = 64 \<and> bits0 ctx2 = bits0 ctx \<and> bits1 ctx2 = bits1 ctx
    \<and> md5_blocks (cx_buf ctx) ?full = md5_block (cx_buf ctx2) (take 56 (inbuf ctx2) @ L)"
  proof (cases "?t < 56")
    case True
    have full: "?full = md5_tail m @ [CHR 0x80] @ replicate (55 - ?t) NUL @ L"
      using True padding_zeros [OF t] by (simp add: md5_padding_def L_def)
    have "ctx2 = ctx1\<lparr>inbuf := overwrite (?t + 1) (replicate (55 - ?t) NUL) (inbuf ctx1)\<rparr>" using True by (simp add: ctx2_def)
    moreover have "cx_buf ctx1 = cx_buf ctx" "bits0 ctx1 = bits0 ctx" "bits1 ctx1 = bits1 ctx" by (simp_all add: ctx1_def)
    moreover have "md5_blocks v ?full = md5_block v ?full" for v
      using True L by (simp add: full md5_blocks_step md5_blocks_short)
    ultimately show ?thesis using True in1 by (simp add: overwrite_def full take_Cons')
  next
    case False
    have full: "?full = (md5_tail m @ [CHR 0x80] @ replicate (63 - ?t) NUL) @ replicate 56 NUL @ L"
    proof -
      have "replicate ((119 - ?t) mod 64) NUL = replicate (63 - ?t) NUL @ replicate 56 NUL"
        using False padding_zeros [OF t] by (simp only: if_False replicate_add)
      then show ?thesis by (simp add: md5_padding_def L_def)
    qed
    define b1 where "b1 = md5_tail m @ [CHR 0x80] @ replicate (63 - ?t) NUL"
    have b1: "overwrite (?t + 1) (replicate (63 - ?t) NUL) (inbuf ctx1) = b1" "length b1 = 64"
      using t in1 by (simp_all add: overwrite_def b1_def)
    have "ctx2 = ctx1\<lparr>inbuf := overwrite 0 (replicate 56 NUL) b1, cx_buf := md5_block (cx_buf ctx1) b1\<rparr>"
      using False b1 by (simp add: ctx2_def transform_block_at)
    moreover have "cx_buf ctx1 = cx_buf ctx" "bits0 ctx1 = bits0 ctx" "bits1 ctx1 = bits1 ctx" by (simp_all add: ctx1_def)
    moreover have "md5_blocks v ?full = md5_block (md5_block v b1) (replicate 56 NUL @ L)" for v
    proof -
      have "take 64 ?full = b1" "drop 64 ?full = replicate 56 NUL @ L" "64 \<le> length ?full"
        using b1(2) unfolding full b1_def by (simp_all only: take_append drop_append length_append) simp_all
      then have "md5_blocks v ?full = md5_blocks (md5_block v b1) (replicate 56 NUL @ L)" by (simp only: md5_blocks_step)
      then show ?thesis using L by (simp add: md5_blocks_step md5_blocks_short)
    qed
    ultimately show ?thesis using b1(2) by (simp add: overwrite_def del: append_assoc)
  qed
  then have "overwrite 60 (le_bytes 4 (bits1 ctx2)) (overwrite 56 (le_bytes 4 (bits0 ctx2)) (byteReverse 14 (inbuf ctx2)))
      = take 56 (inbuf ctx2) @ L"
    using h length_field [of "length m"] by (simp add: overwrite_def byteReverse_id L_def)
  then show ?thesis
    using two h md5_blocks_append [of md5_start m "md5_padding (length m)"]
    by (simp add: final md5_digest_def MD5Transform_is_block byteReverse_state split: prod.splits)
qed

section \<open>The digest does not depend on the pieces\<close>

lemma updates_hold: "md5_holds ctx m \<Longrightarrow> md5_holds (fold (\<lambda>p ctx. MD5Update ctx p) pieces ctx) (m @ concat pieces)"
proof (induction pieces arbitrary: ctx m)
  case (Cons p pieces)
  then show ?case using MD5Update_holds [of ctx m p] by (metis append.assoc concat.simps(2) fold_simps(2))
qed simp

text \<open>
  C27: whatever pieces a message arrives in, and whatever the context's buffer held before, initialising the context, updating it with
  the pieces in turn and closing it gives the digest that RFC 1321 defines for the whole message: the unrolled rounds, the partly
  filled buffer, the carry between the halves of the bit count and the padding across a block boundary are all exact.
\<close>

theorem md5_of_pieces:
  assumes "length (inbuf stack) = 64"
  shows "MD5Final (fold (\<lambda>p ctx. MD5Update ctx p) pieces (MD5Init stack)) = md5_digest (concat pieces)"
  using MD5Final_holds updates_hold [OF MD5Init_holds [OF assms], of pieces] by simp

theorem md5_of_pieces_witness:
  "MD5Final (MD5Update (MD5Update (MD5Init (Context.make (0, 0, 0, 0) 7 7 (replicate 64 CHR ''x''))) ''ab'') ''c'') = md5_digest ''abc''"
  using md5_of_pieces [of "Context.make (0, 0, 0, 0) 7 7 (replicate 64 CHR ''x'')" "[''ab'', ''c'']"]
  by (simp add: Context.defs)

lemma md5_string: "length (inbuf stack) = 64 \<Longrightarrow> MD5String stack str = MD5DigestToBase16 (md5_digest str)"
  using MD5Final_holds [OF MD5Update_holds [OF MD5Init_holds [of stack]], of str] by (simp add: MD5String_def MD5Sum_def)

end
