(* ===== verification/Crc.thy ===== *)
theory Crc
  imports LittleEndian
begin

unbundle bit_operations_syntax

text \<open>
  \<open>src/src/moosefs/crc.c\<close>: the checksum of MooseFS. It is computed four bytes at a time from tables, and the checksums of two pieces are
  combined into that of both together without looking at the data. The branches for little-endian machines are modelled. The proofs
  compare the tables with the division of polynomials bit by bit.
\<close>

section \<open>The tables\<close>

definition CRC_POLY :: "32 word" where "CRC_POLY = 0xEDB88320"

record crc_tables =
  crc_table :: "32 word list list"
  crc_combine_table :: "32 word list list list"

definition crc_shift :: "32 word \<Rightarrow> 32 word" where
  "crc_shift c = (if c AND 1 \<noteq> 0 then CRC_POLY XOR drop_bit 1 c else drop_bit 1 c)"

definition look :: "32 word list \<Rightarrow> 32 word \<Rightarrow> 32 word" where
  "look t w = t ! unat w"

definition next_entry :: "32 word list \<Rightarrow> 32 word \<Rightarrow> 32 word" where
  "next_entry t0 c = look t0 (c AND 0xff) XOR drop_bit 8 c"

definition crc_generate_main_tables :: "crc_tables \<Rightarrow> crc_tables" where
  "crc_generate_main_tables s =
     (let t0 = map (\<lambda>i. let c = of_nat i;
            c = crc_shift c; c = crc_shift c; c = crc_shift c; c = crc_shift c;
            c = crc_shift c; c = crc_shift c; c = crc_shift c; c = crc_shift c in c) [0..<256];
          t1 = map (next_entry t0) t0;
          t2 = map (next_entry t0) t1;
          t3 = map (next_entry t0) t2
      in s\<lparr>crc_table := [t0, t1, t2, t3]\<rparr>)"

text \<open>The sum of the entries chosen by the bits of a word; the two loops of the source stop when the rest of the word is 0.\<close>

fun add_chosen :: "32 word list \<Rightarrow> 32 word \<Rightarrow> 32 word \<Rightarrow> 32 word" where
  "add_chosen [] v s = s"
| "add_chosen (m # ms) v s = (if v = 0 then s else add_chosen ms (drop_bit 1 v) (if v AND 1 \<noteq> 0 then s XOR m else s))"

definition crc_matrix_square :: "32 word list \<Rightarrow> 32 word list" where
  "crc_matrix_square m = map (\<lambda>v. add_chosen m v 0) m"

definition combine_entry :: "32 word list \<Rightarrow> 32 word list list" where
  "combine_entry mc = map (\<lambda>j. map (\<lambda>k. add_chosen (drop (j * 8) mc) (of_nat k) 0) [0..<256]) [0..<4]"

text \<open>The two matrices change places in every pass: the one written in a pass is the square of the other.\<close>

fun combine_entries :: "nat \<Rightarrow> 32 word list \<Rightarrow> 32 word list list list" where
  "combine_entries 0 m = []"
| "combine_entries (Suc n) m = (let mc = crc_matrix_square m in combine_entry mc # combine_entries n mc)"

definition crc_generate_combine_tables :: "crc_tables \<Rightarrow> crc_tables" where
  "crc_generate_combine_tables s =
     (let m1 = CRC_POLY # map (\<lambda>i. push_bit i 1) [0..<31];
          m2 = crc_matrix_square m1;
          m1 = crc_matrix_square m2
      in s\<lparr>crc_combine_table := combine_entries 32 m1\<rparr>)"

definition mycrc32_init :: "crc_tables \<Rightarrow> crc_tables" where
  "mycrc32_init s = crc_generate_combine_tables (crc_generate_main_tables s)"

section \<open>The checksum\<close>

definition CRC_ONE_BYTE :: "crc_tables \<Rightarrow> 32 word \<Rightarrow> char \<Rightarrow> 32 word" where
  "CRC_ONE_BYTE s crc b = look (crc_table s ! 0) ((crc XOR of_char b) AND 0xFF) XOR drop_bit 8 crc"

definition CRC_FOUR_BYTES :: "crc_tables \<Rightarrow> 32 word \<Rightarrow> bytes \<Rightarrow> 32 word" where
  "CRC_FOUR_BYTES s crc block4 =
     (let crc = crc XOR of_nat (le_val (take 4 block4))
      in look (crc_table s ! 3) (crc AND 0xff) XOR look (crc_table s ! 2) (drop_bit 8 crc AND 0xff)
         XOR look (crc_table s ! 1) (drop_bit 16 crc AND 0xff) XOR look (crc_table s ! 0) (drop_bit 24 crc))"

text \<open>The bytes before an address divisible by four, the words, eight in a pass while there are 32 bytes, and the bytes after them.\<close>

fun crc_head :: "crc_tables \<Rightarrow> nat \<Rightarrow> 32 word \<Rightarrow> bytes \<Rightarrow> 32 word \<times> bytes" where
  "crc_head s addr crc [] = (crc, [])"
| "crc_head s addr crc (b # bs) = (if addr mod 4 \<noteq> 0 then crc_head s (addr + 1) (CRC_ONE_BYTE s crc b) bs else (crc, b # bs))"

function crc_words8 :: "crc_tables \<Rightarrow> 32 word \<Rightarrow> bytes \<Rightarrow> 32 word \<times> bytes" where
  "crc_words8 s crc bs =
     (if 32 \<le> length bs then
        let crc = CRC_FOUR_BYTES s crc bs; crc = CRC_FOUR_BYTES s crc (drop 4 bs);
            crc = CRC_FOUR_BYTES s crc (drop 8 bs); crc = CRC_FOUR_BYTES s crc (drop 12 bs);
            crc = CRC_FOUR_BYTES s crc (drop 16 bs); crc = CRC_FOUR_BYTES s crc (drop 20 bs);
            crc = CRC_FOUR_BYTES s crc (drop 24 bs); crc = CRC_FOUR_BYTES s crc (drop 28 bs)
        in crc_words8 s crc (drop 32 bs)
      else (crc, bs))"
  by pat_completeness auto
termination
  by (relation "measure (\<lambda>(_, _, bs). length bs)") auto

function crc_words :: "crc_tables \<Rightarrow> 32 word \<Rightarrow> bytes \<Rightarrow> 32 word \<times> bytes" where
  "crc_words s crc bs = (if 4 \<le> length bs then crc_words s (CRC_FOUR_BYTES s crc bs) (drop 4 bs) else (crc, bs))"
  by pat_completeness auto
termination
  by (relation "measure (\<lambda>(_, _, bs). length bs)") auto

declare crc_words8.simps [simp del] crc_words.simps [simp del]

definition mycrc32 :: "crc_tables \<Rightarrow> nat \<Rightarrow> 32 word \<Rightarrow> bytes \<Rightarrow> 32 word" where
  "mycrc32 s addr crc block =
     (let crc = crc XOR 0xFFFFFFFF;
          (crc, block) = crc_head s addr crc block;
          (crc, block) = crc_words8 s crc block;
          (crc, block) = crc_words s crc block;
          crc = fold (\<lambda>b crc. CRC_ONE_BYTE s crc b) block crc
      in crc XOR 0xFFFFFFFF)"

function combine_loop :: "crc_tables \<Rightarrow> nat \<Rightarrow> 32 word \<Rightarrow> nat \<Rightarrow> 32 word" where
  "combine_loop s i crc1 leng2 =
     (if leng2 = 0 then crc1
      else let t = crc_combine_table s ! i;
               crc1 = (if odd leng2
                 then look (t ! 3) (drop_bit 24 crc1) XOR look (t ! 2) (drop_bit 16 crc1 AND 0xFF)
                   XOR look (t ! 1) (drop_bit 8 crc1 AND 0xFF) XOR look (t ! 0) (crc1 AND 0xFF)
                 else crc1)
           in combine_loop s (i + 1) crc1 (leng2 div 2))"
  by pat_completeness auto
termination
  by (relation "measure (\<lambda>(_, _, _, n). n)") auto

declare combine_loop.simps [simp del]

definition mycrc32_combine :: "crc_tables \<Rightarrow> 32 word \<Rightarrow> 32 word \<Rightarrow> nat \<Rightarrow> 32 word" where
  "mycrc32_combine s crc1 crc2 leng2 = (combine_loop s 0 crc1 leng2 XOR crc2)"

section \<open>The division, bit by bit\<close>

definition crc_byte :: "32 word \<Rightarrow> char \<Rightarrow> 32 word" where
  "crc_byte reg b = (crc_shift ^^ 8) (reg XOR of_char b)"

definition crc_spec :: "32 word \<Rightarrow> bytes \<Rightarrow> 32 word" where
  "crc_spec crc bs = NOT (fold (\<lambda>b reg. crc_byte reg b) bs (NOT crc))"

definition xor_linear :: "(32 word \<Rightarrow> 32 word) \<Rightarrow> bool" where
  "xor_linear f \<longleftrightarrow> (\<forall>a b. f (a XOR b) = f a XOR f b)"

lemma xor_linearD: "xor_linear f \<Longrightarrow> f (a XOR b) = f a XOR f b"
  by (simp add: xor_linear_def)

lemma xor_linear_0: "xor_linear f \<Longrightarrow> f 0 = 0"
  using xor_linearD [of f 0 0] by simp

lemma xor_linear_comp: "xor_linear f \<Longrightarrow> xor_linear g \<Longrightarrow> xor_linear (\<lambda>x. f (g x))"
  by (simp add: xor_linear_def)

lemma crc_shift_odd: "crc_shift c = (drop_bit 1 c XOR (if odd c then CRC_POLY else 0))"
proof -
  have "(c AND 1 \<noteq> 0) = odd c" by (simp add: and_one_eq odd_iff_mod_2_eq_one)
  then show ?thesis by (simp add: crc_shift_def xor.commute)
qed

lemma xor_linear_shift: "xor_linear crc_shift"
proof -
  define p where "p a = (if odd a then CRC_POLY else 0)" for a :: "32 word"
  have "p (a XOR b) = (p a XOR p b)" for a b by (simp add: p_def even_xor_iff)
  moreover have "crc_shift a = (drop_bit 1 a XOR p a)" for a by (simp only: crc_shift_odd p_def)
  ultimately show ?thesis by (simp only: xor_linear_def drop_bit_xor) (simp only: xor.assoc xor.left_commute simp_thms)
qed

lemma xor_linear_pow: "xor_linear f \<Longrightarrow> xor_linear (f ^^ n)"
  by (induction n) (auto simp: xor_linear_def)

lemma shift_zeros: "(\<And>i. i < n \<Longrightarrow> \<not> bit c i) \<Longrightarrow> (crc_shift ^^ n) c = drop_bit n c"
proof (induction n arbitrary: c)
  case (Suc n)
  have "crc_shift c = drop_bit 1 c" using Suc.prems [of 0] by (simp add: crc_shift_def bit_0 and_one_eq odd_iff_mod_2_eq_one)
  moreover have "(crc_shift ^^ n) (drop_bit 1 c) = drop_bit n (drop_bit 1 c)"
    using Suc.prems [of "Suc _"] by (intro Suc.IH) (auto simp: bit_simps)
  ultimately show ?case by (simp add: funpow_Suc_right drop_bit_drop_bit del: funpow.simps)
qed simp

text \<open>A word in its bytes, and what happens to a byte above the first one.\<close>

lemma low_byte_split: "c = (c AND 0xff) XOR (c AND NOT 0xff)" for c :: "32 word"
  by (rule bit_word_eqI) (auto simp: bit_simps)

lemma ff_mask: "(0xff :: 32 word) = mask 8"
  by (simp add: mask_eq_exp_minus_1)

lemma shift_high: "(crc_shift ^^ 8) (c AND NOT 0xff) = drop_bit 8 c"
proof -
  have "(crc_shift ^^ 8) (c AND NOT (mask 8)) = drop_bit 8 (c AND NOT (mask 8))"
    by (rule shift_zeros) (simp add: bit_simps)
  also have "\<dots> = drop_bit 8 c" by (rule bit_word_eqI) (auto simp: bit_simps dest: bit_imp_le_length)
  finally show ?thesis by (simp only: ff_mask)
qed

lemma shift8: "(crc_shift ^^ 8) c = (crc_shift ^^ 8) (c AND 0xff) XOR drop_bit 8 c"
  using xor_linearD [OF xor_linear_pow [OF xor_linear_shift], of 8 "c AND 0xff" "c AND NOT 0xff"]
  by (simp only: shift_high low_byte_split [symmetric])

abbreviation crc_bytes :: "nat \<Rightarrow> 32 word \<Rightarrow> 32 word" where
  "crc_bytes n \<equiv> crc_shift ^^ (8 * n)"

lemma crc_bytes_linear: "xor_linear (crc_bytes n)"
  by (rule xor_linear_pow [OF xor_linear_shift])

lemma crc_bytes_Suc: "crc_bytes (Suc n) c = crc_bytes n ((crc_shift ^^ 8) c)"
  using funpow_add [of "8 * n" 8 crc_shift] by (simp add: add.commute)

lemma crc_bytes_Suc': "crc_bytes (Suc n) c = (crc_shift ^^ 8) (crc_bytes n c)"
  using funpow_add [of 8 "8 * n" crc_shift] by simp

section \<open>What the tables hold\<close>

definition main_tables_ok :: "crc_tables \<Rightarrow> bool" where
  "main_tables_ok s \<longleftrightarrow> (\<forall>j < 4. \<forall>i < 256. crc_table s ! j ! i = crc_bytes (Suc j) (of_nat i))"

lemma unat_ff: "unat (c AND 0xff) < 256" for c :: "32 word"
proof -
  have "c AND 0xff = take_bit 8 c" by (simp only: ff_mask take_bit_eq_mask)
  then show ?thesis using take_bit_nat_less_exp [of 8 "unat c"] by (simp add: unsigned_take_bit_eq)
qed

lemma look_ok:
  assumes "\<And>i. i < 256 \<Longrightarrow> t ! i = f (of_nat i)"
  shows "look t (c AND 0xff) = f (c AND 0xff)"
  using assms [OF unat_ff] by (simp add: look_def)

lemma next_entry_ok:
  assumes "\<And>i. i < 256 \<Longrightarrow> t0 ! i = (crc_shift ^^ 8) (of_nat i)"
  shows "next_entry t0 c = (crc_shift ^^ 8) c"
  using look_ok [OF assms, of c] by (simp only: next_entry_def shift8 [of c])

lemma main_tables: "main_tables_ok (crc_generate_main_tables s)" "crc_combine_table (crc_generate_main_tables s) = crc_combine_table s"
proof -
  define t0 where "t0 = map (\<lambda>i. (crc_shift ^^ 8) (of_nat i)) [0..<256]"
  have t0: "t0 ! i = (crc_shift ^^ 8) (of_nat i)" if "i < 256" for i using that by (simp add: t0_def del: upt_Suc)
  have n: "next_entry t0 = crc_shift ^^ 8" using next_entry_ok [of t0] t0 by (simp add: fun_eq_iff)
  have "crc_generate_main_tables s = s\<lparr>crc_table := [t0, map (next_entry t0) t0, map (next_entry t0) (map (next_entry t0) t0),
      map (next_entry t0) (map (next_entry t0) (map (next_entry t0) t0))]\<rparr>"
    by (simp add: crc_generate_main_tables_def t0_def Let_def eval_nat_numeral del: upt_Suc)
  then have t: "crc_table (crc_generate_main_tables s) = map (\<lambda>f. map f t0) [id, next_entry t0, next_entry t0 \<circ> next_entry t0,
      next_entry t0 \<circ> (next_entry t0 \<circ> next_entry t0)]"
    and "crc_combine_table (crc_generate_main_tables s) = crc_combine_table s" by simp_all
  have "crc_table (crc_generate_main_tables s) ! j ! i = crc_bytes (Suc j) (of_nat i)" if "j < 4" "i < 256" for i j
  proof -
    have "j = 0 \<or> j = 1 \<or> j = 2 \<or> j = 3" using that(1) by auto
    moreover have "(crc_shift ^^ 8) ((crc_shift ^^ k) x) = (crc_shift ^^ (8 + k)) x" for k x by (simp add: funpow_add)
    moreover have "length t0 = 256" by (simp add: t0_def)
    ultimately show ?thesis using that(2) by (auto simp: t n t0 simp del: funpow.simps)
  qed
  then show "main_tables_ok (crc_generate_main_tables s)" by (simp add: main_tables_ok_def)
  show "crc_combine_table (crc_generate_main_tables s) = crc_combine_table s" by fact
qed

section \<open>One byte and four bytes\<close>

lemma char_low: "take_bit 8 (of_char b :: 32 word) = of_char b"
proof -
  have "of_char b < (2 ^ 8 :: nat)" by simp
  then show ?thesis by (metis of_nat_of_char of_nat_take_bit take_bit_nat_eq_self)
qed

lemma one_byte:
  assumes "main_tables_ok s"
  shows "CRC_ONE_BYTE s crc b = crc_byte crc b"
proof -
  have b: "(of_char b :: 32 word) AND NOT 0xff = 0"
    using char_low [of b] by (metis ff_mask take_bit_eq_mask and.assoc bit.conj_cancel_right and_zero_eq)
  have "look (crc_table s ! 0) ((crc XOR of_char b) AND 0xff) = (crc_shift ^^ 8) ((crc XOR of_char b) AND 0xff)"
    using assms by (intro look_ok) (auto simp: main_tables_ok_def simp del: funpow.simps)
  moreover have "drop_bit 8 (crc XOR of_char b) = drop_bit 8 crc"
  proof -
    have "drop_bit 8 (of_char b :: 32 word) = (crc_shift ^^ 8) (of_char b AND NOT 0xff)" by (rule shift_high [symmetric])
    then show ?thesis by (simp only: b xor_linear_0 [OF xor_linear_pow [OF xor_linear_shift]] drop_bit_xor xor.right_neutral)
  qed
  ultimately show ?thesis by (simp only: CRC_ONE_BYTE_def crc_byte_def shift8 [of "crc XOR of_char b"])
qed

lemma word_of_bytes: "of_nat (of_char b + 256 * n) = (of_char b XOR push_bit 8 (of_nat n) :: 32 word)"
proof -
  have "(of_char b :: 32 word) AND push_bit 8 (of_nat n) = take_bit 8 (of_char b) AND push_bit 8 (of_nat n)" by (simp only: char_low)
  also have "\<dots> = 0" by (rule bit_word_eqI) (auto simp: bit_simps)
  finally have "(of_char b :: 32 word) + push_bit 8 (of_nat n) = of_char b XOR push_bit 8 (of_nat n)"
    by (rule disjunctive_add_eq_xor)
  then show ?thesis by (simp add: push_bit_eq_mult mult.commute of_nat_of_char)
qed

lemma shift_byte_above:
  assumes "take_bit 24 y = y"
  shows "(crc_shift ^^ 8) (x XOR push_bit 8 y) = (crc_shift ^^ 8) x XOR y"
proof -
  have "push_bit 8 y AND NOT 0xff = push_bit 8 y" unfolding ff_mask by (rule bit_word_eqI) (auto simp: bit_simps)
  then have "(crc_shift ^^ 8) (push_bit 8 y) = drop_bit 8 (push_bit 8 y)" using shift_high [of "push_bit 8 y"] by simp
  also have "\<dots> = take_bit 24 y" by (rule bit_word_eqI) (auto simp: bit_simps)
  finally show ?thesis
    by (simp only: assms xor_linearD [OF xor_linear_pow [OF xor_linear_shift]])
qed

text \<open>Four bytes at once: every byte of the sum is looked up in the table for its place.\<close>

lemma low_bits_split: "v = ((v AND mask k) XOR push_bit k (drop_bit k v))" for v :: "32 word"
  by (rule bit_word_eqI) (auto simp: bit_simps)

lemma crc_bytes_above:
  "take_bit 24 y = y \<Longrightarrow> crc_bytes (Suc n) (x XOR push_bit 8 y) = (crc_bytes (Suc n) x XOR crc_bytes n y)"
  using xor_linearD [OF crc_bytes_linear, of n] by (simp only: crc_bytes_Suc shift_byte_above)

lemma four_places:
  "crc_bytes 4 c = (crc_bytes 4 (c AND 0xff) XOR crc_bytes 3 (drop_bit 8 c AND 0xff) XOR crc_bytes 2 (drop_bit 16 c AND 0xff)
     XOR crc_bytes 1 (drop_bit 24 c))"
proof -
  have split: "c = ((c AND 0xff) XOR push_bit 8 (drop_bit 8 c))" for c :: "32 word"
    unfolding ff_mask by (rule low_bits_split)
  have t: "take_bit 24 (drop_bit 8 c) = drop_bit 8 c" for c :: "32 word"
    by (rule bit_word_eqI) (auto simp: bit_simps dest: bit_imp_le_length)
  have step: "crc_bytes (Suc n) c = (crc_bytes (Suc n) (c AND 0xff) XOR crc_bytes n (drop_bit 8 c))" for n c
    using crc_bytes_above [OF t, of n "c AND 0xff" c] split [of c] by simp
  show ?thesis
    using step [of 3 c] step [of 2 "drop_bit 8 c"] step [of 1 "drop_bit 16 c"] by (simp add: drop_bit_drop_bit del: funpow.simps)
qed

lemma bytes_at_once:
  "length bs \<le> 4 \<Longrightarrow> fold (\<lambda>b reg. crc_byte reg b) bs reg = crc_bytes (length bs) (reg XOR of_nat (le_val bs))"
proof (induction bs arbitrary: reg)
  case (Cons b bs)
  let ?y = "of_nat (le_val bs) :: 32 word"
  have "(256 :: nat) ^ length bs \<le> 256 ^ 3" using Cons.prems by (intro power_increasing) auto
  then have "le_val bs < 2 ^ 24" using le_val_less [of bs] by simp
  then have y: "take_bit 24 ?y = ?y" by (metis of_nat_take_bit take_bit_nat_eq_self)
  have "fold (\<lambda>b reg. crc_byte reg b) (b # bs) reg = crc_bytes (length bs) (crc_byte reg b XOR ?y)"
    using Cons by simp
  also have "crc_byte reg b XOR ?y = (crc_shift ^^ 8) ((reg XOR of_char b) XOR push_bit 8 ?y)"
    by (simp only: crc_byte_def shift_byte_above [OF y])
  also have "(reg XOR of_char b) XOR push_bit 8 ?y = reg XOR of_nat (le_val (b # bs))"
    by (simp only: le_val.simps word_of_bytes xor.assoc)
  finally show ?case by (simp only: crc_bytes_Suc list.size add_Suc_right add_0_right)
qed simp

lemma four_bytes:
  assumes "main_tables_ok s" "4 \<le> length bs"
  shows "CRC_FOUR_BYTES s crc bs = fold (\<lambda>b reg. crc_byte reg b) (take 4 bs) crc"
proof -
  let ?c = "crc XOR of_nat (le_val (take 4 bs))"
  have t: "look (crc_table s ! j) (c AND 0xff) = crc_bytes (Suc j) (c AND 0xff)" if "j < 4" for j c
    using assms(1) that by (intro look_ok) (auto simp: main_tables_ok_def simp del: funpow.simps)
  have "drop_bit 24 ?c AND 0xff = drop_bit 24 ?c"
    unfolding ff_mask by (rule bit_word_eqI) (auto simp: bit_simps dest: bit_imp_le_length)
  then have t0: "look (crc_table s ! 0) (drop_bit 24 ?c) = crc_bytes 1 (drop_bit 24 ?c)"
    using t [of 0 "drop_bit 24 ?c"] by simp
  have "CRC_FOUR_BYTES s crc bs = crc_bytes 4 ?c"
  proof -
    have "look (crc_table s ! 3) (c AND 0xff) = crc_bytes 4 (c AND 0xff)" "look (crc_table s ! 2) (c AND 0xff) = crc_bytes 3 (c AND 0xff)"
      "look (crc_table s ! 1) (c AND 0xff) = crc_bytes 2 (c AND 0xff)" for c
      using t [of 3 c] t [of 2 c] t [of 1 c] by simp_all
    then show ?thesis by (simp only: CRC_FOUR_BYTES_def Let_def four_places [of ?c] t0)
  qed
  then show ?thesis using bytes_at_once [of "take 4 bs" crc] assms(2) by simp
qed

section \<open>The checksum of a block\<close>

abbreviation crc_fold :: "bytes \<Rightarrow> 32 word \<Rightarrow> 32 word" where
  "crc_fold bs reg \<equiv> fold (\<lambda>b reg. crc_byte reg b) bs reg"

lemma crc_fold_take: "crc_fold (drop n bs) (crc_fold (take n bs) reg) = crc_fold bs reg"
  by (metis append_take_drop_id fold_append comp_apply)

lemma head_ok: "main_tables_ok s \<Longrightarrow> crc_head s addr crc bs = (c, rest) \<Longrightarrow> crc_fold rest c = crc_fold bs crc"
  by (induction s addr crc bs rule: crc_head.induct) (auto simp: one_byte split: if_splits)

lemma words_ok: "main_tables_ok s \<Longrightarrow> crc_words s crc bs = (c, rest) \<Longrightarrow> crc_fold rest c = crc_fold bs crc"
proof (induction s crc bs rule: crc_words.induct)
  case (1 s crc bs)
  then show ?case
    by (cases "4 \<le> length bs") (auto simp: crc_words.simps [of s crc bs] four_bytes crc_fold_take)
qed

lemma words8_ok: "main_tables_ok s \<Longrightarrow> crc_words8 s crc bs = (c, rest) \<Longrightarrow> crc_fold rest c = crc_fold bs crc"
proof (induction s crc bs rule: crc_words8.induct)
  case (1 s crc bs)
  show ?case
  proof (cases "32 \<le> length bs")
    case True
    have step: "CRC_FOUR_BYTES s (crc_fold (take n bs) crc) (drop n bs) = crc_fold (take (n + 4) bs) crc" if "n + 4 \<le> 32" for n
      using four_bytes [OF 1(2), of "drop n bs" "crc_fold (take n bs) crc"] that True by (simp add: take_add)
    have first: "CRC_FOUR_BYTES s crc bs = crc_fold (take 4 bs) crc" using step [of 0] by simp
    note steps = first step [of 4] step [of 8] step [of 12] step [of 16] step [of 20] step [of 24] step [of 28]
    have "crc_words8 s crc bs = crc_words8 s (crc_fold (take 32 bs) crc) (drop 32 bs)"
      using True steps by (subst crc_words8.simps) (simp add: Let_def)
    then show ?thesis
      using 1(1) [OF True refl refl refl refl refl refl refl refl 1(2)] 1(3) steps crc_fold_take [of 32 bs crc] by simp
  qed (use 1 in \<open>simp add: crc_words8.simps [of s crc bs]\<close>)
qed

lemma mycrc32_is_spec: "main_tables_ok s \<Longrightarrow> mycrc32 s addr crc block = crc_spec crc block"
proof -
  assume s: "main_tables_ok s"
  obtain c1 b1 where 1: "crc_head s addr (crc XOR 0xFFFFFFFF) block = (c1, b1)" by fastforce
  obtain c2 b2 where 2: "crc_words8 s c1 b1 = (c2, b2)" by fastforce
  obtain c3 b3 where 3: "crc_words s c2 b2 = (c3, b3)" by fastforce
  have n: "c XOR 0xFFFFFFFF = NOT c" for c :: "32 word"
  proof -
    have "(0xFFFFFFFF :: 32 word) = - 1" by simp
    then show ?thesis by (simp only: bit.xor_one_right)
  qed
  have "fold (\<lambda>b crc. CRC_ONE_BYTE s crc b) b3 c3 = crc_fold block (NOT crc)"
    using head_ok [OF s 1] words8_ok [OF s 2] words_ok [OF s 3] by (simp add: one_byte [OF s] n)
  then show ?thesis by (simp add: mycrc32_def 1 [unfolded n] 2 3 n crc_spec_def)
qed

section \<open>Matrices\<close>

text \<open>A matrix is the list of the images of the bits of a word under a linear function.\<close>

definition columns :: "(32 word \<Rightarrow> 32 word) \<Rightarrow> nat \<Rightarrow> 32 word list" where
  "columns f n = map (\<lambda>i. f (push_bit i 1)) [0..<n]"

lemma columns_Suc: "columns f (Suc n) = f 1 # columns (\<lambda>x. f (push_bit 1 x)) n"
  by (simp add: columns_def upt_conv_Cons map_Suc_upt [symmetric] mult.commute del: upt_Suc)

lemma add_chosen_columns:
  "xor_linear f \<Longrightarrow> take_bit n v = v \<Longrightarrow> n \<le> 32 \<Longrightarrow> add_chosen (columns f n) v s = (s XOR f v)"
proof (induction n arbitrary: f v s)
  case 0
  then show ?case by (simp add: columns_def xor_linear_0)
next
  case (Suc n)
  let ?g = "\<lambda>x. f (push_bit 1 x)"
  have g: "xor_linear ?g" using Suc.prems(1) by (simp only: xor_linear_def push_bit_xor) blast
  have t: "take_bit n (drop_bit 1 v) = drop_bit 1 v"
    using Suc.prems(2) by (metis Suc_eq_plus1 drop_bit_take_bit add_diff_cancel_right')
  have "v = ((v AND 1) XOR push_bit 1 (drop_bit 1 v))" using low_bits_split [of v 1] by simp
  then have f: "f v = (f (v AND 1) XOR ?g (drop_bit 1 v))" using xor_linearD [OF Suc.prems(1)] by metis
  have "v AND 1 = 0 \<or> v AND 1 = 1" by (cases "even v") (simp_all add: and_one_eq mod_2_eq_odd)
  then show ?case
    using Suc.IH [OF g t] Suc.prems f xor_linear_0 [OF Suc.prems(1)] xor_linear_0 [OF g]
    by (auto simp: columns_Suc xor.assoc)
qed

lemma take_bit_all: "take_bit 32 v = v" for v :: "32 word"
  by (rule bit_word_eqI) (auto simp: bit_simps)

lemma square_columns:
  assumes "xor_linear f"
  shows "crc_matrix_square (columns f 32) = columns (\<lambda>x. f (f x)) 32"
  using add_chosen_columns [OF assms take_bit_all, where s = 0]
  by (simp only: crc_matrix_square_def columns_def map_map comp_def) simp

lemma first_matrix: "CRC_POLY # map (\<lambda>i. push_bit i 1) [0..<31] = columns crc_shift 32"
proof -
  have "crc_shift 1 = CRC_POLY" by (simp add: crc_shift_def)
  moreover have "crc_shift (push_bit (Suc i) 1) = push_bit i 1" if "i < 31" for i
  proof -
    have "drop_bit 1 (push_bit (Suc i) 1 :: 32 word) = push_bit i 1" using that by (intro bit_word_eqI) (auto simp: bit_simps)
    then show ?thesis using shift_zeros [of 1 "push_bit (Suc i) 1"] by (simp add: bit_simps)
  qed
  ultimately show ?thesis using columns_Suc [of crc_shift 31] by (simp add: columns_def mult.commute)
qed

lemma drop_columns: "drop k (columns f n) = columns (\<lambda>x. f (push_bit k x)) (n - k)"
proof -
  have "drop k [0..<n] = map (\<lambda>i. i + k) [0..<n - k]" by (cases "k \<le> n") (simp_all add: map_add_upt)
  then show ?thesis by (simp only: columns_def drop_map map_map comp_def push_bit_push_bit add.commute)
qed

lemma combine_entry_ok:
  assumes "xor_linear f" "j < 4" "k < 256"
  shows "combine_entry (columns f 32) ! j ! k = f (push_bit (8 * j) (of_nat k))"
proof -
  let ?g = "\<lambda>x. f (push_bit (j * 8) x)"
  have g: "xor_linear ?g" using assms(1) by (simp only: xor_linear_def push_bit_xor) blast
  have "(2 :: nat) ^ 8 \<le> 2 ^ (32 - j * 8)" using assms(2) by (intro power_increasing) auto
  then have "k < 2 ^ (32 - j * 8)" using assms(3) by simp
  then have t: "take_bit (32 - j * 8) (of_nat k :: 32 word) = of_nat k" by (metis of_nat_take_bit take_bit_nat_eq_self)
  have "add_chosen (drop (j * 8) (columns f 32)) (of_nat k) 0 = ?g (of_nat k)"
    unfolding drop_columns using add_chosen_columns [OF g t, where s = 0] by simp
  then show ?thesis using assms(2,3) by (simp add: combine_entry_def mult.commute del: upt_Suc)
qed

lemma combine_entries_ok:
  "xor_linear f \<Longrightarrow> i < n \<Longrightarrow> combine_entries n (columns f 32) ! i = combine_entry (columns (f ^^ (2 ^ Suc i)) 32)"
proof (induction n arbitrary: f i)
  case (Suc n)
  have two: "crc_matrix_square (columns f 32) = columns (f ^^ 2) 32"
    using square_columns [OF Suc.prems(1)] by (simp add: numeral_2_eq_2 comp_def)
  show ?case
  proof (cases i)
    case 0
    then show ?thesis by (simp add: Let_def two)
  next
    case (Suc j)
    then show ?thesis
      using Suc.IH [of "f ^^ 2" j] Suc.prems xor_linear_pow [OF Suc.prems(1), of 2]
      by (simp add: Let_def two funpow_mult del: funpow.simps)
  qed
qed simp

definition combine_ok :: "crc_tables \<Rightarrow> bool" where
  "combine_ok s \<longleftrightarrow> (\<forall>i < 32. \<forall>j < 4. \<forall>k < 256.
     crc_combine_table s ! i ! j ! k = crc_bytes (2 ^ i) (push_bit (8 * j) (of_nat k)))"

lemma combine_tables: "combine_ok (crc_generate_combine_tables s)" "crc_table (crc_generate_combine_tables s) = crc_table s"
proof -
  have sq: "crc_matrix_square (columns (crc_shift ^^ n) 32) = columns (crc_shift ^^ (2 * n)) 32" for n
    using square_columns [OF xor_linear_pow [OF xor_linear_shift], of n]
    by (simp add: mult_2 funpow_add comp_def)
  have "crc_generate_combine_tables s = s\<lparr>crc_combine_table := combine_entries 32 (columns (crc_shift ^^ 4) 32)\<rparr>"
    using sq [of 1] sq [of 2] by (simp only: crc_generate_combine_tables_def Let_def first_matrix) simp
  then show "combine_ok (crc_generate_combine_tables s)" "crc_table (crc_generate_combine_tables s) = crc_table s"
    using combine_entries_ok [OF xor_linear_pow [OF xor_linear_shift], of _ 32 4] combine_entry_ok [OF xor_linear_pow [OF xor_linear_shift]]
    by (simp_all add: combine_ok_def funpow_mult ac_simps del: funpow.simps combine_entries.simps)
qed

section \<open>Zeros appended\<close>

lemma four_bytes_apart:
  fixes c :: "32 word"
  shows "c = (push_bit 24 (drop_bit 24 c) XOR push_bit 16 (drop_bit 16 c AND 0xff) XOR push_bit 8 (drop_bit 8 c AND 0xff) XOR (c AND 0xff))"
  unfolding ff_mask
proof -
  have "c = ((c AND mask 8) XOR push_bit 8 ((drop_bit 8 c AND mask 8)
      XOR push_bit 8 ((drop_bit 16 c AND mask 8) XOR push_bit 8 (drop_bit 24 c))))"
    using low_bits_split [of c 8] low_bits_split [of "drop_bit 8 c" 8] low_bits_split [of "drop_bit 16 c" 8]
    by (simp only: drop_bit_drop_bit) simp
  then show "c = (push_bit 24 (drop_bit 24 c) XOR push_bit 16 (drop_bit 16 c AND mask 8) XOR push_bit 8 (drop_bit 8 c AND mask 8) XOR (c AND mask 8))"
    by (simp add: push_bit_xor push_bit_push_bit xor.commute xor.left_commute xor.assoc)
qed

lemma combine_step:
  assumes "combine_ok s" "i < 32"
  shows "(let t = crc_combine_table s ! i in
      look (t ! 3) (drop_bit 24 c) XOR look (t ! 2) (drop_bit 16 c AND 0xff) XOR look (t ! 1) (drop_bit 8 c AND 0xff)
      XOR look (t ! 0) (c AND 0xff)) = crc_bytes (2 ^ i) c"
proof -
  let ?t = "crc_combine_table s ! i" and ?f = "crc_bytes (2 ^ i)"
  have t: "look (?t ! j) (x AND 0xff) = ?f (push_bit (8 * j) (x AND 0xff))" if "j < 4" for j x
    using assms that by (intro look_ok) (auto simp: combine_ok_def simp del: funpow.simps)
  have "drop_bit 24 c AND 0xff = drop_bit 24 c"
    unfolding ff_mask by (rule bit_word_eqI) (auto simp: bit_simps dest: bit_imp_le_length)
  then have t3: "look (?t ! 3) (drop_bit 24 c) = ?f (push_bit 24 (drop_bit 24 c))" using t [of 3 "drop_bit 24 c"] by simp
  have t2: "look (?t ! 2) (drop_bit 16 c AND 0xff) = ?f (push_bit 16 (drop_bit 16 c AND 0xff))"
    and t1: "look (?t ! 1) (drop_bit 8 c AND 0xff) = ?f (push_bit 8 (drop_bit 8 c AND 0xff))"
    and t0: "look (?t ! 0) (c AND 0xff) = ?f (c AND 0xff)"
    using t [of 2 "drop_bit 16 c"] t [of 1 "drop_bit 8 c"] t [of 0 c] by simp_all
  show ?thesis
    using arg_cong [OF four_bytes_apart [of c], of ?f]
    by (simp only: Let_def t3 t2 t1 t0 xor_linearD [OF crc_bytes_linear])
qed

lemma crc_bytes_add: "crc_bytes m (crc_bytes n c) = crc_bytes (m + n) c"
  by (simp add: funpow_add distrib_left)

lemma combine_loop_ok:
  "combine_ok s \<Longrightarrow> n * 2 ^ i < 2 ^ 32 \<Longrightarrow> combine_loop s i c n = crc_bytes (n * 2 ^ i) c"
proof (induction s i c n rule: combine_loop.induct)
  case (1 s i c n)
  show ?case
  proof (cases "n = 0")
    case True
    then show ?thesis by (simp add: combine_loop.simps)
  next
    case False
    have "2 ^ i \<le> n * 2 ^ i" using False by simp
    then have "(2 :: nat) ^ i < 2 ^ 32" using 1(3) by linarith
    then have i: "i < 32" by (rule power_less_imp_less_exp [rotated]) simp
    let ?c = "if odd n then crc_bytes (2 ^ i) c else c"
    have "n div 2 * 2 ^ (i + 1) \<le> n * 2 ^ i" by (simp add: mult.assoc [symmetric])
    then have less: "n div 2 * 2 ^ (i + 1) < 2 ^ 32" using 1(3) by linarith
    have "combine_loop s i c n = combine_loop s (i + 1) ?c (n div 2)"
      using False combine_step [OF 1(2) i, of c] by (subst combine_loop.simps) (simp add: Let_def)
    also have "\<dots> = crc_bytes (n div 2 * 2 ^ (i + 1)) ?c"
      using 1(1) [OF False refl refl 1(2)] less by (simp only: combine_step [OF 1(2) i, unfolded Let_def])
    also have "\<dots> = crc_bytes (n * 2 ^ i) c"
    proof (cases "odd n")
      case True
      then have "n * 2 ^ i = n div 2 * 2 ^ (i + 1) + 2 ^ i" by (auto elim!: oddE simp: algebra_simps)
      then show ?thesis using True crc_bytes_add [of "n div 2 * 2 ^ (i + 1)" "2 ^ i" c] by (simp only: if_True not_False_eq_True)
    next
      case False
      then have "n * 2 ^ i = n div 2 * 2 ^ (i + 1)" by (auto elim!: evenE simp: algebra_simps)
      then show ?thesis using False by (simp only: if_False)
    qed
    finally show ?thesis .
  qed
qed

lemma fold_linear: "crc_fold bs (a XOR b) = (crc_bytes (length bs) a XOR crc_fold bs b)"
proof (induction bs arbitrary: a b)
  case (Cons x bs)
  have "crc_byte (a XOR b) x = ((crc_shift ^^ 8) a XOR crc_byte b x)"
    using xor_linearD [OF xor_linear_pow [OF xor_linear_shift], of 8 a "b XOR of_char x"]
    by (simp only: crc_byte_def xor.assoc)
  then show ?case using Cons by (simp add: crc_bytes_Suc [of "length bs" a, simplified] del: funpow.simps)
qed simp

section \<open>The checksums of a whole and of its parts\<close>

text \<open>
  C28: after \<open>mycrc32_init\<close>, \<open>mycrc32\<close> computes the cyclic redundancy check bit by bit as it is defined, wherever the block lies in
  memory, although it takes up to 32 bytes in a pass and reads four tables; and \<open>mycrc32_combine\<close> makes the checksum of two pieces
  joined together from their checksums and the length of the second, without their data.
\<close>

theorem crc_exact:
  assumes "length b < 2 ^ 32"
  shows "mycrc32 (mycrc32_init s) addr crc a = crc_spec crc a
    \<and> mycrc32_combine (mycrc32_init s) (mycrc32 (mycrc32_init s) addr crc a) (mycrc32 (mycrc32_init s) addr' 0 b) (length b)
      = mycrc32 (mycrc32_init s) addr crc (a @ b)"
proof -
  let ?s = "mycrc32_init s"
  have m: "main_tables_ok ?s"
    using main_tables(1) [of s] combine_tables(2) by (simp add: main_tables_ok_def mycrc32_init_def)
  have c: "combine_ok ?s" by (simp add: mycrc32_init_def combine_tables)
  have "combine_loop ?s 0 (crc_spec crc a) (length b) = crc_bytes (length b) (crc_spec crc a)"
    using combine_loop_ok [OF c, of "length b" 0] assms by simp
  then show ?thesis
    using fold_linear [of b "crc_spec crc a" "NOT 0"] mycrc32_is_spec [OF m] 
    by (simp add: mycrc32_combine_def crc_spec_def)
qed

theorem crc_exact_witness:
  "mycrc32_combine (mycrc32_init (crc_tables.make [] [])) (mycrc32 (mycrc32_init (crc_tables.make [] [])) 3 0 ''ab'')
      (mycrc32 (mycrc32_init (crc_tables.make [] [])) 0 0 ''cde'') (length ''cde'')
    = mycrc32 (mycrc32_init (crc_tables.make [] [])) 3 0 (''ab'' @ ''cde'')"
  by (rule crc_exact [THEN conjunct2]) simp

end
