(* ===== verification/StringSplit.thy ===== *)
theory StringSplit
  imports CString "HOL-Library.Monad_Syntax"
begin

text \<open>
  \<open>src/src/base3/string_util.cc\<close> and \<open>string_split.cc\<close>, for narrow strings: trimming, removing characters, comparisons without
  case, bounded copies, and splitting at a character, at a string and at white space. The wide versions are the same templates.
  The proofs compare every loop with one function on lists. The delimiter of a split is checked to be an ASCII
  character; the result is \<open>None\<close> when that debug check fails.
\<close>

section \<open>Searching for characters of a set\<close>

definition find_any :: "(char \<Rightarrow> bool) \<Rightarrow> string \<Rightarrow> nat \<Rightarrow> nat" where
  "find_any P s pos =
     (let t = takeWhile (\<lambda>c. \<not> P c) (drop pos s) in if pos + length t < length s then pos + length t else npos)"

definition find_last :: "(char \<Rightarrow> bool) \<Rightarrow> string \<Rightarrow> nat" where
  "find_last P s = (let t = takeWhile (\<lambda>c. \<not> P c) (rev s) in if length t < length s then length s - 1 - length t else npos)"

section \<open>Trimming and removing\<close>

definition kWhitespaceASCII :: string where
  "kWhitespaceASCII = [CHR 0x09, CHR 0x0A, CHR 0x0B, CHR 0x0C, CHR 0x0D, CHR 0x20]"

text \<open>The positions of the enumeration are the bits of a number.\<close>

definition TRIM_NONE :: nat where "TRIM_NONE = 0"
definition TRIM_LEADING :: nat where "TRIM_LEADING = 1"
definition TRIM_TRAILING :: nat where "TRIM_TRAILING = 2"
definition TRIM_ALL :: nat where "TRIM_ALL = 3"

definition TrimStringT :: "string \<Rightarrow> string \<Rightarrow> nat \<Rightarrow> nat \<times> string" where
  "TrimStringT input trim_chars positions =
     (let last_char = szsub (length input) 1;
          first_good_char = (if bit positions 0 then find_any (\<lambda>c. c \<notin> set trim_chars) input 0 else 0);
          last_good_char = (if bit positions 1 then find_last (\<lambda>c. c \<notin> set trim_chars) input else last_char)
      in if input = [] \<or> first_good_char = npos \<or> last_good_char = npos
         then (if input = [] then TRIM_NONE else positions, [])
         else ((if first_good_char = 0 then TRIM_NONE else TRIM_LEADING) + (if last_good_char = last_char then TRIM_NONE else TRIM_TRAILING),
               substr input first_good_char (szadd (szsub last_good_char first_good_char) 1)))"

definition TrimString :: "string \<Rightarrow> string \<Rightarrow> bool \<times> string" where
  "TrimString input trim_chars = (let (p, out) = TrimStringT input trim_chars TRIM_ALL in (p \<noteq> TRIM_NONE, out))"

definition TrimWhitespaceASCII :: "string \<Rightarrow> nat \<Rightarrow> nat \<times> string" where
  "TrimWhitespaceASCII input positions = TrimStringT input kWhitespaceASCII positions"

definition TrimWhitespace :: "string \<Rightarrow> nat \<Rightarrow> nat \<times> string" where
  "TrimWhitespace input positions = TrimWhitespaceASCII input positions"

lemma find_any_less: "find_any P s pos \<noteq> npos \<Longrightarrow> pos \<le> find_any P s pos \<and> find_any P s pos < length s"
  by (auto simp: find_any_def Let_def split: if_splits)

function remove_loop :: "string \<Rightarrow> string \<Rightarrow> nat \<Rightarrow> string" where
  "remove_loop remove_chars output found =
     (if found \<noteq> npos \<and> found < length output
      then let output = take found output @ drop (found + 1) output
           in remove_loop remove_chars output (find_any (\<lambda>c. c \<in> set remove_chars) output found)
      else output)"
  by pat_completeness auto
termination
  by (relation "measure (\<lambda>(_, output, _). length output)") auto

declare remove_loop.simps [simp del]

definition RemoveChars :: "string \<Rightarrow> string \<Rightarrow> bool \<times> string" where
  "RemoveChars input remove_chars =
     (let found = find_any (\<lambda>c. c \<in> set remove_chars) input 0 in (found \<noteq> npos, remove_loop remove_chars input found))"

section \<open>Comparisons and copies\<close>

definition ToLowerASCII :: "char \<Rightarrow> char" where
  "ToLowerASCII c = (if 65 \<le> (of_char c :: nat) \<and> (of_char c :: nat) \<le> 90 then char_of (of_char c + 32 :: nat) else c)"

fun LowerCaseEqualsASCII :: "string \<Rightarrow> string \<Rightarrow> bool" where
  "LowerCaseEqualsASCII [] b = (b = [])"
| "LowerCaseEqualsASCII (a # as) [] = False"
| "LowerCaseEqualsASCII (a # as) (b # bs) = (if ToLowerASCII a \<noteq> b then False else LowerCaseEqualsASCII as bs)"

definition StartsWith :: "string \<Rightarrow> string \<Rightarrow> bool \<Rightarrow> bool" where
  "StartsWith str search case_sensitive =
     (if case_sensitive then take (length search) str = search
      else if length str < length search then False
      else list_all2 (\<lambda>x y. tolower x = tolower y) search (take (length search) str))"

definition EndsWith :: "string \<Rightarrow> string \<Rightarrow> bool \<Rightarrow> bool" where
  "EndsWith str search case_sensitive =
     (if length str < length search then False
      else if case_sensitive then substr str (length str - length search) (length search) = search
      else list_all2 (\<lambda>x y. tolower x = tolower y) search (drop (length str - length search) str))"

text \<open>
  \<open>lcpyT\<close> copies at most \<open>dst_size\<close> characters of a C string and its terminator, and returns the length of the source. The
  source is given up to its terminator.
\<close>

fun lcpy_loop :: "string \<Rightarrow> nat \<Rightarrow> nat \<Rightarrow> bytes \<Rightarrow> nat \<times> bytes" where
  "lcpy_loop src i 0 dst = (i + length (drop i src), if i \<noteq> 0 then dst[i - 1 := NUL] else dst)"
| "lcpy_loop src i (Suc n) dst = (if i < length src then lcpy_loop src (i + 1) n (dst[i := src ! i]) else (i, dst[i := NUL]))"

definition strlcpy :: "bytes \<Rightarrow> string \<Rightarrow> nat \<Rightarrow> nat \<times> bytes" where
  "strlcpy dst src dst_size = lcpy_loop src 0 dst_size dst"

section \<open>Splitting\<close>

function split_loop :: "string \<Rightarrow> char \<Rightarrow> (string \<Rightarrow> string) \<Rightarrow> nat \<Rightarrow> nat \<Rightarrow> string list" where
  "split_loop str s trim start i =
     (let c = length str in
      if i \<le> c then
        (if i = c \<or> str ! i = s
         then trim (substr str start (i - start)) # split_loop str s trim (i + 1) (i + 1)
         else split_loop str s trim start (i + 1))
      else [])"
  by pat_completeness auto
termination
  by (relation "measure (\<lambda>(str, _, _, _, i). Suc (length str) - i)") auto

declare split_loop.simps [simp del]

definition trimmed :: "string \<Rightarrow> string" where
  "trimmed t = snd (TrimWhitespace t TRIM_ALL)"

definition SplitStringT :: "string \<Rightarrow> char \<Rightarrow> bool \<Rightarrow> string list \<Rightarrow> string list" where
  "SplitStringT str s trim_whitespace r = r @ split_loop str s (if trim_whitespace then trimmed else id) 0 0"

text \<open>The debug check of both: \<open>c >= 0 && c < 0x7F\<close>, for a signed \<open>char\<close>.\<close>

definition ascii :: "char \<Rightarrow> bool" where
  "ascii c \<longleftrightarrow> (of_char c :: nat) < 0x7F"

definition SplitString :: "string \<Rightarrow> char \<Rightarrow> string list \<Rightarrow> string list option" where
  "SplitString str c r = do { DCHECK (ascii c); Some (SplitStringT str c True r) }"

definition SplitStringDontTrim :: "string \<Rightarrow> char \<Rightarrow> string list \<Rightarrow> string list option" where
  "SplitStringDontTrim str c r = do { DCHECK (ascii c); Some (SplitStringT str c False r) }"

definition SplitStringIntoKeyValues :: "string \<Rightarrow> char \<Rightarrow> bool \<times> string \<times> string list" where
  "SplitStringIntoKeyValues line delimiter =
     (let end_key_pos = find_any (\<lambda>c. c = delimiter) line 0 in
      if end_key_pos = npos then (False, [], [])
      else
        let key = substr line 0 end_key_pos;
            remains = substr line end_key_pos (length line - end_key_pos);
            begin_values_pos = find_any (\<lambda>c. c \<noteq> delimiter) remains 0
        in if begin_values_pos = npos then (False, key, [])
           else (True, key, [substr remains begin_values_pos (length remains - begin_values_pos)]))"

fun key_value_loop :: "char \<Rightarrow> string list \<Rightarrow> (bool \<times> (string \<times> string) list) option" where
  "key_value_loop d [] = Some (True, [])"
| "key_value_loop d (p # pairs) =
     (if p = [] then key_value_loop d pairs
      else let (ok, key, value) = SplitStringIntoKeyValues p d in do {
        DCHECK (length value \<le> 1);
        (success, kv_pairs) \<leftarrow> key_value_loop d pairs;
        Some (ok \<and> success, (key, if value = [] then [] else hd value) # kv_pairs)
      })"

definition SplitStringIntoKeyValuePairs :: "string \<Rightarrow> char \<Rightarrow> char \<Rightarrow> (bool \<times> (string \<times> string) list) option" where
  "SplitStringIntoKeyValuePairs line key_value_delimiter key_value_pair_delimiter = do {
     pairs \<leftarrow> SplitString line key_value_pair_delimiter [];
     key_value_loop key_value_delimiter pairs
   }"

text \<open>Splitting at a string: the result is \<open>None\<close> when the loop does not end.\<close>

partial_function (option) substr_loop :: "string \<Rightarrow> string \<Rightarrow> nat \<Rightarrow> string list \<Rightarrow> string list option" where
  "substr_loop str s begin_index r =
     (let end_index = str_find str s begin_index in
      if end_index = npos then Some (r @ [trimmed (substr str begin_index (length str))])
      else substr_loop str s (end_index + length s) (r @ [trimmed (substr str begin_index (end_index - begin_index))]))"

definition SplitStringUsingSubstr :: "string \<Rightarrow> string \<Rightarrow> string list \<Rightarrow> string list option" where
  "SplitStringUsingSubstr str s r = substr_loop str s 0 r"

fun whitespace_loop :: "string \<Rightarrow> bool \<Rightarrow> nat \<Rightarrow> nat \<Rightarrow> string \<Rightarrow> string list" where
  "whitespace_loop str last_was_ws last_non_ws_start i [] =
     (if \<not> last_was_ws then [substr str last_non_ws_start (length str - last_non_ws_start)] else [])"
| "whitespace_loop str last_was_ws last_non_ws_start i (c # cs) =
     (if c \<in> set kWhitespaceASCII then
        (if \<not> last_was_ws
         then (if 0 < i then [substr str last_non_ws_start (i - last_non_ws_start)] else []) @ whitespace_loop str True last_non_ws_start (i + 1) cs
         else whitespace_loop str last_was_ws last_non_ws_start (i + 1) cs)
      else if last_was_ws then whitespace_loop str False i (i + 1) cs
      else whitespace_loop str last_was_ws last_non_ws_start (i + 1) cs)"

definition SplitStringAlongWhitespace :: "string \<Rightarrow> string list \<Rightarrow> string list" where
  "SplitStringAlongWhitespace str result = (if length str = 0 then result else result @ whitespace_loop str False 0 0 str)"

section \<open>Trimming is dropping at both ends\<close>

lemma find_any_0:
  "length s < npos \<Longrightarrow> find_any P s 0 = (if \<exists>c \<in> set s. P c then length (takeWhile (\<lambda>c. \<not> P c) s) else npos)"
proof -
  have "length (takeWhile (\<lambda>c. \<not> P c) s) < length s \<longleftrightarrow> (\<exists>c \<in> set s. P c)"
    by (metis length_takeWhile_le linorder_not_le nat_less_le takeWhile_eq_all_conv takeWhile_eq_take take_all_iff)
  then show ?thesis by (simp add: find_any_def Let_def)
qed

definition both_ends :: "(char \<Rightarrow> bool) \<Rightarrow> string \<Rightarrow> string" where
  "both_ends P s = rev (dropWhile P (rev (dropWhile P s)))"

lemma both_ends_parts:
  assumes "\<exists>c \<in> set s. \<not> P c"
  shows "\<exists>w m v. s = w @ m @ v \<and> m \<noteq> [] \<and> both_ends P s = m \<and> takeWhile P s = w \<and> takeWhile P (rev s) = rev v
    \<and> (\<forall>c \<in> set w. P c) \<and> (\<forall>c \<in> set v. P c) \<and> \<not> P (hd m) \<and> \<not> P (last m)"
proof -
  let ?w = "takeWhile P s" and ?d = "dropWhile P s"
  have d: "?d \<noteq> []" "\<not> P (hd ?d)" using assms hd_dropWhile [of P s] by (auto simp: dropWhile_eq_Nil_conv)
  let ?v = "rev (takeWhile P (rev ?d))" and ?m = "rev (dropWhile P (rev ?d))"
  have dm: "?d = ?m @ ?v" by (metis rev_append rev_rev_ident takeWhile_dropWhile_id)
  have "\<exists>c \<in> set ?d. \<not> P c" using d by (metis hd_in_set)
  then have m: "?m \<noteq> []" "\<not> P (last ?m)"
    using hd_dropWhile [of P "rev ?d"] by (auto simp: dropWhile_eq_Nil_conv last_rev)
  have h: "\<not> P (hd ?m)" using d(2) m(1) by (metis dm hd_append2)
  have s: "s = ?w @ ?m @ ?v" using dm by (metis takeWhile_dropWhile_id)
  obtain c where c: "c \<in> set (rev ?d)" "\<not> P c" using d by (metis hd_in_set set_rev)
  have "rev s = rev ?d @ rev ?w" by (metis rev_append takeWhile_dropWhile_id)
  then have "takeWhile P (rev s) = takeWhile P (rev ?d)" using takeWhile_append1 [of c "rev ?d" P "rev ?w"] c by simp
  then show ?thesis
    using s m h by (intro exI [of _ ?w] exI [of _ ?m] exI [of _ ?v]) (auto simp: both_ends_def dest: set_takeWhileD)
qed

lemma find_last_rev:
  "length s < npos \<Longrightarrow> find_last P s = (if \<exists>c \<in> set s. P c then length s - 1 - length (takeWhile (\<lambda>c. \<not> P c) (rev s)) else npos)"
proof -
  have "length (takeWhile (\<lambda>c. \<not> P c) (rev s)) < length (rev s) \<longleftrightarrow> (\<exists>c \<in> set (rev s). P c)"
    by (metis length_takeWhile_le linorder_not_le nat_less_le takeWhile_eq_all_conv takeWhile_eq_take take_all_iff)
  then show ?thesis by (simp add: find_last_def Let_def)
qed

lemma TrimStringT_all:
  assumes "length s < npos"
  shows "snd (TrimStringT s cs TRIM_ALL) = both_ends (\<lambda>c. c \<in> set cs) s"
    and "fst (TrimStringT s cs TRIM_ALL) = TRIM_NONE \<longleftrightarrow> both_ends (\<lambda>c. c \<in> set cs) s = s"
proof -
  let ?P = "\<lambda>c. c \<in> set cs"
  have b: "bit TRIM_ALL 0" "bit TRIM_ALL 1" by (simp_all add: TRIM_ALL_def bit_iff_odd)
  have "snd (TrimStringT s cs TRIM_ALL) = both_ends ?P s \<and> (fst (TrimStringT s cs TRIM_ALL) = TRIM_NONE \<longleftrightarrow> both_ends ?P s = s)"
  proof (cases "\<exists>c \<in> set s. \<not> ?P c")
    case False
    then have "dropWhile ?P s = []" by (simp add: dropWhile_eq_Nil_conv)
    then have "both_ends ?P s = []" by (simp only: both_ends_def dropWhile.simps rev.simps)
    then show ?thesis
      using False b assms by (auto simp: TrimStringT_def find_any_0 TRIM_NONE_def TRIM_ALL_def Let_def)
  next
    case True
    then obtain w m v where p: "s = w @ m @ v" "m \<noteq> []" "both_ends ?P s = m" "takeWhile ?P s = w" "takeWhile ?P (rev s) = rev v"
      using both_ends_parts [of s ?P] by blast
    have n: "s \<noteq> []" "length s < 2 ^ 64" using p(1,2) assms by (auto simp: npos_def)
    have first: "find_any (\<lambda>c. c \<notin> set cs) s 0 = length w" using find_any_0 [OF assms] True p(4) by simp
    have last: "find_last (\<lambda>c. c \<notin> set cs) s = length s - 1 - length v" using find_last_rev [OF assms] True p(5) by simp
    have l: "szsub (length s) 1 = length s - 1" using n by (intro szsub_le) (auto simp: Suc_le_eq)
    have len: "length s = length w + length m + length v" "0 < length m" using p(1,2) by simp_all
    have d: "szsub (length s - 1 - length v) (length w) = length m - 1" 
    proof -
      have "szsub (length s - 1 - length v) (length w) = length s - 1 - length v - length w"
        using len n by (intro szsub_le; linarith)
      then show ?thesis using len by linarith
    qed
    have a: "szadd (length m - 1) 1 = length m" using szadd_less [of "length m - 1" 1] len n by simp
    have np: "\<not> (s = [] \<or> length w = npos \<or> length s - 1 - length v = npos)" using assms len n(1) by auto
    have t: "TrimStringT s cs TRIM_ALL = ((if length w = 0 then TRIM_NONE else TRIM_LEADING)
        + (if length s - 1 - length v = length s - 1 then TRIM_NONE else TRIM_TRAILING), substr s (length w) (length m))"
      using np by (simp only: TrimStringT_def Let_def b first last l d a if_True if_False)
    have "substr s (length w) (length m) = m" unfolding p(1) by (rule substr_middle)
    moreover have "m = s \<longleftrightarrow> w = [] \<and> v = []"
    proof
      assume "m = s"
      then have "length m = length w + length m + length v" using len(1) by simp
      then show "w = [] \<and> v = []" by simp
    qed (simp add: p(1))
    moreover have "length s - 1 - length v = length s - 1 \<longleftrightarrow> v = []" using len by (simp only: length_0_conv [symmetric]) linarith
    ultimately show ?thesis by (simp add: t p(3) TRIM_NONE_def TRIM_LEADING_def TRIM_TRAILING_def)
  qed
  then show "snd (TrimStringT s cs TRIM_ALL) = both_ends (\<lambda>c. c \<in> set cs) s"
    "fst (TrimStringT s cs TRIM_ALL) = TRIM_NONE \<longleftrightarrow> both_ends (\<lambda>c. c \<in> set cs) s = s" by blast+
qed

abbreviation is_white :: "char \<Rightarrow> bool" where
  "is_white c \<equiv> c \<in> set kWhitespaceASCII"

lemma trimmed_both_ends: "length t < npos \<Longrightarrow> trimmed t = both_ends is_white t"
  using TrimStringT_all(1) by (simp add: trimmed_def TrimWhitespace_def TrimWhitespaceASCII_def)

section \<open>Removing is filtering\<close>

lemma remove_loop_filter:
  "length s < npos \<Longrightarrow> remove_loop cs s (find_any (\<lambda>c. c \<in> set cs) s k) = take k s @ filter (\<lambda>c. c \<notin> set cs) (drop k s)"
proof (induction "length s" arbitrary: s k rule: less_induct)
  case less
  let ?P = "\<lambda>c. c \<in> set cs" and ?t = "takeWhile (\<lambda>c. c \<notin> set cs) (drop k s)"
  let ?f = "find_any ?P s k"
  show ?case
  proof (cases "k + length ?t < length s")
    case False
    then have "length (drop k s) \<le> length ?t" by simp
    then have "?t = drop k s" by (metis takeWhile_eq_take take_all)
    then have "\<forall>c \<in> set (drop k s). c \<notin> set cs" by (metis set_takeWhileD)
    moreover have "?f = npos" using False by (simp add: find_any_def)
    ultimately show ?thesis by (simp add: remove_loop.simps filter_id_conv)
  next
    case True
    then have f: "?f = k + length ?t" "?f \<noteq> npos" "?f < length s" using less.prems by (auto simp: find_any_def)
    obtain c r where d: "drop k s = ?t @ c # r" "c \<in> set cs"
    proof -
      have "length ?t < length (drop k s)" using True by simp
      then have "dropWhile (\<lambda>c. c \<notin> set cs) (drop k s) \<noteq> []" by (metis append.right_neutral nat_less_le takeWhile_dropWhile_id)
      then show thesis
        using that hd_dropWhile [of "\<lambda>c. c \<notin> set cs" "drop k s"] takeWhile_dropWhile_id [of "\<lambda>c. c \<notin> set cs" "drop k s"]
        by (metis list.exhaust_sel)
    qed
    have "take (length ?t) (drop k s) = ?t" "drop (length ?t + 1) (drop k s) = r"
      using arg_cong [OF d(1), of "take (length ?t)"] arg_cong [OF d(1), of "drop (length ?t + 1)"] by simp_all
    then have tk: "take ?f s = take k s @ ?t" "drop (?f + 1) s = r"
      unfolding f(1) by (simp_all only: take_add drop_drop) (simp add: ac_simps)
    have "remove_loop cs s ?f = remove_loop cs (take ?f s @ drop (?f + 1) s) (find_any ?P (take ?f s @ drop (?f + 1) s) ?f)"
      using f by (subst remove_loop.simps) (simp add: Let_def)
    also have "\<dots> = take ?f (take ?f s @ drop (?f + 1) s) @ filter (\<lambda>c. c \<notin> set cs) (drop ?f (take ?f s @ drop (?f + 1) s))"
      using f less.prems by (intro less.hyps) auto
    also have "\<dots> = take ?f s @ filter (\<lambda>c. c \<notin> set cs) (drop (?f + 1) s)"
      using f(3) by simp
    also have "\<dots> = take k s @ filter (\<lambda>c. c \<notin> set cs) (?t @ c # r)"
    proof -
      have "filter (\<lambda>c. c \<notin> set cs) ?t = ?t" by (rule filter_True) (auto dest: set_takeWhileD)
      then show ?thesis unfolding tk using d(2) by simp
    qed
    finally show ?thesis using d(1) by simp
  qed
qed

lemma RemoveChars_filter:
  assumes "length s < npos"
  shows "RemoveChars s cs = ((\<exists>c \<in> set s. c \<in> set cs), filter (\<lambda>c. c \<notin> set cs) s)"
proof -
  have "length (takeWhile (\<lambda>c. c \<notin> set cs) s) < npos" using assms by (meson le_less_trans length_takeWhile_le)
  then show ?thesis
    using remove_loop_filter [OF assms, of cs 0] assms by (auto simp: RemoveChars_def find_any_0 Let_def)
qed


section \<open>Splitting at a character\<close>

lemma split_any_Cons: "split_any seps (c # cs) = (if c \<in> seps then [] # split_any seps cs
    else (c # hd (split_any seps cs)) # tl (split_any seps cs))"
  by (simp split: list.splits)

lemma split_loop_any:
  assumes "last0 \<le> i" "i \<le> length str" "s \<notin> set (take (i - last0) (drop last0 str))"
  shows "split_loop str s f last0 i = map f (split_any {s} (drop last0 str))"
  using assms
proof (induction str s f last0 i rule: split_loop.induct)
  case (1 str s f last0 i)
  let ?a = "take (i - last0) (drop last0 str)"
  have d: "drop last0 str = ?a @ drop i str" using 1(3,4) by (metis append_take_drop_id drop_drop le_add_diff_inverse2)
  consider "i = length str" | "i < length str" "str ! i = s" | "i < length str" "str ! i \<noteq> s" using 1(4) by linarith
  then show ?case
  proof cases
    case 1
    then have "split_any {s} (drop last0 str) = [?a]" using d "1.prems"(3) split_any_none [of ?a "{s}"] by simp
    then show ?thesis
      using 1 by (subst split_loop.simps, subst split_loop.simps) (simp add: substr_def Let_def)
  next
    case 2
    then have "drop i str = s # drop (i + 1) str" using Cons_nth_drop_Suc [of i str] by simp
    then have "split_any {s} (drop last0 str) = ?a # split_any {s} (drop (i + 1) str)"
      using d "1.prems"(3) split_any_append [of ?a "{s}" s "drop (i + 1) str"] by simp
    moreover have "split_loop str s f last0 i = f ?a # split_loop str s f (i + 1) (i + 1)"
      using 2 by (subst split_loop.simps) (simp add: substr_def Let_def)
    ultimately show ?thesis using "1.IH"(1) 2 by simp
  next
    case 3
    have "take (i + 1 - last0) (drop last0 str) = ?a @ [str ! i]"
      using 3 "1.prems"(1) by (simp add: Suc_diff_le take_Suc_conv_app_nth)
    then show ?thesis
      using "1.IH"(2) 3 "1.prems" by (subst split_loop.simps) (simp add: Let_def)
  qed
qed

lemma SplitStringT_any: "SplitStringT str c trim r = r @ map (if trim then trimmed else id) (split_any {c} str)"
  using split_loop_any [of 0 0 str c] by (simp add: SplitStringT_def)

fun joined_with :: "string \<Rightarrow> string list \<Rightarrow> string" where
  "joined_with s [] = []"
| "joined_with s [t] = t"
| "joined_with s (t # ts) = t @ s @ joined_with s ts"

lemma joined_with_Cons: "ts \<noteq> [] \<Longrightarrow> joined_with s (t # ts) = t @ s @ joined_with s ts"
  by (cases ts) auto

lemma split_any_joined: "ts \<noteq> [] \<Longrightarrow> \<forall>t \<in> set ts. c \<notin> set t \<Longrightarrow> split_any {c} (joined_with [c] ts) = ts"
proof (induction ts)
  case (Cons t ts)
  then show ?case
    using split_any_none [of t "{c}"] split_any_append [of t "{c}" c "joined_with [c] ts"] by (cases ts) auto
qed simp

lemma joined_split_any: "joined_with [c] (split_any {c} str) = str \<and> (\<forall>t \<in> set (split_any {c} str). c \<notin> set t)"
proof (induction str)
  case (Cons a str)
  obtain t ts where "split_any {c} str = t # ts" by (cases "split_any {c} str") auto
  then show ?case using Cons by (cases ts) auto
qed simp

section \<open>Splitting at white space\<close>

section \<open>Splitting at white space\<close>

abbreviation words :: "string \<Rightarrow> string list" where
  "words s \<equiv> filter (\<lambda>t. t \<noteq> []) (split_any (set kWhitespaceASCII) s)"

lemma no_white: "\<forall>c \<in> set t. \<not> is_white c \<Longrightarrow> set t \<inter> set kWhitespaceASCII = {}"
  by blast

lemma words_append: "t \<noteq> [] \<Longrightarrow> \<forall>c \<in> set t. \<not> is_white c \<Longrightarrow> is_white c \<Longrightarrow> words (t @ c # s) = t # words s"
  by (simp only: split_any_append [OF no_white] filter.simps if_True simp_thms)

lemma words_only: "t \<noteq> [] \<Longrightarrow> \<forall>c \<in> set t. \<not> is_white c \<Longrightarrow> words t = [t]"
  by (simp only: split_any_none [OF no_white] filter.simps if_True simp_thms)

lemma whitespace_loop_words:
  "drop i str = rest \<Longrightarrow> whitespace_loop str True l i rest = words rest
    \<and> (drop l str = run @ rest \<longrightarrow> i = l + length run \<longrightarrow> run \<noteq> [] \<longrightarrow> (\<forall>c \<in> set run. \<not> is_white c) \<longrightarrow>
       whitespace_loop str False l i rest = words (run @ rest))"
proof (induction rest arbitrary: i l run)
  case Nil
  have "substr str l (length str - l) = drop l str" by (simp add: substr_def)
  then show ?case using words_only [of run] by auto
next
  case (Cons c cs)
  have d: "drop (i + 1) str = cs" using Cons.prems by (metis drop_Suc_Cons drop_drop drop0 One_nat_def plus_1_eq_Suc)
  show ?case
  proof (cases "is_white c")
    case True
    have "substr str l (i - l) = run" if "drop l str = run @ c # cs" "i = l + length run" using that by (simp add: substr_def)
    then show ?thesis
      using Cons.IH [OF d, of l] True words_append [of run c cs] by auto
  next
    case False
    have "whitespace_loop str False i (i + 1) cs = words ([c] @ cs)"
      using Cons.IH [OF d, of i "[c]"] Cons.prems False by simp
    moreover have "whitespace_loop str False l (i + 1) cs = words ((run @ [c]) @ cs)"
      if "drop l str = run @ c # cs" "i = l + length run" "\<forall>c \<in> set run. \<not> is_white c"
      using Cons.IH [OF d, of l "run @ [c]"] that False by auto
    ultimately show ?thesis using False by auto
  qed
qed

lemma SplitStringAlongWhitespace_words: "SplitStringAlongWhitespace str r = r @ words str"
proof (cases str)
  case (Cons c cs)
  then show ?thesis
    using whitespace_loop_words [of 1 str cs 0 "[c]"] whitespace_loop_words [of 1 str cs 0]
    by (auto simp: SplitStringAlongWhitespace_def)
qed (simp add: SplitStringAlongWhitespace_def)

section \<open>Splitting at a string\<close>

text \<open>The pieces between the leftmost occurrences, one after the other.\<close>

fun cuts :: "string \<Rightarrow> string list \<Rightarrow> bool" where
  "cuts s [] = False"
| "cuts s [t] = (\<forall>j. \<not> occurs t s j)"
| "cuts s (t # ts) = ((\<forall>j < length t. \<not> occurs (t @ s @ joined_with s ts) s j) \<and> cuts s ts)"

lemma cuts_not_Nil: "cuts s ts \<Longrightarrow> ts \<noteq> []"
  by auto

lemma occurs_from: "b \<le> length str \<Longrightarrow> occurs str s (b + j) \<longleftrightarrow> occurs (drop b str) s j"
  by (rule occurs_drop [symmetric])

lemma substr_loop_cuts:
  assumes "s \<noteq> []" "length str < npos" "b \<le> length str"
  shows "\<exists>ts. substr_loop str s b r = Some (r @ map trimmed ts) \<and> joined_with s ts = drop b str \<and> cuts s ts"
  using assms(3)
proof (induction "length str - b" arbitrary: b r rule: less_induct)
  case less
  show ?case
  proof (rule str_find_cases [OF assms(2), of s b], goal_cases none found)
    case none
    have "\<not> occurs (drop b str) s j" for j using none(2) [of "b + j"] occurs_from [OF less.prems] by simp
    then show ?thesis
      using none(1) by (intro exI [of _ "[drop b str]"]) (simp add: substr_loop.simps [of str s b r] substr_def)
  next
    case found
    let ?e = "str_find str s b"
    let ?t = "take (?e - b) (drop b str)"
    have e: "?e + length s \<le> length str" "?e \<noteq> npos" using occurs_bound [OF found(2)] assms(2) by auto
    have len: "length ?t = ?e - b" using e found(1) by simp
    have at: "take (length s) (drop ?e str) = s" using found(2) by (simp add: occurs_def)
    have split: "drop b str = ?t @ s @ drop (?e + length s) str"
    proof -
      have "drop b str = ?t @ drop ?e str" using found(1) append_take_drop_id [of "?e - b" "drop b str"] by simp
      also have "drop ?e str = s @ drop (?e + length s) str"
        using append_take_drop_id [of "length s" "drop ?e str"] at by (simp add: add.commute)
      finally show ?thesis .
    qed
    have "0 < length s" using assms(1) by simp
    then have fewer: "length str - (?e + length s) < length str - b" using e(1) found(1) by linarith
    obtain ts where ts: "substr_loop str s (?e + length s) (r @ [trimmed ?t]) = Some ((r @ [trimmed ?t]) @ map trimmed ts)"
      "joined_with s ts = drop (?e + length s) str" "cuts s ts"
      using less.hyps [OF fewer, of "r @ [trimmed ?t]"] e(1) by auto
    have "\<not> occurs (drop b str) s j" if "j < length ?t" for j
    proof -
      have "b + j < ?e" using that len by linarith
      then show ?thesis using found(3) [of "b + j"] occurs_from [OF less.prems, of s j] by simp
    qed
    then have "cuts s (?t # ts)" using ts(2,3) split by (cases ts) auto
    moreover have "substr_loop str s b r = Some (r @ map trimmed (?t # ts))"
      using ts(1) e(2) by (simp add: substr_loop.simps [of str s b r] substr_def Let_def)
    moreover have "joined_with s (?t # ts) = drop b str"
      using ts(2) split joined_with_Cons [OF cuts_not_Nil [OF ts(3)]] by simp
    ultimately show ?thesis by blast
  qed
qed

text \<open>The empty string stands everywhere: the loop adds empty pieces for ever.\<close>

lemma substr_loop_empty: "b \<le> length str \<Longrightarrow> length str < npos \<Longrightarrow> substr_loop str [] b r = None"
proof (rule ccontr)
  assume b: "b \<le> length str" "length str < npos" "substr_loop str [] b r \<noteq> None"
  then obtain ts where "substr_loop str [] b r = Some ts" by auto
  then have "[] = ([] :: string) \<longrightarrow> b \<le> length str \<longrightarrow> \<not> length str < npos"
  proof (rule substr_loop.raw_induct [of "\<lambda>str s b r ts. s = [] \<longrightarrow> b \<le> length str \<longrightarrow> \<not> length str < npos", rotated], intro impI notI)
    fix loop and str s :: string and b :: nat and r ts :: "string list"
    assume ih: "\<And>str s b r ts. loop str s b r = Some ts \<Longrightarrow> s = [] \<longrightarrow> b \<le> length str \<longrightarrow> \<not> length str < npos"
      and body: "(let end_index = str_find str s b in
        if end_index = npos then Some (r @ [trimmed (substr str b (length str))])
        else loop str s (end_index + length s) (r @ [trimmed (substr str b (end_index - b))])) = Some ts"
      and s: "s = []" "b \<le> length str" "length str < npos"
    have "occurs str [] b" using s(2) by (simp add: occurs_def)
    then have "str_find str [] b = b" using str_find_le [OF s(3), of "[]" b b] by auto
    then have "loop str s b (r @ [trimmed (substr str b 0)]) = Some ts" using body s by (simp add: Let_def)
    then show False using ih s by blast
  qed
  then show False using b by simp
qed

section \<open>Key-value pairs\<close>

lemma both_ends_id: "s \<noteq> [] \<Longrightarrow> \<not> P (hd s) \<Longrightarrow> \<not> P (last s) \<Longrightarrow> both_ends P s = s"
  by (simp add: both_ends_def dropWhile_eq_self_iff [THEN iffD2] hd_rev)

lemma split_any_length: "t \<in> set (split_any seps s) \<Longrightarrow> length t \<le> length s"
proof (induction s arbitrary: t)
  case (Cons c s)
  obtain u us where "split_any seps s = u # us" by (cases "split_any seps s") auto
  then show ?case using Cons by (fastforce split: if_splits)
qed simp

lemma SplitString_words: "length str < npos \<Longrightarrow> SplitString str c r = (if ascii c then Some (r @ map (both_ends is_white) (split_any {c} str)) else None)"
proof -
  assume n: "length str < npos"
  have "length t < npos" if "t \<in> set (split_any {c} str)" for t
    using split_any_length [OF that] n by simp
  then show ?thesis by (simp add: SplitString_def SplitStringT_any trimmed_both_ends)
qed

text \<open>What a printed list of pairs must look like to be read back: names and values free of delimiters and without white space at the ends.\<close>

definition pair_ok :: "char \<Rightarrow> char \<Rightarrow> string \<times> string \<Rightarrow> bool" where
  "pair_ok d p kv = (case kv of (k, v) \<Rightarrow>
     k \<noteq> [] \<and> v \<noteq> [] \<and> d \<notin> set k \<and> hd v \<noteq> d \<and> p \<notin> set k \<union> set v \<and> \<not> is_white (hd k) \<and> \<not> is_white (last v))"

lemma IntoKeyValues_pair:
  assumes "d \<notin> set k" "v \<noteq> []" "hd v \<noteq> d" "length (k @ d # v) < npos"
  shows "SplitStringIntoKeyValues (k @ d # v) d = (True, k, [v])"
proof -
  have t: "takeWhile (\<lambda>c. c \<noteq> d) (k @ d # v) = k" by (rule takeWhile_until [OF assms(1)])
  have f: "find_any (\<lambda>c. c = d) (k @ d # v) 0 = length k" using t by (simp add: find_any_def)
  have r: "substr (k @ d # v) (length k) (length (k @ d # v) - length k) = d # v" "substr (k @ d # v) 0 (length k) = k"
    by (simp_all add: substr_def)
  have g: "find_any (\<lambda>c. c \<noteq> d) (d # v) 0 = Suc 0" using assms(2,3) by (cases v) (auto simp: find_any_def)
  have "length k \<noteq> npos" "Suc 0 \<noteq> npos" using assms(4) by (auto simp: npos_def)
  then show ?thesis using assms(2) by (simp add: SplitStringIntoKeyValues_def Let_def f r g) (simp add: substr_def g)
qed

lemma key_value_loop_pairs:
  assumes "\<forall>kv \<in> set kvs. pair_ok d p kv" "\<forall>(k, v) \<in> set kvs. length (k @ d # v) < npos"
  shows "key_value_loop d (map (\<lambda>(k, v). k @ d # v) kvs) = Some (True, kvs)"
  using assms
proof (induction kvs)
  case (Cons kv kvs)
  then show ?case
    using IntoKeyValues_pair [of d "fst kv" "snd kv"] by (cases kv) (auto simp: pair_ok_def)
qed simp

lemma joined_with_length: "t \<in> set ts \<Longrightarrow> length t \<le> length (joined_with s ts)"
  by (induction s ts rule: joined_with.induct) auto

lemma key_value_pairs_back:
  assumes "\<forall>kv \<in> set kvs. pair_ok d p kv" "d \<noteq> p" "kvs \<noteq> []" "length (joined_with [p] (map (\<lambda>(k, v). k @ d # v) kvs)) < npos"
    and "ascii p"
  shows "SplitStringIntoKeyValuePairs (joined_with [p] (map (\<lambda>(k, v). k @ d # v) kvs)) d p = Some (True, kvs)"
proof -
  let ?ts = "map (\<lambda>(k, v). k @ d # v) kvs"
  have free: "\<forall>t \<in> set ?ts. p \<notin> set t" using assms(1,2) by (auto simp: pair_ok_def)
  have "both_ends is_white t = t" if "t \<in> set ?ts" for t
  proof -
    obtain k v where kv: "(k, v) \<in> set kvs" "t = k @ d # v" using \<open>t \<in> set ?ts\<close> by auto
    then have ok: "pair_ok d p (k, v)" using assms(1) by blast
    show ?thesis using kv(2) ok by (intro both_ends_id) (auto simp: pair_ok_def)
  qed
  then have "map (both_ends is_white) ?ts = ?ts" by (simp add: map_idI)
  then have "SplitString (joined_with [p] ?ts) p [] = Some ?ts"
    using SplitString_words [OF assms(4), of p "[]"] split_any_joined [OF _ free] assms(3,5) by simp
  moreover have "\<forall>(k, v) \<in> set kvs. length (k @ d # v) < npos"
    using joined_with_length [of _ ?ts "[p]"] assms(4) by fastforce
  ultimately show ?thesis using key_value_loop_pairs [OF assms(1)] by (simp add: SplitStringIntoKeyValuePairs_def)
qed

section \<open>Bounded copies\<close>

lemma take_update: "i < length xs \<Longrightarrow> take (Suc i) (xs[i := x]) = take i xs @ [x]"
  by (simp add: take_Suc_conv_app_nth)

lemma lcpy_loop_fits:
  "i \<le> length src \<Longrightarrow> i + n \<le> length dst \<Longrightarrow> length src < i + n \<Longrightarrow>
   lcpy_loop src i n dst = (length src, take i dst @ drop i src @ NUL # drop (length src + 1) dst)"
proof (induction n arbitrary: i dst)
  case (Suc n)
  show ?case
  proof (cases "i < length src")
    case True
    then have "drop i src = src ! i # drop (i + 1) src" using Cons_nth_drop_Suc [of i src] by simp
    then show ?thesis using Suc.IH [of "i + 1" "dst[i := src ! i]"] Suc.prems True by (simp add: take_update)
  next
    case False
    then have "i = length src" using Suc.prems by simp
    then show ?thesis using Suc.prems by (simp add: upd_conv_take_nth_drop)
  qed
qed simp

lemma lcpy_loop_cut:
  "i + n \<le> length dst \<Longrightarrow> i + n \<le> length src \<Longrightarrow> 0 < i + n \<Longrightarrow>
   lcpy_loop src i n dst = (length src, (take i dst @ take n (drop i src) @ drop (i + n) dst)[i + n - 1 := NUL])"
proof (induction n arbitrary: i dst)
  case (Suc n)
  have "drop i src = src ! i # drop (i + 1) src" using Suc.prems Cons_nth_drop_Suc [of i src] by simp
  then show ?case using Suc.IH [of "i + 1" "dst[i := src ! i]"] Suc.prems by (simp add: take_update)
qed simp

lemma strlcpy_spec:
  assumes "dst_size \<le> length dst" "0 < dst_size"
  shows "strlcpy dst src dst_size
    = (length src, take (dst_size - 1) src @ NUL # drop (min (length src) (dst_size - 1) + 1) dst)"
proof (cases "length src < dst_size")
  case True
  then show ?thesis using lcpy_loop_fits [of 0 src dst_size dst] assms by (simp add: strlcpy_def min_absorb1)
next
  case False
  then have "take dst_size src = take (dst_size - 1) src @ [src ! (dst_size - 1)]"
    using assms(2) by (metis Suc_diff_1 diff_less less_le_trans linorder_not_less take_Suc_conv_app_nth zero_less_one)
  then show ?thesis
    using lcpy_loop_cut [of 0 dst_size dst src] assms False by (simp add: strlcpy_def list_update_append min_absorb2)
qed

section \<open>What the splitting functions compute\<close>

text \<open>
  C37: splitting at a character gives, for an ASCII delimiter below 127, the one list of pieces without that character whose join is
  the text, and for any other delimiter stops at the debug check; \<open>SplitString\<close> trims these pieces; splitting at white space
  gives the non-empty runs between white space, which is six characters here, the vertical tab among them (the code lists it, the comment
  in \<open>string_split.h\<close> speaks of five); splitting at a non-empty string always returns, with the pieces between the leftmost
  occurrences, trimmed; and trimming drops the white space at both ends and nothing else.
\<close>

theorem splitting_exact:
  assumes "length str < npos" "s \<noteq> []"
  shows "(SplitStringDontTrim str c [] = Some ts \<longleftrightarrow>
      (of_char c :: nat) < 127 \<and> ts \<noteq> [] \<and> joined_with [c] ts = str \<and> (\<forall>t \<in> set ts. c \<notin> set t))
    \<and> SplitString str c [] = map_option (map (both_ends is_white)) (SplitStringDontTrim str c [])
    \<and> SplitStringAlongWhitespace str [] = words str
    \<and> (\<exists>us. SplitStringUsingSubstr str s [] = Some (map (both_ends is_white) us) \<and> joined_with s us = str \<and> cuts s us)
    \<and> snd (TrimWhitespace str TRIM_ALL) = both_ends is_white str"
proof -
  have plain: "SplitStringDontTrim str c [] = (if ascii c then Some (split_any {c} str) else None)"
    by (simp add: SplitStringDontTrim_def SplitStringT_any)
  then have 1: "SplitStringDontTrim str c [] = Some ts \<longleftrightarrow>
      (of_char c :: nat) < 127 \<and> ts \<noteq> [] \<and> joined_with [c] ts = str \<and> (\<forall>t \<in> set ts. c \<notin> set t)"
    using split_any_joined [of ts c] joined_split_any [of c str] split_any_not_Nil [of "{c}" str] by (auto simp: ascii_def)
  obtain us where us: "SplitStringUsingSubstr str s [] = Some (map trimmed us)" "joined_with s us = str" "cuts s us"
    using substr_loop_cuts [OF assms(2,1), of 0 "[]"] by (auto simp: SplitStringUsingSubstr_def)
  have "trimmed u = both_ends is_white u" if "u \<in> set us" for u
    using joined_with_length [OF that, of s] us(2) assms(1) by (intro trimmed_both_ends) simp
  then have eq: "map trimmed us = map (both_ends is_white) us" by (rule map_cong [OF refl])
  have "\<exists>us. SplitStringUsingSubstr str s [] = Some (map (both_ends is_white) us) \<and> joined_with s us = str \<and> cuts s us"
    using us unfolding eq by blast
  moreover have "SplitString str c [] = map_option (map (both_ends is_white)) (SplitStringDontTrim str c [])"
    using SplitString_words [OF assms(1), of c "[]"] by (simp add: plain)
  moreover have "SplitStringAlongWhitespace str [] = words str" by (simp only: SplitStringAlongWhitespace_words append_Nil)
  moreover have "snd (TrimWhitespace str TRIM_ALL) = both_ends is_white str"
    using trimmed_both_ends [OF assms(1)] by (simp only: trimmed_def)
  ultimately show ?thesis using 1 by blast
qed

theorem splitting_exact_witness:
  "SplitStringDontTrim '' a,,b'' (CHR '','') [] = Some ['' a'', [], ''b'']
    \<and> (\<exists>us. SplitStringUsingSubstr '' a,,b'' '',,'' [] = Some (map (both_ends is_white) us) \<and> joined_with '',,'' us = '' a,,b'' \<and> cuts '',,'' us)"
  using splitting_exact [of "'' a,,b''" "'',,''" "CHR '',''" "['' a'', [], ''b'']"] by (simp add: npos_def)

lemma vertical_tab_splits: "SplitStringAlongWhitespace [CHR ''a'', CHR 0x0B, CHR ''b''] [] = [''a'', ''b'']"
  by (simp add: SplitStringAlongWhitespace_def kWhitespaceASCII_def substr_def)

lemma delete_character_traps: "SplitString str (CHR 0x7F) r = None"
  by (simp add: SplitString_def ascii_def)

text \<open>
  A list of pairs printed with two delimiters is read back by \<open>SplitStringIntoKeyValuePairs\<close>, when no name contains a
  delimiter, no value contains the delimiter of pairs or starts with the other one, there is no white space at the ends, and the
  delimiter of pairs is ASCII.
\<close>

theorem key_value_round_trip:
  assumes "\<forall>kv \<in> set kvs. pair_ok d p kv" "d \<noteq> p" "kvs \<noteq> []" "length (joined_with [p] (map (\<lambda>(k, v). k @ d # v) kvs)) < npos"
    and "(of_char p :: nat) < 127"
  shows "SplitStringIntoKeyValuePairs (joined_with [p] (map (\<lambda>(k, v). k @ d # v) kvs)) d p = Some (True, kvs)"
  using assms by (intro key_value_pairs_back) (simp_all add: ascii_def)

theorem key_value_round_trip_witness:
  "SplitStringIntoKeyValuePairs ''a=1 2;b=x=y'' (CHR ''='') (CHR '';'') = Some (True, [(''a'', ''1 2''), (''b'', ''x=y'')])"
  using key_value_round_trip [of "[(''a'', ''1 2''), (''b'', ''x=y'')]" "CHR ''=''" "CHR '';''"]
  by (simp add: pair_ok_def kWhitespaceASCII_def npos_def)

end
