(* ===== verification/Url.thy ===== *)
theory Url
  imports StringSplit "HOL-Library.Monad_Syntax"
begin

unbundle bit_operations_syntax

text \<open>
  \<open>src/src/base3/url.cc\<close> and \<open>charmask.h\<close>: sets of characters as bit masks, escaping of URL components, the finger print of a
  text, and URLs taken apart, checked and printed in a normal form. A URL comes in as the characters of a C string.
\<close>

section \<open>Sets of characters\<close>

type_synonym CharMask = "32 word list"

definition mask_contains :: "CharMask \<Rightarrow> char \<Rightarrow> bool" where
  "mask_contains m c = (m ! (of_char c div 32) AND push_bit (of_char c mod 32) 1 \<noteq> 0)"

definition mask_set :: "CharMask \<Rightarrow> char \<Rightarrow> bool \<Rightarrow> CharMask" where
  "mask_set m c flag =
     (let i = of_char c div 32; b = push_bit (of_char c mod 32) 1
      in m[i := (if flag then m ! i OR b else m ! i AND NOT b)])"

definition kRFC2396ReservedCharMask :: CharMask where
  "kRFC2396ReservedCharMask = [0xffffffff, 0xfc00987d, 0x78000001, 0xb8000001, 0xffffffff, 0xffffffff, 0xffffffff, 0xffffffff]"

definition kValidUrlCharMask :: CharMask where
  "kValidUrlCharMask = [0, 0xaffffffa, 0x87ffffff, 0x07fffffe, 0, 0, 0, 0]"

definition kSafePathCharMask :: CharMask where
  "kSafePathCharMask = [0, 0x83ffffba, 0x87fffffe, 0x07fffffe, 0, 0, 0, 0]"

section \<open>Escaping\<close>

definition hex_digit_to_int :: "char \<Rightarrow> int" where
  "hex_digit_to_int c = (let n = of_char c in
     if 97 \<le> n \<and> n \<le> 102 then n - 97 + 10 else if 65 \<le> n \<and> n \<le> 70 then n - 65 + 10 else if 48 \<le> n \<and> n \<le> 57 then n - 48 else - 1)"

definition int_to_hex_digit_high :: "int \<Rightarrow> char" where
  "int_to_hex_digit_high i = (let i = i AND 15 in char_of (nat (if i < 10 then i + 48 else i - 10 + 65)))"

fun EscapeUrlComponent :: "string \<Rightarrow> string \<Rightarrow> string" where
  "EscapeUrlComponent [] dest = dest"
| "EscapeUrlComponent (c # component) dest =
     EscapeUrlComponent component
       (if mask_contains kRFC2396ReservedCharMask c
        then dest @ [CHR ''%'', int_to_hex_digit_high (drop_bit 4 (schar c)), int_to_hex_digit_high (schar c AND 15)]
        else dest @ [c])"

text \<open>
  The buffer holds the component and whatever follows it, for a C string the terminator; \<open>None\<close> when a character outside the
  buffer is read.
\<close>

function unescape_loop :: "bytes \<Rightarrow> nat \<Rightarrow> nat \<Rightarrow> string \<Rightarrow> (bool \<times> string) option" where
  "unescape_loop component len i dest =
     (if i < len then do {
        c \<leftarrow> (if i < length component then Some (component ! i) else None);
        if c = CHR ''%'' then do {
          h \<leftarrow> (if i + 1 < length component then Some (component ! (i + 1)) else None);
          if hex_digit_to_int h = - 1 then Some (False, dest)
          else do {
            l \<leftarrow> (if i + 2 < length component then Some (component ! (i + 2)) else None);
            if hex_digit_to_int l = - 1 then Some (False, dest)
            else unescape_loop component len (i + 3) (dest @ [char_of (nat (push_bit 4 (hex_digit_to_int h) OR hex_digit_to_int l))])
          }
        }
        else unescape_loop component len (i + 1) (dest @ [c])
      }
      else Some (True, dest))"
  by pat_completeness auto
termination
  by (relation "measure (\<lambda>(_, len, i, _). len - i)") auto

declare unescape_loop.simps [simp del]

definition UnescapeUrlComponent_len :: "bytes \<Rightarrow> nat \<Rightarrow> string \<Rightarrow> (bool \<times> string) option" where
  "UnescapeUrlComponent_len component len dest = unescape_loop component len 0 dest"

definition UnescapeUrlComponent :: "string \<Rightarrow> string \<Rightarrow> (bool \<times> string) option" where
  "UnescapeUrlComponent component dest = UnescapeUrlComponent_len (component @ [NUL]) (length component) dest"

definition UnescapeUrl :: "string \<Rightarrow> string \<Rightarrow> (bool \<times> string) option" where
  "UnescapeUrl url dest = UnescapeUrlComponent url dest"

fun validate_chars :: "bool \<Rightarrow> string \<Rightarrow> bool" where
  "validate_chars path [] = True"
| "validate_chars path (c # src) =
     (let path = (if c = CHR ''?'' then False else path) in
      if path then (if \<not> mask_contains kSafePathCharMask c then False else validate_chars path src)
      else (if \<not> mask_contains kValidUrlCharMask c then False else validate_chars path src))"

definition ValidateUrlChars :: "string \<Rightarrow> bool" where
  "ValidateUrlChars src = validate_chars True src"

section \<open>Finger prints\<close>

definition FingerPrint :: "string \<Rightarrow> 64 word" where
  "FingerPrint s =
     (let (high, low) = fold (\<lambda>c (high :: 32 word, low :: 32 word).
            let low = (push_bit 5 low - low) + of_int (schar c); high = (push_bit 5 high + high) + of_int (schar c) in (high, low)) s (0, 0)
      in push_bit 32 (ucast high) + ucast low)"

section \<open>URLs\<close>

record Url =
  u_http :: bool
  u_user :: string
  u_password :: string
  u_host :: string
  u_port :: int
  u_path :: string
  u_parameter :: string
  u_url :: string
  u_host_url :: string
  u_path_url :: string

definition Url_Clear :: Url where
  "Url_Clear = \<lparr>u_http = True, u_user = [], u_password = [], u_host = [], u_port = - 1, u_path = [], u_parameter = [],
     u_url = [], u_host_url = [], u_path_url = []\<rparr>"

definition Url_Validate :: "Url \<Rightarrow> bool" where
  "Url_Validate u =
     (if u_host u = [] \<and> (u_user u \<noteq> [] \<or> u_password u \<noteq> []) then False
      else if u_host u = [] \<and> u_path u = [] \<and> (u_port u < 0 \<or> 65536 \<le> u_port u) then False
      else if u_host u \<noteq> [] \<and> (u_port u \<le> 0 \<or> 65536 \<le> u_port u) then False
      else if u_path u = [] \<and> u_parameter u \<noteq> [] then False
      else True)"

text \<open>\<open>UpdateUrl\<close> in its four parts: the scheme and the host, the port, the path and the parameter.\<close>

definition update_host :: "Url \<Rightarrow> Url" where
  "update_host u =
     (if u_host u \<noteq> [] then
        let u = u\<lparr>u_url := (if u_http u then ''http://'' else ''https://'')\<rparr>;
            u = u\<lparr>u_host_url := u_url u\<rparr>;
            u = (if u_user u \<noteq> [] \<or> u_password u \<noteq> [] then u\<lparr>u_url := u_url u @ u_user u @ ''@'' @ u_password u @ '':''\<rparr> else u)
        in u\<lparr>u_url := u_url u @ u_host u, u_host_url := u_host_url u @ u_host u\<rparr>
      else u)"

definition update_port :: "Url \<Rightarrow> Url" where
  "update_port u =
     (if 0 < u_port u \<and> u_port u < 65536 \<and> (u_host u = [] \<or> u_http u \<and> u_port u \<noteq> 80 \<or> \<not> u_http u \<and> u_port u \<noteq> 443)
      then u\<lparr>u_url := u_url u @ '':'' @ show_int (u_port u), u_host_url := u_host_url u @ '':'' @ show_int (u_port u)\<rparr> else u)"

definition update_path :: "Url \<Rightarrow> Url" where
  "update_path u = u\<lparr>u_url := u_url u @ u_path u, u_path_url := u_path_url u @ u_path u\<rparr>"

definition update_parameter :: "Url \<Rightarrow> Url" where
  "update_parameter u =
     (if u_parameter u \<noteq> []
      then u\<lparr>u_url := u_url u @ ''?'' @ u_parameter u, u_path_url := u_path_url u @ ''?'' @ u_parameter u\<rparr> else u)"

definition UpdateUrl :: "Url \<Rightarrow> Url" where
  "UpdateUrl u = update_parameter (update_path (update_port (update_host (u\<lparr>u_url := []\<rparr>))))"

definition strnicmp :: "string \<Rightarrow> string \<Rightarrow> nat \<Rightarrow> bool" where
  "strnicmp s t n = (map tolower (take n s) = map tolower (take n t))"

definition atoi :: "string \<Rightarrow> int" where
  "atoi s = wrap32 (atol s)"

definition find_char :: "string \<Rightarrow> char \<Rightarrow> nat \<Rightarrow> nat" where
  "find_char s c pos = find_any (\<lambda>x. x = c) s pos"

text \<open>The user and the password: \<open>None\<close> for the return in the middle, else the position of the host.\<close>

definition parse_user :: "string \<Rightarrow> Url \<Rightarrow> Url \<times> nat option" where
  "parse_user parta u =
     (let pos1 = find_char parta (CHR ''@'') 0 in
      if pos1 \<noteq> npos then
        let u = u\<lparr>u_user := substr parta 0 pos1\<rparr>; pos2 = find_char parta (CHR '':'') pos1
        in if pos2 = npos then (u, None)
           else (u\<lparr>u_password := substr parta (pos1 + 1) (pos2 - pos1 - 1)\<rparr>, Some (pos2 + 1))
      else (u, Some 0))"

definition parse_host :: "string \<Rightarrow> nat \<Rightarrow> Url \<Rightarrow> Url" where
  "parse_host parta pos u =
     (let pos1 = find_char parta (CHR '':'') pos;
          u = u\<lparr>u_host := substr parta pos (szsub pos1 pos)\<rparr>
      in if pos1 \<noteq> npos then u\<lparr>u_port := atoi (substr parta (pos1 + 1) npos)\<rparr>
         else if length (u_host u) \<noteq> 0 then u\<lparr>u_port := (if u_http u then 80 else 443)\<rparr> else u)"

definition parse_path :: "string \<Rightarrow> Url \<Rightarrow> Url" where
  "parse_path partb u =
     (if length partb \<noteq> 0 then
        let pos1 = find_char partb (CHR ''?'') 0
        in if pos1 = npos then u\<lparr>u_path := partb\<rparr>
           else u\<lparr>u_path := substr partb 0 pos1, u_parameter := substr partb (pos1 + 1) npos\<rparr>
      else u)"

text \<open>The scheme and where it ends, \<open>None\<close> for one that is not known, and what comes before and after the first slash.\<close>

definition parse_scheme :: "string \<Rightarrow> (bool \<times> nat) option" where
  "parse_scheme url =
     (if strnicmp url ''http://'' 7 then Some (True, 7)
      else if strnicmp url ''https://'' 8 then Some (False, 8)
      else if str_find url ''://'' 0 \<noteq> npos then None else Some (True, 0))"

definition parse_parts :: "string \<Rightarrow> nat \<Rightarrow> string \<times> string" where
  "parse_parts url pos =
     (let pos1 = find_char url (CHR ''/'') pos
      in if pos1 \<noteq> npos then (substr url pos (pos1 - pos), substr url pos1 npos) else (substr url pos npos, []))"

definition Url_Parse :: "string \<Rightarrow> bool \<times> Url" where
  "Url_Parse url =
     (let u = Url_Clear\<lparr>u_url := url\<rparr>
      in case parse_scheme url of None \<Rightarrow> (False, u)
         | Some (http, pos) \<Rightarrow>
           let u = u\<lparr>u_http := http\<rparr>; (parta, partb) = parse_parts url pos
           in case parse_user parta u of (u, None) \<Rightarrow> (False, u)
              | (u, Some pos) \<Rightarrow>
                let u = parse_path partb (parse_host parta pos u);
                    u = u\<lparr>u_host := map tolower (u_host u)\<rparr>
                in if \<not> Url_Validate u then (False, u) else (True, UpdateUrl u))"

definition Validate_url :: "string \<Rightarrow> bool" where
  "Validate_url url = Url_Validate (snd (Url_Parse url))"

definition HostUrlEqual :: "Url \<Rightarrow> string \<Rightarrow> int \<Rightarrow> bool" where
  "HostUrlEqual u host port \<longleftrightarrow> u_host u = host \<and> u_port u = port"

definition Equal :: "Url \<Rightarrow> Url \<Rightarrow> bool" where
  "Equal u v \<longleftrightarrow> u_url u = u_url v"

section \<open>The masks are the sets they stand for\<close>

text \<open>The characters that RFC 2396 leaves free: marks, digits and letters.\<close>

definition unreserved :: "char \<Rightarrow> bool" where
  "unreserved c \<longleftrightarrow> c \<in> set ''-_.!~*()'' \<or> c = CHR 0x27 \<or> is_digit c
     \<or> (let n = of_char c :: nat in 65 \<le> n \<and> n \<le> 90 \<or> 97 \<le> n \<and> n \<le> 122)"

lemma mask_contains_bit: "mask_contains m c = bit (m ! (of_char c div 32)) (of_char c mod 32)"
  by (simp add: mask_contains_def and_exp_eq_0_iff_not_bit)

lemma reserved_exact: "mask_contains kRFC2396ReservedCharMask c = (\<not> unreserved c)"
proof (cases c)
  case (Char b0 b1 b2 b3 b4 b5 b6 b7)
  show ?thesis unfolding Char mask_contains_bit kRFC2396ReservedCharMask_def unreserved_def
    by (cases b0; cases b1; cases b2; cases b3; cases b4; cases b5; cases b6; cases b7; simp add: is_digit_def bit_numeral_rec)
qed

text \<open>The path mask has no place for the tilde, which is unreserved, and has one for the number sign, which ends a URL.\<close>

lemma path_mask_differs: "\<not> mask_contains kSafePathCharMask (CHR ''~'')" "mask_contains kSafePathCharMask (CHR ''#'')"
  by (simp_all add: mask_contains_bit kSafePathCharMask_def bit_numeral_rec)

section \<open>Escaping is undone\<close>

definition escaped :: "char \<Rightarrow> string" where
  "escaped c = (if unreserved c then [c]
     else [CHR ''%'', int_to_hex_digit_high (int (of_char c div 16)), int_to_hex_digit_high (int (of_char c mod 16))])"

lemma low_nibble: "int_to_hex_digit_high i = int_to_hex_digit_high (i mod 16)"
proof -
  have "i AND 15 = i mod 16" for i :: int using take_bit_eq_mask [of 4 i] by (simp add: take_bit_eq_mod mask_eq_exp_minus_1)
  then show ?thesis by (simp add: int_to_hex_digit_high_def)
qed

lemma schar_nibbles: "drop_bit 4 (schar c) mod 16 = int (of_char c div 16)" "schar c mod 16 = int (of_char c mod 16)"
proof -
  define n :: nat where "n = of_char c"
  have n: "n < 256" unfolding n_def by simp
  have s: "schar c = (if n < 128 then int n else int n + (- 16) * 16)"
  proof -
    have "(of_char c :: int) = int n" unfolding n_def by (simp only: of_nat_of_char)
    then show ?thesis unfolding schar_def by (simp add: Let_def)
  qed
  have "(int n + (- 16) * 16) div 16 = - 16 + int n div 16" "(int n + (- 16) * 16) mod 16 = int n mod 16"
    by (rule div_mult_self1, simp) (rule mod_mult_self1)
  moreover have "int n div 16 < 16" "0 \<le> int n div 16" using n by simp_all
  moreover from this have "(- 16 + int n div 16) mod 16 = int n div 16"
    by (metis mod_pos_pos_trivial mod_mult_self2 mult_minus1_right add.commute)
  ultimately show "drop_bit 4 (schar c) mod 16 = int (of_char c div 16)" "schar c mod 16 = int (of_char c mod 16)"
    unfolding s n_def [symmetric] drop_bit_eq_div by (simp_all only: zdiv_int zmod_int of_nat_numeral power_numeral_even split: if_splits) simp_all
qed

lemma EscapeUrlComponent_eq: "EscapeUrlComponent s dest = dest @ concat (map escaped s)"
proof (induction s arbitrary: dest)
  case (Cons c s)
  have "int_to_hex_digit_high (schar c AND 15) = int_to_hex_digit_high (schar c)"
    by (simp add: int_to_hex_digit_high_def and.assoc)
  then show ?case
    using Cons reserved_exact [of c] low_nibble [of "schar c"] low_nibble [of "drop_bit 4 (schar c)"]
    by (simp add: escaped_def schar_nibbles)
qed simp

lemma of_char_int: "(of_char (char_of (n :: nat)) :: int) = int (n mod 256)"
  by (metis of_char_of of_nat_of_char)

lemma hex_digit_back_all: "list_all (\<lambda>n. hex_digit_to_int (int_to_hex_digit_high n) = n) [0, 1, 2, 3, 4, 5, 6, 7, 8, 9, 10, 11, 12, 13, 14, 15]"
  by code_simp

lemma hex_digit_back:
  assumes "n < 16"
  shows "hex_digit_to_int (int_to_hex_digit_high (int n)) = int n"
proof -
  from assms have "int n \<in> set [0, 1, 2, 3, 4, 5, 6, 7, 8, 9, 10, 11, 12, 13, 14, 15]" by simp arith
  then show ?thesis using hex_digit_back_all unfolding list_all_iff by blast
qed

lemma nibbles_join: "char_of (nat (push_bit 4 (int (of_char c div 16)) OR int (of_char c mod 16))) = c"
proof -
  define n :: nat where "n = of_char c"
  have "int (n mod 16) = take_bit 4 (int n)" "int (n div 16) = drop_bit 4 (int n)"
    by (simp_all add: take_bit_eq_mod drop_bit_eq_div zmod_int zdiv_int)
  then have "push_bit 4 (int (n div 16)) OR int (n mod 16) = int n"
    by (auto intro!: bit_eqI simp: bit_or_iff bit_push_bit_iff bit_take_bit_iff bit_drop_bit_eq)
  then show ?thesis unfolding n_def by simp
qed

lemma unescape_plain:
  "i < len \<Longrightarrow> i < length b \<Longrightarrow> b ! i \<noteq> CHR ''%'' \<Longrightarrow> unescape_loop b len i dest = unescape_loop b len (i + 1) (dest @ [b ! i])"
  by (subst unescape_loop.simps) simp

lemma unescape_hex:
  assumes "i < len" "i + 2 < length b" "b ! i = CHR ''%''" "h < 16" "l < 16"
    "b ! (i + 1) = int_to_hex_digit_high (int h)" "b ! (i + 2) = int_to_hex_digit_high (int l)"
  shows "unescape_loop b len i dest = unescape_loop b len (i + 3) (dest @ [char_of (nat (push_bit 4 (int h) OR int l))])"
  using assms by (subst unescape_loop.simps) (simp add: hex_digit_back)

lemma unescape_escaped:
  "unescape_loop (pre @ concat (map escaped s) @ rest) (length pre + length (concat (map escaped s))) (length pre) dest = Some (True, dest @ s)"
proof (induction s arbitrary: pre dest)
  case Nil
  then show ?case by (simp add: unescape_loop.simps)
next
  case (Cons c s)
  note step = Cons.IH [of "pre @ escaped c" "dest @ [c]"]
  show ?case
  proof (cases "unreserved c")
    case True
    then have "c \<noteq> CHR ''%''" by (auto simp: unreserved_def is_digit_def)
    moreover have "escaped c = [c]" using True by (simp add: escaped_def)
    ultimately show ?thesis using step by (subst unescape_plain) (simp_all add: nth_append)
  next
    case False
    let ?b = "pre @ concat (map escaped (c # s)) @ rest"
    have e: "escaped c = [CHR ''%'', int_to_hex_digit_high (int (of_char c div 16)), int_to_hex_digit_high (int (of_char c mod 16))]"
      using False by (simp add: escaped_def)
    then have "?b ! length pre = CHR ''%''" "?b ! (length pre + 1) = int_to_hex_digit_high (int (of_char c div 16))"
      "?b ! (length pre + 2) = int_to_hex_digit_high (int (of_char c mod 16))"
      by (simp_all add: nth_append)
    moreover have "of_char c div 16 < (16 :: nat)" "of_char c mod 16 < (16 :: nat)" by (simp_all add: less_mult_imp_div_less)
    ultimately show ?thesis using step
      by (subst unescape_hex [where h = "of_char c div 16" and l = "of_char c mod 16"]) (simp_all only: nibbles_join, simp_all add: e numeral_3_eq_3)
  qed
qed

lemma unescape_returns: "i \<le> length s \<Longrightarrow> unescape_loop (s @ [NUL]) (length s) i dest \<noteq> None"
proof (induction "length s - i" arbitrary: i dest rule: less_induct)
  case less
  have "hex_digit_to_int NUL = - 1" by (simp add: hex_digit_to_int_def)
  then have "i + 2 \<le> length s" if "i < length s" "hex_digit_to_int ((s @ [NUL]) ! (i + 1)) \<noteq> - 1"
    using that by (cases "i + 1 = length s") (auto simp: nth_append)
  moreover have "i + 3 \<le> length s" if "i + 2 \<le> length s" "hex_digit_to_int ((s @ [NUL]) ! (i + 2)) \<noteq> - 1"
    using that \<open>hex_digit_to_int NUL = - 1\<close> by (cases "i + 2 = length s") (auto simp: nth_append)
  ultimately show ?case
    using less.hyps [of "i + 1"] less.hyps [of "i + 3"] less.prems by (subst unescape_loop.simps) (auto simp: less_Suc_eq_le)
qed

text \<open>
  A component that has been escaped is unescaped to itself, whatever its characters are, and what the destinations hold before
  stays in front.
\<close>

theorem escape_round_trip:
  "UnescapeUrlComponent (EscapeUrlComponent s []) dest = Some (True, dest @ s)"
  using unescape_escaped [of "[]" s "[NUL]" dest]
  by (simp add: UnescapeUrlComponent_def UnescapeUrlComponent_len_def EscapeUrlComponent_eq)

text \<open>The C string version reads nothing behind the terminator; the version with a length reads behind the length it is given.\<close>

lemma unescape_in_bounds: "UnescapeUrlComponent s dest \<noteq> None"
  by (simp add: UnescapeUrlComponent_def UnescapeUrlComponent_len_def unescape_returns)

lemma unescape_reads_past_length: "UnescapeUrlComponent_len ''%41'' 1 [] = Some (True, ''A'')" "UnescapeUrlComponent_len ''%'' 1 [] = None"
  by (simp_all add: UnescapeUrlComponent_len_def unescape_loop.simps hex_digit_to_int_def char_of_def bit_Suc_0_iff)

text \<open>What is escaped passes the check of the characters, unless it has a tilde in it.\<close>

lemma safe_path_unreserved: "unreserved c \<Longrightarrow> c \<noteq> CHR ''~'' \<Longrightarrow> mask_contains kSafePathCharMask c"
proof (cases c)
  case (Char b0 b1 b2 b3 b4 b5 b6 b7)
  assume "unreserved c" "c \<noteq> CHR ''~''"
  then show ?thesis unfolding Char mask_contains_bit kSafePathCharMask_def unreserved_def
    by (cases b0; cases b1; cases b2; cases b3; cases b4; cases b5; cases b6; cases b7; simp add: is_digit_def bit_numeral_rec)
qed

lemma hex_digit_unreserved:
  assumes "n < 16"
  shows "unreserved (int_to_hex_digit_high (int n)) \<and> int_to_hex_digit_high (int n) \<noteq> CHR ''~''"
proof -
  have "list_all (\<lambda>n. unreserved (int_to_hex_digit_high n) \<and> int_to_hex_digit_high n \<noteq> CHR ''~'')
    [0, 1, 2, 3, 4, 5, 6, 7, 8, 9, 10, 11, 12, 13, 14, 15]" by code_simp
  moreover from assms have "int n \<in> set [0, 1, 2, 3, 4, 5, 6, 7, 8, 9, 10, 11, 12, 13, 14, 15]" by simp arith
  ultimately show ?thesis unfolding list_all_iff by blast
qed

lemma escaped_chars:
  assumes "c \<noteq> CHR ''~''" "d \<in> set (escaped c)"
  shows "d = CHR ''%'' \<or> unreserved d \<and> d \<noteq> CHR ''~''"
proof -
  have "of_char c div 16 < (16 :: nat)" "of_char c mod 16 < (16 :: nat)" by (simp_all add: less_mult_imp_div_less)
  from this [THEN hex_digit_unreserved] show ?thesis
    using assms unfolding escaped_def by (cases "unreserved c") auto
qed

lemma url_text_safe: "d = CHR ''%'' \<or> unreserved d \<and> d \<noteq> CHR ''~'' \<Longrightarrow> mask_contains kSafePathCharMask d \<and> d \<noteq> CHR ''?''"
proof -
  have "mask_contains kSafePathCharMask (CHR ''%'')" by (simp add: mask_contains_bit kSafePathCharMask_def bit_numeral_rec)
  moreover have "\<not> unreserved (CHR ''?'')" by (simp add: unreserved_def is_digit_def)
  ultimately show "d = CHR ''%'' \<or> unreserved d \<and> d \<noteq> CHR ''~'' \<Longrightarrow> mask_contains kSafePathCharMask d \<and> d \<noteq> CHR ''?''"
    using safe_path_unreserved [of d] by auto
qed

lemma validate_safe:
  "(\<And>c. c \<in> set t \<Longrightarrow> mask_contains kSafePathCharMask c \<and> c \<noteq> CHR ''?'') \<Longrightarrow> validate_chars True t"
  by (induction t) auto

lemma escaped_valid:
  assumes "CHR ''~'' \<notin> set s"
  shows "ValidateUrlChars (EscapeUrlComponent s [])"
  unfolding ValidateUrlChars_def EscapeUrlComponent_eq
proof (rule validate_safe)
  fix d assume "d \<in> set ([] @ concat (map escaped s))"
  then obtain c where "c \<in> set s" "d \<in> set (escaped c)" by auto
  then show "mask_contains kSafePathCharMask d \<and> d \<noteq> CHR ''?''" using assms by (intro url_text_safe escaped_chars [of c]) auto
qed

lemma escaped_tilde_refused: "\<not> ValidateUrlChars (EscapeUrlComponent ''~'' [])"
  by (simp add: ValidateUrlChars_def EscapeUrlComponent_eq escaped_def unreserved_def path_mask_differs)

section \<open>The printed URL is a normal form\<close>

lemma takeWhile_to: "c \<notin> set a \<Longrightarrow> takeWhile (\<lambda>x. x \<noteq> c) (a @ c # b) = a" "c \<notin> set a \<Longrightarrow> takeWhile (\<lambda>x. x \<noteq> c) a = a"
  by (induction a) auto

lemma find_char_hit: "c \<notin> set a \<Longrightarrow> find_char (p @ a @ c # b) c (length p) = length p + length a"
  by (simp add: find_char_def find_any_def Let_def takeWhile_to)

lemma find_char_none: "c \<notin> set a \<Longrightarrow> find_char (p @ a) c (length p) = npos"
  by (simp add: find_char_def find_any_def Let_def takeWhile_to)

lemmas find_char_hit0 = find_char_hit [of _ _ "[]", simplified]
lemmas find_char_none0 = find_char_none [of _ _ "[]", simplified]

lemma find_char_found:
  assumes "find_char s c pos \<noteq> npos"
  obtains a b where "s = take pos s @ a @ c # b" "c \<notin> set a" "find_char s c pos = pos + length a" "pos \<le> length s"
proof
  let ?a = "takeWhile (\<lambda>x. x \<noteq> c) (drop pos s)"
  have l: "pos + length ?a < length s" using assms by (auto simp: find_char_def find_any_def Let_def split: if_splits)
  then have "length ?a < length (drop pos s)" by simp
  then have "drop pos s ! length ?a = c" using nth_length_takeWhile by fastforce
  then have "drop pos s = ?a @ c # drop (Suc (length ?a)) (drop pos s)"
    using \<open>length ?a < length (drop pos s)\<close> by (metis append_take_drop_id Cons_nth_drop_Suc takeWhile_eq_take)
  then show "s = take pos s @ ?a @ c # drop (Suc (length ?a)) (drop pos s)" by (metis append_take_drop_id)
  show "c \<notin> set ?a" by (auto dest: set_takeWhileD)
  show "find_char s c pos = pos + length ?a" "pos \<le> length s" using l by (simp_all add: find_char_def find_any_def)
qed

lemma find_char_missing:
  assumes "find_char s c pos = npos" "length s < npos"
  shows "c \<notin> set (drop pos s)"
proof
  assume "c \<in> set (drop pos s)"
  then obtain a b where d: "drop pos s = a @ c # b" "c \<notin> set a" by (meson split_list_first)
  moreover from this have "pos + length a < length s" by (metis length_drop length_append length_Cons less_diff_conv add.commute less_add_Suc1 add_Suc_right)
  ultimately show False using assms by (auto simp: find_char_def find_any_def Let_def takeWhile_to)
qed

lemma parse_user_absent: "CHR ''@'' \<notin> set a \<Longrightarrow> parse_user a u = (u, Some 0)"
  by (simp add: parse_user_def find_char_none0)

lemma parse_user_present:
  assumes "CHR ''@'' \<notin> set us" "CHR '':'' \<notin> set pw" "length us + length pw + 1 < npos"
  shows "parse_user (us @ ''@'' @ pw @ '':'' @ a) u = (u\<lparr>u_user := us, u_password := pw\<rparr>, Some (length us + length pw + 2))"
proof -
  let ?s = "us @ ''@'' @ pw @ '':'' @ a"
  have "find_char ?s (CHR ''@'') 0 = length us" using find_char_hit0 [OF assms(1), of "pw @ '':'' @ a"] by simp
  moreover have "find_char ?s (CHR '':'') (length us) = length us + length pw + 1"
    using find_char_hit [of "CHR '':''" "''@'' @ pw" us a] assms(2) by simp
  ultimately show ?thesis using assms(3) by (simp add: parse_user_def substr_def)
qed

lemma szsub_within: "b \<le> a \<Longrightarrow> a \<le> npos \<Longrightarrow> szsub a b = a - b"
  by (rule szsub_le) (simp_all add: npos_def)

lemma parse_host_port:
  assumes "CHR '':'' \<notin> set h" "length p + length h < npos"
  shows "parse_host (p @ h @ '':'' @ d) (length p) u = u\<lparr>u_host := h, u_port := atoi (substr d 0 npos)\<rparr>"
  using assms find_char_hit [OF assms(1), of p d] by (simp add: parse_host_def szsub_within substr_def)

lemma parse_host_plain:
  assumes "CHR '':'' \<notin> set h" "length p + length h < npos" "h \<noteq> []"
  shows "parse_host (p @ h) (length p) u = u\<lparr>u_host := h, u_port := (if u_http u then 80 else 443)\<rparr>"
  using assms find_char_none [OF assms(1), of p] by (simp add: parse_host_def szsub_within substr_def)

lemma parse_path_query:
  assumes "CHR ''?'' \<notin> set p" "length (p @ ''?'' @ q) < npos"
  shows "parse_path (p @ ''?'' @ q) u = u\<lparr>u_path := p, u_parameter := q\<rparr>"
  using assms find_char_hit0 [OF assms(1), of q] by (simp add: parse_path_def substr_def)

lemma parse_path_plain:
  assumes "CHR ''?'' \<notin> set p"
  shows "parse_path p u = (if p = [] then u else u\<lparr>u_path := p\<rparr>)"
  using assms find_char_none0 [OF assms(1)] by (simp add: parse_path_def)

definition url_fits :: "Url \<Rightarrow> bool" where
  "url_fits u \<longleftrightarrow> CHR ''@'' \<notin> set (u_user u) \<and> CHR '':'' \<notin> set (u_password u) \<and> CHR '':'' \<notin> set (u_host u)
     \<and> CHR ''/'' \<notin> set (u_user u @ u_password u @ u_host u) \<and> CHR ''?'' \<notin> set (u_path u)
     \<and> (u_path u = [] \<or> hd (u_path u) = CHR ''/'') \<and> map tolower (u_host u) = u_host u \<and> u_path_url u = [] \<and> Url_Validate u"

definition url_auth :: "Url \<Rightarrow> string" where
  "url_auth u = (if u_user u \<noteq> [] \<or> u_password u \<noteq> [] then u_user u @ ''@'' @ u_password u @ '':'' else [])"

definition url_port :: "Url \<Rightarrow> string" where
  "url_port u = (if u_port u \<noteq> (if u_http u then 80 else 443) then '':'' @ show_int (u_port u) else [])"

definition url_scheme :: "Url \<Rightarrow> string" where
  "url_scheme u = (if u_http u then ''http://'' else ''https://'')"

definition url_query :: "Url \<Rightarrow> string" where
  "url_query u = u_path u @ (if u_parameter u \<noteq> [] then ''?'' @ u_parameter u else [])"

lemma UpdateUrl_eq:
  assumes "u_host u \<noteq> []" "0 < u_port u" "u_port u < 65536"
  shows "UpdateUrl u = u\<lparr>u_url := url_scheme u @ url_auth u @ u_host u @ url_port u @ url_query u,
    u_host_url := url_scheme u @ u_host u @ url_port u, u_path_url := u_path_url u @ url_query u\<rparr>"
proof -
  have "update_host (u\<lparr>u_url := []\<rparr>) = u\<lparr>u_url := url_scheme u @ url_auth u @ u_host u, u_host_url := url_scheme u @ u_host u\<rparr>"
    using assms by (simp add: update_host_def url_scheme_def url_auth_def)
  moreover have "update_port (u\<lparr>u_url := x, u_host_url := y\<rparr>) = u\<lparr>u_url := x @ url_port u, u_host_url := y @ url_port u\<rparr>" for x y
    using assms by (simp add: update_port_def url_port_def)
  ultimately show ?thesis
    by (simp add: UpdateUrl_def update_path_def update_parameter_def url_query_def)
qed

lemma UpdateUrl_url: "UpdateUrl (u\<lparr>u_url := x\<rparr>) = UpdateUrl u"
  by (simp add: UpdateUrl_def)

lemma atoi_port: "0 < p \<Longrightarrow> p < 65536 \<Longrightarrow> atoi (substr (show_int p) 0 npos) = p" if "length (show_int p) < npos"
proof -
  assume "0 < p" "p < 65536"
  moreover from this have "atol (show_int p) = p" using atol_show_nat [of "nat p"] by (simp add: show_int_nonneg)
  ultimately show ?thesis using that signed_take_bit_int_eq_self [of 31 p] by (simp add: atoi_def wrap32_def substr_def)
qed

lemma parse_path_url_query:
  assumes "CHR ''?'' \<notin> set (u_path u)" "length (url_query u) < npos" "u_path u = [] \<longrightarrow> u_parameter u = []"
    "u_path v = []" "u_parameter v = []"
  shows "parse_path (url_query u) v = v\<lparr>u_path := u_path u, u_parameter := u_parameter u\<rparr>"
  using assms parse_path_query [of "u_path u" "u_parameter u" v] parse_path_plain [of "u_path u" v]
  by (cases "u_parameter u = []") (auto simp: url_query_def)

lemma parse_authority:
  assumes fits: "url_fits u" and h: "u_host u \<noteq> []" and at: "u_user u = [] \<Longrightarrow> u_password u = [] \<Longrightarrow> CHR ''@'' \<notin> set (u_host u)"
    and l: "length (url_auth u @ u_host u @ url_port u) + 1 < npos" and v: "u_user v = []" "u_password v = []" "u_http v = u_http u"
  shows "\<exists>pos. parse_user (url_auth u @ u_host u @ url_port u) v = (v\<lparr>u_user := u_user u, u_password := u_password u\<rparr>, Some pos)
    \<and> (\<forall>w. u_http w = u_http u \<longrightarrow> parse_host (url_auth u @ u_host u @ url_port u) pos w = w\<lparr>u_host := u_host u, u_port := u_port u\<rparr>)"
proof -
  have p: "0 < u_port u" "u_port u < 65536" using fits h by (auto simp: url_fits_def Url_Validate_def split: if_splits)
  have colon: "CHR '':'' \<notin> set (u_host u)" using fits by (simp add: url_fits_def)
  have host: "parse_host (url_auth u @ u_host u @ url_port u) (length (url_auth u)) w = w\<lparr>u_host := u_host u, u_port := u_port u\<rparr>"
    if "u_http w = u_http u" for w
  proof (cases "url_port u = []")
    case True
    then have "u_port u = (if u_http u then 80 else 443)" by (auto simp: url_port_def split: if_splits)
    then show ?thesis using parse_host_plain [OF colon, of "url_auth u" w] l h True that by simp
  next
    case False
    then have "url_port u = '':'' @ show_int (u_port u)" by (auto simp: url_port_def split: if_splits)
    then show ?thesis using parse_host_port [OF colon, of "url_auth u" "show_int (u_port u)" w] l p by (simp add: atoi_port)
  qed
  have "parse_user (url_auth u @ u_host u @ url_port u) v = (v\<lparr>u_user := u_user u, u_password := u_password u\<rparr>, Some (length (url_auth u)))"
  proof (cases "u_user u = [] \<and> u_password u = []")
    case True
    have "CHR ''@'' \<notin> set (url_port u)" using p by (auto simp: url_port_def show_int_nonneg dest: show_nat_digits simp: is_digit_def)
    then have "CHR ''@'' \<notin> set (url_auth u @ u_host u @ url_port u)" using at True by (simp add: url_auth_def)
    then show ?thesis using parse_user_absent v True by (simp add: url_auth_def)
  next
    case False
    then have "url_auth u @ u_host u @ url_port u = u_user u @ ''@'' @ u_password u @ '':'' @ u_host u @ url_port u"
      "length (url_auth u) = length (u_user u) + length (u_password u) + 2" by (simp_all add: url_auth_def)
    then show ?thesis
      using parse_user_present [of "u_user u" "u_password u" "u_host u @ url_port u" v] l fits by (simp add: url_fits_def)
  qed
  then show ?thesis using host by blast
qed

lemma parse_scheme_printed: "parse_scheme (url_scheme u @ a) = Some (u_http u, length (url_scheme u))"
  by (simp add: parse_scheme_def url_scheme_def strnicmp_def tolower_def)

lemma parse_parts_printed:
  assumes "CHR ''/'' \<notin> set a" "q = [] \<or> hd q = CHR ''/''" "length (p @ a @ q) < npos"
  shows "parse_parts (p @ a @ q) (length p) = (a, q)"
proof (cases q)
  case Nil
  then show ?thesis using find_char_none [OF assms(1), of p] assms(3) by (simp add: parse_parts_def substr_def)
next
  case (Cons c b)
  then show ?thesis using find_char_hit [OF assms(1), of p b] assms(2,3) by (simp add: parse_parts_def substr_def)
qed

lemma Url_Parse_steps:
  assumes "parse_scheme url = Some (http, pos)" "parse_parts url pos = (a, q)"
    "parse_user a (Url_Clear\<lparr>u_url := url, u_http := http\<rparr>) = (v, Some k)"
  shows "Url_Parse url = (let w = parse_path q (parse_host a k v); w = w\<lparr>u_host := map tolower (u_host w)\<rparr>
    in if \<not> Url_Validate w then (False, w) else (True, UpdateUrl w))"
  using assms by (simp add: Url_Parse_def)

lemma Url_Validate_texts: "Url_Validate (u\<lparr>u_url := x, u_host_url := y\<rparr>) = Url_Validate u"
  by (simp add: Url_Validate_def)

lemma parse_printed:
  assumes fits: "url_fits u" and h: "u_host u \<noteq> []" and at: "u_user u = [] \<Longrightarrow> u_password u = [] \<Longrightarrow> CHR ''@'' \<notin> set (u_host u)"
    and l: "length (u_url (UpdateUrl u)) < npos"
  shows "Url_Parse (u_url (UpdateUrl u)) = (True, UpdateUrl u)"
proof -
  have p: "0 < u_port u" "u_port u < 65536" using fits h by (auto simp: url_fits_def Url_Validate_def split: if_splits)
  let ?a = "url_auth u @ u_host u @ url_port u" and ?q = "url_query u"
  have url: "u_url (UpdateUrl u) = url_scheme u @ ?a @ ?q" using UpdateUrl_eq [OF h p] by simp
  have slash: "CHR ''/'' \<notin> set ?a"
    using fits p by (auto simp: url_fits_def url_auth_def url_port_def show_int_nonneg is_digit_def dest: show_nat_digits)
  have path: "u_path u = [] \<longrightarrow> u_parameter u = []" using fits by (auto simp: url_fits_def Url_Validate_def split: if_splits)
  then have "?q = [] \<or> hd ?q = CHR ''/''" using fits by (auto simp: url_fits_def url_query_def)
  then have parts: "parse_parts (url_scheme u @ ?a @ ?q) (length (url_scheme u)) = (?a, ?q)"
    using slash l url by (intro parse_parts_printed) auto
  let ?v = "Url_Clear\<lparr>u_url := url_scheme u @ ?a @ ?q, u_http := u_http u\<rparr>"
  have "length ?a + 1 < npos" using l url by (auto simp: url_scheme_def split: if_splits)
  then obtain pos where user: "parse_user ?a ?v = (?v\<lparr>u_user := u_user u, u_password := u_password u\<rparr>, Some pos)"
    and host: "\<And>w. u_http w = u_http u \<Longrightarrow> parse_host ?a pos w = w\<lparr>u_host := u_host u, u_port := u_port u\<rparr>"
    using parse_authority [OF fits h at, of ?v] by (auto simp: Url_Clear_def)
  let ?w = "?v\<lparr>u_user := u_user u, u_password := u_password u, u_host := u_host u, u_port := u_port u\<rparr>"
  have query: "parse_path ?q ?w = ?w\<lparr>u_path := u_path u, u_parameter := u_parameter u\<rparr>"
    using fits path l url by (intro parse_path_url_query) (auto simp: url_fits_def Url_Clear_def)
  have "?w\<lparr>u_path := u_path u, u_parameter := u_parameter u\<rparr> = u\<lparr>u_url := url_scheme u @ ?a @ ?q, u_host_url := []\<rparr>"
    using fits by (cases u) (simp add: Url_Clear_def url_fits_def)
  moreover have "UpdateUrl (u\<lparr>u_url := x, u_host_url := y\<rparr>) = UpdateUrl u" for x y
    using UpdateUrl_eq [of "u\<lparr>u_url := x, u_host_url := y\<rparr>"] UpdateUrl_eq [OF h p] h p
    by (simp add: url_scheme_def url_auth_def url_port_def url_query_def)
  moreover have "Url_Validate (u\<lparr>u_url := x, u_host_url := y\<rparr>)" for x y
    using fits Url_Validate_texts unfolding url_fits_def by simp
  moreover have "map tolower (u_host u) = u_host u" using fits by (simp add: url_fits_def)
  ultimately show ?thesis
    unfolding url Url_Parse_steps [OF parse_scheme_printed parts user] using host query by (simp add: Let_def)
qed

lemma parse_parts_exact:
  assumes "parse_parts url pos = (a, q)" "length url < npos"
  shows "CHR ''/'' \<notin> set a" "q = [] \<or> hd q = CHR ''/''" "length a < npos" "length q < npos"
proof -
  have "CHR ''/'' \<notin> set a \<and> (q = [] \<or> hd q = CHR ''/'')"
  proof (cases "find_char url (CHR ''/'') pos = npos")
    case True
    then show ?thesis using assms find_char_missing [OF True] by (auto simp: parse_parts_def substr_def)
  next
    case False
    from find_char_found [OF this] obtain x b where "url = take pos url @ x @ CHR ''/'' # b" "CHR ''/'' \<notin> set x"
      "find_char url (CHR ''/'') pos = pos + length x" "pos \<le> length url" .
    moreover from this have "drop pos url = x @ CHR ''/'' # b" by (metis append_eq_conv_conj length_take min.absorb2)
    moreover from this have "drop (pos + length x) url = CHR ''/'' # b" by (metis add.commute append_eq_conv_conj drop_drop)
    ultimately show ?thesis using False assms by (auto simp: parse_parts_def substr_def)
  qed
  then show "CHR ''/'' \<notin> set a" "q = [] \<or> hd q = CHR ''/''" by simp_all
  show "length a < npos" "length q < npos" using assms by (auto simp: parse_parts_def substr_def Let_def split: if_splits)
qed

lemma parse_user_exact:
  assumes "parse_user a v = (v', Some pos)" "length a < npos" "u_user v = []" "u_password v = []"
  obtains x y where "v' = v\<lparr>u_user := x, u_password := y\<rparr>" "CHR ''@'' \<notin> set x" "CHR '':'' \<notin> set y" "set x \<subseteq> set a" "set y \<subseteq> set a"
proof (cases "find_char a (CHR ''@'') 0 = npos")
  case True
  then have "v' = v\<lparr>u_user := [], u_password := []\<rparr>" using assms by (cases v) (simp add: parse_user_def)
  then show ?thesis using that by force
next
  case False
  from find_char_found [OF this] obtain x b where x: "a = x @ CHR ''@'' # b" "CHR ''@'' \<notin> set x"
    "find_char a (CHR ''@'') 0 = length x" by auto
  have "find_char a (CHR '':'') (length x) \<noteq> npos" using assms False x by (auto simp: parse_user_def Let_def split: if_splits)
  from find_char_found [OF this] obtain y d where y: "a = take (length x) a @ y @ CHR '':'' # d" "CHR '':'' \<notin> set y"
    "find_char a (CHR '':'') (length x) = length x + length y" .
  then have "CHR ''@'' # b = y @ CHR '':'' # d" using x by (metis append_eq_conv_conj same_append_eq)
  then obtain z where z: "y = CHR ''@'' # z" "b = z @ CHR '':'' # d" by (cases y) auto
  then have "v' = v\<lparr>u_user := x, u_password := z\<rparr>" using assms x y False by (auto simp: parse_user_def substr_def Let_def split: if_splits)
  then show ?thesis by (rule that) (use x y z in auto)
qed

lemma parse_host_result: "\<exists>p. parse_host a pos w = w\<lparr>u_host := substr a pos (szsub (find_char a (CHR '':'') pos) pos), u_port := p\<rparr>"
proof -
  have same: "u\<lparr>u_host := x\<rparr> = u\<lparr>u_host := x, u_port := u_port u\<rparr>" for u :: Url and x by (cases u) simp
  show ?thesis unfolding parse_host_def Let_def by (metis same)
qed

lemma parse_host_exact:
  assumes "length a < npos"
  obtains h p where "parse_host a pos w = w\<lparr>u_host := h, u_port := p\<rparr>" "CHR '':'' \<notin> set h" "set h \<subseteq> set a"
proof -
  let ?h = "substr a pos (szsub (find_char a (CHR '':'') pos) pos)"
  have "set ?h \<subseteq> set a" by (auto simp: substr_def dest!: in_set_takeD in_set_dropD)
  moreover have "CHR '':'' \<notin> set ?h"
  proof (cases "find_char a (CHR '':'') pos = npos")
    case True
    then show ?thesis using find_char_missing [OF True assms] by (auto simp: substr_def dest: in_set_takeD)
  next
    case False
    from find_char_found [OF this] obtain x b where x: "a = take pos a @ x @ CHR '':'' # b" "CHR '':'' \<notin> set x"
      "find_char a (CHR '':'') pos = pos + length x" "pos \<le> length a" .
    moreover from this have "drop pos a = x @ CHR '':'' # b" by (metis append_eq_conv_conj length_take min.absorb2)
    moreover have "pos + length x \<le> npos" using arg_cong [OF x(1), of length] x(4) assms by simp
    ultimately show ?thesis using False by (simp add: substr_def szsub_within)
  qed
  ultimately show ?thesis using parse_host_result that by blast
qed

lemma parse_path_exact:
  assumes "length q < npos" "q = [] \<or> hd q = CHR ''/''" "u_path w = []" "u_parameter w = []"
  obtains p r where "parse_path q w = w\<lparr>u_path := p, u_parameter := r\<rparr>" "CHR ''?'' \<notin> set p" "p = [] \<or> hd p = CHR ''/''"
proof (cases "find_char q (CHR ''?'') 0 = npos")
  case True
  then have "parse_path q w = w\<lparr>u_path := q, u_parameter := []\<rparr>" using assms by (cases w) (simp add: parse_path_def)
  moreover have "CHR ''?'' \<notin> set q" using find_char_missing [OF True assms(1)] by simp
  ultimately show ?thesis using that assms(2) by blast
next
  case False
  then obtain x b where x: "q = x @ CHR ''?'' # b" "CHR ''?'' \<notin> set x" by (metis find_char_found append_Nil take_0)
  then have "parse_path q w = w\<lparr>u_path := x, u_parameter := b\<rparr>" using parse_path_query [of x b w] assms(1) by simp
  then show ?thesis by (rule that) (use x assms(2) in \<open>auto simp: hd_append split: if_splits\<close>)
qed

lemma tolower_punct: "tolower c = d \<Longrightarrow> \<not> (97 \<le> (of_char d :: nat) \<and> (of_char d :: nat) \<le> 122) \<Longrightarrow> c = d"
  by (auto simp: tolower_def split: if_splits)

lemma tolower_idem: "tolower (tolower c) = tolower c"
  by (simp add: tolower_def)

lemma parsed_fits:
  assumes "Url_Parse url = (True, U)" "length url < npos"
  obtains u where "U = UpdateUrl u" "url_fits u"
proof -
  obtain http pos where "parse_scheme url = Some (http, pos)"
    using assms by (cases "parse_scheme url") (auto simp: Url_Parse_def)
  moreover obtain a q where aq: "parse_parts url pos = (a, q)" by force
  moreover define v where "v = Url_Clear\<lparr>u_url := url, u_http := http\<rparr>"
  ultimately obtain v' k where user: "parse_user a v = (v', Some k)"
    using assms by (auto simp: Url_Parse_def Let_def split: prod.splits option.splits)
  note parts = parse_parts_exact [OF aq assms(2)]
  have clear: "u_user v = []" "u_password v = []" "u_path v = []" "u_parameter v = []" "u_path_url v = []" by (simp_all add: v_def Url_Clear_def)
  obtain x y where v': "v' = v\<lparr>u_user := x, u_password := y\<rparr>" "CHR ''@'' \<notin> set x" "CHR '':'' \<notin> set y" "set x \<subseteq> set a" "set y \<subseteq> set a"
    by (rule parse_user_exact [OF user parts(3) clear(1,2)])
  obtain h p where h: "parse_host a k v' = v'\<lparr>u_host := h, u_port := p\<rparr>" "CHR '':'' \<notin> set h" "set h \<subseteq> set a"
    by (rule parse_host_exact [OF parts(3)])
  obtain pa r where pa: "parse_path q (v'\<lparr>u_host := h, u_port := p\<rparr>) = v'\<lparr>u_host := h, u_port := p, u_path := pa, u_parameter := r\<rparr>"
    "CHR ''?'' \<notin> set pa" "pa = [] \<or> hd pa = CHR ''/''"
    by (rule parse_path_exact [OF parts(4,2), of "v'\<lparr>u_host := h, u_port := p\<rparr>"]) (use clear v' in auto)
  let ?w = "v'\<lparr>u_host := h, u_port := p, u_path := pa, u_parameter := r\<rparr>"
  define w where "w = ?w\<lparr>u_host := map tolower (u_host ?w)\<rparr>"
  note steps = Url_Parse_steps [OF \<open>parse_scheme url = Some (http, pos)\<close> aq user [unfolded v_def]]
  have "Url_Validate w \<and> U = UpdateUrl w"
    using assms(1) unfolding steps h(1) pa(1) w_def Let_def by (simp split: if_splits)
  moreover have "CHR '':'' \<notin> tolower ` set h" "CHR ''/'' \<notin> tolower ` set h"
    using h(2,3) parts(1) by (auto dest!: tolower_punct [OF sym])
  ultimately show ?thesis
    using v' pa parts(1) clear by (intro that [of w]) (auto simp: url_fits_def w_def tolower_idem)
qed

text \<open>
  C36: the text that a URL with a host is printed as is a normal form. When a text parses to a URL, its printed text parses to
  that same URL again, with the same parts, the same port even where it is not printed, and the same host, path and full texts.
  Excluded is a host with an at sign that no user and no password comes before, which the printed text turns into a user.
\<close>

theorem url_normal_form:
  assumes "Url_Parse url = (True, U)" "length url < npos" "length (u_url U) < npos" "u_host U \<noteq> []"
    and "u_user U \<noteq> [] \<or> u_password U \<noteq> [] \<or> CHR ''@'' \<notin> set (u_host U)"
  shows "Url_Parse (u_url U) = (True, U)"
proof -
  obtain u where u: "U = UpdateUrl u" "url_fits u" by (rule parsed_fits [OF assms(1,2)])
  have "u_user (UpdateUrl u) = u_user u" "u_password (UpdateUrl u) = u_password u" "u_host (UpdateUrl u) = u_host u"
    by (simp_all add: UpdateUrl_def update_host_def update_port_def update_path_def update_parameter_def Let_def)
  then show ?thesis using u assms by (auto intro: parse_printed)
qed

lemmas url_eval = Url_Parse_def parse_scheme_def parse_parts_def parse_user_def parse_host_def parse_path_def find_char_def find_any_def
  substr_def szsub_def npos_def strnicmp_def tolower_def Url_Clear_def Url_Validate_def UpdateUrl_def update_host_def update_port_def
  update_path_def update_parameter_def

lemma sample_url:
  "Url_Parse ''http://me@pw:A.com/x?y'' =
     (True, \<lparr>u_http = True, u_user = ''me'', u_password = ''pw'', u_host = ''a.com'', u_port = 80, u_path = ''/x'', u_parameter = ''y'',
        u_url = ''http://me@pw:a.com/x?y'', u_host_url = ''http://a.com'', u_path_url = ''/x?y''\<rparr>)"
  by (simp add: url_eval char_of_def bit_Suc_0_iff)

theorem url_normal_form_witness:
  "Url_Parse ''http://me@pw:a.com/x?y'' =
     (True, \<lparr>u_http = True, u_user = ''me'', u_password = ''pw'', u_host = ''a.com'', u_port = 80, u_path = ''/x'', u_parameter = ''y'',
        u_url = ''http://me@pw:a.com/x?y'', u_host_url = ''http://a.com'', u_path_url = ''/x?y''\<rparr>)"
  using url_normal_form [OF sample_url] by (simp add: npos_def)

text \<open>The excluded case is real: what comes out is not what the printed text parses to.\<close>

lemma at_sign_host_changes:
  "fst (Url_Parse ''http://@:h@x'') \<and> u_url (snd (Url_Parse ''http://@:h@x'')) = ''http://h@x'' \<and> \<not> fst (Url_Parse ''http://h@x'')"
  by (simp add: url_eval)

text \<open>A URL without a host is printed without its scheme, so that one with a scheme inside its path is refused afterwards.\<close>

lemma hostless_url_changes:
  "fst (Url_Parse ''http:///a://b'') \<and> u_url (snd (Url_Parse ''http:///a://b'')) = ''/a://b'' \<and> \<not> fst (Url_Parse ''/a://b'')"
  by (simp add: url_eval str_find_def starts_with_def)

end
