(* ===== verification/MessageQueue.thy ===== *)
theory MessageQueue
  imports CString
begin

text \<open>
  \<open>src/src/base3/messagequeue.h\<close>: a queue of messages that any thread posts to and any thread may process. A thread is where
  it stands in the code; one step goes from one access to shared memory, to the mutex or to the condition to the next. The
  mutex is its holder, a waiting thread is one inside \<open>wait\<close>, which may also end without a notification. The history of the
  posted, the taken and the run messages is kept beside the state of the program. A running message is opaque: it does not post to or
  close the queue it runs from.
\<close>

section \<open>The queue and its threads\<close>

record 'm MessageQueue =
  message_queue :: "'m list"
  queue_size :: nat
  busy :: nat
  quit :: bool
  processed :: nat

definition MessageQueue_new :: "'m MessageQueue" where
  "MessageQueue_new = \<lparr>message_queue = [], queue_size = 0, busy = 0, quit = False, processed = 0\<rparr>"

text \<open>
  \<open>Post_lock\<close>, \<open>Post_in\<close>: before and in the critical section of \<open>Post\<close>. \<open>Notify\<close>: before \<open>notify_all\<close>, of \<open>Post\<close> or of
  \<open>Close\<close>. \<open>Loop\<close>: at the test of \<open>quit_\<close>. \<open>Wait_lock\<close>, \<open>Wait_test\<close>, \<open>Waiting\<close>, \<open>Woken\<close>, \<open>Wait_out\<close>: through the first
  block of \<open>Process\<close>. \<open>All_lock\<close>, \<open>All_test\<close>, \<open>Run\<close>, \<open>Count\<close>, \<open>Count_store\<close>, \<open>Relock\<close>: through \<open>ProcessAll\<close>, where the
  increment of \<open>processed_\<close> is a load and a store.
\<close>

datatype 'm pc = Idle | Post_lock "'m list" | Post_in "'m list" | Notify
  | Loop | Wait_lock | Wait_test | Waiting | Woken | Wait_out
  | All_lock | All_test | Run 'm | Count | Count_store nat | Relock

datatype 'm choice = Go | Call_Post "'m list" | Call_Close | Call_Process | Spurious

record 'm threads =
  mq :: "'m MessageQueue"
  mutex :: "nat option"
  pcs :: "nat \<Rightarrow> 'm pc"
  posted :: "'m list"
  taken :: "(nat \<times> 'm) list"
  ran :: "(nat \<times> 'm) list"

definition threads_init :: "'m threads" where
  "threads_init = \<lparr>mq = MessageQueue_new, mutex = None, pcs = (\<lambda>_. Idle), posted = [], taken = [], ran = []\<rparr>"

definition goto :: "nat \<Rightarrow> 'm pc \<Rightarrow> 'm threads \<Rightarrow> 'm threads" where
  "goto t p s = s\<lparr>pcs := (pcs s)(t := p)\<rparr>"

definition acquire :: "nat \<Rightarrow> 'm pc \<Rightarrow> 'm threads \<Rightarrow> 'm threads option" where
  "acquire t p s = (if mutex s = None then Some (goto t p (s\<lparr>mutex := Some t\<rparr>)) else None)"

definition notify_all :: "'m threads \<Rightarrow> 'm threads" where
  "notify_all s = s\<lparr>pcs := (\<lambda>u. if pcs s u = Waiting then Woken else pcs s u)\<rparr>"

section \<open>The steps of the three operations\<close>

definition Post_push :: "nat \<Rightarrow> 'm list \<Rightarrow> 'm threads \<Rightarrow> 'm threads" where
  "Post_push t ms s =
     (case ms of [] \<Rightarrow> goto t Notify (s\<lparr>mutex := None\<rparr>)
      | m # rest \<Rightarrow> goto t (Post_in rest) (s\<lparr>mq := (mq s)\<lparr>message_queue := message_queue (mq s) @ [m],
           queue_size := szadd (queue_size (mq s)) 1\<rparr>, posted := posted s @ [m]\<rparr>))"

definition Close_quit :: "nat \<Rightarrow> 'm threads \<Rightarrow> 'm threads" where
  "Close_quit t s = goto t Notify (s\<lparr>mq := (mq s)\<lparr>quit := True\<rparr>\<rparr>)"

definition Process_loop :: "nat \<Rightarrow> 'm threads \<Rightarrow> 'm threads" where
  "Process_loop t s = goto t (if quit (mq s) then Idle else Wait_lock) s"

definition Process_wait :: "nat \<Rightarrow> 'm threads \<Rightarrow> 'm threads" where
  "Process_wait t s = goto t (if message_queue (mq s) = [] then Waiting else All_lock) (s\<lparr>mutex := None\<rparr>)"

definition set_busy :: "'m threads \<Rightarrow> 'm threads" where
  "set_busy s = s\<lparr>mq := (mq s)\<lparr>busy := queue_size (mq s)\<rparr>\<rparr>"

definition ProcessAll_enter :: "nat \<Rightarrow> 'm threads \<Rightarrow> 'm threads option" where
  "ProcessAll_enter t s = map_option set_busy (acquire t All_test s)"

definition ProcessAll_loop :: "nat \<Rightarrow> 'm threads \<Rightarrow> 'm threads" where
  "ProcessAll_loop t s =
     (case message_queue (mq s) of [] \<Rightarrow> goto t Loop ((set_busy s)\<lparr>mutex := None\<rparr>)
      | m # rest \<Rightarrow> goto t (Run m) (s\<lparr>mq := (mq s)\<lparr>message_queue := rest, queue_size := szsub (queue_size (mq s)) 1\<rparr>,
           mutex := None, taken := taken s @ [(t, m)]\<rparr>))"

definition thread_step :: "nat \<Rightarrow> 'm choice \<Rightarrow> 'm threads \<Rightarrow> 'm threads option" where
  "thread_step t c s = (case pcs s t of
       Idle \<Rightarrow> (case c of Call_Post ms \<Rightarrow> Some (goto t (Post_lock ms) s) | Call_Close \<Rightarrow> Some (Close_quit t s)
         | Call_Process \<Rightarrow> Some (goto t Loop s) | _ \<Rightarrow> None)
     | Post_lock ms \<Rightarrow> acquire t (Post_in ms) s
     | Post_in ms \<Rightarrow> Some (Post_push t ms s)
     | Notify \<Rightarrow> Some (goto t Idle (notify_all s))
     | Loop \<Rightarrow> Some (Process_loop t s)
     | Wait_lock \<Rightarrow> acquire t Wait_test s
     | Wait_test \<Rightarrow> Some (Process_wait t s)
     | Waiting \<Rightarrow> (if c = Spurious then Some (goto t Woken s) else None)
     | Woken \<Rightarrow> acquire t Wait_out s
     | Wait_out \<Rightarrow> Some (goto t All_lock (s\<lparr>mutex := None\<rparr>))
     | All_lock \<Rightarrow> ProcessAll_enter t s
     | All_test \<Rightarrow> Some (ProcessAll_loop t s)
     | Run m \<Rightarrow> Some (goto t Count (s\<lparr>ran := ran s @ [(t, m)]\<rparr>))
     | Count \<Rightarrow> Some (goto t (Count_store (szadd (processed (mq s)) 1)) s)
     | Count_store n \<Rightarrow> Some (goto t Relock (s\<lparr>mq := (mq s)\<lparr>processed := n\<rparr>\<rparr>))
     | Relock \<Rightarrow> acquire t All_test s)"

text \<open>The states that can be reached when only the threads of a set call \<open>Process\<close>.\<close>

inductive reachable :: "nat set \<Rightarrow> 'm threads \<Rightarrow> bool" for C :: "nat set" where
  init: "reachable C threads_init"
| step: "reachable C s \<Longrightarrow> thread_step t c s = Some s' \<Longrightarrow> (c = Call_Process \<longrightarrow> t \<in> C) \<Longrightarrow> reachable C s'"

fun schedule :: "(nat \<times> 'm choice) list \<Rightarrow> 'm threads \<Rightarrow> 'm threads option" where
  "schedule [] s = Some s"
| "schedule ((t, c) # cs) s = (case thread_step t c s of None \<Rightarrow> None | Some s \<Rightarrow> schedule cs s)"

lemma schedule_reachable:
  "reachable C s \<Longrightarrow> schedule cs s = Some s' \<Longrightarrow> (\<forall>t. (t, Call_Process) \<in> set cs \<longrightarrow> t \<in> C) \<Longrightarrow> reachable C s'"
  by (induction cs s rule: schedule.induct) (auto split: option.splits intro: reachable.step)

section \<open>What holds in every state\<close>

fun critical :: "'m pc \<Rightarrow> bool" where
  "critical (Post_in _) = True"
| "critical Wait_test = True"
| "critical Wait_out = True"
| "critical All_test = True"
| "critical _ = False"

fun consuming :: "'m pc \<Rightarrow> bool" where
  "consuming Idle = False"
| "consuming (Post_lock _) = False"
| "consuming (Post_in _) = False"
| "consuming Notify = False"
| "consuming _ = True"

fun running :: "'m pc \<Rightarrow> 'm list" where
  "running (Run m) = [m]"
| "running _ = []"

definition of_thread :: "nat \<Rightarrow> (nat \<times> 'm) list \<Rightarrow> 'm list" where
  "of_thread t xs = map snd (filter (\<lambda>x. fst x = t) xs)"

lemma of_thread_simps [simp]: "of_thread t [] = []" "of_thread t (xs @ ys) = of_thread t xs @ of_thread t ys"
  "of_thread t ((u, m) # xs) = (if u = t then m # of_thread t xs else of_thread t xs)"
  by (simp_all add: of_thread_def)

definition lock_ok :: "'m threads \<Rightarrow> bool" where
  "lock_ok s \<longleftrightarrow> (\<forall>t. critical (pcs s t) = (mutex s = Some t))"

definition size_ok :: "'m threads \<Rightarrow> bool" where
  "size_ok s \<longleftrightarrow> queue_size (mq s) = length (message_queue (mq s)) mod 2 ^ 64"

definition order_ok :: "'m threads \<Rightarrow> bool" where
  "order_ok s \<longleftrightarrow> posted s = map snd (taken s) @ message_queue (mq s)"

definition own_ok :: "'m threads \<Rightarrow> bool" where
  "own_ok s \<longleftrightarrow> (\<forall>t. of_thread t (taken s) = of_thread t (ran s) @ running (pcs s t))"

lemmas step_defs = thread_step_def acquire_def goto_def notify_all_def Post_push_def Close_quit_def Process_loop_def Process_wait_def
  set_busy_def ProcessAll_enter_def ProcessAll_loop_def

lemma szadd_mod: "szadd (a mod 2 ^ 64) 1 = Suc a mod 2 ^ 64"
  by (simp add: szadd_def mod_Suc_eq)

lemma szsub_mod: "szsub (Suc a mod 2 ^ 64) 1 = a mod 2 ^ 64"
proof -
  have "(Suc a mod 2 ^ 64 + (2 ^ 64 - 1)) mod 2 ^ 64 = (Suc a + (2 ^ 64 - 1)) mod (2 ^ 64 :: nat)" by (simp only: mod_add_left_eq)
  also have "Suc a + (2 ^ 64 - 1) = a + 2 ^ 64" by simp
  finally show ?thesis by (simp add: szsub_def)
qed

lemma lock_ok_step:
  assumes "thread_step t c s = Some s'" "lock_ok s"
  shows "lock_ok s'"
  unfolding lock_ok_def
proof
  fix u
  have "critical (pcs s t) = (mutex s = Some t)" "critical (pcs s u) = (mutex s = Some u)" using assms by (auto simp: lock_ok_def)
  then show "critical (pcs s' u) = (mutex s' = Some u)" using assms(1)
    by (cases "pcs s t") (auto simp: step_defs split: if_splits choice.splits list.splits)
qed

lemma size_ok_step: "thread_step t c s = Some s' \<Longrightarrow> size_ok s \<Longrightarrow> size_ok s'"
  apply (cases "pcs s t")
  apply (auto simp: step_defs size_ok_def szadd_mod [simplified] szsub_mod [simplified] split: if_splits choice.splits list.splits)
  done

lemma order_ok_step: "thread_step t c s = Some s' \<Longrightarrow> order_ok s \<Longrightarrow> order_ok s'"
  apply (cases "pcs s t")
  apply (auto simp: step_defs order_ok_def split: if_splits choice.splits list.splits)
  done

lemma own_ok_step: "thread_step t c s = Some s' \<Longrightarrow> own_ok s \<Longrightarrow> own_ok s'"
  apply (cases "pcs s t")
  apply (auto simp: step_defs own_ok_def split: if_splits choice.splits list.splits)
  done

text \<open>Between a push and the notification that follows it a thread is on its way to announce.\<close>

fun announcing :: "'m pc \<Rightarrow> bool" where
  "announcing (Post_in _) = True"
| "announcing Notify = True"
| "announcing _ = False"

definition wake_ok :: "'m threads \<Rightarrow> bool" where
  "wake_ok s \<longleftrightarrow> (\<exists>t. pcs s t = Waiting) \<longrightarrow> message_queue (mq s) \<noteq> [] \<longrightarrow> (\<exists>t. announcing (pcs s t))"

lemma announcing_update: "announcing (f t') \<Longrightarrow> announcing p \<or> \<not> announcing (f t) \<Longrightarrow> \<exists>u. announcing ((f(t := p)) u)"
  by (metis fun_upd_apply)

lemma wake_ok_step:
  assumes "thread_step t c s = Some s'" "wake_ok s"
  shows "wake_ok s'"
proof (cases "announcing (pcs s t)")
  case True
  then show ?thesis using assms(1)
    by (cases "pcs s t") (auto simp: step_defs wake_ok_def split: if_splits list.splits)
next
  case False
  have waits: "\<exists>t. pcs s t = Waiting" if "pcs s' u = Waiting" "message_queue (mq s') \<noteq> []" for u
    using assms(1) that False by (cases "pcs s t") (auto simp: step_defs split: if_splits choice.splits list.splits)
  have "message_queue (mq s') \<noteq> [] \<Longrightarrow> message_queue (mq s) \<noteq> []"
    using assms(1) False by (cases "pcs s t") (auto simp: step_defs split: if_splits choice.splits list.splits)
  moreover have "announcing (pcs s' u)" if "announcing (pcs s u)" for u
    using assms(1) False that by (cases "pcs s t") (auto simp: step_defs split: if_splits choice.splits list.splits)
  ultimately show ?thesis using assms(2) waits unfolding wake_ok_def by metis
qed

definition consumers_ok :: "nat set \<Rightarrow> 'm threads \<Rightarrow> bool" where
  "consumers_ok C s \<longleftrightarrow> (\<forall>t. consuming (pcs s t) \<longrightarrow> t \<in> C) \<and> fst ` set (taken s) \<subseteq> C \<and> fst ` set (ran s) \<subseteq> C"

lemma consumers_ok_step:
  assumes "thread_step t c s = Some s'" "consumers_ok C s" "c = Call_Process \<longrightarrow> t \<in> C"
  shows "consumers_ok C s'"
proof -
  have "consuming (pcs s t) \<longrightarrow> t \<in> C" using assms(2) by (simp add: consumers_ok_def)
  moreover have "consuming (pcs s' u) \<longrightarrow> u \<in> C" for u
  proof -
    have "consuming (pcs s u) \<longrightarrow> u \<in> C" "consuming (pcs s t) \<longrightarrow> t \<in> C" using assms(2) by (simp_all add: consumers_ok_def)
    then show ?thesis using assms(1,3)
      by (cases "pcs s t") (auto simp: step_defs split: if_splits choice.splits list.splits)
  qed
  moreover have "fst ` set (taken s') \<subseteq> insert t (fst ` set (taken s))" "consuming (pcs s t) \<or> taken s' = taken s"
    "fst ` set (ran s') \<subseteq> insert t (fst ` set (ran s))" "consuming (pcs s t) \<or> ran s' = ran s"
    using assms(1) by (cases "pcs s t"; auto simp: step_defs split: if_splits choice.splits list.splits)+
  moreover have "fst ` set (taken s) \<subseteq> C" "fst ` set (ran s) \<subseteq> C" using assms(2) by (simp_all add: consumers_ok_def)
  moreover from calculation have "fst ` set (taken s') \<subseteq> C \<and> fst ` set (ran s') \<subseteq> C"
    by (cases "consuming (pcs s t)") (blast, metis)
  ultimately show ?thesis unfolding consumers_ok_def by simp
qed

text \<open>The count of one processing thread: ahead or behind by what it is about to store.\<close>

fun uncounted :: "'m pc \<Rightarrow> nat" where
  "uncounted Count = 1"
| "uncounted (Count_store n) = 1"
| "uncounted _ = 0"

definition count_ok :: "nat \<Rightarrow> 'm threads \<Rightarrow> bool" where
  "count_ok w s \<longleftrightarrow> length (ran s) mod 2 ^ 64 = (processed (mq s) + uncounted (pcs s w)) mod 2 ^ 64 \<and> processed (mq s) < 2 ^ 64
     \<and> (\<forall>n. pcs s w = Count_store n \<longrightarrow> n = length (ran s) mod 2 ^ 64)"

lemma count_ok_step:
  assumes "thread_step t c s = Some s'" "count_ok w s" "consumers_ok {w} s"
  shows "count_ok w s'"
proof (cases "t = w")
  case True
  have "length (ran s) mod 2 ^ 64 = processed (mq s) \<Longrightarrow> Suc (length (ran s)) mod 2 ^ 64 = Suc (processed (mq s)) mod 2 ^ 64"
    by (metis mod_Suc_eq)
  then show ?thesis using assms(1,2) True
    by (cases "pcs s w") (auto simp: step_defs count_ok_def szadd_def split: if_splits choice.splits list.splits)
next
  case False
  then have "\<not> consuming (pcs s t)" using assms(3) by (auto simp: consumers_ok_def)
  then have "ran s' = ran s \<and> processed (mq s') = processed (mq s) \<and> (pcs s' w = pcs s w \<or> pcs s w = Waiting \<and> pcs s' w = Woken)"
    using assms(1) False by (cases "pcs s t") (auto simp: step_defs split: if_splits choice.splits list.splits)
  then consider "ran s' = ran s" "processed (mq s') = processed (mq s)" "pcs s' w = pcs s w"
    | "ran s' = ran s" "processed (mq s') = processed (mq s)" "pcs s w = Waiting" "pcs s' w = Woken" by blast
  then show ?thesis
  proof cases
    case 1
    show ?thesis using assms(2) unfolding count_ok_def 1 .
  next
    case 2
    then show ?thesis using assms(2) unfolding count_ok_def by simp
  qed
qed

lemma reachable_ok:
  assumes "reachable C s"
  shows "lock_ok s \<and> size_ok s \<and> order_ok s \<and> own_ok s \<and> wake_ok s \<and> consumers_ok C s \<and> (\<forall>w. C = {w} \<longrightarrow> count_ok w s)"
  using assms
proof induction
  case init
  show ?case
    by (simp add: threads_init_def MessageQueue_new_def lock_ok_def size_ok_def order_ok_def own_ok_def wake_ok_def consumers_ok_def count_ok_def)
next
  case (step s t c s')
  then show ?case
    using lock_ok_step size_ok_step order_ok_step own_ok_step wake_ok_step consumers_ok_step count_ok_step by metis
qed

section \<open>What the queue promises\<close>

text \<open>
  C30: whatever the threads do and however their steps are interleaved, at most one of them is between locking and unlocking the
  mutex, the stored size is the length of the queue, every message that was posted is either still in the queue or was taken by
  exactly one thread, in the order of posting, and each thread has run exactly the messages it took, in that order, but for the
  one it is running.
\<close>

theorem messages_exactly_once:
  assumes "reachable C s"
  shows "(critical (pcs s t) \<and> critical (pcs s u) \<longrightarrow> t = u)
    \<and> queue_size (mq s) = length (message_queue (mq s)) mod 2 ^ 64
    \<and> posted s = map snd (taken s) @ message_queue (mq s)
    \<and> of_thread t (taken s) = of_thread t (ran s) @ running (pcs s t)"
  using reachable_ok [OF assms] by (auto simp: lock_ok_def size_ok_def order_ok_def own_ok_def)

lemma of_thread_all: "fst ` set xs \<subseteq> {w} \<Longrightarrow> of_thread w xs = map snd xs"
  by (induction xs) auto

text \<open>
  C31: a queue with one processing thread runs the messages in the order they were posted, each once: those that were run, the one
  that is running and those in the queue are the posted ones. Its count is that of the messages run, up to the last store. And no
  message is slept over: if the thread waits while there are messages, another thread is about to notify it.
\<close>

theorem one_worker_in_order:
  assumes "reachable {w} s"
  shows "posted s = map snd (ran s) @ running (pcs s w) @ message_queue (mq s)
    \<and> length (ran s) mod 2 ^ 64 = (processed (mq s) + uncounted (pcs s w)) mod 2 ^ 64
    \<and> (pcs s w = Waiting \<and> message_queue (mq s) \<noteq> [] \<longrightarrow> (\<exists>t. announcing (pcs s t)))"
proof -
  note ok = reachable_ok [OF assms]
  have "of_thread w (taken s) = map snd (taken s)" "of_thread w (ran s) = map snd (ran s)"
    using ok by (auto simp: consumers_ok_def intro!: of_thread_all)
  then show ?thesis using ok by (auto simp: order_ok_def own_ok_def count_ok_def wake_ok_def)
qed

text \<open>
  \<open>ProcessAll\<close> ends when nobody posts: a thread that holds the mutex at its loop with \<open>n\<close> messages in the queue has run them
  all, in order, emptied the queue and released the mutex after \<open>5 * n + 1\<close> steps.
\<close>

theorem ProcessAll_drains:
  assumes "pcs s w = All_test" "mutex s = Some w" "message_queue (mq s) = ms"
  shows "\<exists>s'. schedule (replicate (5 * length ms + 1) (w, Go)) s = Some s' \<and> message_queue (mq s') = [] \<and> mutex s' = None
    \<and> pcs s' w = Loop \<and> ran s' = ran s @ map (Pair w) ms \<and> busy (mq s') = queue_size (mq s')"
  using assms
proof (induction ms arbitrary: s)
  case Nil
  then show ?case by (simp add: step_defs)
next
  case (Cons m ms)
  define s1 where "s1 = s\<lparr>taken := taken s @ [(w, m)], ran := ran s @ [(w, m)], mq := (mq s)\<lparr>message_queue := ms,
    queue_size := szsub (queue_size (mq s)) 1, processed := szadd (processed (mq s)) 1\<rparr>, mutex := Some w\<rparr>"
  have rep: "replicate (5 * length (m # ms) + 1) (w, Go) = replicate 5 (w, Go) @ replicate (5 * length ms + 1) (w, Go)"
    unfolding replicate_add [symmetric] by (rule arg_cong [of _ _ "\<lambda>n. replicate n (w, Go)"]) simp
  have run: "schedule (replicate 5 (w, Go) @ cs) s = schedule cs s1" for cs
    using Cons.prems unfolding s1_def by (simp add: numeral_eq_Suc step_defs fun_upd_idem)
  have "pcs s1 w = All_test" "mutex s1 = Some w" "message_queue (mq s1) = ms" using Cons.prems by (simp_all add: s1_def)
  then obtain s' where s': "schedule (replicate (5 * length ms + 1) (w, Go)) s1 = Some s'" "message_queue (mq s') = []" "mutex s' = None"
    "pcs s' w = Loop" "ran s' = ran s1 @ map (Pair w) ms" "busy (mq s') = queue_size (mq s')" using Cons.IH by blast
  then have "schedule (replicate (5 * length (m # ms) + 1) (w, Go)) s = Some s'" by (simp only: rep run)
  moreover have "ran s' = ran s @ map (Pair w) (m # ms)" using s'(5) by (simp add: s1_def)
  ultimately show ?case using s' by blast
qed

text \<open>Two messages are posted by thread 2 and taken by thread 1, which is counting the first.\<close>

definition sample_steps :: "(nat \<times> nat choice) list" where
  "sample_steps = [(2, Call_Post [7, 8]), (2, Go), (2, Go), (2, Go), (2, Go), (1, Call_Process), (1, Go), (1, Go), (1, Go), (1, Go), (1, Go), (1, Go)]"

definition sample_state :: "nat threads" where
  "sample_state = the (schedule sample_steps threads_init)"

lemmas sample_eval = sample_state_def sample_steps_def threads_init_def MessageQueue_new_def step_defs szadd_def szsub_def

lemma sample_reachable: "reachable {1} sample_state"
proof -
  have "schedule sample_steps threads_init = Some sample_state" by (simp add: sample_eval)
  then show ?thesis by (rule schedule_reachable [OF reachable.init]) (auto simp: sample_steps_def)
qed

lemma sample_facts: "posted sample_state = [7, 8]" "ran sample_state = [(1, 7)]" "pcs sample_state 1 = Count" "message_queue (mq sample_state) = [8]"
  "taken sample_state = [(1, 7)]" "processed (mq sample_state) = 0"
  by (simp_all add: sample_eval)

theorem messages_exactly_once_witness:
  "[7, 8] = map snd [(1 :: nat, 7 :: nat)] @ [8] \<and> of_thread 1 [(1, 7 :: nat)] = [7] @ running (Count :: nat pc)"
  using messages_exactly_once [OF sample_reachable, of 1 1] unfolding sample_facts by simp

theorem one_worker_in_order_witness:
  "[7, 8] = map snd [(1 :: nat, 7 :: nat)] @ running (Count :: nat pc) @ [8] \<and> length [(1 :: nat, 7 :: nat)] mod 2 ^ 64 = (0 + uncounted (Count :: nat pc)) mod 2 ^ 64"
  using one_worker_in_order [OF sample_reachable] unfolding sample_facts by blast

definition full_queue :: "nat threads" where
  "full_queue = threads_init\<lparr>mq := MessageQueue_new\<lparr>message_queue := [7, 8], queue_size := 2\<rparr>, mutex := Some 1, pcs := (\<lambda>_. Idle)(1 := All_test)\<rparr>"

theorem ProcessAll_drains_witness:
  "\<exists>s'. schedule (replicate (5 * length [7 :: nat, 8] + 1) (1, Go)) full_queue = Some s' \<and> message_queue (mq s') = [] \<and> ran s' = [(1, 7), (1, 8)]"
  using ProcessAll_drains [of full_queue 1 "[7, 8]"] by (auto simp: full_queue_def threads_init_def)

section \<open>What it does not promise\<close>

text \<open>
  \<open>Close\<close> stores \<open>quit_\<close> without the mutex, and \<open>Process\<close> does not look at it again before it waits: a thread that closes the
  queue in between notifies nobody, and the processing thread sleeps on with nothing left that would wake it.
\<close>

lemma close_can_be_missed:
  "\<exists>s :: nat threads. reachable {1} s \<and> quit (mq s) \<and> pcs s 1 = Waiting \<and> (\<forall>t. t \<noteq> 1 \<longrightarrow> pcs s t = Idle) \<and> thread_step 1 Go s = None"
proof -
  define cs :: "(nat \<times> nat choice) list" where "cs = [(1, Call_Process), (1, Go), (2, Call_Close), (2, Go), (1, Go), (1, Go)]"
  define s where "s = the (schedule cs threads_init)"
  have "schedule cs threads_init = Some s" by (simp add: s_def cs_def sample_eval)
  then have "reachable {1} s" by (rule schedule_reachable [OF reachable.init]) (auto simp: cs_def)
  moreover have "quit (mq s)" "pcs s 1 = Waiting" "\<forall>t. t \<noteq> 1 \<longrightarrow> pcs s t = Idle" by (simp_all add: s_def cs_def sample_eval)
  moreover from this have "thread_step 1 Go s = None" by (simp add: thread_step_def)
  ultimately show ?thesis by blast
qed

text \<open>A closed queue keeps the messages it has: they are never run.\<close>

lemma close_drops_messages:
  "\<exists>s :: nat threads. reachable {1} s \<and> quit (mq s) \<and> (\<forall>t. pcs s t = Idle) \<and> message_queue (mq s) = [7] \<and> ran s = []"
proof -
  define cs :: "(nat \<times> nat choice) list" where
    "cs = [(2, Call_Post [7]), (2, Go), (2, Go), (2, Go), (2, Go), (2, Call_Close), (2, Go), (1, Call_Process), (1, Go)]"
  define s where "s = the (schedule cs threads_init)"
  have "schedule cs threads_init = Some s" by (simp add: s_def cs_def sample_eval)
  then have "reachable {1} s" by (rule schedule_reachable [OF reachable.init]) (auto simp: cs_def)
  moreover have "quit (mq s)" "\<forall>t. pcs s t = Idle" "message_queue (mq s) = [7]" "ran s = []" by (simp_all add: s_def cs_def sample_eval)
  ultimately show ?thesis by blast
qed

text \<open>With two processing threads the count, which no mutex guards, loses messages.\<close>

lemma count_can_be_lost:
  "\<exists>s :: nat threads. reachable {1, 2} s \<and> (\<forall>t. pcs s t = Idle \<or> pcs s t = Loop) \<and> length (ran s) = 2 \<and> processed (mq s) = 1"
proof -
  define cs :: "(nat \<times> nat choice) list" where
    "cs = [(3, Call_Post [7, 8]), (3, Go), (3, Go), (3, Go), (3, Go), (3, Go),
       (1, Call_Process), (1, Go), (1, Go), (1, Go), (1, Go), (1, Go), (1, Go), (1, Go),
       (2, Call_Process), (2, Go), (2, Go), (2, Go), (2, Go), (2, Go), (2, Go), (2, Go),
       (1, Go), (1, Go), (1, Go), (2, Go), (2, Go), (2, Go)]"
  define s where "s = the (schedule cs threads_init)"
  have "schedule cs threads_init = Some s" by (simp add: s_def cs_def sample_eval)
  then have "reachable {1, 2} s" by (rule schedule_reachable [OF reachable.init]) (auto simp: cs_def)
  moreover have "\<forall>t. pcs s t = Idle \<or> pcs s t = Loop" "length (ran s) = 2" "processed (mq s) = 1" by (simp_all add: s_def cs_def sample_eval)
  ultimately show ?thesis by blast
qed

end
