(* ===== verification/ThreadPool.thy ===== *)
theory ThreadPool
  imports MessageQueue
begin

text \<open>
  \<open>src/src/base3/threadpool.cc\<close> and \<open>threadpool.h\<close>: a list of workers, each a thread over a message queue of its own, and the
  choice of the worker for a message. A worker is the address of its object. The operations run in the thread that calls them;
  what they read of the queues, which the workers change meanwhile, is an argument, and so is whether a thread could be started.
\<close>

section \<open>The pool\<close>

text \<open>The iterator \<open>i_\<close> is the worker whose node it points to, \<open>None\<close> at the end.\<close>

record ThreadPool =
  init_size :: nat
  max_size :: nat
  stack_size :: nat
  message_count :: int
  workers :: "nat list"
  iter :: "nat option"
  next_address :: nat

definition pool_begin :: "nat list \<Rightarrow> nat option" where
  "pool_begin ws = (case ws of [] \<Rightarrow> None | w # _ \<Rightarrow> Some w)"

definition pool_after :: "nat list \<Rightarrow> nat \<Rightarrow> nat option" where
  "pool_after ws w = pool_begin (tl (dropWhile (\<lambda>x. x \<noteq> w) ws))"

definition Create :: "(nat \<Rightarrow> bool) \<Rightarrow> ThreadPool \<Rightarrow> nat option \<times> ThreadPool" where
  "Create start p =
     (let w = next_address p; p = p\<lparr>next_address := w + 1\<rparr>
      in if start w then (Some w, p\<lparr>workers := workers p @ [w]\<rparr>) else (None, p))"

fun Create_n :: "(nat \<Rightarrow> bool) \<Rightarrow> nat \<Rightarrow> ThreadPool \<Rightarrow> ThreadPool" where
  "Create_n start 0 p = p"
| "Create_n start (Suc n) p = Create_n start n (snd (Create start p))"

text \<open>The workers that are kept and those that are closed, joined and deleted.\<close>

fun shrunk_loop :: "(nat \<Rightarrow> nat) \<Rightarrow> nat \<Rightarrow> nat list \<Rightarrow> nat list \<times> nat list" where
  "shrunk_loop size_of n [] = ([], [])"
| "shrunk_loop size_of n (w # ws) =
     (if 0 = size_of w then
        let n = szsub n 1
        in if n = 0 then (ws, [w]) else let (kept, gone) = shrunk_loop size_of n ws in (kept, w # gone)
      else let (kept, gone) = shrunk_loop size_of n ws in (w # kept, gone))"

definition Shrunk :: "(nat \<Rightarrow> nat) \<Rightarrow> nat \<Rightarrow> ThreadPool \<Rightarrow> nat list \<times> ThreadPool" where
  "Shrunk size_of n p = (let (kept, gone) = shrunk_loop size_of n (workers p) in (gone, p\<lparr>workers := kept\<rparr>))"

definition set_size :: "(nat \<Rightarrow> bool) \<Rightarrow> (nat \<Rightarrow> nat) \<Rightarrow> nat \<Rightarrow> nat \<Rightarrow> ThreadPool \<Rightarrow> ThreadPool" where
  "set_size start size_of n max_n p =
     (let current = length (workers p);
          p = (if n < current then snd (Shrunk size_of n p) else if current < n then Create_n start (n - current) p else p)
      in if 0 \<noteq> max_n then p\<lparr>max_size := max_n\<rparr> else p)"

definition ThreadPool_new :: "(nat \<Rightarrow> bool) \<Rightarrow> (nat \<Rightarrow> nat) \<Rightarrow> nat \<Rightarrow> nat \<Rightarrow> nat \<Rightarrow> ThreadPool" where
  "ThreadPool_new start size_of init_n max_n stack =
     (let p = \<lparr>init_size = init_n, max_size = max_n, stack_size = stack, message_count = 0, workers = [], iter = None, next_address = 0\<rparr>;
          p = set_size start size_of init_n 0 p
      in p\<lparr>iter := pool_begin (workers p)\<rparr>)"

section \<open>Choosing a worker\<close>

text \<open>
  The loop over at most all workers from the iterator on: the first one that is not busy, where the iterator stands then, and the
  least busy one. \<open>None\<close> when the node of the iterator has been erased.
\<close>

fun idle_loop :: "(nat \<Rightarrow> nat) \<Rightarrow> nat list \<Rightarrow> nat \<Rightarrow> nat option \<Rightarrow> nat \<Rightarrow> nat option \<Rightarrow> (nat option \<times> nat option \<times> nat option) option" where
  "idle_loop busy_of ws 0 i min_busy idle = Some (None, i, idle)"
| "idle_loop busy_of ws (Suc c) i min_busy idle =
     (let i = (if i = None then pool_begin ws else i)
      in case i of None \<Rightarrow> None
         | Some w \<Rightarrow>
           if w \<notin> set ws then None
           else if 0 = busy_of w then Some (Some w, pool_after ws w, idle)
           else if busy_of w < min_busy then idle_loop busy_of ws c (pool_after ws w) (busy_of w) (Some w)
           else idle_loop busy_of ws c (pool_after ws w) min_busy idle)"

definition GetIdle :: "(nat \<Rightarrow> bool) \<Rightarrow> (nat \<Rightarrow> nat) \<Rightarrow> ThreadPool \<Rightarrow> (nat option \<times> ThreadPool) option" where
  "GetIdle start busy_of p =
     (let worker_count = length (workers p)
      in case idle_loop busy_of (workers p) worker_count (iter p) 0xffff None of
           None \<Rightarrow> None
         | Some (Some w, i, _) \<Rightarrow> Some (Some w, p\<lparr>iter := i\<rparr>)
         | Some (None, i, idle) \<Rightarrow>
           let p = p\<lparr>iter := i\<rparr>
           in if worker_count < max_size p then Some (Create start p)
              else case idle of Some w \<Rightarrow> Some (Some w, p)
                | None \<Rightarrow> let p = p\<lparr>iter := pool_begin (workers p)\<rparr> in (case iter p of None \<Rightarrow> None | Some w \<Rightarrow> Some (Some w, p)))"

definition pool_post :: "'m list \<Rightarrow> 'm MessageQueue \<Rightarrow> 'm MessageQueue" where
  "pool_post ms q = q\<lparr>message_queue := message_queue q @ ms, queue_size := szadd (queue_size q) (length ms)\<rparr>"

definition Post :: "(nat \<Rightarrow> bool) \<Rightarrow> 'm list \<Rightarrow> (nat \<Rightarrow> 'm MessageQueue) \<Rightarrow> ThreadPool \<Rightarrow> (bool \<times> (nat \<Rightarrow> 'm MessageQueue) \<times> ThreadPool) option" where
  "Post start ms qs p =
     (case GetIdle start (\<lambda>w. busy (qs w)) p of None \<Rightarrow> None
      | Some (None, p) \<Rightarrow> Some (False, qs, p)
      | Some (Some w, p) \<Rightarrow> Some (True, qs(w := pool_post ms (qs w)), p\<lparr>message_count := wrap32 (message_count p + int (length ms))\<rparr>))"

definition Stop :: "ThreadPool \<Rightarrow> (nat \<Rightarrow> 'm MessageQueue) \<Rightarrow> (nat \<Rightarrow> 'm MessageQueue)" where
  "Stop p qs = (\<lambda>w. if w \<in> set (workers p) then (qs w)\<lparr>quit := True\<rparr> else qs w)"

section \<open>The choice is the specified one\<close>

definition pool_ok :: "ThreadPool \<Rightarrow> bool" where
  "pool_ok p \<longleftrightarrow> distinct (workers p) \<and> (\<forall>w \<in> set (workers p). w < next_address p) \<and> (\<forall>w. iter p = Some w \<longrightarrow> w \<in> set (workers p))"

text \<open>The order in which the workers are looked at, and what is looked for in it.\<close>

definition turn :: "nat list \<Rightarrow> nat option \<Rightarrow> nat list" where
  "turn ws i = (case i of None \<Rightarrow> ws | Some w \<Rightarrow> dropWhile (\<lambda>x. x \<noteq> w) ws @ takeWhile (\<lambda>x. x \<noteq> w) ws)"

fun scan :: "(nat \<Rightarrow> nat) \<Rightarrow> nat list \<Rightarrow> nat \<Rightarrow> nat option \<Rightarrow> nat option \<times> nat option" where
  "scan busy_of [] m idle = (None, idle)"
| "scan busy_of (w # ws) m idle =
     (if busy_of w = 0 then (Some w, idle) else if busy_of w < m then scan busy_of ws (busy_of w) (Some w) else scan busy_of ws m idle)"

definition at :: "nat list \<Rightarrow> nat \<Rightarrow> nat option" where
  "at ws k = (if k < length ws then Some (ws ! k) else None)"

lemma pool_begin_at: "pool_begin ws = at ws 0"
  by (cases ws) (simp_all add: pool_begin_def at_def)

lemma dropWhile_nth: "distinct ws \<Longrightarrow> k < length ws \<Longrightarrow> dropWhile (\<lambda>x. x \<noteq> ws ! k) ws = drop k ws"
proof (induction ws arbitrary: k)
  case (Cons a ws)
  then show ?case by (cases k) auto
qed simp

lemma takeWhile_nth: "distinct ws \<Longrightarrow> k < length ws \<Longrightarrow> takeWhile (\<lambda>x. x \<noteq> ws ! k) ws = take k ws"
proof (induction ws arbitrary: k)
  case (Cons a ws)
  then show ?case by (cases k) auto
qed simp

lemma pool_after_at: "distinct ws \<Longrightarrow> k < length ws \<Longrightarrow> pool_after ws (ws ! k) = at ws (Suc k)"
proof -
  assume "distinct ws" "k < length ws"
  moreover have "tl (drop k ws) = drop (Suc k) ws" by (simp add: tl_drop drop_Suc)
  ultimately show ?thesis by (simp add: pool_after_def dropWhile_nth pool_begin_at at_def)
qed

lemma turn_at: "distinct ws \<Longrightarrow> k \<le> length ws \<Longrightarrow> turn ws (at ws k) = drop k ws @ take k ws"
  by (auto simp: turn_def at_def dropWhile_nth takeWhile_nth)

definition seen :: "nat list \<Rightarrow> nat \<Rightarrow> nat \<Rightarrow> nat list" where
  "seen ws k c = map (\<lambda>j. ws ! ((k + j) mod length ws)) [0..<c]"

lemma seen_Suc: "seen ws k (Suc c) = ws ! (k mod length ws) # seen ws (Suc (k mod length ws)) c"
proof -
  have "(Suc (k mod length ws) + j) mod length ws = (k + Suc j) mod length ws" for j
    unfolding add_Suc_shift by (rule mod_add_left_eq)
  then show ?thesis unfolding seen_def map_upt_Suc by (simp only: add_0_right)
qed

lemma seen_all:
  assumes k: "k \<le> length ws"
  shows "seen ws k (length ws) = drop k ws @ take k ws"
proof (rule nth_equalityI)
  fix i assume "i < length (seen ws k (length ws))"
  then have i: "i < length ws" by (simp add: seen_def)
  show "seen ws k (length ws) ! i = (drop k ws @ take k ws) ! i"
  proof (cases "k + i < length ws")
    case True
    moreover from this have "i < length ws - k" by linarith
    ultimately show ?thesis using k i by (simp add: seen_def nth_append)
  next
    case False
    then have "(k + i) mod length ws = k + i - length ws" using k i by (simp add: mod_if)
    moreover have "\<not> i < length ws - k" "i - (length ws - k) = k + i - length ws" using False k by linarith+
    ultimately show ?thesis using False k i by (simp add: seen_def nth_append)
  qed
qed (simp add: seen_def k)

lemma idle_loop_scan:
  assumes "distinct ws" "ws \<noteq> []" "k \<le> length ws"
  shows "\<exists>k'. k' \<le> length ws \<and> idle_loop busy_of ws c (at ws k) m idle
    = Some (fst (scan busy_of (seen ws k c) m idle), at ws k', snd (scan busy_of (seen ws k c) m idle))
    \<and> (\<forall>w. fst (scan busy_of (seen ws k c) m idle) = Some w \<longrightarrow> at ws k' = pool_after ws w)"
  using assms(3)
proof (induction c arbitrary: k m idle)
  case 0
  then show ?case by (auto simp: seen_def)
next
  case (Suc c)
  let ?k = "k mod length ws"
  have k: "?k < length ws" using assms(2) by simp
  have i: "(if at ws k = None then pool_begin ws else at ws k) = Some (ws ! ?k)"
    using Suc.prems assms(2) by (auto simp: at_def pool_begin_at)
  have after: "pool_after ws (ws ! ?k) = at ws (Suc ?k)" by (rule pool_after_at [OF assms(1) k])
  have s: "Suc ?k \<le> length ws" using k by simp
  have m: "ws ! ?k \<in> set ws" using k by simp
  show ?case
  proof (cases "busy_of (ws ! ?k) = 0")
    case True
    then show ?thesis using s after by (auto simp: i m seen_Suc Let_def simp del: nth_mem)
  next
    case False
    then show ?thesis using Suc.IH [OF s]
      unfolding idle_loop.simps seen_Suc scan.simps Let_def i option.case after by (simp add: m)
  qed
qed

lemma idle_loop_turn:
  assumes "pool_ok p" "workers p \<noteq> []"
  obtains i where "idle_loop busy_of (workers p) (length (workers p)) (iter p) m idle
      = Some (fst (scan busy_of (turn (workers p) (iter p)) m idle), i, snd (scan busy_of (turn (workers p) (iter p)) m idle))"
    "\<And>w. i = Some w \<Longrightarrow> w \<in> set (workers p)"
    "\<And>w. fst (scan busy_of (turn (workers p) (iter p)) m idle) = Some w \<Longrightarrow> i = pool_after (workers p) w"
proof -
  let ?ws = "workers p"
  have d: "distinct ?ws" using assms by (simp add: pool_ok_def)
  obtain k where k: "k \<le> length ?ws" "iter p = at ?ws k"
  proof (cases "iter p")
    case None
    then show ?thesis using that [of "length ?ws"] by (simp add: at_def)
  next
    case (Some w)
    then obtain k where "k < length ?ws" "?ws ! k = w" using assms(1) by (auto simp: pool_ok_def in_set_conv_nth)
    then show ?thesis using that [of k] Some by (simp add: at_def)
  qed
  have seen: "seen ?ws k (length ?ws) = turn ?ws (iter p)" using turn_at [OF d k(1)] seen_all [OF k(1)] k(2) by simp
  from idle_loop_scan [OF d assms(2) k(1), of busy_of "length ?ws" m idle]
  obtain k' where "k' \<le> length ?ws" "idle_loop busy_of ?ws (length ?ws) (at ?ws k) m idle
      = Some (fst (scan busy_of (turn ?ws (iter p)) m idle), at ?ws k', snd (scan busy_of (turn ?ws (iter p)) m idle))"
    "\<And>w. fst (scan busy_of (turn ?ws (iter p)) m idle) = Some w \<Longrightarrow> at ?ws k' = pool_after ?ws w"
    unfolding seen by blast
  then show ?thesis using that [of "at ?ws k'"] k(2) by (auto simp: at_def split: if_splits)
qed

lemma scan_found: "fst (scan busy_of xs m idle) = find (\<lambda>w. busy_of w = 0) xs"
  by (induction xs arbitrary: m idle) auto

lemma scan_least:
  assumes "\<forall>w \<in> set xs. busy_of w \<noteq> 0"
  shows "(\<forall>v \<in> set xs. m \<le> busy_of v) \<and> snd (scan busy_of xs m idle) = idle
    \<or> (\<exists>w \<in> set xs. snd (scan busy_of xs m idle) = Some w \<and> busy_of w < m \<and> (\<forall>v \<in> set xs. busy_of w \<le> busy_of v))"
  using assms
proof (induction xs arbitrary: m idle)
  case (Cons x xs)
  show ?case
  proof (cases "busy_of x < m")
    case True
    then show ?thesis using Cons.IH [of "busy_of x" "Some x"] Cons.prems by fastforce
  next
    case False
    then show ?thesis using Cons.IH [of m idle] Cons.prems by auto
  qed
qed simp

lemma turn_set: "set (turn ws i) = set ws"
proof (cases i)
  case (Some w)
  have "set ws = set (takeWhile (\<lambda>x. x \<noteq> w) ws @ dropWhile (\<lambda>x. x \<noteq> w) ws)" by (simp only: takeWhile_dropWhile_id)
  then show ?thesis using Some unfolding turn_def by (simp only: set_append option.case Un_commute)
qed (simp add: turn_def)

lemma turn_length: "length (turn ws i) = length ws"
proof (cases i)
  case (Some w)
  have "length ws = length (takeWhile (\<lambda>x. x \<noteq> w) ws @ dropWhile (\<lambda>x. x \<noteq> w) ws)" by (simp only: takeWhile_dropWhile_id)
  then show ?thesis using Some unfolding turn_def by (simp only: length_append option.case add.commute)
qed (simp add: turn_def)

text \<open>
  C32: a message goes to the worker the strategy names. With valid pool and some worker in it, \<open>GetIdle\<close> returns the first worker
  after the last choice, going round, that is not busy; if all are busy and there is room it creates one; if there is no room it
  returns a least busy one, or the first when all have at least 65535 messages. The pool stays valid, never exceeds its bound and
  loses nobody.
\<close>

theorem GetIdle_choice:
  assumes ok: "pool_ok p" and some: "workers p \<noteq> []"
  shows "\<exists>r p'. GetIdle start busy_of p = Some (r, p') \<and> pool_ok p' \<and> set (workers p) \<subseteq> set (workers p')
    \<and> length (workers p') \<le> max (length (workers p)) (max_size p)
    \<and> (case find (\<lambda>w. busy_of w = 0) (turn (workers p) (iter p)) of
         Some w \<Rightarrow> r = Some w \<and> iter p' = pool_after (workers p) w \<and> workers p' = workers p
       | None \<Rightarrow> if length (workers p) < max_size p
           then (if start (next_address p) then r = Some (next_address p) \<and> workers p' = workers p @ [next_address p] else r = None)
           else \<exists>w \<in> set (workers p). r = Some w \<and> workers p' = workers p
             \<and> ((\<forall>v \<in> set (workers p). busy_of w \<le> busy_of v) \<or> (\<forall>v \<in> set (workers p). 65535 \<le> busy_of v)))"
proof -
  obtain i where loop: "idle_loop busy_of (workers p) (length (workers p)) (iter p) 0xffff None
      = Some (find (\<lambda>w. busy_of w = 0) (turn (workers p) (iter p)), i, snd (scan busy_of (turn (workers p) (iter p)) 0xffff None))"
    and i: "\<And>w. i = Some w \<Longrightarrow> w \<in> set (workers p)"
    and after: "\<And>w. find (\<lambda>w. busy_of w = 0) (turn (workers p) (iter p)) = Some w \<Longrightarrow> i = pool_after (workers p) w"
    using idle_loop_turn [OF ok some, of busy_of "0xffff" None] unfolding scan_found by metis
  have ok': "pool_ok (p\<lparr>iter := j\<rparr>)" if "\<And>w. j = Some w \<Longrightarrow> w \<in> set (workers p)" for j using ok that by (simp add: pool_ok_def)
  show ?thesis
  proof (cases "find (\<lambda>w. busy_of w = 0) (turn (workers p) (iter p))")
    case (Some w)
    then show ?thesis using loop after ok' [OF i] by (simp add: GetIdle_def)
  next
    case None
    then have busy: "\<forall>w \<in> set (turn (workers p) (iter p)). busy_of w \<noteq> 0" by (simp add: find_None_iff)
    show ?thesis
    proof (cases "length (workers p) < max_size p")
      case True
      have "pool_ok (snd (Create start (p\<lparr>iter := i\<rparr>)))" using ok' [OF i] by (auto simp: Create_def pool_ok_def Let_def less_SucI)
      then show ?thesis using loop None True by (auto simp: GetIdle_def Create_def Let_def)
    next
      case False
      then show ?thesis using loop None scan_least [OF busy, of "0xffff" None] ok' [OF i] some
        ok' [of "Some (hd (workers p))"]
        by (auto simp: GetIdle_def turn_set pool_begin_def neq_Nil_conv split: list.splits)
    qed
  qed
qed

definition sample_pool :: ThreadPool where
  "sample_pool = \<lparr>init_size = 3, max_size = 3, stack_size = 0, message_count = 0, workers = [4, 5, 6], iter = Some 6, next_address = 7\<rparr>"

theorem GetIdle_choice_witness:
  "\<exists>p'. GetIdle (\<lambda>_. True) (\<lambda>w. if w = 5 then 2 else 9) sample_pool = Some (Some 5, p')"
  using GetIdle_choice [of sample_pool "\<lambda>_. True" "\<lambda>w. if w = 5 then 2 else 9"]
  by (auto simp: sample_pool_def pool_ok_def turn_def split: if_splits)

section \<open>Every worker has its turn\<close>

fun choices :: "nat \<Rightarrow> ThreadPool \<Rightarrow> nat list option" where
  "choices 0 p = Some []"
| "choices (Suc n) p = (case GetIdle (\<lambda>_. False) (\<lambda>_. 0) p of Some (Some w, p) \<Rightarrow> map_option ((#) w) (choices n p) | _ \<Rightarrow> None)"

lemma turn_after:
  assumes "pool_ok p" "turn (workers p) (iter p) = w # rest"
  shows "turn (workers p) (pool_after (workers p) w) = rest @ [w]"
proof -
  let ?ws = "workers p"
  have d: "distinct ?ws" using assms by (simp add: pool_ok_def)
  have ne: "?ws \<noteq> []" using assms(2) turn_set [of ?ws "iter p"] by auto
  obtain k where k: "k < length ?ws" "turn ?ws (iter p) = drop k ?ws @ take k ?ws"
  proof (cases "iter p")
    case None
    then show ?thesis using that [of 0] ne by (simp add: turn_def)
  next
    case (Some v)
    then obtain k where "k < length ?ws" "?ws ! k = v" using assms(1) by (auto simp: pool_ok_def in_set_conv_nth)
    then show ?thesis using that [of k] turn_at [OF d, of k] Some by (simp add: at_def)
  qed
  then have "w = ?ws ! k" "rest = drop (Suc k) ?ws @ take k ?ws" using assms(2) by (simp_all add: Cons_nth_drop_Suc [symmetric])
  then show ?thesis using pool_after_at [OF d k(1)] turn_at [OF d, of "Suc k"] k(1) by (simp add: take_Suc_conv_app_nth)
qed

text \<open>
  The choice is fair: when no worker is busy, as many choices as there are workers name every worker once, in the order of the
  list from the iterator on.
\<close>

theorem GetIdle_round_robin:
  assumes "pool_ok p"
  shows "choices (length (workers p)) p = Some (turn (workers p) (iter p))"
proof -
  have "choices n q = Some (take n (turn (workers q) (iter q)))" if "pool_ok q" "n \<le> length (workers q)" for n q
    using that
  proof (induction n arbitrary: q)
    case (Suc n)
    obtain w rest where t: "turn (workers q) (iter q) = w # rest" using Suc.prems turn_length [of "workers q" "iter q"]
      by (cases "turn (workers q) (iter q)") auto
    have "workers q \<noteq> []" using Suc.prems by auto
    from GetIdle_choice [OF Suc.prems(1) this, of "\<lambda>_. False" "\<lambda>_. 0"]
    obtain q' where q': "GetIdle (\<lambda>_. False) (\<lambda>_. 0) q = Some (Some w, q')" "pool_ok q'" "iter q' = pool_after (workers q) w" "workers q' = workers q"
      using t by auto
    then have "turn (workers q') (iter q') = rest @ [w]" using turn_after [OF Suc.prems(1) t] by simp
    moreover have "n \<le> length rest" using t Suc.prems turn_length [of "workers q" "iter q"] by simp
    ultimately show ?case using Suc.IH [OF q'(2)] Suc.prems q' t by simp
  qed simp
  then show ?thesis using assms by (simp add: turn_length)
qed

theorem GetIdle_round_robin_witness: "choices (length (workers sample_pool)) sample_pool = Some [6, 4, 5]"
  using GetIdle_round_robin [of sample_pool] by (simp add: sample_pool_def pool_ok_def turn_def del: choices.simps)

section \<open>Resizing\<close>

lemma shrunk_loop_counted:
  assumes "0 < n" "n < 2 ^ 64"
  shows "snd (shrunk_loop size_of n ws) = take n (filter (\<lambda>w. size_of w = 0) ws)
    \<and> length (fst (shrunk_loop size_of n ws)) + min n (length (filter (\<lambda>w. size_of w = 0) ws)) = length ws"
  using assms
proof (induction ws arbitrary: n)
  case (Cons w ws)
  obtain m where m: "n = Suc m" using Cons.prems by (cases n) auto
  then have "szsub n 1 = m" using Cons.prems by (simp add: szsub_le)
  then show ?case using Cons.IH [of m] Cons.IH [of n] Cons.prems m by (auto simp: Let_def split: prod.splits)
qed simp

lemma Create_n_workers: "length (workers (Create_n (\<lambda>_. True) n p)) = length (workers p) + n"
  by (induction n arbitrary: p) (simp_all add: Create_def Let_def)

text \<open>
  What \<open>set_size\<close> makes of the number of workers when threads can be started: a larger pool has the size asked for; a smaller one
  does not: as many idle workers as the new size says are removed, instead of as many as there are too many.
\<close>

theorem set_size_result:
  assumes "0 < n" "n < 2 ^ 64"
  shows "length (workers (set_size (\<lambda>_. True) size_of n max_n p))
    = (if length (workers p) \<le> n then n else length (workers p) - min n (length (filter (\<lambda>w. size_of w = 0) (workers p))))"
proof (cases "n < length (workers p)")
  case True
  have "length (fst (shrunk_loop size_of n (workers p))) + min n (length (filter (\<lambda>w. size_of w = 0) (workers p))) = length (workers p)"
    using shrunk_loop_counted [OF assms] by blast
  then have "length (fst (shrunk_loop size_of n (workers p))) = length (workers p) - min n (length (filter (\<lambda>w. size_of w = 0) (workers p)))"
    by (metis diff_add_inverse2)
  then show ?thesis using True by (simp add: set_size_def Shrunk_def Let_def split_def)
next
  case False
  then show ?thesis by (simp add: set_size_def Let_def Create_n_workers)
qed

theorem set_size_result_witness:
  "length (workers (set_size (\<lambda>_. True) (\<lambda>_. 0) 2 0 sample_pool)) = 1"
  using set_size_result [of 2 "\<lambda>_. 0" 0 sample_pool] by (simp add: sample_pool_def)

text \<open>Removing the worker that the iterator stands at leaves it dangling: the next choice has no defined result.\<close>

lemma shrunk_pool_dangles:
  "GetIdle (\<lambda>_. True) (\<lambda>_. 0) (set_size (\<lambda>_. True) (\<lambda>w. if w = 6 then 0 else 1) 2 0 sample_pool) = None"
  by (simp add: GetIdle_def set_size_def Shrunk_def sample_pool_def szsub_le)

text \<open>A pool without workers and without room dereferences the end of its list.\<close>

lemma empty_pool_undefined: "GetIdle start busy_of (ThreadPool_new start size_of 0 0 stack) = None"
  by (simp add: GetIdle_def ThreadPool_new_def set_size_def pool_begin_def)

end
