(* ===== verification/StringTokenizer.thy ===== *)
theory StringTokenizer
  imports CString
begin

unbundle bit_operations_syntax

text \<open>
  \<open>src/src/base3/string_tokenizer.h\<close>: the tokens of a string between delimiters, with quotes that hide delimiters and the choice to
  get the delimiters as tokens too. Iterators are positions in the string.
\<close>

section \<open>The tokenizer\<close>

record StringTokenizer =
  tk_string :: string
  start_pos :: nat
  token_begin :: nat
  token_end :: nat
  tk_end :: nat
  delims :: string
  quotes :: string
  tk_options :: nat
  token_is_delim :: bool

definition RETURN_DELIMS :: nat where "RETURN_DELIMS = 1"

definition Tokenizer_Init :: "string \<Rightarrow> string \<Rightarrow> StringTokenizer" where
  "Tokenizer_Init s ds = \<lparr>tk_string = s, start_pos = 0, token_begin = 0, token_end = 0, tk_end = length s, delims = ds, quotes = [],
     tk_options = 0, token_is_delim = False\<rparr>"

definition set_options :: "nat \<Rightarrow> StringTokenizer \<Rightarrow> StringTokenizer" where
  "set_options o' t = t\<lparr>tk_options := o'\<rparr>"

definition set_quote_chars :: "string \<Rightarrow> StringTokenizer \<Rightarrow> StringTokenizer" where
  "set_quote_chars qs t = t\<lparr>quotes := qs\<rparr>"

definition Tokenizer_Reset :: "StringTokenizer \<Rightarrow> StringTokenizer" where
  "Tokenizer_Reset t = t\<lparr>token_end := start_pos t\<rparr>"

definition token :: "StringTokenizer \<Rightarrow> string" where
  "token t = take (token_end t - token_begin t) (drop (token_begin t) (tk_string t))"

definition IsDelim :: "StringTokenizer \<Rightarrow> char \<Rightarrow> bool" where
  "IsDelim t c = (c \<in> set (delims t))"

definition IsQuote :: "StringTokenizer \<Rightarrow> char \<Rightarrow> bool" where
  "IsQuote t c = (c \<in> set (quotes t))"

record AdvanceState =
  in_quote :: bool
  in_escape :: bool
  quote_char :: char

definition AdvanceState_new :: "char \<Rightarrow> AdvanceState" where
  "AdvanceState_new garbage = \<lparr>in_quote = False, in_escape = False, quote_char = garbage\<rparr>"

definition AdvanceOne :: "StringTokenizer \<Rightarrow> AdvanceState \<Rightarrow> char \<Rightarrow> bool \<times> AdvanceState" where
  "AdvanceOne t state c =
     (if in_quote state then
        (True, if in_escape state then state\<lparr>in_escape := False\<rparr>
               else if c = CHR 0x5C then state\<lparr>in_escape := True\<rparr>
               else if c = quote_char state then state\<lparr>in_quote := False\<rparr>
               else state)
      else if IsDelim t c then (False, state)
      else (True, state\<lparr>quote_char := c, in_quote := IsQuote t c\<rparr>))"

text \<open>The first loop of \<open>QuickGetNext\<close>, up to its break or its return, and the second one.\<close>

function quick_skip :: "StringTokenizer \<Rightarrow> bool \<times> StringTokenizer" where
  "quick_skip t =
     (let t = t\<lparr>token_begin := token_end t\<rparr>
      in if token_end t < tk_end t then
           let t = t\<lparr>token_end := token_end t + 1\<rparr>
           in if tk_string t ! token_begin t \<notin> set (delims t) then (True, t) else quick_skip t
         else (False, t))"
  by pat_completeness auto
termination
  by (relation "measure (\<lambda>t. tk_end t - token_end t)") auto

declare quick_skip.simps [simp del]

function quick_token :: "StringTokenizer \<Rightarrow> StringTokenizer" where
  "quick_token t =
     (if token_end t < tk_end t \<and> tk_string t ! token_end t \<notin> set (delims t)
      then quick_token (t\<lparr>token_end := token_end t + 1\<rparr>) else t)"
  by pat_completeness auto
termination
  by (relation "measure (\<lambda>t. tk_end t - token_end t)") auto

declare quick_token.simps [simp del]

definition QuickGetNext :: "StringTokenizer \<Rightarrow> bool \<times> StringTokenizer" where
  "QuickGetNext t =
     (let (found, t) = quick_skip (t\<lparr>token_is_delim := False\<rparr>) in if found then (True, quick_token t) else (False, t))"

datatype skip_end = No_more | A_token | A_delim

function full_skip :: "AdvanceState \<Rightarrow> StringTokenizer \<Rightarrow> skip_end \<times> AdvanceState \<times> StringTokenizer" where
  "full_skip state t =
     (let t = t\<lparr>token_begin := token_end t\<rparr>
      in if token_end t < tk_end t then
           let t = t\<lparr>token_end := token_end t + 1\<rparr>; (ok, state) = AdvanceOne t state (tk_string t ! token_begin t)
           in if ok then (A_token, state, t)
              else if tk_options t AND RETURN_DELIMS \<noteq> 0 then (A_delim, state, t\<lparr>token_is_delim := True\<rparr>)
              else full_skip state t
         else (No_more, state, t))"
  by pat_completeness auto
termination
  by (relation "measure (\<lambda>(_, t). tk_end t - token_end t)") auto

declare full_skip.simps [simp del]

function full_token :: "AdvanceState \<Rightarrow> StringTokenizer \<Rightarrow> StringTokenizer" where
  "full_token state t =
     (if token_end t < tk_end t then
        let (ok, state) = AdvanceOne t state (tk_string t ! token_end t)
        in if ok then full_token state (t\<lparr>token_end := token_end t + 1\<rparr>) else t
      else t)"
  by pat_completeness auto
termination
  by (relation "measure (\<lambda>(_, t). tk_end t - token_end t)") auto

declare full_token.simps [simp del]

definition FullGetNext :: "char \<Rightarrow> StringTokenizer \<Rightarrow> bool \<times> StringTokenizer" where
  "FullGetNext garbage t =
     (let (e, state, t) = full_skip (AdvanceState_new garbage) (t\<lparr>token_is_delim := False\<rparr>)
      in case e of No_more \<Rightarrow> (False, t) | A_delim \<Rightarrow> (True, t) | A_token \<Rightarrow> (True, full_token state t))"

definition GetNext :: "char \<Rightarrow> StringTokenizer \<Rightarrow> bool \<times> StringTokenizer" where
  "GetNext garbage t = (if quotes t = [] \<and> tk_options t = 0 then QuickGetNext t else FullGetNext garbage t)"

section \<open>All tokens\<close>

text \<open>What a caller collects that calls \<open>GetNext\<close> until it returns false; the guard always holds.\<close>

function tokens :: "char \<Rightarrow> StringTokenizer \<Rightarrow> (bool \<times> string) list" where
  "tokens g t =
     (let (more, u) = GetNext g t
      in if more \<and> token_end t < token_end u \<and> token_end u \<le> tk_end u \<and> tk_end u = tk_end t then (token_is_delim u, token u) # tokens g u else [])"
  by pat_completeness auto
termination
  by (relation "measure (\<lambda>(_, t). tk_end t - token_end t)") auto

declare tokens.simps [simp del]

definition tk_ok :: "StringTokenizer \<Rightarrow> bool" where
  "tk_ok t \<longleftrightarrow> token_end t \<le> tk_end t \<and> tk_end t = length (tk_string t)"

definition tk_rest :: "StringTokenizer \<Rightarrow> string" where
  "tk_rest t = drop (token_end t) (tk_string t)"

lemma tk_rest_Cons: "tk_ok t \<Longrightarrow> token_end t < tk_end t \<Longrightarrow> tk_rest t = tk_string t ! token_end t # tk_rest (t\<lparr>token_end := token_end t + 1\<rparr>)"
  by (simp add: tk_ok_def tk_rest_def Cons_nth_drop_Suc)

lemma tk_rest_Nil: "tk_ok t \<Longrightarrow> \<not> token_end t < tk_end t \<Longrightarrow> tk_rest t = []"
  by (simp add: tk_ok_def tk_rest_def)

lemma tk_rest_begin [simp]: "tk_rest (t\<lparr>token_begin := b\<rparr>) = tk_rest t" "tk_rest (t\<lparr>token_is_delim := f\<rparr>) = tk_rest t"
  "tk_ok (t\<lparr>token_begin := b\<rparr>) = tk_ok t" "tk_ok (t\<lparr>token_is_delim := f\<rparr>) = tk_ok t"
  by (simp_all add: tk_rest_def tk_ok_def)

lemma quick_skip_step:
  "quick_skip t = (if token_end t < tk_end t
     then (if tk_string t ! token_end t \<notin> set (delims t) then (True, t\<lparr>token_begin := token_end t, token_end := token_end t + 1\<rparr>)
       else quick_skip (t\<lparr>token_begin := token_end t, token_end := token_end t + 1\<rparr>))
     else (False, t\<lparr>token_begin := token_end t\<rparr>))"
  by (subst quick_skip.simps) (simp add: Let_def)

lemma full_skip_step:
  "full_skip state t = (if token_end t < tk_end t
     then (case AdvanceOne t state (tk_string t ! token_end t) of (ok, state) \<Rightarrow>
       let t = t\<lparr>token_begin := token_end t, token_end := token_end t + 1\<rparr>
       in if ok then (A_token, state, t) else if tk_options t AND RETURN_DELIMS \<noteq> 0 then (A_delim, state, t\<lparr>token_is_delim := True\<rparr>)
          else full_skip state t)
     else (No_more, state, t\<lparr>token_begin := token_end t\<rparr>))"
  by (subst full_skip.simps) (simp add: Let_def AdvanceOne_def IsDelim_def IsQuote_def)

lemma quick_skip_eq:
  assumes "tk_ok t"
  shows "quick_skip t = (let n = length (takeWhile (\<lambda>c. c \<in> set (delims t)) (tk_rest t))
    in if n < length (tk_rest t) then (True, t\<lparr>token_begin := token_end t + n, token_end := token_end t + n + 1\<rparr>)
       else (False, t\<lparr>token_begin := tk_end t, token_end := tk_end t\<rparr>))"
  using assms
proof (induction "tk_end t - token_end t" arbitrary: t rule: less_induct)
  case less
  show ?case
  proof (cases "token_end t < tk_end t")
    case True
    let ?u = "t\<lparr>token_begin := token_end t, token_end := token_end t + 1\<rparr>"
    have ok: "tk_ok ?u" using less.prems True by (simp add: tk_ok_def)
    have r: "tk_rest t = tk_string t ! token_end t # tk_rest ?u" using tk_rest_Cons [OF less.prems True] by (simp add: tk_rest_def)
    have q: "quick_skip ?u = (let n = length (takeWhile (\<lambda>c. c \<in> set (delims ?u)) (tk_rest ?u))
      in if n < length (tk_rest ?u) then (True, ?u\<lparr>token_begin := token_end ?u + n, token_end := token_end ?u + n + 1\<rparr>)
         else (False, ?u\<lparr>token_begin := tk_end ?u, token_end := tk_end ?u\<rparr>))"
      using True by (intro less.hyps ok) simp
    show ?thesis unfolding quick_skip_step [of t] q r using True by (simp add: Let_def)
  next
    case False
    then have "token_end t = tk_end t" using less.prems by (simp add: tk_ok_def)
    then show ?thesis using tk_rest_Nil [OF less.prems False] by (subst quick_skip_step) simp
  qed
qed

lemma quick_token_eq:
  assumes "tk_ok t"
  shows "quick_token t = t\<lparr>token_end := token_end t + length (takeWhile (\<lambda>c. c \<notin> set (delims t)) (tk_rest t))\<rparr>"
  using assms
proof (induction t rule: quick_token.induct)
  case (1 t)
  show ?case
  proof (cases "token_end t < tk_end t")
    case True
    then show ?thesis using 1 tk_rest_Cons [OF 1(2) True] by (subst quick_token.simps) (auto simp: tk_ok_def)
  next
    case False
    then show ?thesis using tk_rest_Nil [OF 1(2) False] by (subst quick_token.simps) simp
  qed
qed

section \<open>The two implementations agree\<close>

lemma AdvanceOne_plain: "quotes t = [] \<Longrightarrow> \<not> in_quote state \<Longrightarrow>
    fst (AdvanceOne t state c) = (c \<notin> set (delims t)) \<and> \<not> in_quote (snd (AdvanceOne t state c))"
  by (simp add: AdvanceOne_def IsDelim_def IsQuote_def)

lemma full_skip_quick:
  assumes "quotes t = []" "tk_options t = 0" "\<not> in_quote state"
  shows "\<exists>state'. \<not> in_quote state' \<and> full_skip state t = (if fst (quick_skip t) then A_token else No_more, state', snd (quick_skip t))"
  using assms
proof (induction "tk_end t - token_end t" arbitrary: state t rule: less_induct)
  case less
  let ?u = "t\<lparr>token_begin := token_end t, token_end := token_end t + 1\<rparr>"
  obtain ok state1 where a: "AdvanceOne t state (tk_string t ! token_end t) = (ok, state1)" by force
  then have a': "ok = (tk_string t ! token_end t \<notin> set (delims t))" "\<not> in_quote state1"
    using AdvanceOne_plain [of t state "tk_string t ! token_end t"] less.prems by auto
  have "\<exists>state'. \<not> in_quote state' \<and> full_skip state1 ?u = (if fst (quick_skip ?u) then A_token else No_more, state', snd (quick_skip ?u))"
    if "token_end t < tk_end t" using less.hyps [of ?u state1] less.prems a'(2) that by simp
  then show ?case using a a' less.prems by (subst full_skip_step, subst quick_skip_step, subst quick_skip_step) (auto simp: Let_def)
qed

lemma full_token_quick:
  "quotes t = [] \<Longrightarrow> \<not> in_quote state \<Longrightarrow> full_token state t = quick_token t"
proof (induction state t rule: full_token.induct)
  case (1 state t)
  obtain ok state1 where a: "AdvanceOne t state (tk_string t ! token_end t) = (ok, state1)" by force
  then show ?case using AdvanceOne_plain [OF 1(2,3), of "tk_string t ! token_end t"] 1
    by (subst full_token.simps, subst quick_token.simps) auto
qed

lemma Full_is_Quick:
  assumes "quotes t = []" "tk_options t = 0"
  shows "FullGetNext g t = QuickGetNext t"
proof -
  let ?t = "t\<lparr>token_is_delim := False\<rparr>"
  obtain state' where s: "\<not> in_quote state'"
    "full_skip (AdvanceState_new g) ?t = (if fst (quick_skip ?t) then A_token else No_more, state', snd (quick_skip ?t))"
    using full_skip_quick [of ?t "AdvanceState_new g"] assms by (auto simp: AdvanceState_new_def)
  have "quotes (snd (quick_skip u)) = quotes u" for u
    by (induction "tk_end u - token_end u" arbitrary: u rule: less_induct) (subst quick_skip_step, simp)
  then have "full_token state' (snd (quick_skip ?t)) = quick_token (snd (quick_skip ?t))"
    using full_token_quick [OF _ s(1)] assms by simp
  then show ?thesis unfolding FullGetNext_def QuickGetNext_def s(2) by (simp add: split_def)
qed

section \<open>Without quotes the tokens are the pieces between delimiters\<close>

definition pieces :: "string \<Rightarrow> string \<Rightarrow> string list" where
  "pieces ds s = filter (\<lambda>w. w \<noteq> []) (split_any (set ds) s)"

lemma pieces_skip: "pieces ds (dropWhile (\<lambda>c. c \<in> set ds) s) = pieces ds s"
  by (induction s) (simp_all add: pieces_def)

lemma pieces_word:
  assumes "w \<noteq> []" "\<forall>c \<in> set w. c \<notin> set ds" "r = [] \<or> hd r \<in> set ds"
  shows "pieces ds (w @ r) = w # pieces ds r"
proof (cases r)
  case Nil
  moreover have "split_any (set ds) w = [w]" using assms by (intro split_any_none) auto
  ultimately show ?thesis using assms by (simp add: pieces_def)
next
  case (Cons c r')
  moreover from this have "split_any (set ds) (w @ c # r') = w # split_any (set ds) r'" using assms by (intro split_any_append) auto
  ultimately show ?thesis using assms by (simp add: pieces_def)
qed

lemma Quick_step:
  assumes ok: "tk_ok t" and y: "dropWhile (\<lambda>c. c \<in> set (delims t)) (tk_rest t) = y # ys"
  obtains u where "QuickGetNext t = (True, u)" "token u = y # takeWhile (\<lambda>c. c \<notin> set (delims t)) ys"
    "tk_rest u = dropWhile (\<lambda>c. c \<notin> set (delims t)) ys" "tk_ok u" "token_end t < token_end u" "\<not> token_is_delim u"
    "tk_end u = tk_end t" "delims u = delims t" "quotes u = quotes t" "tk_options u = tk_options t"
proof -
  let ?n = "length (takeWhile (\<lambda>c. c \<in> set (delims t)) (tk_rest t))" and ?w = "takeWhile (\<lambda>c. c \<notin> set (delims t)) ys"
  have r: "drop ?n (tk_rest t) = y # ys" using y by (simp add: dropWhile_eq_drop)
  then have n: "?n < length (tk_rest t)" by (metis length_drop length_Cons zero_less_Suc zero_less_diff)
  let ?u = "t\<lparr>token_is_delim := False, token_begin := token_end t + ?n, token_end := token_end t + ?n + 1\<rparr>"
  have skip: "quick_skip (t\<lparr>token_is_delim := False\<rparr>) = (True, ?u)"
    using quick_skip_eq [of "t\<lparr>token_is_delim := False\<rparr>"] ok n by (simp add: Let_def)
  have b: "drop (token_end t + ?n) (tk_string t) = y # ys" using r by (simp add: tk_rest_def add.commute)
  have rest: "tk_rest ?u = ys" using b by (simp add: tk_rest_def) (metis drop_Suc list.sel(3) tl_drop)
  have ok': "tk_ok ?u" using ok n by (simp add: tk_ok_def tk_rest_def)
  let ?v = "?u\<lparr>token_end := token_end ?u + length ?w\<rparr>"
  have "quick_token ?u = ?v" using quick_token_eq [OF ok'] rest by simp
  then have "QuickGetNext t = (True, ?v)" using skip by (simp add: QuickGetNext_def)
  moreover have "token ?v = y # ?w" using b takeWhile_eq_take [of "\<lambda>c. c \<notin> set (delims t)" ys] by (simp add: token_def)
  moreover have "tk_rest ?v = drop (length ?w) (tk_rest ?u)" by (simp add: tk_rest_def add.commute)
  then have "tk_rest ?v = dropWhile (\<lambda>c. c \<notin> set (delims t)) ys" unfolding rest by (simp add: dropWhile_eq_drop)
  moreover have "tk_ok ?v" using ok' length_takeWhile_le [of "\<lambda>c. c \<notin> set (delims t)" ys] arg_cong [OF rest, of length]
    by (auto simp: tk_ok_def tk_rest_def)
  ultimately show ?thesis by (intro that [of ?v]) simp_all
qed

lemma tokens_pieces:
  assumes "tk_ok t" "quotes t = []" "tk_options t = 0"
  shows "tokens g t = map (Pair False) (pieces (delims t) (tk_rest t))"
  using assms
proof (induction "length (tk_rest t)" arbitrary: t rule: less_induct)
  case less
  show ?case
  proof (cases "dropWhile (\<lambda>c. c \<in> set (delims t)) (tk_rest t)")
    case Nil
    then have all: "takeWhile (\<lambda>c. c \<in> set (delims t)) (tk_rest t) = tk_rest t" by (simp add: takeWhile_eq_all_conv dropWhile_eq_Nil_conv)
    have "fst (QuickGetNext t) = False"
      using quick_skip_eq [of "t\<lparr>token_is_delim := False\<rparr>"] less.prems(1) all by (simp add: QuickGetNext_def Let_def)
    moreover have "pieces (delims t) (tk_rest t) = []" using pieces_skip [of "delims t" "tk_rest t"] Nil by (simp add: pieces_def)
    ultimately show ?thesis using less.prems by (subst tokens.simps) (simp add: GetNext_def split_def)
  next
    case (Cons y ys)
    from Quick_step [OF less.prems(1) Cons] obtain u where u: "QuickGetNext t = (True, u)"
      "token u = y # takeWhile (\<lambda>c. c \<notin> set (delims t)) ys" "tk_rest u = dropWhile (\<lambda>c. c \<notin> set (delims t)) ys" "tk_ok u"
      "token_end t < token_end u" "\<not> token_is_delim u" "tk_end u = tk_end t" "delims u = delims t" "quotes u = quotes t"
      "tk_options u = tk_options t" .
    have y: "y \<notin> set (delims t)" using Cons by (metis dropWhile_eq_Cons_conv)
    have "length (tk_rest u) \<le> length ys" unfolding u(3) by (rule length_dropWhile_le)
    moreover have "length (y # ys) \<le> length (tk_rest t)" using Cons length_dropWhile_le by metis
    ultimately have "tokens g u = map (Pair False) (pieces (delims t) (tk_rest u))" using less.hyps [of u] less.prems u by simp
    moreover have "pieces (delims t) (tk_rest t) = token u # pieces (delims t) (tk_rest u)"
    proof -
      have "y # ys = token u @ tk_rest u" using u(2,3) by simp
      moreover have "tk_rest u = [] \<or> hd (tk_rest u) \<in> set (delims t)" unfolding u(3) by (metis hd_dropWhile)
      moreover have "\<forall>c \<in> set (token u). c \<notin> set (delims t)" using y u(2) by (auto dest: set_takeWhileD)
      moreover have "token u \<noteq> []" using u(2) by simp
      ultimately show ?thesis using pieces_word [of "token u" "delims t" "tk_rest u"] pieces_skip [of "delims t" "tk_rest t"] Cons by metis
    qed
    ultimately show ?thesis using u less.prems by (subst tokens.simps) (simp add: GetNext_def tk_ok_def)
  qed
qed

section \<open>With the delimiters the tokens are the whole text\<close>

fun advance :: "StringTokenizer \<Rightarrow> AdvanceState \<Rightarrow> string \<Rightarrow> nat" where
  "advance t state [] = 0"
| "advance t state (c # cs) = (case AdvanceOne t state c of (ok, state) \<Rightarrow> if ok then Suc (advance t state cs) else 0)"

lemma advance_le: "advance t state cs \<le> length cs"
  by (induction cs arbitrary: state) (auto split: prod.split)

lemma AdvanceOne_position [simp]: "AdvanceOne (t\<lparr>token_end := e\<rparr>) = AdvanceOne t" "AdvanceOne (t\<lparr>token_begin := e\<rparr>) = AdvanceOne t"
  "AdvanceOne (t\<lparr>token_is_delim := f\<rparr>) = AdvanceOne t"
  by (simp_all add: fun_eq_iff AdvanceOne_def IsDelim_def IsQuote_def)

lemma advance_position [simp]: "advance (t\<lparr>token_end := e\<rparr>) state cs = advance t state cs" "advance (t\<lparr>token_begin := e\<rparr>) state cs = advance t state cs"
  "advance (t\<lparr>token_is_delim := f\<rparr>) state cs = advance t state cs"
  by (induction cs arbitrary: state) (simp_all split: prod.split)

lemma full_token_eq: "tk_ok t \<Longrightarrow> full_token state t = t\<lparr>token_end := token_end t + advance t state (tk_rest t)\<rparr>"
proof (induction "tk_end t - token_end t" arbitrary: t state rule: less_induct)
  case less
  show ?case
  proof (cases "token_end t < tk_end t")
    case True
    let ?u = "t\<lparr>token_end := token_end t + 1\<rparr>"
    obtain ok state1 where a: "AdvanceOne t state (tk_string t ! token_end t) = (ok, state1)" by force
    have u: "tk_ok ?u" using less.prems True by (simp add: tk_ok_def)
    have "full_token state1 ?u = ?u\<lparr>token_end := token_end ?u + advance ?u state1 (tk_rest ?u)\<rparr>"
      using True by (intro less.hyps u) simp
    then show ?thesis using a True by (subst full_token.simps) (simp add: tk_rest_Cons [OF less.prems True])
  next
    case False
    then show ?thesis by (subst full_token.simps) (simp add: tk_rest_Nil [OF less.prems])
  qed
qed

lemma Full_step:
  assumes ok: "tk_ok t" and c: "tk_rest t = c # cs" and skip: "c \<notin> set (delims t) \<or> tk_options t AND RETURN_DELIMS \<noteq> 0"
  obtains u n where "FullGetNext g t = (True, u)" "token u = c # take n cs" "tk_rest u = drop n cs" "tk_ok u" "token_end t < token_end u"
    "token_is_delim u = (c \<in> set (delims t))" "tk_end u = tk_end t" "delims u = delims t" "quotes u = quotes t" "tk_options u = tk_options t"
    "n = (if c \<in> set (delims t) then 0 else advance t \<lparr>in_quote = IsQuote t c, in_escape = False, quote_char = c\<rparr> cs)"
proof -
  let ?s = "if c \<in> set (delims t) then AdvanceState_new g else \<lparr>in_quote = IsQuote t c, in_escape = False, quote_char = c\<rparr>"
  let ?u = "t\<lparr>token_is_delim := c \<in> set (delims t), token_begin := token_end t, token_end := token_end t + 1\<rparr>"
  let ?n = "if c \<in> set (delims t) then 0 else advance t ?s cs"
  have lt: "token_end t < tk_end t" using tk_rest_Nil [OF ok] c by fastforce
  have nth: "tk_string t ! token_end t = c" "tk_rest ?u = cs" using tk_rest_Cons [OF ok lt] c by (simp_all add: tk_rest_def)
  have u: "tk_ok ?u" using ok lt by (simp add: tk_ok_def)
  have "full_skip (AdvanceState_new g) (t\<lparr>token_is_delim := False\<rparr>) = (if c \<in> set (delims t) then A_delim else A_token, ?s, ?u)"
    using lt nth(1) skip by (subst full_skip_step) (auto simp: AdvanceOne_def AdvanceState_new_def IsDelim_def)
  moreover have "full_token ?s ?u = ?u\<lparr>token_end := token_end ?u + advance t ?s cs\<rparr>" using full_token_eq [OF u] nth(2) by simp
  ultimately have "FullGetNext g t = (True, ?u\<lparr>token_end := token_end ?u + ?n\<rparr>)" by (auto simp: FullGetNext_def)
  moreover have "tk_rest (?u\<lparr>token_end := token_end ?u + ?n\<rparr>) = drop ?n cs"
  proof -
    have "tk_rest (?u\<lparr>token_end := token_end ?u + m\<rparr>) = drop m (tk_rest ?u)" for m by (simp add: tk_rest_def add.commute)
    then show ?thesis using nth(2) by simp
  qed
  moreover have "tk_ok (?u\<lparr>token_end := token_end ?u + ?n\<rparr>)"
    using u advance_le [of t ?s cs] arg_cong [OF nth(2), of length] by (auto simp: tk_ok_def tk_rest_def)
  moreover have "token (?u\<lparr>token_end := token_end ?u + ?n\<rparr>) = c # take ?n cs"
    using c by (simp add: token_def tk_rest_def)
  ultimately show ?thesis by (intro that [of "?u\<lparr>token_end := token_end ?u + ?n\<rparr>" ?n]) simp_all
qed

lemma tokens_concat:
  assumes "tk_ok t" "tk_options t AND RETURN_DELIMS \<noteq> 0"
  shows "concat (map snd (tokens g t)) = tk_rest t \<and> (\<forall>(d, w) \<in> set (tokens g t). w \<noteq> [] \<and> d = (hd w \<in> set (delims t)) \<and> (d \<longrightarrow> tl w = []))"
  using assms
proof (induction "length (tk_rest t)" arbitrary: t rule: less_induct)
  case less
  have full: "GetNext g t = FullGetNext g t" using less.prems by (auto simp: GetNext_def)
  show ?case
  proof (cases "tk_rest t")
    case Nil
    then have "\<not> token_end t < tk_end t" using less.prems by (auto simp: tk_ok_def tk_rest_def)
    then have "fst (FullGetNext g t) = False" by (simp add: FullGetNext_def full_skip_step)
    then show ?thesis using Nil full by (subst tokens.simps, subst tokens.simps) (simp add: split_def)
  next
    case (Cons c cs)
    from Full_step [OF less.prems(1) Cons disjI2 [OF less.prems(2)], of g]
    obtain u n where u: "FullGetNext g t = (True, u)" "token u = c # take n cs" "tk_rest u = drop n cs" "tk_ok u" "token_end t < token_end u"
      "token_is_delim u = (c \<in> set (delims t))" "tk_end u = tk_end t" "delims u = delims t" "tk_options u = tk_options t"
      "c \<in> set (delims t) \<longrightarrow> n = 0" by metis
    have "tokens g t = (token_is_delim u, token u) # tokens g u"
      using u less.prems full by (subst tokens.simps) (simp add: tk_ok_def)
    moreover have "length (tk_rest u) < length (tk_rest t)" using u(3) Cons by simp
    note less.hyps [OF this u(4)]
    ultimately show ?thesis using u less.prems Cons by auto
  qed
qed

section \<open>Quoted fields come back\<close>

definition quote_escape :: "char \<Rightarrow> string \<Rightarrow> string" where
  "quote_escape q f = concat (map (\<lambda>c. if c = q \<or> c = CHR 0x5C then [CHR 0x5C, c] else [c]) f)"

definition quoted_field :: "char \<Rightarrow> string \<Rightarrow> string" where
  "quoted_field q f = q # quote_escape q f @ [q]"

lemma advance_quoted:
  assumes "q \<noteq> CHR 0x5C"
  shows "advance t \<lparr>in_quote = True, in_escape = False, quote_char = q\<rparr> (quote_escape q f @ q # r)
    = length (quote_escape q f) + 1 + advance t \<lparr>in_quote = False, in_escape = False, quote_char = q\<rparr> r"
  using assms by (induction f) (auto simp: quote_escape_def AdvanceOne_def)

lemma Quoted_step:
  assumes ok: "tk_ok t" and set: "delims t = [d]" "quotes t = [q]" "d \<noteq> q" "q \<noteq> CHR 0x5C"
    and r: "tk_rest t = quoted_field q f @ r" "r = [] \<or> hd r = d"
  obtains u where "FullGetNext g t = (True, u)" "token u = quoted_field q f" "tk_rest u = r" "tk_ok u" "token_end t < token_end u"
    "\<not> token_is_delim u" "tk_end u = tk_end t" "delims u = delims t" "quotes u = quotes t" "tk_options u = tk_options t"
proof -
  let ?cs = "quote_escape q f @ q # r"
  have c: "tk_rest t = q # ?cs" using r(1) by (simp add: quoted_field_def)
  have "advance t \<lparr>in_quote = False, in_escape = False, quote_char = q\<rparr> r = 0"
    using r(2) set(1) by (cases r) (auto simp: AdvanceOne_def IsDelim_def)
  then have n: "advance t \<lparr>in_quote = IsQuote t q, in_escape = False, quote_char = q\<rparr> ?cs = length (quote_escape q f) + 1"
    using advance_quoted [OF set(4)] set(2) by (simp add: IsQuote_def)
  have q: "q \<notin> set (delims t)" using set by simp
  from Full_step [OF ok c disjI1 [OF q], of g] q n obtain u where "FullGetNext g t = (True, u)"
    "token u = q # take (length (quote_escape q f) + 1) ?cs" "tk_rest u = drop (length (quote_escape q f) + 1) ?cs" "tk_ok u"
    "token_end t < token_end u" "\<not> token_is_delim u" "tk_end u = tk_end t" "delims u = delims t" "quotes u = quotes t"
    "tk_options u = tk_options t" by metis
  then show ?thesis using that by (simp add: quoted_field_def)
qed

lemma Full_skips:
  assumes "tk_ok t" "tk_rest t = c # cs" "c \<in> set (delims t)" "tk_options t = 0"
  shows "FullGetNext g t = FullGetNext g (t\<lparr>token_end := token_end t + 1\<rparr>)"
proof -
  have lt: "token_end t < tk_end t" using tk_rest_Nil [OF assms(1)] assms(2) by fastforce
  then have "tk_string t ! token_end t = c" using tk_rest_Cons [OF assms(1) lt] assms(2) by simp
  then have "full_skip (AdvanceState_new g) (t\<lparr>token_is_delim := False\<rparr>)
      = full_skip (AdvanceState_new g) (t\<lparr>token_is_delim := False, token_begin := token_end t, token_end := token_end t + 1\<rparr>)"
    using lt assms(3,4) by (subst full_skip_step) (simp add: AdvanceOne_def AdvanceState_new_def IsDelim_def)
  also have "\<dots> = full_skip (AdvanceState_new g) (t\<lparr>token_end := token_end t + 1, token_is_delim := False\<rparr>)"
    by (subst (1 2) full_skip_step) simp
  finally show ?thesis by (simp add: FullGetNext_def)
qed

lemma tokens_quoted:
  assumes "tk_ok t" "delims t = [d]" "quotes t = [q]" "d \<noteq> q" "q \<noteq> CHR 0x5C" "tk_options t = 0"
    "tk_rest t = concat (map (\<lambda>f. d # quoted_field q f) fs)"
  shows "tokens g t = map (\<lambda>f. (False, quoted_field q f)) fs"
  using assms
proof (induction fs arbitrary: t)
  case Nil
  then have "\<not> token_end t < tk_end t" by (auto simp: tk_ok_def tk_rest_def)
  then have "fst (GetNext g t) = False" using Nil by (simp add: GetNext_def FullGetNext_def full_skip_step)
  then show ?case by (subst tokens.simps) (simp add: split_def)
next
  case (Cons f fs)
  let ?r = "concat (map (\<lambda>f. d # quoted_field q f) fs)" and ?v = "t\<lparr>token_end := token_end t + 1\<rparr>"
  have rest: "tk_rest t = d # quoted_field q f @ ?r" using Cons.prems(7) by simp
  have lt: "token_end t < tk_end t" using tk_rest_Nil [OF Cons.prems(1)] rest by fastforce
  have v: "tk_ok ?v" using Cons.prems(1) lt by (simp add: tk_ok_def)
  have r: "tk_rest ?v = quoted_field q f @ ?r" using trans [OF tk_rest_Cons [OF Cons.prems(1) lt, symmetric] rest] by (simp only: list.inject)
  have hd: "?r = [] \<or> hd ?r = d" by (cases fs) simp_all
  have set: "delims ?v = [d]" "quotes ?v = [q]" using Cons.prems by simp_all
  from Quoted_step [OF v set Cons.prems(4,5) r hd, of g]
  obtain u where u: "FullGetNext g ?v = (True, u)" "token u = quoted_field q f" "tk_rest u = ?r" "tk_ok u" "token_end ?v < token_end u"
    "\<not> token_is_delim u" "tk_end u = tk_end ?v" "delims u = delims ?v" "quotes u = quotes ?v" "tk_options u = tk_options ?v" .
  then have "GetNext g t = (True, u)" using Full_skips [OF Cons.prems(1) rest] Cons.prems by (simp add: GetNext_def)
  then have "tokens g t = (False, token u) # tokens g u" using u by (subst tokens.simps) (simp add: tk_ok_def)
  moreover have "tokens g u = map (\<lambda>f. (False, quoted_field q f)) fs" using u Cons.prems by (intro Cons.IH) simp_all
  ultimately show ?case using u by simp
qed

section \<open>What the tokenizer promises\<close>

text \<open>
  The two implementations agree and are exact: without quotes and options the loops with and without quote handling return
  the same, and the tokens are exactly the non-empty pieces of the text between delimiters, in order.
\<close>

theorem tokenizer_exact:
  "tokens g (Tokenizer_Init s ds) = map (Pair False) (filter (\<lambda>w. w \<noteq> []) (split_any (set ds) s))
   \<and> FullGetNext g (Tokenizer_Init s ds) = QuickGetNext (Tokenizer_Init s ds)"
  using tokens_pieces [of "Tokenizer_Init s ds" g] Full_is_Quick [of "Tokenizer_Init s ds" g]
  by (simp add: Tokenizer_Init_def tk_ok_def tk_rest_def pieces_def)

text \<open>
  C33: nothing is lost: with \<open>RETURN_DELIMS\<close>, whatever the delimiters and the quote characters are, the tokens put together are the
  text; none is empty, one that starts with a delimiter is that delimiter alone and marked as one, and no other is.
\<close>

theorem tokenizer_keeps_text:
  "concat (map snd (tokens g (set_quote_chars qs (set_options RETURN_DELIMS (Tokenizer_Init s ds))))) = s
   \<and> (\<forall>(d, w) \<in> set (tokens g (set_quote_chars qs (set_options RETURN_DELIMS (Tokenizer_Init s ds)))).
        w \<noteq> [] \<and> d = (hd w \<in> set ds) \<and> (d \<longrightarrow> tl w = []))"
  using tokens_concat [of "set_quote_chars qs (set_options RETURN_DELIMS (Tokenizer_Init s ds))" g]
  by (simp add: Tokenizer_Init_def set_options_def set_quote_chars_def RETURN_DELIMS_def tk_ok_def tk_rest_def)

theorem tokenizer_keeps_text_witness:
  "concat (map snd (tokens NUL (set_quote_chars [CHR 0x22] (set_options RETURN_DELIMS (Tokenizer_Init ''a=b;c'' '';=''))))) = ''a=b;c''"
  using tokenizer_keeps_text [of NUL "[CHR 0x22]" "''a=b;c''" "'';=''"] by blast

text \<open>
  Quoted fields survive: fields of any characters, put in quotes with a backslash before quotes and backslashes and joined with a
  delimiter, are the tokens that come back.
\<close>

theorem quoted_fields_round_trip:
  assumes "d \<noteq> q" "q \<noteq> CHR 0x5C"
  shows "tokens g (set_quote_chars [q] (Tokenizer_Init (concat (map (\<lambda>f. d # quoted_field q f) fs)) [d])) = map (\<lambda>f. (False, quoted_field q f)) fs"
  using assms by (intro tokens_quoted) (simp_all add: Tokenizer_Init_def set_quote_chars_def tk_ok_def tk_rest_def)

theorem quoted_fields_round_trip_witness:
  "tokens NUL (set_quote_chars [CHR 0x27] (Tokenizer_Init (concat (map (\<lambda>f. CHR '';'' # quoted_field (CHR 0x27) f) [''a;b'', [CHR 0x27]])) '';''))
     = map (\<lambda>f. (False, quoted_field (CHR 0x27) f)) [''a;b'', [CHR 0x27]]"
  by (rule quoted_fields_round_trip) simp_all

end
