(* ===== verification/StringPiece.thy ===== *)
theory StringPiece
  imports CString "HOL-Library.Char_ord" "HOL-Library.List_Lexorder"
begin

text \<open>
  \<open>src/src/base3/string_piece.cc\<close> and \<open>string_piece.h\<close>: a range of characters in somebody else's memory, with the searches of
  \<open>std::string\<close>. A piece is the characters in its range; a result is \<open>None\<close> when memory outside the range would be touched.
  \<open>std::search\<close>, \<open>std::find\<close> and \<open>std::find_end\<close> return the end of the range when there is nothing to find.
\<close>

section \<open>The standard algorithms\<close>

definition std_find :: "string \<Rightarrow> char \<Rightarrow> nat" where
  "std_find hay c = length (takeWhile (\<lambda>x. x \<noteq> c) hay)"

definition std_search :: "string \<Rightarrow> string \<Rightarrow> nat" where
  "std_search hay pat = (let k = find_at hay pat 0 in if k = npos then length hay else k)"

fun find_end_from :: "string \<Rightarrow> string \<Rightarrow> nat \<Rightarrow> nat" where
  "find_end_from hay pat 0 = (if occurs hay pat 0 then 0 else length hay)"
| "find_end_from hay pat (Suc k) = (if occurs hay pat (Suc k) then Suc k else find_end_from hay pat k)"

definition std_find_end :: "string \<Rightarrow> string \<Rightarrow> nat" where
  "std_find_end hay pat = find_end_from hay pat (length hay)"

fun memcmp :: "string \<Rightarrow> string \<Rightarrow> nat \<Rightarrow> int" where
  "memcmp (x # xs) (y # ys) (Suc n) =
     (if (of_char x :: nat) < of_char y then - 1 else if (of_char y :: nat) < of_char x then 1 else memcmp xs ys n)"
| "memcmp _ _ _ = 0"

section \<open>Pieces\<close>

definition piece_remove_prefix :: "nat \<Rightarrow> string \<Rightarrow> string option" where
  "piece_remove_prefix n s = (if length s < n then None else Some (drop n s))"

definition piece_remove_suffix :: "nat \<Rightarrow> string \<Rightarrow> string option" where
  "piece_remove_suffix n s = (if length s < n then None else Some (take (length s - n) s))"

definition piece_compare :: "string \<Rightarrow> string \<Rightarrow> int" where
  "piece_compare s x =
     (let r = memcmp s x (min (length s) (length x))
      in if r = 0 then (if length s < length x then - 1 else if length x < length s then 1 else r) else r)"

definition piece_eq :: "string \<Rightarrow> string \<Rightarrow> bool" where
  "piece_eq x y = (if length x \<noteq> length y then False else memcmp x y (length x) = 0)"

definition piece_less :: "string \<Rightarrow> string \<Rightarrow> bool" where
  "piece_less x y = (let r = memcmp x y (min (length x) (length y)) in r < 0 \<or> r = 0 \<and> length x < length y)"

definition piece_le :: "string \<Rightarrow> string \<Rightarrow> bool" where
  "piece_le x y = (\<not> piece_less y x)"

definition piece_starts_with :: "string \<Rightarrow> string \<Rightarrow> bool" where
  "piece_starts_with s x \<longleftrightarrow> length x \<le> length s \<and> memcmp s x (length x) = 0"

definition piece_ends_with :: "string \<Rightarrow> string \<Rightarrow> bool" where
  "piece_ends_with s x \<longleftrightarrow> length x \<le> length s \<and> memcmp (drop (length s - length x) s) x (length x) = 0"

definition piece_copy :: "string \<Rightarrow> nat \<Rightarrow> nat \<Rightarrow> (nat \<times> string) option" where
  "piece_copy s n pos = (let ret = min (szsub (length s) pos) n in if length s < pos + ret then None else Some (ret, take ret (drop pos s)))"

definition piece_substr :: "string \<Rightarrow> nat \<Rightarrow> nat \<Rightarrow> string" where
  "piece_substr s pos n =
     (let pos = (if length s < pos then length s else pos); n = (if length s - pos < n then length s - pos else n) in take n (drop pos s))"

definition piece_find :: "string \<Rightarrow> string \<Rightarrow> nat \<Rightarrow> nat" where
  "piece_find s pat pos =
     (if length s < pos then npos
      else let xpos = pos + std_search (drop pos s) pat in if xpos + length pat \<le> length s then xpos else npos)"

definition piece_find_char :: "string \<Rightarrow> char \<Rightarrow> nat \<Rightarrow> nat" where
  "piece_find_char s c pos =
     (if length s \<le> pos then npos
      else let result = pos + std_find (drop pos s) c in if result \<noteq> length s then result else npos)"

definition piece_rfind :: "string \<Rightarrow> string \<Rightarrow> nat \<Rightarrow> nat" where
  "piece_rfind s pat pos =
     (if length s < length pat then npos
      else if pat = [] then min (length s) pos
      else let e = min (length s - length pat) pos + length pat; result = std_find_end (take e s) pat
        in if result \<noteq> e then result else npos)"

text \<open>The loops over positions, upwards and downwards.\<close>

function first_loop :: "(char \<Rightarrow> bool) \<Rightarrow> string \<Rightarrow> nat \<Rightarrow> nat" where
  "first_loop P s i = (if i < length s then (if P (s ! i) then i else first_loop P s (i + 1)) else npos)"
  by pat_completeness auto
termination
  by (relation "measure (\<lambda>(_, s, i). length s - i)") auto

declare first_loop.simps [simp del]

fun last_loop :: "(char \<Rightarrow> bool) \<Rightarrow> string \<Rightarrow> nat \<Rightarrow> nat" where
  "last_loop P s 0 = (if P (s ! 0) then 0 else npos)"
| "last_loop P s (Suc i) = (if P (s ! Suc i) then Suc i else last_loop P s i)"

definition piece_rfind_char :: "string \<Rightarrow> char \<Rightarrow> nat \<Rightarrow> nat" where
  "piece_rfind_char s c pos = (if length s = 0 then npos else last_loop (\<lambda>x. x = c) s (min pos (length s - 1)))"

definition BuildLookupTable :: "string \<Rightarrow> bool list \<Rightarrow> bool list" where
  "BuildLookupTable wanted table = fold (\<lambda>c table. table[of_char c := True]) wanted table"

definition piece_lookup :: "string \<Rightarrow> char \<Rightarrow> bool" where
  "piece_lookup wanted c = BuildLookupTable wanted (replicate 256 False) ! of_char c"

definition piece_find_first_of :: "string \<Rightarrow> string \<Rightarrow> nat \<Rightarrow> nat" where
  "piece_find_first_of s cs pos =
     (if length s = 0 \<or> length cs = 0 then npos
      else if length cs = 1 then piece_find_char s (cs ! 0) pos
      else first_loop (piece_lookup cs) s pos)"

definition piece_find_first_not_char :: "string \<Rightarrow> char \<Rightarrow> nat \<Rightarrow> nat" where
  "piece_find_first_not_char s c pos = (if length s = 0 then npos else first_loop (\<lambda>x. x \<noteq> c) s pos)"

definition piece_find_first_not_of :: "string \<Rightarrow> string \<Rightarrow> nat \<Rightarrow> nat" where
  "piece_find_first_not_of s cs pos =
     (if length s = 0 then npos
      else if length cs = 0 then 0
      else if length cs = 1 then piece_find_first_not_char s (cs ! 0) pos
      else first_loop (\<lambda>x. \<not> piece_lookup cs x) s pos)"

definition piece_find_last_of :: "string \<Rightarrow> string \<Rightarrow> nat \<Rightarrow> nat" where
  "piece_find_last_of s cs pos =
     (if length s = 0 \<or> length cs = 0 then npos
      else if length cs = 1 then piece_rfind_char s (cs ! 0) pos
      else last_loop (piece_lookup cs) s (min pos (length s - 1)))"

definition piece_find_last_not_char :: "string \<Rightarrow> char \<Rightarrow> nat \<Rightarrow> nat" where
  "piece_find_last_not_char s c pos = (if length s = 0 then npos else last_loop (\<lambda>x. x \<noteq> c) s (min pos (length s - 1)))"

definition piece_find_last_not_of :: "string \<Rightarrow> string \<Rightarrow> nat \<Rightarrow> nat" where
  "piece_find_last_not_of s cs pos =
     (if length s = 0 then npos
      else let i = min pos (length s - 1)
        in if length cs = 0 then i
           else if length cs = 1 then piece_find_last_not_char s (cs ! 0) pos
           else last_loop (\<lambda>x. \<not> piece_lookup cs x) s i)"

section \<open>The searches are exact\<close>

definition is_first :: "(nat \<Rightarrow> bool) \<Rightarrow> nat \<Rightarrow> nat \<Rightarrow> nat \<Rightarrow> bool" where
  "is_first Q lo hi r \<longleftrightarrow> (if \<exists>i. lo \<le> i \<and> i < hi \<and> Q i then lo \<le> r \<and> r < hi \<and> Q r \<and> (\<forall>i. lo \<le> i \<and> i < r \<longrightarrow> \<not> Q i) else r = npos)"

definition is_last :: "(nat \<Rightarrow> bool) \<Rightarrow> nat \<Rightarrow> nat \<Rightarrow> bool" where
  "is_last Q hi r \<longleftrightarrow> (if \<exists>i < hi. Q i then r < hi \<and> Q r \<and> (\<forall>i. r < i \<and> i < hi \<longrightarrow> \<not> Q i) else r = npos)"

lemma is_firstI: "lo \<le> r \<Longrightarrow> r < hi \<Longrightarrow> Q r \<Longrightarrow> (\<And>i. lo \<le> i \<Longrightarrow> i < r \<Longrightarrow> \<not> Q i) \<Longrightarrow> is_first Q lo hi r"
  "(\<And>i. lo \<le> i \<Longrightarrow> i < hi \<Longrightarrow> \<not> Q i) \<Longrightarrow> is_first Q lo hi npos"
  by (auto simp: is_first_def)

lemma is_lastI: "r < hi \<Longrightarrow> Q r \<Longrightarrow> (\<And>i. r < i \<Longrightarrow> i < hi \<Longrightarrow> \<not> Q i) \<Longrightarrow> is_last Q hi r"
  "(\<And>i. i < hi \<Longrightarrow> \<not> Q i) \<Longrightarrow> is_last Q hi npos"
  by (auto simp: is_last_def)

lemma is_first_step: "\<not> Q lo \<Longrightarrow> is_first Q (Suc lo) hi r \<Longrightarrow> is_first Q lo hi r"
  unfolding is_first_def by (metis Suc_leD Suc_leI le_neq_implies_less)

lemma is_last_step: "\<not> Q hi \<Longrightarrow> is_last Q hi r \<Longrightarrow> is_last Q (Suc hi) r"
  unfolding is_last_def by (metis less_Suc_eq)

lemma first_loop_exact: "is_first (\<lambda>i. P (s ! i)) pos (length s) (first_loop P s pos)"
proof (induction P s pos rule: first_loop.induct)
  case (1 P s i)
  consider "\<not> i < length s" | "i < length s" "P (s ! i)" | "i < length s" "\<not> P (s ! i)" by blast
  then show ?case
  proof cases
    case 1
    then show ?thesis by (subst first_loop.simps) (auto intro: is_firstI)
  next
    case 2
    then show ?thesis by (subst first_loop.simps) (auto intro: is_firstI)
  next
    case 3
    have "first_loop P s i = first_loop P s (Suc i)" using 3 by (subst first_loop.simps) simp
    moreover have "is_first (\<lambda>i. P (s ! i)) (Suc i) (length s) (first_loop P s (Suc i))" using 1 [OF 3] by simp
    ultimately show ?thesis using is_first_step [of "\<lambda>i. P (s ! i)" i "length s"] 3 by simp
  qed
qed

lemma last_loop_exact: "is_last (\<lambda>i. P (s ! i)) (Suc i) (last_loop P s i)"
proof (induction i)
  case 0
  then show ?case by (auto intro: is_lastI)
next
  case (Suc i)
  then show ?case using is_last_step [of "\<lambda>i. P (s ! i)" "Suc i"] by (auto intro: is_lastI)
qed

lemma piece_find_char_le:
  "pos \<le> length s \<Longrightarrow> piece_find_char s c pos = (if pos + std_find (drop pos s) c \<noteq> length s then pos + std_find (drop pos s) c else npos)"
  by (auto simp: piece_find_char_def std_find_def Let_def)

lemma std_find_loop: "piece_find_char s c pos = first_loop (\<lambda>x. x = c) s pos"
proof (induction "\<lambda>x. x = c" s pos rule: first_loop.induct)
  case (1 s i)
  show ?case
  proof (cases "i < length s")
    case True
    then have d: "drop i s = s ! i # drop (Suc i) s" by (simp add: Cons_nth_drop_Suc)
    have "s ! i \<noteq> c \<Longrightarrow> piece_find_char s c i = piece_find_char s c (Suc i)"
      using True by (simp add: piece_find_char_le d) (simp add: std_find_def)
    moreover have "s ! i = c \<Longrightarrow> piece_find_char s c i = i" using True by (simp add: piece_find_char_le d) (simp add: std_find_def)
    ultimately show ?thesis using 1 True by (subst first_loop.simps) auto
  next
    case False
    then show ?thesis by (subst first_loop.simps) (simp add: piece_find_char_def)
  qed
qed

lemma lookup_table: "length table = 256 \<Longrightarrow> BuildLookupTable wanted table ! of_char c = (c \<in> set wanted \<or> table ! of_char c)"
proof (induction wanted arbitrary: table)
  case (Cons w wanted)
  have "(of_char c :: nat) < 256" "(of_char w :: nat) = of_char c \<longleftrightarrow> w = c" by simp_all
  then show ?case using Cons.IH [of "table[of_char w := True]"] Cons.prems
    by (auto simp: BuildLookupTable_def nth_list_update)
qed (simp add: BuildLookupTable_def)

lemma piece_lookup_iff: "piece_lookup cs = (\<lambda>c. c \<in> set cs)"
proof
  fix c
  have "(of_char c :: nat) < 256" by simp
  then show "piece_lookup cs c = (c \<in> set cs)" using lookup_table [of "replicate 256 False" cs c] by (simp add: piece_lookup_def)
qed

lemma piece_find_first_of_exact:
  assumes "cs \<noteq> []"
  shows "is_first (\<lambda>i. s ! i \<in> set cs) pos (length s) (piece_find_first_of s cs pos)"
proof (cases "s = []")
  case True
  then show ?thesis by (simp add: piece_find_first_of_def is_first_def)
next
  case s: False
  show ?thesis
  proof (cases "length cs = 1")
    case True
    then obtain c where "cs = [c]" by (metis One_nat_def length_0_conv length_Suc_conv)
    then show ?thesis using s first_loop_exact [of "\<lambda>x. x = c" s pos] by (simp add: piece_find_first_of_def std_find_loop)
  next
    case False
    then show ?thesis using s assms first_loop_exact [of "\<lambda>x. x \<in> set cs" s pos] by (simp add: piece_find_first_of_def piece_lookup_iff)
  qed
qed

lemma piece_find_first_not_of_exact:
  assumes "cs \<noteq> []"
  shows "is_first (\<lambda>i. s ! i \<notin> set cs) pos (length s) (piece_find_first_not_of s cs pos)"
proof (cases "s = []")
  case True
  then show ?thesis by (simp add: piece_find_first_not_of_def is_first_def)
next
  case s: False
  show ?thesis
  proof (cases "length cs = 1")
    case True
    then obtain c where "cs = [c]" by (metis One_nat_def length_0_conv length_Suc_conv)
    then show ?thesis using s first_loop_exact [of "\<lambda>x. x \<noteq> c" s pos]
      by (simp add: piece_find_first_not_of_def piece_find_first_not_char_def)
  next
    case False
    then show ?thesis using s assms first_loop_exact [of "\<lambda>x. x \<notin> set cs" s pos] by (simp add: piece_find_first_not_of_def piece_lookup_iff)
  qed
qed

lemma last_loop_from:
  "s \<noteq> [] \<Longrightarrow> is_last (\<lambda>i. P (s ! i)) (min (Suc pos) (length s)) (last_loop P s (min pos (length s - 1)))"
  using last_loop_exact [of P s "min pos (length s - 1)"] by (cases s) (simp_all add: min_def split: if_splits)

lemma piece_find_last_of_exact:
  assumes "cs \<noteq> []"
  shows "is_last (\<lambda>i. s ! i \<in> set cs) (min (Suc pos) (length s)) (piece_find_last_of s cs pos)"
proof (cases "s = []")
  case True
  then show ?thesis by (simp add: piece_find_last_of_def is_last_def)
next
  case s: False
  show ?thesis
  proof (cases "length cs = 1")
    case True
    then obtain c where "cs = [c]" by (metis One_nat_def length_0_conv length_Suc_conv)
    then show ?thesis using s last_loop_from [of s "\<lambda>x. x = c" pos] by (simp add: piece_find_last_of_def piece_rfind_char_def)
  next
    case False
    then show ?thesis using s assms last_loop_from [of s "\<lambda>x. x \<in> set cs" pos] by (simp add: piece_find_last_of_def piece_lookup_iff)
  qed
qed

lemma piece_find_last_not_of_exact:
  "is_last (\<lambda>i. s ! i \<notin> set cs) (min (Suc pos) (length s)) (piece_find_last_not_of s cs pos)"
proof (cases "s = []")
  case True
  then show ?thesis by (simp add: piece_find_last_not_of_def is_last_def)
next
  case s: False
  consider "cs = []" | c where "cs = [c]" | "cs \<noteq> []" "length cs \<noteq> 1" by (cases cs; cases "tl cs") auto
  then show ?thesis
  proof cases
    case 1
    then show ?thesis using s last_loop_from [of s "\<lambda>x. True" pos]
      by (cases "min pos (length s - 1)") (simp_all add: piece_find_last_not_of_def Let_def)
  next
    case (2 c)
    then show ?thesis using s last_loop_from [of s "\<lambda>x. x \<noteq> c" pos]
      by (simp add: piece_find_last_not_of_def piece_find_last_not_char_def Let_def)
  next
    case 3
    then show ?thesis using s last_loop_from [of s "\<lambda>x. x \<notin> set cs" pos] by (simp add: piece_find_last_not_of_def piece_lookup_iff Let_def)
  qed
qed

lemma std_search_cases:
  assumes "length hay < npos"
  obtains "occurs hay pat (std_search hay pat)" "\<And>j. j < std_search hay pat \<Longrightarrow> \<not> occurs hay pat j"
  | "std_search hay pat = length hay" "\<And>j. \<not> occurs hay pat j"
  using find_at_spec [of 0 hay, OF _ refl, of pat] assms that by (auto simp: std_search_def)

lemma piece_find_exact:
  assumes "length s < npos"
  shows "is_first (occurs s pat) pos (length s + 1) (piece_find s pat pos)"
proof (cases "length s < pos")
  case True
  then show ?thesis by (auto simp: piece_find_def is_first_def)
next
  case False
  then have pos: "pos \<le> length s" by simp
  have "length (drop pos s) < npos" using assms by simp
  then show ?thesis
  proof (cases rule: std_search_cases [of _ pat])
    case 1
    let ?k = "pos + std_search (drop pos s) pat"
    have o: "occurs s pat ?k" using 1(1) occurs_drop [OF pos] by simp
    then have f: "piece_find s pat pos = ?k" using False occurs_bound [OF o] by (simp add: piece_find_def)
    have "\<not> occurs s pat i" if "pos \<le> i" "i < ?k" for i using 1(2) [of "i - pos"] occurs_drop [OF pos, of pat "i - pos"] that by auto
    then show ?thesis unfolding f using o occurs_bound [OF o] by (intro is_firstI) auto
  next
    case 2
    have no: "\<not> occurs s pat i" if "pos \<le> i" for i using 2(2) [of "i - pos"] occurs_drop [OF pos, of pat "i - pos"] that by auto
    have "pat \<noteq> []"
    proof
      assume "pat = []"
      then have "occurs s pat pos" using pos by (simp add: occurs_def)
      then show False using no by blast
    qed
    then have "piece_find s pat pos = npos" using 2(1) pos by (simp add: piece_find_def Let_def)
    then show ?thesis using no by (auto intro: is_firstI)
  qed
qed

lemma find_end_from_cases:
  "occurs hay pat (find_end_from hay pat k) \<and> find_end_from hay pat k \<le> k \<and> (\<forall>j. find_end_from hay pat k < j \<and> j \<le> k \<longrightarrow> \<not> occurs hay pat j)
   \<or> find_end_from hay pat k = length hay \<and> (\<forall>j \<le> k. \<not> occurs hay pat j)"
  by (induction k) (auto simp: le_Suc_eq)

lemma occurs_take: "occurs (take e s) pat j \<longleftrightarrow> occurs s pat j \<and> j + length pat \<le> e"
  by (auto simp: occurs_def take_drop min_def)

lemma piece_rfind_exact:
  assumes "pat \<noteq> []"
  shows "is_last (occurs s pat) (Suc pos) (piece_rfind s pat pos)"
proof (cases "length s < length pat")
  case True
  then show ?thesis by (auto simp: piece_rfind_def occurs_def is_last_def)
next
  case False
  let ?m = "min (length s - length pat) pos"
  let ?e = "?m + length pat"
  have e: "length (take ?e s) = ?e" using False by auto
  have inside: "occurs s pat j \<Longrightarrow> j < Suc pos \<Longrightarrow> occurs (take ?e s) pat j" for j using occurs_bound [of s pat j] by (auto simp: occurs_take)
  have bound: "occurs (take ?e s) pat j \<Longrightarrow> j \<le> ?m" for j by (simp add: occurs_take)
  from find_end_from_cases [of "take ?e s" pat "length (take ?e s)"]
  show ?thesis
  proof
    assume f: "occurs (take ?e s) pat (find_end_from (take ?e s) pat (length (take ?e s))) \<and> find_end_from (take ?e s) pat (length (take ?e s)) \<le> length (take ?e s)
      \<and> (\<forall>j. find_end_from (take ?e s) pat (length (take ?e s)) < j \<and> j \<le> length (take ?e s) \<longrightarrow> \<not> occurs (take ?e s) pat j)"
    let ?r = "std_find_end (take ?e s) pat"
    have r: "?r = find_end_from (take ?e s) pat (length (take ?e s))" by (simp add: std_find_end_def)
    have o: "occurs (take ?e s) pat ?r" using f unfolding r by blast
    have "0 < length pat" using assms by simp
    then have "?r \<noteq> ?e" using bound [OF o] by linarith
    then have p: "piece_rfind s pat pos = ?r" using False assms by (simp add: piece_rfind_def Let_def)
    have "\<not> occurs s pat i" if "?r < i" "i < Suc pos" for i
    proof
      assume "occurs s pat i"
      then have oi: "occurs (take ?e s) pat i" using inside that by blast
      then have "i \<le> length (take ?e s)" using bound [OF oi] e by linarith
      then show False using f oi that(1) unfolding r by blast
    qed
    moreover have "?r < Suc pos" "occurs s pat ?r" using bound [OF o] o by (auto simp: occurs_take)
    ultimately show ?thesis unfolding p by (intro is_lastI)
  next
    assume f: "find_end_from (take ?e s) pat (length (take ?e s)) = length (take ?e s) \<and> (\<forall>j \<le> length (take ?e s). \<not> occurs (take ?e s) pat j)"
    then have "piece_rfind s pat pos = npos" using False assms e unfolding piece_rfind_def std_find_end_def Let_def by simp
    moreover have "\<not> occurs s pat i" if "i < Suc pos" for i
    proof
      assume "occurs s pat i"
      then have oi: "occurs (take ?e s) pat i" using inside that by blast
      then have "i \<le> length (take ?e s)" using bound [OF oi] e by linarith
      then show False using f oi by blast
    qed
    ultimately show ?thesis by (auto intro: is_lastI)
  qed
qed

section \<open>Comparisons\<close>

lemma memcmp_range: "memcmp x y n \<in> {- 1, 0, 1}"
  by (induction x y n rule: memcmp.induct) auto

lemma memcmp_0: "n \<le> length x \<Longrightarrow> n \<le> length y \<Longrightarrow> memcmp x y n = 0 \<longleftrightarrow> take n x = take n y"
proof (induction x y n rule: memcmp.induct)
  case (1 x xs y ys n)
  have "\<not> (of_char x :: nat) < of_char y \<and> \<not> (of_char y :: nat) < of_char x \<longleftrightarrow> x = y"
  proof -
    have "x = y \<longleftrightarrow> (of_char x :: nat) = of_char y" by simp
    then show ?thesis by (simp only: not_less) linarith
  qed
  then show ?case using 1 by auto
qed auto

lemma piece_less_iff: "piece_less x y \<longleftrightarrow> x < y"
proof (induction x arbitrary: y)
  case Nil
  then show ?case by (cases y) (simp_all add: piece_less_def)
next
  case (Cons a x)
  show ?case
  proof (cases y)
    case Nil
    then show ?thesis by (simp add: piece_less_def)
  next
    case y: (Cons b y')
    have "a < b \<longleftrightarrow> (of_char a :: nat) < of_char b" "b < a \<longleftrightarrow> (of_char b :: nat) < of_char a" by (simp_all add: less_char_def)
    then show ?thesis using Cons [of y'] y
      by (auto simp: piece_less_def Let_def)
  qed
qed

lemma piece_eq_iff: "piece_eq x y \<longleftrightarrow> x = y"
  by (auto simp: piece_eq_def memcmp_0)

lemma piece_compare_sign: "piece_compare x y = (if x < y then - 1 else if x = y then 0 else 1)"
proof -
  have "piece_compare x y < 0 \<longleftrightarrow> piece_less x y" "piece_compare x y = 0 \<longleftrightarrow> piece_eq x y"
    using memcmp_range [of x y "min (length x) (length y)"] by (auto simp: piece_compare_def piece_less_def piece_eq_def Let_def)
  moreover have "piece_compare x y \<in> {- 1, 0, 1}" using memcmp_range [of x y] by (auto simp: piece_compare_def Let_def)
  ultimately show ?thesis by (auto simp: piece_less_iff piece_eq_iff)
qed

lemma piece_ends: "piece_starts_with s x \<longleftrightarrow> (\<exists>r. s = x @ r)" "piece_ends_with s x \<longleftrightarrow> (\<exists>r. s = r @ x)"
proof -
  show "piece_starts_with s x \<longleftrightarrow> (\<exists>r. s = x @ r)"
    by (auto simp: piece_starts_with_def memcmp_0) (metis append_take_drop_id)
  show "piece_ends_with s x \<longleftrightarrow> (\<exists>r. s = r @ x)"
    by (auto simp: piece_ends_with_def memcmp_0) (metis append_take_drop_id)
qed

text \<open>
  A piece is searched like a string: forwards and backwards, for a text, for a character of a set and for one outside it, the
  result is the first position from the start, or the last one up to the start, where what is searched stands, and \<open>npos\<close> if there
  is none. The set must not be empty in the searches forwards.
\<close>

theorem piece_searches_exact:
  assumes "length s < npos" "pat \<noteq> []" "cs \<noteq> []"
  shows "is_first (occurs s pat) pos (length s + 1) (piece_find s pat pos)
    \<and> is_last (occurs s pat) (Suc pos) (piece_rfind s pat pos)
    \<and> is_first (\<lambda>i. s ! i \<in> set cs) pos (length s) (piece_find_first_of s cs pos)
    \<and> is_first (\<lambda>i. s ! i \<notin> set cs) pos (length s) (piece_find_first_not_of s cs pos)
    \<and> is_last (\<lambda>i. s ! i \<in> set cs) (min (Suc pos) (length s)) (piece_find_last_of s cs pos)
    \<and> is_last (\<lambda>i. s ! i \<notin> set cs) (min (Suc pos) (length s)) (piece_find_last_not_of s cs pos)"
  using piece_find_exact [OF assms(1)] piece_rfind_exact [OF assms(2)] piece_find_first_of_exact [OF assms(3)]
    piece_find_first_not_of_exact [OF assms(3)] piece_find_last_of_exact [OF assms(3)] piece_find_last_not_of_exact by blast

theorem piece_searches_exact_witness:
  "is_last (occurs ''abab'' ''ab'') (Suc 3) (piece_rfind ''abab'' ''ab'' 3) \<and> is_first (\<lambda>i. ''abab'' ! i \<in> set ''xb'') 0 (length ''abab'') (piece_find_first_of ''abab'' ''xb'' 0)"
  using piece_searches_exact [of "''abab''" "''ab''" "''xb''" 3] piece_searches_exact [of "''abab''" "''ab''" "''xb''" 0] by (simp add: npos_def)

text \<open>
  Pieces are ordered like strings of unsigned characters: \<open>compare\<close> has the sign of the lexicographic order, which is also that
  of the operators, and the tests for equality, beginnings and ends are what they say.
\<close>

theorem piece_order_exact:
  "piece_compare x y = (if x < y then - 1 else if x = y then 0 else 1) \<and> (piece_less x y \<longleftrightarrow> x < y) \<and> (piece_le x y \<longleftrightarrow> x \<le> y)
   \<and> (piece_eq x y \<longleftrightarrow> x = y) \<and> (piece_starts_with x y \<longleftrightarrow> (\<exists>r. x = y @ r)) \<and> (piece_ends_with x y \<longleftrightarrow> (\<exists>r. x = r @ y))"
  by (auto simp: piece_compare_sign piece_less_iff piece_le_def piece_eq_iff piece_ends not_less)

text \<open>Searching forwards for a character outside the empty set returns 0 whatever the start is; a string returns the start.\<close>

lemma empty_set_ignores_start: "piece_find_first_not_of ''abc'' [] 2 = 0" "first_loop (\<lambda>x. x \<notin> set []) ''abc'' 2 = 2"
  by (simp_all add: piece_find_first_not_of_def first_loop.simps)

text \<open>A copy from behind the end computes a huge length and reads whatever follows.\<close>

lemma copy_behind_end: "piece_copy ''ab'' 1 3 = None"
  by (simp add: piece_copy_def szsub_def)

end
