(* ===== verification/Spec2Isabelle.thy ===== *)
theory Spec2Isabelle
  imports Sixty Murmur Concurrent StoreLoad Frame Multipart BundleAction ChunkProto PickleIO NumberConv HashCache Continuum
    Md5 Crc StringSplit Url ThreadPool StringTokenizer StringPiece
begin

text \<open>
  The bundle store of renren/bundle packs many small files into few large ones and gives every file a URL
  that holds its address. This development models the store, the file-system and locking routines below it,
  the FastCGI web framework above it and the client of the MooseFS network file system that the store can be
  kept on, and shows that a file that was accepted is read back unchanged.

  \<^bold>\<open>Parts of the program and their theories.\<close> (Paths are relative to \<open>src/src\<close>.)

  \<^item> \<open>Prelude\<close>: shared lemmas and the fixed-width arithmetic of C (\<open>wrap32\<close>, \<open>wrap64\<close>, \<open>to_u32\<close>; \<open>size_t\<close> sums
    and differences \<open>szadd\<close>, \<open>szsub\<close> modulo \<open>2^64\<close>). \<open>CString\<close>: \<open>std::string\<close> searches with \<open>npos\<close>, splitting,
    number printing and reading. \<open>StdMap\<close>: \<open>std::map\<close> as an ordered association list, with the interface
    \<open>ordered_map\<close>.
  \<^item> \<open>Sixty\<close> (\<open>bundle/sixty.h\<close>) and \<open>Murmur\<close> (\<open>bundle/murmurhash2.cc\<close>): base-60 numbers and all variants of the hash.
  \<^item> \<open>OS\<close>: the system calls the store makes, over a state with files, directories, \<open>errno\<close>, free room and a
    fault table that can make any call fail; the contents of fresh memory are part of the state.
  \<^item> \<open>PathOps\<close> and \<open>Mkdirs\<close> (\<open>base3/pathops.cc\<close>, \<open>base3/mkdirs.cc\<close>), \<open>FileLock\<close> (\<open>bundle/filelock.h\<close>).
  \<^item> \<open>BundleUrl\<close> (the URL schemes, settings and file names of \<open>bundle/bundle.cc\<close> and \<open>bundle.h\<close>, with the interface
    \<open>url_scheme\<close>), \<open>BundleStore\<close> (reader and writer, definitions), \<open>BundleIO\<close> (blocks on disk), \<open>BundleAlloc\<close> and
    \<open>AllocLoop\<close> (\<open>Writer::Allocate\<close>), \<open>StoreLoad\<close> (the life of one file), \<open>Concurrent\<close> (several processes as
    an inductive step relation: a process inside \<open>Writer::Allocate\<close> stands at one of its system calls, \<open>turn\<close> makes the next
    one, and eleven turns without another process are \<open>allocate_step\<close>).
  \<^item> \<open>StringEncode\<close> (\<open>base3/stringencode.cc\<close>): escaping, URL, XML, HTML and hexadecimal coding, UTF-8.
  \<^item> \<open>Http\<close>, \<open>Cookie\<close>, \<open>Stream\<close>, \<open>Frame\<close> (\<open>cwf/http.cc\<close>, \<open>cookie.h\<close>, \<open>stream.cc\<close>, \<open>frame.cc\<close>, \<open>action.cc\<close>): the web
    framework. \<open>Fcgi\<close> models the calls it makes on FastCGI streams (\<open>3rdparty/libfcgi/fcgiapp.c\<close>); \<open>RequestParse\<close>
    and \<open>Multipart\<close> hold the proofs about parsing.
  \<^item> \<open>BundleAction\<close> (\<open>bundle/bundleaction.cc\<close>, \<open>bundlewrite.cc\<close>): the web front end of the store. Its world is the
    file system together with the process state of the allocator.
  \<^item> \<open>DataPack\<close> (\<open>moosefs/datapack.h\<close>), \<open>Net\<close> (the socket calls, with the servers as a parameter), \<open>Moose\<close> and
    \<open>MooseFile\<close> (\<open>mooseclient/moose.cc\<close>: the operations on the metadata server, on chunk servers and on files) and
    \<open>MooseC\<close> (\<open>mooseclient/moose_c.cc\<close>, \<open>sockutil.cc\<close>): the MooseFS client. \<open>MasterProto\<close> and \<open>MasterOps\<close> hold the
    proofs about the protocol with the master, \<open>ChunkProto\<close> those about chunk servers. \<open>Crc\<close> (\<open>moosefs/crc.c\<close>): its checksum.
  \<^item> The library \<open>base3\<close>: \<open>Pickle\<close> and \<open>PickleIO\<close> (\<open>pickle.cc\<close>, serialisation, definitions and proofs), \<open>NumberConv\<close>
    (\<open>string_number_conversions.cc\<close>), \<open>HashCache\<close> (\<open>cache.h\<close>), \<open>Continuum\<close> (\<open>consistenthash.h\<close>), \<open>Md5\<close> (\<open>md5.cc\<close>),
    \<open>StringSplit\<close> (\<open>string_util.cc\<close>, \<open>string_split.cc\<close>), \<open>StringPiece\<close> (\<open>string_piece.cc\<close>), \<open>StringTokenizer\<close>
    (\<open>string_tokenizer.h\<close>), \<open>Url\<close> (\<open>url.cc\<close>, \<open>charmask.h\<close>), \<open>MessageQueue\<close> (\<open>messagequeue.h\<close>: threads as steps, with
    reachable states and invariants) and \<open>ThreadPool\<close> (\<open>threadpool.cc\<close>);
    \<open>LittleEndian\<close> has the numbers in memory they share.

  \<^bold>\<open>How code is rendered.\<close> Classes are records, enumerations datatypes. Stateful functions take and return the
  state. A result is \<open>Ret\<close> with the value, \<open>Throw\<close> for an exception, or \<open>Undefined\<close> where the C++ program has no
  defined behaviour. An assertion that stops the process in a build without \<open>NDEBUG\<close> (\<open>ASSERT\<close> of \<open>moose.cc\<close>, \<open>DCHECK\<close> of
  \<open>base3\<close>) is \<open>None\<close> when it fails; the \<open>ASSERT\<close> that \<open>cwf\<close> uses (\<open>base3/common.cc\<close>) only logs on Linux and is left out. Loops are structural or have termination proofs; the loop of \<open>Allocate\<close> and the parsing
  loops, whose end depends on the disk or on positions that could wrap around, are partial functions with result
  \<open>None\<close> for not returning, and theorems show when they return. No fuel is used. \<open>int\<close>, \<open>size_t\<close> and \<open>int64_t\<close>
  keep their widths; the bound \<open>2^63\<close> on sizes in some theorems says that the data fits in memory.

  \<^bold>\<open>What is shown.\<close> Of the store: the round trip through allocation, writing, release and reading, alone
  and with several processes, with exclusion by lock files, preservation of every other stored block and of the
  layout of bundle files, soundness of what a reader accepts, progress and its limits. Of URLs: round trips and the
  integrity check. Of the web framework: requests are parsed completely whatever the cuts of the connection,
  multipart forms, queries, cookies and header attributes are read back as written, the first registered
  action that matches is run, and an uploaded file is served again. Of the coders: round trips, that they stay inside
  their buffers, and the one that does not. Of the MooseFS client: requests and answers survive any cut of the
  connection into segments, path lookup is a walk through the tree of the master, statuses and results reach the
  caller, and a block read returns data exactly when the chunk server delivered it. Of the library: serialised values are read back
  as written and no block of bytes makes a reader leave it, texts are numbers exactly when the readers say so, the cache is a
  least-recently-used list, a server taken from the ring moves only the keys it had, the digest is that of RFC 1321 whatever the
  pieces, splitting, searching and tokenizing are exact, escaped components come back and a printed URL is a normal form of its parser, a
  message is run exactly once however the threads interleave, workers take turns, and the table-driven checksum is the one computed bit by bit, also when it is combined from parts. Error branches have theorems of their own; several of them record
  behaviour that the code does not intend.

  \<^bold>\<open>Interfaces.\<close> Locales state what a client relies on: lock files, append-only storage, the URL scheme of
  reader and writer, ordered maps, enumerations with names, output emitters, codecs and packed fields; each is interpreted on the definitions of the model.

  \<^bold>\<open>Not modelled.\<close> The preload library and command line of \<open>mooseclient\<close>; process start-up, sockets and threads of \<open>cwf\<close>; logging, timing and statistics; the python
  binding; Windows branches; vendored libraries; the rest of \<open>base3\<close> (timers, processes, command lines, conversions of doubles). The clock, the process id, \<open>mktime\<close>, \<open>inet_pton\<close>, \<open>boost::lexical_cast\<close>, \<open>boost::crc_32_type\<close> and
  the random generator are parameters or part of the state.
\<close>

section \<open>Storing and loading a file\<close>

text \<open>
  C2: the life of a stored file. Under the conditions below, when \<open>Allocate\<close> returns a writer for a file of the given size,
  \<open>Write\<close> stores it, \<open>Release\<close> removes the lock file, and \<open>Reader::Read\<close> of the writer's URL, in the world
  that \<open>Release\<close> leaves, returns 0 and exactly the bytes that were written. The conditions: the default (encoded) URL scheme; no
  system call is refused and the disk is not full; no lock file or directory stands where a bundle file belongs (\<open>apart\<close>,
  \<open>is_dir\<close>) and the directory tree is well formed; the bundles that exist have lengths that are multiples of 1024; the
  file fits a block; and the address can be encoded (\<open>encode_ok\<close>: numbers in range, a prefix without zero bytes that is not empty,
  a postfix of a dot and characters other than dot, slash and zero, and a hash other than the reserved \<open>0xffffffff\<close>).
  The last one cannot be dropped: a file with that hash is stored under a URL that cannot be read
  (\<open>encoded_url_unreadable\<close>).
\<close>

theorem store_then_load:
  assumes alloc: "Allocate g pid now pre post (length buf) storage ld None p s = Some (Some w, p', s1)"
    and scheme: "url_build g = BuildWithEncode" "url_extract g = ExtractWithEncode"
    and ap: "apart g (request_of now pre post (length buf) storage ld None)"
    and calm: "\<And>c q. faults s c q = None" "\<And>q. room s q = None"
    and nodir: "\<And>bid. \<not> is_dir s (bundle_of g (request_of now pre post (length buf) storage ld None) bid)"
      "fs_wf s"
    and aligned: "\<And>bid c. files s (bundle_of g (request_of now pre post (length buf) storage ld None) bid) = Some c
       \<Longrightarrow> 1024 dvd length c \<and> length c < 2 ^ 63"
    and fit: "fits buf" and ok: "encode_ok (w_info w)"
  shows "\<exists>s2 d. Writer_Write w buf ud s1 = Ret ((0, length buf), s2) \<and> user_part ud d
    \<and> \<not> is_file (snd (Release w s2)) (resolve (lock_path (request_of now pre post (length buf) storage ld None) (last_id p')))
    \<and> Reader_Read g (EnsureUrl w) storage None (snd (Release w s2)) = Ret ((0, buf, d), snd (Release w s2))"
  using assms by (rule store_load)

theorem store_then_load_witness:
  "\<exists>w p' s1 s2 d.
     Allocate g_default_setting 1 ''now'' ''/p'' ''.jpg'' (length ''hello'') ''b'' None None proc3 busy_os = Some (Some w, p', s1)
     \<and> Writer_Write w ''hello'' None s1 = Ret ((0, length ''hello''), s2)
     \<and> Reader_Read g_default_setting (EnsureUrl w) ''b'' None (snd (Release w s2)) = Ret ((0, ''hello'', d), snd (Release w s2))"
proof -
  have h: "length ''hello'' = 5" by simp
  obtain w p' s1 where a: "Allocate g_default_setting 1 ''now'' ''/p'' ''.jpg'' (length ''hello'') ''b'' None None proc3 busy_os
      = Some (Some w, p', s1)" using busy_allocates unfolding h by blast
  note id = busy_runs [OF a [unfolded h]]
  have ap: "apart g_default_setting (request_of ''now'' ''/p'' ''.jpg'' (length ''hello'') ''b'' None None)"
    using sample_apart unfolding sample_rq_def h .
  have nodir: "\<not> is_dir busy_os (bundle_of g_default_setting (request_of ''now'' ''/p'' ''.jpg'' (length ''hello'') ''b'' None None) bid)" for bid
    using busy_quiet(1) unfolding sample_rq_def h .
  have none: "files busy_os (bundle_of g_default_setting (request_of ''now'' ''/p'' ''.jpg'' (length ''hello'') ''b'' None None) bid) = None" for bid
    using sample_bundle_of [of bid] unfolding sample_rq_def h by (simp add: busy_os_def)
  have wf: "fs_wf busy_os" by (auto simp: fs_wf_def busy_os_def is_file_def is_dir_def parent_def)
  obtain s0 where k: "kept (is_lock sample_rq) busy_os s0" and al: "allocated g_default_setting sample_rq 4 s0 w s1"
    using allocate_loop_Some [OF a [unfolded Allocate_loop h, folded sample_rq_def] sample_apart busy_quiet] id by auto
  have nl: "\<not> is_lock sample_rq (bundle_of g_default_setting sample_rq 4)"
    by (auto simp: is_lock_def sample_lock_path sample_bundle_of)
  have "files s0 (bundle_of g_default_setting sample_rq 4) = None"
    using keptD(1) [OF k nl] none [of 4] unfolding sample_rq_def h by simp
  then have "w_info w = busy_info"
    using al unfolding allocated_def
    by (auto simp: new_writer_def busy_info_def length_bundle_header kBundleHeaderSize_def sample_rq_parts)
  then have ok: "encode_ok (w_info w)" using busy_encode_ok by simp
  have "\<exists>s2 d. Writer_Write w ''hello'' None s1 = Ret ((0, length ''hello''), s2) \<and> user_part None d
    \<and> \<not> is_file (snd (Release w s2)) (resolve (lock_path (request_of ''now'' ''/p'' ''.jpg'' (length ''hello'') ''b'' None None) (last_id p')))
    \<and> Reader_Read g_default_setting (EnsureUrl w) ''b'' None (snd (Release w s2)) = Ret ((0, ''hello'', d), snd (Release w s2))"
    by (rule store_then_load [OF a sample_scheme(2,1) ap _ _ nodir wf _ fits_hello ok])
      (use none in \<open>simp_all add: busy_os_def\<close>)
  then show ?thesis using a by blast
qed

section \<open>Uploading and downloading over the web\<close>

text \<open>
  C1: from the bytes on the connection to the bytes on the disk and back. Under the conditions below, an upload request with one
  file in a multipart body, however the connection cuts it, is parsed, dispatched to \<open>WriteAction\<close>, stored and answered with
  the file's URL, and every request for that URL that is processed in the resulting world, that is, next after the upload, is
  dispatched to \<open>ReadAction\<close> and answered with exactly the uploaded bytes. (That the bytes stay readable while other
  processes store files is another property, \<open>concurrent_durability\<close>.) The conditions on the request: the boundary
  does not occur in the part, whose name and file name have no semicolon or carriage return (\<open>part_ok\<close>); a POST to a URL with
  the word \<open>bundle\<close>, with a host and the content type of the form. Those on the server: \<open>Allocate\<close> finds a bundle;
  the default (encoded) URL scheme; no system call is refused and the disk is not full; no lock file or directory stands where a bundle
  belongs and the bundles that exist have lengths that are multiples of 1024. Those on the file: it fits a block; its address can be
  encoded, which excludes the reserved hash \<open>0xffffffff\<close> (\<open>encode_ok\<close>); and its URL does not contain the word
  that the upload action matches.
\<close>

theorem upload_then_get:
  fixes sv :: server and fd :: FormDisposition and w :: world
  defines "rq \<equiv> request_of (sv_now sv) (tm_buf (CHR ''p'') sv) ''.jpg'' (length (fd_data fd)) the_storage None None"
  assumes st: "stream_ok st" "pending st = show_parts (''--'' @ b) [fd]"
    and part: "part_ok (''--'' @ b) fd" "fd_filename fd \<noteq> []" "length (show_parts (''--'' @ b) [fd]) + length b < 2 ^ 63"
    and env: "fold env_entry envp Request0 = r0" "req_method r0 = HV_POST" "str_find (req_url r0) ''bundle'' 0 \<noteq> npos"
      "header_of r0 ''HOST'' \<noteq> []" "header_of r0 ''CONTENT_TYPE'' = ''multipart/form-data; boundary='' @ b"
    and alloc: "Allocate (sv_setting sv) (sv_pid sv) (sv_now sv) (tm_buf (CHR ''p'') sv) ''.jpg'' (length (fd_data fd)) the_storage
      None None (wd_proc w) (wd_os w) = Some (Some aw, p', s1)"
    and scheme: "url_build (sv_setting sv) = BuildWithEncode" "url_extract (sv_setting sv) = ExtractWithEncode"
    and disk: "apart (sv_setting sv) rq" "\<And>c q. faults (wd_os w) c q = None" "\<And>q. room (wd_os w) q = None"
      "\<And>bid. \<not> is_dir (wd_os w) (bundle_of (sv_setting sv) rq bid)" "fs_wf (wd_os w)"
      "\<And>bid c. files (wd_os w) (bundle_of (sv_setting sv) rq bid) = Some c \<Longrightarrow> 1024 dvd length c \<and> length c < 2 ^ 63"
    and ok: "fits (fd_data fd)" "encode_ok (w_info aw)" "str_find (''/'' @ EnsureUrl aw) ''bundle'' 0 = npos"
      "length (EnsureUrl aw) < npos"
  shows "\<exists>q st' p w'. Request_Init st envp Request0 = Some (True, q, st')
    \<and> FrameWork_Process (bundle_host sv) q (Response_new hc out) w = Done HC_OK p w'
    \<and> res_out p = out @ upload_header @ EnsureUrl aw @ LF
    \<and> (\<forall>q' hc' out'. req_url q' = ''/'' @ EnsureUrl aw \<longrightarrow>
        (\<exists>p'. FrameWork_Process (bundle_host sv) q' (Response_new hc' out') w' = Done HC_OK p' w'
          \<and> res_out p' = out' @ image_header (length (fd_data fd)) @ fd_data fd))"
proof -
  have "req_url r0 \<noteq> []" using env(3) by (auto simp: str_find_def)
  then obtain q st' where init: "Request_Init st envp Request0 = Some (True, q, st')"
    and q: "req_method q = HV_POST" "req_url q = req_url r0" "req_file_array q = [fd]"
    using Init_upload [OF st _ part(3) env(1,2) _ env(4,5)] part(1,2) by auto
  obtain s2 d where wr: "Writer_Write aw (fd_data fd) None s1 = Ret ((0, length (fd_data fd)), s2)"
    and rd: "Reader_Read (sv_setting sv) (EnsureUrl aw) the_storage None (snd (Release aw s2)) = Ret ((0, fd_data fd, d), snd (Release aw s2))"
    using store_load [OF alloc scheme disk(1-5) [unfolded rq_def] _ ok(1,2), where ud = None] disk(6) [unfolded rq_def] by blast
  let ?w = "\<lparr>wd_os = snd (Release aw s2), wd_proc = p'\<rparr>"
  obtain p where up: "FrameWork_Process (bundle_host sv) q (Response_new hc out) w = Done HC_OK p ?w"
    "res_out p = out @ upload_header @ EnsureUrl aw @ LF"
    using upload_one [OF _ q(1,3) alloc wr] env(3) q(2) by auto
  have "starts_with (EnsureUrl aw) ''p/''"
    using allocated_writer [OF alloc disk(1,2,4) [unfolded rq_def]] scheme(1)
    by (simp add: EnsureUrl_def BuildWithEncode_def request_of_def tm_buf_def starts_with_def Let_def)
  then have "\<exists>p'. FrameWork_Process (bundle_host sv) q' (Response_new hc' out') ?w = Done HC_OK p' ?w
      \<and> res_out p' = out' @ image_header (length (fd_data fd)) @ fd_data fd" if "req_url q' = ''/'' @ EnsureUrl aw" for q' hc' out'
    using download_one [OF that ok(3) _ ok(4), of sv ?w "fd_data fd" d] rd by simp
  then show ?thesis using init up by blast
qed

theorem upload_then_get_witness:
  "\<exists>aw q st' p w'. Request_Init web_stream web_env Request0 = Some (True, q, st')
    \<and> FrameWork_Process (bundle_host sample_server) q (Response_new HC_OK []) web_world = Done HC_OK p w'
    \<and> res_out p = [] @ upload_header @ EnsureUrl aw @ LF
    \<and> (\<forall>q' hc' out'. req_url q' = ''/'' @ EnsureUrl aw \<longrightarrow>
        (\<exists>p'. FrameWork_Process (bundle_host sample_server) q' (Response_new hc' out') w' = Done HC_OK p' w'
          \<and> res_out p' = out' @ image_header (length (fd_data web_part)) @ fd_data web_part))"
proof -
  note simps = sample_server_def web_world_def the_storage_def web_part_def
  have h: "length ''hello'' = 5" by simp
  have rq: "request_of (sv_now sample_server) (tm_buf (CHR ''p'') sample_server) ''.jpg'' (length (fd_data web_part)) the_storage None None
      = web_rq" unfolding web_tm_buf web_rq_def by (simp add: simps numeral_eq_Suc)
  obtain aw p' s' where run: "Allocate g_default_setting 1 ''now'' ''p/20120512'' ''.jpg'' 5 ''test'' None None proc3 web_os
      = Some (Some aw, p', s')" and info: "w_info aw = web_info"
    using web_allocates unfolding web_info_def by blast
  then have a: "Allocate (sv_setting sample_server) (sv_pid sample_server) (sv_now sample_server) (tm_buf (CHR ''p'') sample_server)
      ''.jpg'' (length (fd_data web_part)) the_storage None None (wd_proc web_world) (wd_os web_world) = Some (Some aw, p', s')"
    unfolding web_tm_buf by (simp add: simps numeral_eq_Suc)
  have set: "sv_setting sample_server = g_default_setting" "wd_os web_world = web_os" by (simp_all add: simps)
  have nd: "\<not> is_dir web_os (bundle_of g_default_setting web_rq bid)" for bid
    using web_usable by (auto simp: usable_def Let_def)
  have "w_builder aw = Some BuildWithEncode"
    using allocated_writer [OF run web_apart [unfolded web_rq_def] _ nd [unfolded web_rq_def]]
    by (simp add: web_os_def g_default_setting_def)
  then have u: "EnsureUrl aw = BuildWithEncode web_info" by (simp add: EnsureUrl_def info)
  have wf: "fs_wf web_os" by (auto simp: fs_wf_def web_os_def is_file_def is_dir_def parent_def)
  have len: "length (show_parts (''--'' @ ''Q'') [web_part]) < 1000" by code_simp
  have "\<exists>q st' p w'. Request_Init web_stream web_env Request0 = Some (True, q, st')
    \<and> FrameWork_Process (bundle_host sample_server) q (Response_new HC_OK []) web_world = Done HC_OK p w'
    \<and> res_out p = [] @ upload_header @ EnsureUrl aw @ LF
    \<and> (\<forall>q' hc' out'. req_url q' = ''/'' @ EnsureUrl aw \<longrightarrow>
        (\<exists>p'. FrameWork_Process (bundle_host sample_server) q' (Response_new hc' out') w' = Done HC_OK p' w'
          \<and> res_out p' = out' @ image_header (length (fd_data web_part)) @ fd_data web_part))"
  proof (rule upload_then_get [OF _ _ _ _ _ web_env_request _ _ _ _ a, where b = "''Q''", unfolded rq set])
    show "part_ok (''--'' @ ''Q'') web_part" by code_simp
    show "length (show_parts (''--'' @ ''Q'') [web_part]) + length ''Q'' < 2 ^ 63" using len by simp
    show "apart g_default_setting web_rq" by (rule web_apart)
    show "\<not> is_dir web_os (bundle_of g_default_setting web_rq bid)" for bid by (rule nd)
    show "fs_wf web_os" by (rule wf)
    show "files web_os (bundle_of g_default_setting web_rq bid) = Some c \<Longrightarrow> 1024 dvd length c \<and> length c < 2 ^ 63" for bid c
      by (simp add: web_os_def)
    show "fits (fd_data web_part)" by (simp add: web_part_def fits_hello)
    show "str_find (''/'' @ EnsureUrl aw) ''bundle'' 0 = npos" "length (EnsureUrl aw) < npos"
      unfolding u by (rule web_url)+
  qed (simp_all add: web_stream_def stream_ok_def pending_def web_part_def str_find_def starts_with_def npos_def
      header_of_def Request0_def map_find_def g_default_setting_def web_os_def info web_encode_ok)
  then show ?thesis by blast
qed

end
